(* ===== verification/Sqlite_Prelude.thy ===== *)
theory Sqlite_Prelude
  imports Main "HOL-Library.Word" "HOL-Library.Monad_Syntax"
begin

unbundle bit_operations_syntax

text \<open>
  Shared vocabulary of the development: the machine integer types of sqliteInt.h, the
  result codes of sqlite3.h, checked access to byte buffers, and the generic lemmas on bits,
  words and lists that the component theories rely on.

  Conventions used by every component:
  \<^item> an \<open>unsigned char*\<close> buffer is a \<open>u8 list\<close>; reading or writing outside it is
    undefined behaviour in C and is the value \<open>None\<close> here (\<open>rd\<close>, \<open>wr\<close>, \<open>rdn\<close>,
    \<open>blit\<close>), so a theorem that ends in \<open>Some\<close> also proves that no access was out of bounds;
  \<^item> an integer whose width matters is a \<open>word\<close>; sizes and offsets that the code keeps
    far below the width are \<open>nat\<close> or \<open>int\<close>;
  \<^item> memory allocation can fail: an operation that calls malloc takes the outcome of
    each attempt from an oracle \<open>nat \<Rightarrow> bool\<close> indexed by the number of attempts made so far.
\<close>

section \<open>Machine integers\<close>

type_synonym u8 = "8 word"
type_synonym u16 = "16 word"
type_synonym u32 = "32 word"
type_synonym u64 = "64 word"
type_synonym i64 = "64 word"
type_synonym buf = "u8 list"

text \<open>LARGEST_INT64 and SMALLEST_INT64 of sqliteInt.h, as mathematical integers.\<close>

definition LARGEST_INT64 :: int where
  "LARGEST_INT64 = 9223372036854775807"

definition SMALLEST_INT64 :: int where
  "SMALLEST_INT64 = - 9223372036854775808"

section \<open>Result codes\<close>

datatype rc =
    SQLITE_OK | SQLITE_ERROR | SQLITE_BUSY | SQLITE_NOMEM | SQLITE_READONLY | SQLITE_IOERR
  | SQLITE_CORRUPT | SQLITE_FULL | SQLITE_PROTOCOL | SQLITE_MISUSE
  | SQLITE_IOERR_SHORT_READ | SQLITE_IOERR_LOCK | SQLITE_IOERR_UNLOCK | SQLITE_IOERR_RDLOCK
  | SQLITE_IOERR_CHECKRESERVEDLOCK | SQLITE_IOERR_READ | SQLITE_IOERR_WRITE | SQLITE_IOERR_FSTAT
  | SQLITE_PERM | SQLITE_NOTFOUND | SQLITE_DONE | SQLITE_CANTOPEN | SQLITE_READONLY_ROLLBACK | SQLITE_ABORT

text \<open>
  \<open>rc |= f()\<close> on the two codes that are combined this way in the modelled code,
  \<open>SQLITE_OK = 0\<close> and \<open>SQLITE_NOMEM\<close>.
\<close>

definition rc_or :: "rc \<Rightarrow> rc \<Rightarrow> rc" where
  "rc_or a b = (if a = SQLITE_OK then b else a)"

section \<open>Lock levels and lock bytes of os.h\<close>

definition NO_LOCK :: nat where "NO_LOCK = 0"
definition SHARED_LOCK :: nat where "SHARED_LOCK = 1"
definition RESERVED_LOCK :: nat where "RESERVED_LOCK = 2"
definition PENDING_LOCK :: nat where "PENDING_LOCK = 3"
definition EXCLUSIVE_LOCK :: nat where "EXCLUSIVE_LOCK = 4"

definition PENDING_BYTE :: nat where "PENDING_BYTE = 0x40000000"

section \<open>Checked buffers\<close>

definition rd :: "'a list \<Rightarrow> nat \<Rightarrow> 'a option" where
  "rd b i = (if i < length b then Some (b ! i) else None)"

definition wr :: "'a list \<Rightarrow> nat \<Rightarrow> 'a \<Rightarrow> 'a list option" where
  "wr b i x = (if i < length b then Some (b[i := x]) else None)"

text \<open>\<open>n\<close> bytes from offset \<open>i\<close>, and a \<open>memcpy\<close> of \<open>xs\<close> to offset \<open>i\<close>.\<close>

definition rdn :: "'a list \<Rightarrow> nat \<Rightarrow> nat \<Rightarrow> 'a list option" where
  "rdn b i n = (if i + n \<le> length b then Some (take n (drop i b)) else None)"

definition blit :: "'a list \<Rightarrow> nat \<Rightarrow> 'a list \<Rightarrow> 'a list option" where
  "blit b i xs = (if i + length xs \<le> length b
     then Some (take i b @ xs @ drop (i + length xs) b) else None)"

lemma rd_Some_iff: "rd b i = Some x \<longleftrightarrow> i < length b \<and> b ! i = x"
  by (auto simp: rd_def)

lemma rd_None_iff: "rd b i = None \<longleftrightarrow> length b \<le> i"
  by (auto simp: rd_def)

lemma rd_in_range: "i < length b \<Longrightarrow> rd b i = Some (b ! i)"
  by (simp add: rd_def)

lemma rd_Nil [simp]: "rd [] i = None"
  by (simp add: rd_def)

lemma rd_Cons [simp]:
  "rd (x # xs) 0 = Some x"
  "rd (x # xs) (Suc i) = rd xs i"
  "rd (x # xs) (numeral k) = rd xs (pred_numeral k)"
  by (auto simp: rd_def numeral_eq_Suc)

lemma wr_Some_iff: "wr b i x = Some b' \<longleftrightarrow> i < length b \<and> b' = b[i := x]"
  by (auto simp: wr_def)

lemma wr_in_range: "i < length b \<Longrightarrow> wr b i x = Some (b[i := x])"
  by (simp add: wr_def)

lemma blit_length: "blit b i xs = Some b' \<Longrightarrow> length b' = length b"
  by (auto simp: blit_def split: if_splits)

lemma blit_nth:
  assumes "blit b i xs = Some b'" and "j < length b"
  shows "b' ! j = (if i \<le> j \<and> j < i + length xs then xs ! (j - i) else b ! j)"
  using assms by (auto simp: blit_def nth_append split: if_splits)

lemma rdn_blit_same: "blit b i xs = Some b' \<Longrightarrow> rdn b' i (length xs) = Some xs"
  by (auto simp: blit_def rdn_def split: if_splits)

section \<open>Deciding equations between words bit by bit\<close>

text \<open>
  \<open>bitblast\<close> collects the rules that reduce an equation between words of fixed width to one
  propositional goal per bit. They are used with \<open>bit_simps\<close>.
\<close>

named_theorems bitblast

lemma all_less_numeral [bitblast]:
  "(\<forall>n<numeral k. P (n::nat)) \<longleftrightarrow> (\<forall>n<pred_numeral k. P n) \<and> P (pred_numeral k)"
  by (auto simp: numeral_eq_Suc less_Suc_eq)

lemma bit_u8_ge [bitblast]: "8 \<le> n \<Longrightarrow> \<not> bit (x::u8) n"
  by (simp add: impossible_bit)

lemma bit_u16_ge [bitblast]: "16 \<le> n \<Longrightarrow> \<not> bit (x::u16) n"
  by (simp add: impossible_bit)

lemma bit_u32_ge [bitblast]: "32 \<le> n \<Longrightarrow> \<not> bit (x::u32) n"
  by (simp add: impossible_bit)

lemma bit_u64_ge [bitblast]: "64 \<le> n \<Longrightarrow> \<not> bit (x::u64) n"
  by (simp add: impossible_bit)

lemma u64_eqI: "(\<forall>n<64. bit a n = bit b n) \<Longrightarrow> a = (b::u64)"
  by (rule bit_word_eqI) simp

lemma u32_eqI: "(\<forall>n<32. bit a n = bit b n) \<Longrightarrow> a = (b::u32)"
  by (rule bit_word_eqI) simp

lemma u16_eqI: "(\<forall>n<16. bit a n = bit b n) \<Longrightarrow> a = (b::u16)"
  by (rule bit_word_eqI) simp

lemma u8_eqI: "(\<forall>n<8. bit a n = bit b n) \<Longrightarrow> a = (b::u8)"
  by (rule bit_word_eqI) simp

lemma and_128_iff: "(x :: 'a::len word) AND 128 = 0 \<longleftrightarrow> \<not> bit x 7"
  using and_exp_eq_0_iff_not_bit [of x 7] by simp

lemma unat_u8_less: "unat (x::u8) < 256"
  using unsigned_less [of x, where ?'a = nat] by simp

lemma u8_less_128: "(x::u8) < 128 \<longleftrightarrow> \<not> bit x 7"
proof -
  have "bit x 7 \<longleftrightarrow> bit (unat x) 7"
    by (simp add: bit_unsigned_iff)
  also have "\<dots> \<longleftrightarrow> odd (unat x div 128)"
    by (simp add: bit_iff_odd)
  also have "\<dots> \<longleftrightarrow> 128 \<le> unat x"
  proof -
    have "unat x div 128 = 0 \<or> unat x div 128 = 1"
      using unat_u8_less [of x] by linarith
    then show ?thesis
      using unat_u8_less [of x] by (auto simp: div_eq_0_iff)
  qed
  finally show ?thesis
    by (auto simp: word_less_nat_alt)
qed

end
