(* ===== verification/Varint.thy ===== *)
theory Varint
  imports Sqlite_Prelude
begin

text \<open>
  The variable-length integers of util.c: one to nine bytes, big-endian groups of seven bits
  with a continuation flag, the ninth byte carrying eight bits. Every record header, cell
  header and key of the database file is written with them.
\<close>

section \<open>Writing\<close>

text \<open>
  \<open>sqlite3PutVarint\<close> returns the bytes it stores at \<open>p[0]\<close>, \<open>p[1]\<close>, \<dots>; the
  length of the list is the number of bytes the C function returns. The nine-byte branch fills
  \<open>p[8]\<close> and then \<open>p[7]\<close> down to \<open>p[0]\<close>; the other branch collects the groups in
  \<open>buf[]\<close> from the low end (a do-while loop) and reverses them.
\<close>

fun put9_loop :: "nat \<Rightarrow> u64 \<Rightarrow> u8 list \<Rightarrow> u8 list" where
  "put9_loop 0 v acc = acc"
| "put9_loop (Suc i) v acc =
     put9_loop i (drop_bit 7 v) (ucast ((v AND 0x7f) OR 0x80) # acc)"

lemma drop_bit_7_less: "drop_bit 7 v \<noteq> 0 \<Longrightarrow> unat (drop_bit 7 (v::u64)) < unat v"
proof -
  assume "drop_bit 7 v \<noteq> 0"
  then have "unat (drop_bit 7 v) \<noteq> 0" by (simp only: unsigned_eq_0_iff not_False_eq_True)
  then have "drop_bit 7 (unat v) \<noteq> 0" by (simp only: unat_drop_bit_eq not_False_eq_True)
  then show ?thesis by (simp only: unat_drop_bit_eq) (simp add: drop_bit_eq_div)
qed

function put_loop :: "u64 \<Rightarrow> u8 list" where
  "put_loop v = (let b = ucast ((v AND 0x7f) OR 0x80); v' = drop_bit 7 v
     in if v' \<noteq> 0 then b # put_loop v' else [b])"
  by pat_completeness auto
termination
  by (relation "measure unat") (auto simp: drop_bit_7_less)

declare put_loop.simps [simp del]

definition sqlite3PutVarint :: "u64 \<Rightarrow> u8 list" where
  "sqlite3PutVarint v =
     (if v AND push_bit 32 0xff000000 \<noteq> 0
      then put9_loop 8 (drop_bit 8 v) [ucast v]
      else case put_loop v of
             [] \<Rightarrow> []
           | b0 # bs \<Rightarrow> rev ((b0 AND 0x7f) # bs))"

definition sqlite3PutVarint32 :: "u32 \<Rightarrow> u8 list" where
  "sqlite3PutVarint32 v =
     (if v AND NOT 0x7f = 0 then [ucast v]
      else if v AND NOT 0x3fff = 0 then [ucast (drop_bit 7 v OR 0x80), ucast (v AND 0x7f)]
      else sqlite3PutVarint (ucast v))"

text \<open>\<open>sqlite3VarintLen\<close>: the do-while loop with its guard \<open>ALWAYS(i<9)\<close>.\<close>

function varint_len_loop :: "nat \<Rightarrow> u64 \<Rightarrow> nat" where
  "varint_len_loop i v = (let i' = Suc i; v' = drop_bit 7 v
     in if v' \<noteq> 0 \<and> i' < 9 then varint_len_loop i' v' else i')"
  by pat_completeness auto
termination
  by (relation "measure (\<lambda>(i, v). 9 - i)") auto

declare varint_len_loop.simps [simp del]

definition sqlite3VarintLen :: "u64 \<Rightarrow> nat" where
  "sqlite3VarintLen v = varint_len_loop 0 v"

section \<open>Reading\<close>

definition SLOT_2_0 :: u32 where "SLOT_2_0 = 0x001fc07f"
definition SLOT_4_2_0 :: u32 where "SLOT_4_2_0 = 0xf01fc07f"

text \<open>
  \<open>sqlite3GetVarint\<close>, unrolled as in the source over the 32-bit accumulators \<open>a\<close>,
  \<open>b\<close> and \<open>s\<close>. The result is the number of bytes read and the value, or \<open>None\<close> when
  the buffer ends inside the varint.
\<close>

definition getVarint_9 :: "u8 list \<Rightarrow> u32 \<Rightarrow> u32 \<Rightarrow> u32 \<Rightarrow> (nat \<times> u64) option" where
  "getVarint_9 p a b s = do {
     p8 \<leftarrow> rd p 8;
     p4 \<leftarrow> rd p 4;
     let a = push_bit 15 a OR ucast p8;
         b = push_bit 8 (b AND SLOT_2_0);
         a = a OR b;
         s = push_bit 4 s;
         b = drop_bit 3 (ucast p4 AND 0x7f);
         s = s OR b
     in Some (9, push_bit 32 (ucast s) OR ucast a) }"

definition getVarint_5_8 :: "u8 list \<Rightarrow> u32 \<Rightarrow> u32 \<Rightarrow> u32 \<Rightarrow> (nat \<times> u64) option" where
  "getVarint_5_8 p a b s = do {
     p4 \<leftarrow> rd p 4;
     let a = push_bit 14 a OR ucast p4
     in if a AND 0x80 = 0 then
          (let b = push_bit 7 b; a = a OR b; s = drop_bit 18 s
           in Some (5, push_bit 32 (ucast s) OR ucast a))
     else do {
     let s = push_bit 7 s OR b;
     p5 \<leftarrow> rd p 5;
     let b = push_bit 14 b OR ucast p5
     in if b AND 0x80 = 0 then
          (let a = push_bit 7 (a AND SLOT_2_0) OR b; s = drop_bit 18 s
           in Some (6, push_bit 32 (ucast s) OR ucast a))
     else do {
     p6 \<leftarrow> rd p 6;
     let a = push_bit 14 a OR ucast p6
     in if a AND 0x80 = 0 then
          (let a = a AND SLOT_4_2_0; b = push_bit 7 (b AND SLOT_2_0); a = a OR b;
               s = drop_bit 11 s
           in Some (7, push_bit 32 (ucast s) OR ucast a))
     else do {
     let a = a AND SLOT_2_0;
     p7 \<leftarrow> rd p 7;
     let b = push_bit 14 b OR ucast p7
     in if b AND 0x80 = 0 then
          (let b = b AND SLOT_4_2_0; a = push_bit 7 a OR b; s = drop_bit 4 s
           in Some (8, push_bit 32 (ucast s) OR ucast a))
     else getVarint_9 p a b s }}}}"

definition sqlite3GetVarint :: "u8 list \<Rightarrow> (nat \<times> u64) option" where
  "sqlite3GetVarint p = do {
     p0 \<leftarrow> rd p 0;
     let a = (ucast p0 :: u32)
     in if a AND 0x80 = 0 then Some (1, ucast a)
     else do {
     p1 \<leftarrow> rd p 1;
     let b = (ucast p1 :: u32)
     in if b AND 0x80 = 0 then
          (let a = push_bit 7 (a AND 0x7f) OR b in Some (2, ucast a))
     else do {
     p2 \<leftarrow> rd p 2;
     let a = push_bit 14 a OR ucast p2
     in if a AND 0x80 = 0 then
          (let a = a AND SLOT_2_0; b = push_bit 7 (b AND 0x7f); a = a OR b
           in Some (3, ucast a))
     else do {
     let a = a AND SLOT_2_0;
     p3 \<leftarrow> rd p 3;
     let b = push_bit 14 b OR ucast p3
     in if b AND 0x80 = 0 then
          (let b = b AND SLOT_2_0; a = push_bit 7 a OR b in Some (4, ucast a))
     else (let b = b AND SLOT_2_0; s = a in getVarint_5_8 p a b s) }}}}"

text \<open>
  The live part of \<open>sqlite3GetVarint32\<close> (the \<open>#else\<close> branch is historical): one, two and
  three byte cases inline, longer ones through the 64-bit reader with saturation at
  \<open>0xffffffff\<close>. The one-byte case is the \<open>getVarint32\<close> macro's.
\<close>

definition sqlite3GetVarint32 :: "u8 list \<Rightarrow> (nat \<times> u32) option" where
  "sqlite3GetVarint32 p = do {
     p0 \<leftarrow> rd p 0;
     let a = (ucast p0 :: u32)
     in if a AND 0x80 = 0 then Some (1, a)
     else do {
     p1 \<leftarrow> rd p 1;
     let b = (ucast p1 :: u32)
     in if b AND 0x80 = 0 then Some (2, push_bit 7 (a AND 0x7f) OR b)
     else do {
     p2 \<leftarrow> rd p 2;
     let a = push_bit 14 a OR ucast p2
     in if a AND 0x80 = 0 then
          Some (3, (a AND (push_bit 14 0x7f OR 0x7f)) OR push_bit 7 (b AND 0x7f))
     else do {
     (n, v64) \<leftarrow> sqlite3GetVarint p;
     if v64 AND 0xffffffff \<noteq> v64 then Some (n, 0xffffffff) else Some (n, ucast v64) }}}}"

section \<open>The format, stated directly\<close>

text \<open>
  The layout given in the comment above \<open>sqlite3PutVarint\<close>: eight groups of seven bits at
  most, ended by a byte without its high bit, and a ninth byte of eight bits. \<open>k\<close> counts the
  bytes consumed before.
\<close>

fun varint_spec :: "nat \<Rightarrow> u64 \<Rightarrow> u8 list \<Rightarrow> (nat \<times> u64) option" where
  "varint_spec k acc [] = None"
| "varint_spec k acc (b # bs) =
     (if k = 8 then Some (9, push_bit 8 acc OR ucast b)
      else if \<not> bit b 7 then Some (k + 1, push_bit 7 acc OR ucast b)
      else varint_spec (k + 1) (push_bit 7 acc OR ucast (b AND 0x7f)) bs)"

section \<open>The unrolled reader implements the format\<close>

lemmas varint_defs = sqlite3GetVarint_def getVarint_5_8_def getVarint_9_def
  SLOT_2_0_def SLOT_4_2_0_def

lemmas varint_bits = bit_simps bitblast

lemma varint_spec_drop:
  "varint_spec k acc (drop k p) = do {
     b \<leftarrow> rd p k;
     if k = 8 then Some (9, push_bit 8 acc OR ucast b)
     else if \<not> bit b 7 then Some (k + 1, push_bit 7 acc OR ucast b)
     else varint_spec (k + 1) (push_bit 7 acc OR ucast (b AND 0x7f)) (drop (k + 1) p) }"
  by (cases "k < length p") (auto simp: rd_def Cons_nth_drop_Suc [symmetric])

lemmas varint_unroll_raw = varint_spec_drop [of 0]
  varint_spec_drop [of 1] varint_spec_drop [of 2] varint_spec_drop [of 3]
  varint_spec_drop [of 4] varint_spec_drop [of 5] varint_spec_drop [of 6]
  varint_spec_drop [of 7] varint_spec_drop [of 8]

lemmas varint_unroll = varint_unroll_raw [simplified drop_0 numeral_eq_iff zero_neq_numeral
  one_eq_numeral_iff num.distinct num.inject if_False if_True numeral_plus_one add_num_simps one_add_one add_0 refl]

text \<open>One step of the comparison: both readers look at the same byte and either both stop
  with equal values or both continue.\<close>

lemma bind_eqI: "(\<And>x. m = Some x \<Longrightarrow> f x = g x) \<Longrightarrow> Option.bind m f = Option.bind m g"
  by (cases m) auto

lemma stage_eqI:
  assumes "r = r'" and "c \<longleftrightarrow> \<not> bit (x::u8) 7" and "\<not> bit x 7 \<Longrightarrow> u = v"
  shows "(if c then Some (n, u) else r) = (if \<not> bit x 7 then Some (n, v) else r')"
  using assms by auto

lemma bind_stage_eqI:
  assumes "rd p i = Some x" and "\<And>y. u y x = v y"
  shows "Option.bind m (\<lambda>y. Option.bind (rd p i) (\<lambda>z. Some (n, u y z))) = Option.bind m (\<lambda>y. Some (n, v y))"
  using assms by (cases m) auto

lemma getVarint_spec: "sqlite3GetVarint p = varint_spec 0 0 p"
  unfolding varint_unroll varint_defs Let_def
  apply (rule bind_eqI, rule stage_eqI)+
  apply (rule bind_stage_eqI, assumption)
  apply (simp_all only: and_128_iff)
  apply ((simp add: bit_simps; fail) | (rule u64_eqI, simp add: bit_simps bitblast; fail))+
  done


section \<open>Reading back what was written\<close>

text \<open>\<open>groups\<close> is the value of a run of continuation bytes appended to \<open>acc\<close>.\<close>

fun groups :: "u64 \<Rightarrow> u8 list \<Rightarrow> u64" where
  "groups acc [] = acc"
| "groups acc (b # bs) = groups (push_bit 7 acc OR ucast (b AND 0x7f)) bs"

lemma groups_append: "groups acc (xs @ ys) = groups (groups acc xs) ys"
  by (induction xs arbitrary: acc) auto

lemma varint_spec_groups:
  assumes "\<forall>b\<in>set bs. bit b 7" and "k + length bs \<le> 8"
  shows "varint_spec k acc (bs @ rest) = varint_spec (k + length bs) (groups acc bs) rest"
  using assms by (induction bs arbitrary: k acc) auto

lemma split_low_7: "push_bit 7 (drop_bit 7 v) OR ucast (ucast ((v AND 0x7f) OR 0x80) AND (0x7f::u8)) = (v::u64)"
  by (rule u64_eqI) (simp add: bit_simps bitblast)

lemma put_loop_continuation: "\<forall>b\<in>set (put_loop v). bit b 7"
proof (induction v rule: put_loop.induct)
  case (1 v)
  have "bit (ucast ((v AND 0x7f) OR 0x80) :: u8) 7" by (simp add: bit_simps)
  with 1 show ?case by (subst put_loop.simps) (auto simp: Let_def)
qed

lemma groups_put_loop: "groups 0 (rev (put_loop v)) = v"
proof (induction v rule: put_loop.induct)
  case (1 v)
  have "groups 0 (rev (put_loop v))
      = push_bit 7 (drop_bit 7 v) OR ucast (ucast ((v AND 0x7f) OR 0x80) AND (0x7f::u8))"
  proof (cases "drop_bit 7 v = 0")
    case True
    then show ?thesis by (simp add: put_loop.simps [of v] Let_def)
  next
    case False
    with 1 show ?thesis by (simp add: put_loop.simps [of v] Let_def groups_append)
  qed
  then show ?case by (simp only: split_low_7)
qed

lemma put_loop_length: "drop_bit (7 * Suc n) v = 0 \<Longrightarrow> length (put_loop v) \<le> Suc n"
proof (induction n arbitrary: v)
  case 0
  then show ?case by (subst put_loop.simps) simp
next
  case (Suc n)
  have "drop_bit (7 * Suc n) (drop_bit 7 v) = 0"
    using Suc.prems by (simp only: drop_bit_drop_bit) (simp add: add.commute)
  then have "length (put_loop (drop_bit 7 v)) \<le> Suc n" by (rule Suc.IH)
  then show ?case by (subst put_loop.simps) (simp add: Let_def)
qed

lemma put_loop_nonempty: "put_loop v \<noteq> []"
  by (subst put_loop.simps) (simp add: Let_def)

lemma put_loop_Cons: "put_loop v =
    ucast ((v AND 0x7f) OR 0x80) # (if drop_bit 7 v \<noteq> 0 then put_loop (drop_bit 7 v) else [])"
  by (subst put_loop.simps) (simp add: Let_def)

lemma high_byte_iff: "v AND push_bit 32 0xff000000 = 0 \<longleftrightarrow> drop_bit 56 (v::u64) = 0"
proof -
  have "drop_bit 56 v = drop_bit 56 (v AND push_bit 32 0xff000000)"
    and "v AND push_bit 32 0xff000000 = push_bit 56 (drop_bit 56 v)"
    by (rule u64_eqI, simp add: bit_simps bitblast)+
  then show ?thesis by (metis drop_bit_of_0 push_bit_of_0)
qed

lemma put9_loop_numeral: "put9_loop (numeral k) v acc =
    put9_loop (pred_numeral k) (drop_bit 7 v) (ucast ((v AND 0x7f) OR 0x80) # acc)"
  by (simp add: numeral_eq_Suc)

lemma get_put9:
  "varint_spec 0 0 (put9_loop 8 (drop_bit 8 v) [ucast v] @ rest) = Some (9, v)"
proof -
  have "push_bit 8 (groups 0 (put9_loop 8 (drop_bit 8 v) [])) OR ucast (ucast v :: u8) = v"
    by (rule u64_eqI) (simp add: put9_loop_numeral bit_simps bitblast)
  then show ?thesis
    by (simp add: put9_loop_numeral bit_simps)
qed

lemma put9_length: "length (put9_loop n v acc) = n + length acc"
  by (induction n arbitrary: v acc) auto

lemma last_group: "groups acc [ucast ((v AND 0x7f) OR 0x80)]
    = push_bit 7 acc OR ucast ((ucast ((v AND 0x7f) OR 0x80) :: u8) AND 0x7f)"
  by simp

lemma PutVarint_small:
  assumes "v AND push_bit 32 0xff000000 = 0"
  shows "sqlite3PutVarint v = rev (tl (put_loop v)) @ [hd (put_loop v) AND 0x7f]"
  using assms put_loop_nonempty [of v]
  by (auto simp: sqlite3PutVarint_def split: list.splits)

lemma put_loop_small_length:
  assumes "v AND push_bit 32 0xff000000 = 0"
  shows "length (put_loop v) \<le> 8"
  using put_loop_length [of 7 v] high_byte_iff [of v] assms by simp

lemma varint_spec_PutVarint:
  "varint_spec 0 0 (sqlite3PutVarint v @ rest) = Some (length (sqlite3PutVarint v), v)"
proof (cases "v AND push_bit 32 0xff000000 = 0")
  case False
  then show ?thesis by (simp add: sqlite3PutVarint_def get_put9 put9_length del: append.simps)
next
  case True
  obtain b0 bs where l: "put_loop v = b0 # bs"
    using put_loop_nonempty by (cases "put_loop v") auto
  have len: "length bs \<le> 7" using put_loop_small_length [OF True] l by simp
  have cont: "\<forall>b\<in>set (rev bs). bit b 7" using put_loop_continuation [of v] l by simp
  have val: "push_bit 7 (groups 0 (rev bs)) OR ucast (b0 AND 0x7f) = v"
    using groups_put_loop [of v] l by (simp add: groups_append)
  have "varint_spec 0 0 (rev bs @ ((b0 AND 0x7f) # rest))
      = varint_spec (length bs) (groups 0 (rev bs)) ((b0 AND 0x7f) # rest)"
    using varint_spec_groups [OF cont, of 0 0] len by simp
  also have "\<dots> = Some (Suc (length bs), v)"
    using len val by (simp add: bit_simps)
  finally show ?thesis using True l by (simp add: PutVarint_small)
qed

lemma GetVarint_PutVarint:
  "sqlite3GetVarint (sqlite3PutVarint v @ rest) = Some (length (sqlite3PutVarint v), v)"
  by (simp add: getVarint_spec varint_spec_PutVarint)

lemma PutVarint_length: "1 \<le> length (sqlite3PutVarint v) \<and> length (sqlite3PutVarint v) \<le> 9"
proof (cases "v AND push_bit 32 0xff000000 = 0")
  case True
  then show ?thesis
    using put_loop_small_length [OF True] put_loop_nonempty [of v]
    by (cases "put_loop v") (auto simp: PutVarint_small)
next
  case False
  then show ?thesis by (simp add: sqlite3PutVarint_def put9_length)
qed

section \<open>Bounds of the reader\<close>

lemma varint_spec_bounds:
  assumes "varint_spec k acc p = Some (n, v)" and "k \<le> 8"
  shows "k < n \<and> n \<le> 9 \<and> n - k \<le> length p"
  using assms
proof (induction k acc p rule: varint_spec.induct)
  case (2 k acc b bs)
  show ?case
  proof (cases "k = 8 \<or> \<not> bit b 7")
    case True
    with 2 show ?thesis by (auto split: if_splits)
  next
    case False
    with 2 have "k + 1 < n \<and> n \<le> 9 \<and> n - (k + 1) \<le> length bs" by simp
    then show ?thesis by auto
  qed
qed simp

lemma varint_spec_total: "k \<le> 8 \<Longrightarrow> 9 - k \<le> length p \<Longrightarrow> varint_spec k acc p \<noteq> None"
proof (induction k acc p rule: varint_spec.induct)
  case (2 k acc b bs)
  show ?case
  proof (cases "k = 8 \<or> \<not> bit b 7")
    case False
    with 2 show ?thesis by (simp add: Suc_diff_le)
  qed auto
qed simp

lemma varint_spec_prefix:
  assumes "varint_spec k acc p = Some (n, v)" and "k \<le> 8"
  shows "varint_spec k acc (take (n - k) p @ q) = Some (n, v)"
  using assms
proof (induction k acc p rule: varint_spec.induct)
  case (2 k acc b bs)
  show ?case
  proof (cases "k = 8 \<or> \<not> bit b 7")
    case True
    with 2 show ?thesis by (auto split: if_splits)
  next
    case False
    then have r: "varint_spec (k + 1) (push_bit 7 acc OR ucast (b AND 0x7f)) bs = Some (n, v)"
      using 2(2) by simp
    then have "k + 1 < n" using varint_spec_bounds False 2(3) by auto
    then have "n - k = Suc (n - (k + 1))" by simp
    then show ?thesis using 2 False r by simp
  qed
qed simp

section \<open>Lengths and the 32-bit variants\<close>

lemma varint_len_loop_put_loop:
  "i + length (put_loop v) \<le> 9 \<Longrightarrow> varint_len_loop i v = i + length (put_loop v)"
proof (induction i v rule: varint_len_loop.induct)
  case (1 i v)
  show ?case
  proof (cases "drop_bit 7 v = 0")
    case True
    then show ?thesis by (simp add: varint_len_loop.simps [of i v] put_loop_Cons [of v])
  next
    case False
    then have len: "length (put_loop v) = Suc (length (put_loop (drop_bit 7 v)))"
      by (subst put_loop_Cons) simp
    then have "Suc i < 9"
      using "1.prems" put_loop_nonempty [of "drop_bit 7 v"]
      by (cases "put_loop (drop_bit 7 v)") auto
    with False len 1 show ?thesis
      by (simp add: varint_len_loop.simps [of i v] Let_def)
  qed
qed

lemma varint_len_loop_9:
  "drop_bit (7 * (8 - i)) v \<noteq> 0 \<Longrightarrow> i \<le> 8 \<Longrightarrow> varint_len_loop i v = 9"
proof (induction i v rule: varint_len_loop.induct)
  case (1 i v)
  show ?case
  proof (cases "i = 8")
    case True
    then show ?thesis by (subst varint_len_loop.simps) (simp add: Let_def)
  next
    case False
    then have e: "7 * (8 - i) = 7 + 7 * (8 - Suc i)" using "1.prems" by simp
    then have d: "drop_bit (7 * (8 - Suc i)) (drop_bit 7 v) \<noteq> 0"
      using "1.prems" by (simp add: drop_bit_drop_bit add.commute)
    then have "drop_bit 7 v \<noteq> 0" by (metis drop_bit_of_0)
    with False d 1 show ?thesis
      by (simp add: varint_len_loop.simps [of i v] Let_def)
  qed
qed

lemma VarintLen_PutVarint: "sqlite3VarintLen v = length (sqlite3PutVarint v)"
proof (cases "v AND push_bit 32 0xff000000 = 0")
  case True
  then have "varint_len_loop 0 v = length (put_loop v)"
    using varint_len_loop_put_loop [of 0 v] put_loop_small_length [OF True] by simp
  with True show ?thesis
    using put_loop_nonempty [of v] by (cases "put_loop v") (auto simp: sqlite3VarintLen_def PutVarint_small)
next
  case False
  then have "drop_bit 56 v \<noteq> 0" using high_byte_iff [of v] by simp
  then have "varint_len_loop 0 v = 9" using varint_len_loop_9 [of 0 v] by simp
  with False show ?thesis by (simp add: sqlite3VarintLen_def sqlite3PutVarint_def put9_length)
qed

lemma and_not_mask_iff: "(v::u32) AND NOT (mask n) = 0 \<longleftrightarrow> drop_bit n v = 0"
proof -
  have "v AND NOT (mask n) = push_bit n (drop_bit n v)"
    by (rule bit_word_eqI) (auto simp: bit_simps)
  moreover have "drop_bit n (v AND NOT (mask n)) = drop_bit n v"
    by (rule bit_word_eqI) (auto simp: bit_simps dest: bit_imp_le_length)
  ultimately show ?thesis by (metis drop_bit_of_0 push_bit_of_0)
qed

lemma and_not_7f: "(v::u32) AND NOT 0x7f = 0 \<longleftrightarrow> drop_bit 7 v = 0"
  and and_not_3fff: "(v::u32) AND NOT 0x3fff = 0 \<longleftrightarrow> drop_bit 14 v = 0"
  using and_not_mask_iff [of v 7] and_not_mask_iff [of v 14]
  by (simp_all add: mask_eq_exp_minus_1)

lemma ucast_drop_eq_0: "drop_bit n (ucast (v::u32) :: u64) = 0 \<longleftrightarrow> drop_bit n v = 0"
proof -
  have "drop_bit n (ucast v :: u64) = ucast (drop_bit n v)"
    by (rule bit_word_eqI) (auto simp: bit_simps dest: bit_imp_le_length)
  moreover have "drop_bit n v = ucast (drop_bit n (ucast v :: u64))"
    by (rule bit_word_eqI) (auto simp: bit_simps dest: bit_imp_le_length)
  ultimately show ?thesis by (metis unsigned_0)
qed

lemma PutVarint32_eq: "sqlite3PutVarint32 v = sqlite3PutVarint (ucast v)"
proof -
  let ?w = "ucast v :: u64"
  have small: "?w AND push_bit 32 0xff000000 = 0"
    by (rule u64_eqI) (simp add: bit_simps bitblast)
  show ?thesis
  proof (cases "drop_bit 7 v = 0")
    case True
    then have "\<not> bit (drop_bit 7 v) 0" by simp
    then have "\<not> bit v 7" by (simp add: bit_simps)
    then have "(ucast ((?w AND 0x7f) OR 0x80) :: u8) AND 0x7f = ucast v"
      by - (rule u8_eqI, simp add: bit_simps bitblast)
    moreover have "put_loop ?w = [ucast ((?w AND 0x7f) OR 0x80)]"
      using True by (subst put_loop_Cons) (simp add: ucast_drop_eq_0)
    ultimately show ?thesis
      using True unfolding sqlite3PutVarint32_def and_not_7f by (simp add: PutVarint_small [OF small])
  next
    case False
    show ?thesis
    proof (cases "drop_bit 14 v = 0")
      case True
      have b: "(ucast ((?w AND 0x7f) OR 0x80) :: u8) AND 0x7f = ucast (v AND 0x7f)"
        "(ucast ((drop_bit 7 ?w AND 0x7f) OR 0x80) :: u8) = ucast (drop_bit 7 v OR 0x80)"
        by (rule u8_eqI, simp add: bit_simps bitblast)+
      have "drop_bit 7 (drop_bit 7 ?w) = 0"
        using True by (simp add: drop_bit_drop_bit ucast_drop_eq_0)
      then have "put_loop ?w =
          [ucast ((?w AND 0x7f) OR 0x80), ucast ((drop_bit 7 ?w AND 0x7f) OR 0x80)]"
        using False
        by (subst put_loop_Cons, subst put_loop_Cons) (simp add: ucast_drop_eq_0)
      with True False b show ?thesis
        unfolding sqlite3PutVarint32_def and_not_7f and_not_3fff by (simp add: PutVarint_small [OF small])
    next
      case F14: False
      with False show ?thesis
        unfolding sqlite3PutVarint32_def and_not_7f and_not_3fff by simp
    qed
  qed
qed

definition saturate32 :: "u64 \<Rightarrow> u32" where
  "saturate32 v = (if v \<le> 0xffffffff then ucast v else 0xffffffff)"

lemma fits32_iff: "(v::u64) AND 0xffffffff = v \<longleftrightarrow> v \<le> 0xffffffff"
proof
  assume "v AND 0xffffffff = v"
  then show "v \<le> 0xffffffff" by (metis word_and_le1)
next
  assume "v \<le> 0xffffffff"
  then have "unat (drop_bit 32 v) = 0"
    by (simp add: word_le_nat_alt unat_drop_bit_eq del: unsigned_eq_0_iff) (simp add: drop_bit_eq_div)
  then have "drop_bit 32 v = 0" by (simp only: unsigned_eq_0_iff)
  then have "push_bit 32 (drop_bit 32 v) = 0" by simp
  then have "take_bit 32 v = v" by (metis add.left_neutral bits_ident)
  then show "v AND 0xffffffff = v" by (simp add: take_bit_eq_mask mask_eq_exp_minus_1)
qed

lemma saturate32_ucast: "saturate32 (ucast (a::u32)) = a"
proof -
  have "(ucast a :: u64) AND 0xffffffff = ucast a"
    by (rule u64_eqI) (simp add: bit_simps bitblast)
  then have "(ucast a :: u64) \<le> 0xffffffff" by (simp only: fits32_iff)
  moreover have "(ucast (ucast a :: u64) :: u32) = a"
    by (rule u32_eqI) (simp add: bit_simps bitblast)
  ultimately show ?thesis by (simp add: saturate32_def)
qed

lemma GetVarint32_spec:
  "sqlite3GetVarint32 p = map_option (\<lambda>(n, v). (n, saturate32 v)) (sqlite3GetVarint p)"
proof -
  have rest: "do { (n, v64) \<leftarrow> r;
      if v64 AND 0xffffffff \<noteq> v64 then Some (n, 0xffffffff) else Some (n, ucast v64) }
    = map_option (\<lambda>(n, v). (n, saturate32 v)) r" for r :: "(nat \<times> u64) option"
    by (cases r) (auto simp: fits32_iff saturate32_def)
  note defs = sqlite3GetVarint32_def sqlite3GetVarint_def
  show ?thesis
  proof (cases p rule: remdups_adj.cases)
    case (3 p0 p1 q)
    then show ?thesis
    proof (cases q)
      case Nil
      with 3 show ?thesis by (simp add: defs saturate32_ucast Let_def)
    next
      case (Cons p2 q')
      with 3 show ?thesis
        by (simp add: sqlite3GetVarint32_def rest Let_def)
          (simp add: sqlite3GetVarint_def saturate32_ucast SLOT_2_0_def Let_def)
    qed
  qed (simp_all add: defs saturate32_ucast Let_def)
qed

section \<open>The contract used by the cell and record formats\<close>

text \<open>
  What the file-format layers rely on when they call \<open>getVarint\<close> and \<open>putVarint\<close>: a
  written value is read back with its exact length whatever follows it, lengths lie between
  one and nine, nine available bytes always suffice, and the reader looks at nothing beyond the
  bytes it reports.
\<close>

locale varint_codec =
  fixes put :: "'v \<Rightarrow> u8 list"
    and get :: "u8 list \<Rightarrow> (nat \<times> 'v) option"
  assumes get_put: "get (put v @ rest) = Some (length (put v), v)"
    and put_length: "1 \<le> length (put v) \<and> length (put v) \<le> 9"
    and get_bounds: "get p = Some (n, v) \<Longrightarrow> 1 \<le> n \<and> n \<le> 9 \<and> n \<le> length p"
    and get_total: "9 \<le> length p \<Longrightarrow> \<exists>n v. get p = Some (n, v)"
    and get_local: "get p = Some (n, v) \<Longrightarrow> get (take n p @ q) = Some (n, v)"
begin

lemma put_prefix_free: "put v @ xs = put w @ ys \<Longrightarrow> v = w \<and> xs = ys"
proof -
  assume eq: "put v @ xs = put w @ ys"
  from get_put [of v xs] get_put [of w ys] eq have "v = w" by simp
  with eq show ?thesis by simp
qed

lemma put_inj: "put v = put w \<longleftrightarrow> v = w"
  using put_prefix_free [of v "[]" w "[]"] by auto

text \<open>A sequence of written values is decoded one after the other.\<close>

lemma get_put_sequence:
  "get (drop (length (concat (map put vs))) (concat (map put (vs @ v # ws)) @ rest))
     = Some (length (put v), v)"
  by (simp add: get_put)

end

lemma varint_spec_local_0:
  "varint_spec 0 0 p = Some (n, v) \<Longrightarrow> varint_spec 0 0 (take n p @ q) = Some (n, v)"
  using varint_spec_prefix [of 0 0 p n v q] by simp

interpretation varint64: varint_codec sqlite3PutVarint sqlite3GetVarint
proof
  fix p :: "u8 list" and n v q
  show "sqlite3GetVarint p = Some (n, v) \<Longrightarrow> 1 \<le> n \<and> n \<le> 9 \<and> n \<le> length p"
    using varint_spec_bounds [of 0 0 p n v] by (simp add: getVarint_spec)
  show "9 \<le> length p \<Longrightarrow> \<exists>n v. sqlite3GetVarint p = Some (n, v)"
    using varint_spec_total [of 0 p 0] by (auto simp: getVarint_spec)
  show "sqlite3GetVarint p = Some (n, v) \<Longrightarrow> sqlite3GetVarint (take n p @ q) = Some (n, v)"
    by (simp add: getVarint_spec varint_spec_local_0)
qed (simp_all only: GetVarint_PutVarint PutVarint_length)

interpretation varint32: varint_codec sqlite3PutVarint32 sqlite3GetVarint32
proof
  fix v :: u32 and rest
  show "sqlite3GetVarint32 (sqlite3PutVarint32 v @ rest) = Some (length (sqlite3PutVarint32 v), v)"
    by (simp add: GetVarint32_spec PutVarint32_eq GetVarint_PutVarint saturate32_ucast)
  show "1 \<le> length (sqlite3PutVarint32 v) \<and> length (sqlite3PutVarint32 v) \<le> 9"
    by (simp only: PutVarint32_eq PutVarint_length)
next
  fix p :: "u8 list" and n and v :: u32 and q
  show "9 \<le> length p \<Longrightarrow> \<exists>n v. sqlite3GetVarint32 p = Some (n, v)"
    using varint64.get_total [of p] by (auto simp: GetVarint32_spec)
  assume "sqlite3GetVarint32 p = Some (n, v)"
  then obtain w where w: "sqlite3GetVarint p = Some (n, w)" and v: "v = saturate32 w"
    by (auto simp: GetVarint32_spec)
  show "1 \<le> n \<and> n \<le> 9 \<and> n \<le> length p" using w by (rule varint64.get_bounds)
  show "sqlite3GetVarint32 (take n p @ q) = Some (n, v)"
    using varint64.get_local [OF w, of q] v by (simp add: GetVarint32_spec)
qed


section \<open>Properties\<close>

text \<open>
  C4. The hand-unrolled reader \<open>sqlite3GetVarint\<close>, with its shifted 32-bit accumulators and
  SLOT masks, computes on every buffer exactly what the file-format definition of a varint says:
  big-endian groups of seven bits, a ninth byte that contributes all its eight bits, and a failure
  only when the buffer ends inside the number.
\<close>

theorem varint_get_refines_spec: "sqlite3GetVarint p = varint_spec 0 0 p"
  by (rule getVarint_spec)

text \<open>
  C5. Every 64-bit value written by \<open>sqlite3PutVarint\<close> is read back by \<open>sqlite3GetVarint\<close>
  from the front of any buffer that starts with it, and the reader consumes exactly the bytes
  written, of which there are \<open>sqlite3VarintLen v\<close>, between one and nine.
\<close>

theorem varint_roundtrip:
  "sqlite3GetVarint (sqlite3PutVarint v @ rest) = Some (sqlite3VarintLen v, v) \<and>
   length (sqlite3PutVarint v) = sqlite3VarintLen v \<and>
   1 \<le> sqlite3VarintLen v \<and> sqlite3VarintLen v \<le> 9"
  using varint64.get_put [of v rest] varint64.put_length [of v]
  by (simp add: VarintLen_PutVarint)

text \<open>
  The 32-bit reader \<open>sqlite3GetVarint32\<close> reads the same bytes as the 64-bit one and returns
  its value, or \<open>0xffffffff\<close> when that value does not fit in 32 bits.
\<close>

theorem varint32_saturates:
  "sqlite3GetVarint32 p =
     (case sqlite3GetVarint p of None \<Rightarrow> None
      | Some (n, v) \<Rightarrow> Some (n, if v \<le> 0xffffffff then ucast v else 0xffffffff))"
  by (simp add: GetVarint32_spec saturate32_def split: option.splits)

text \<open>
  The encoding is self-delimiting: in a stream of varints followed by arbitrary bytes, the
  reader positioned after any prefix of the values finds the next one, with the 32-bit writer and
  reader as well as with the 64-bit ones.
\<close>

theorem varint_stream:
  "sqlite3GetVarint (drop (length (concat (map sqlite3PutVarint vs)))
       (concat (map sqlite3PutVarint (vs @ v # ws)) @ rest)) = Some (length (sqlite3PutVarint v), v) \<and>
   sqlite3GetVarint32 (drop (length (concat (map sqlite3PutVarint32 us)))
       (concat (map sqlite3PutVarint32 (us @ u # xs)) @ rest)) = Some (length (sqlite3PutVarint32 u), u)"
  using varint64.get_put_sequence [of vs v ws rest] varint32.get_put_sequence [of us u xs rest] by blast

end
