(* ===== verification/Bitvec.thy ===== *)
theory Bitvec
  imports Sqlite_Prelude
begin

text \<open>
  bitvec.c: the fixed-length bitmap that records which pages have been journalled. Three
  representations share one structure: a plain bitmap for small sizes, an open-addressing
  hash table while few bits are set, and an array of sub-bitmaps after that. The theory models
  the operations on all three, with malloc failures, and shows that they implement a finite set
  of positive integers.
\<close>

section \<open>The structure\<close>

text \<open>Sizes for an LP64 target: \<open>sizeof(Bitvec*) = 8\<close>.\<close>

definition BITVEC_SZ :: nat where "BITVEC_SZ = 512"
definition BITVEC_USIZE :: nat where "BITVEC_USIZE = ((BITVEC_SZ - 3 * 4) div 8) * 8"
definition BITVEC_SZELEM :: nat where "BITVEC_SZELEM = 8"
definition BITVEC_NELEM :: nat where "BITVEC_NELEM = BITVEC_USIZE"
definition BITVEC_NBIT :: nat where "BITVEC_NBIT = BITVEC_NELEM * BITVEC_SZELEM"
definition BITVEC_NINT :: nat where "BITVEC_NINT = BITVEC_USIZE div 4"
definition BITVEC_MXHASH :: nat where "BITVEC_MXHASH = BITVEC_NINT div 2"
definition BITVEC_NPTR :: nat where "BITVEC_NPTR = BITVEC_USIZE div 8"

definition BITVEC_HASH :: "nat \<Rightarrow> nat" where
  "BITVEC_HASH x = (x * 1) mod BITVEC_NINT"

lemma bitvec_sizes [simp]:
  "BITVEC_NELEM = 496" "BITVEC_NBIT = 3968" "BITVEC_NINT = 124"
  "BITVEC_MXHASH = 62" "BITVEC_NPTR = 62" "BITVEC_SZELEM = 8"
  by (simp_all add: BITVEC_NELEM_def BITVEC_NBIT_def BITVEC_NINT_def BITVEC_MXHASH_def
      BITVEC_NPTR_def BITVEC_USIZE_def BITVEC_SZ_def BITVEC_SZELEM_def)

text \<open>The union \<open>u\<close> is one of its three members; the 32-bit fields are \<open>nat\<close>.\<close>

datatype bitvec = Bitvec (iSize: nat) (nSet: nat) (iDivisor: nat) (un: bitvec_union)
and bitvec_union =
    aBitmap "u8 list"
  | aHash "nat list"
  | apSub "bitvec option list"

section \<open>Operations\<close>

text \<open>
  \<open>sqlite3MallocZero\<close> succeeds when the oracle says so for attempt \<open>k\<close>. The zeroed union
  reads as an empty bitmap or an empty hash table, whichever \<open>iSize\<close> selects.
\<close>

definition bitvec_zero :: "nat \<Rightarrow> bitvec" where
  "bitvec_zero sz = Bitvec sz 0 0
     (if sz \<le> BITVEC_NBIT then aBitmap (replicate BITVEC_NELEM 0)
      else aHash (replicate BITVEC_NINT 0))"

definition sqlite3BitvecCreate :: "(nat \<Rightarrow> bool) \<Rightarrow> nat \<Rightarrow> nat \<Rightarrow> bitvec option \<times> nat" where
  "sqlite3BitvecCreate orc k sz = (if orc k then Some (bitvec_zero sz) else None, Suc k)"

text \<open>
  Probe loops over the hash table. The C loops run until they meet an empty slot; the first
  argument bounds the number of steps and \<open>None\<close> means that it was not enough.
\<close>

fun bv_hash_test :: "nat \<Rightarrow> nat list \<Rightarrow> nat \<Rightarrow> nat \<Rightarrow> bool option" where
  "bv_hash_test 0 t h i = None"
| "bv_hash_test (Suc f) t h i =
     (if t ! h = 0 then Some False
      else if t ! h = i then Some True
      else bv_hash_test f t ((h + 1) mod BITVEC_NINT) i)"

fun bv_hash_probe :: "nat \<Rightarrow> nat list \<Rightarrow> nat \<Rightarrow> nat \<Rightarrow> nat option option" where
  "bv_hash_probe 0 t h i = None"
| "bv_hash_probe (Suc f) t h i =
     (if t ! h = i then Some None
      else let h' = (if h + 1 \<ge> BITVEC_NINT then 0 else h + 1)
           in if t ! h' = 0 then Some (Some h') else bv_hash_probe f t h' i)"

fun bv_hash_free :: "nat \<Rightarrow> nat list \<Rightarrow> nat \<Rightarrow> nat option" where
  "bv_hash_free 0 t h = None"
| "bv_hash_free (Suc f) t h =
     (if t ! h = 0 then Some h
      else bv_hash_free f t (if h + 1 \<ge> BITVEC_NINT then 0 else h + 1))"

lemma size_sub_less [termination_simp]:
  "j < length subs \<Longrightarrow> subs ! j = Some q \<Longrightarrow> size q < Suc (size_list (size_option size) subs)"
proof -
  assume "j < length subs" and "subs ! j = Some q"
  then have "Some q \<in> set subs" by (metis nth_mem)
  then have "size q \<le> size_list (size_option size) subs"
    by (rule size_list_estimation') simp
  then show ?thesis by simp
qed

text \<open>
  The body of \<open>sqlite3BitvecTest\<close> after \<open>i--\<close>: descend through the sub-bitmaps while
  \<open>iDivisor\<close> is set, then look at the bitmap or at the hash table. Reading the union through a
  member that is not the active one, or outside its array, is \<open>None\<close>.
\<close>

fun bv_test0 :: "bitvec \<Rightarrow> nat \<Rightarrow> bool option" where
  "bv_test0 (Bitvec sz ns dv u) i =
     (if dv \<noteq> 0 then
        (case u of apSub subs \<Rightarrow>
           if i div dv < length subs then
             (case subs ! (i div dv) of None \<Rightarrow> Some False | Some q \<Rightarrow> bv_test0 q (i mod dv))
           else None
         | _ \<Rightarrow> None)
      else if sz \<le> BITVEC_NBIT then
        (case u of aBitmap m \<Rightarrow> do {
           e \<leftarrow> rd m (i div BITVEC_SZELEM);
           Some (e AND push_bit (i mod BITVEC_SZELEM) 1 \<noteq> 0) }
         | _ \<Rightarrow> None)
      else
        (case u of aHash t \<Rightarrow> bv_hash_test BITVEC_NINT t (BITVEC_HASH i) (i + 1)
         | _ \<Rightarrow> None))"

declare bv_test0.simps [simp del]

definition sqlite3BitvecTest :: "bitvec option \<Rightarrow> nat \<Rightarrow> bool option" where
  "sqlite3BitvecTest p i =
     (case p of None \<Rightarrow> Some False
      | Some p \<Rightarrow> if i > iSize p \<or> i = 0 then Some False else bv_test0 p (i - 1))"

text \<open>
  \<open>sqlite3BitvecSet\<close> after \<open>i--\<close>. \<open>k\<close> counts the allocation attempts. The recursion
  descends into sub-bitmaps and, when the hash table gets too full, re-inserts the saved values
  \<open>aiValues\<close> into the subdivided bitmap; \<open>fuel\<close> bounds its depth. The result is the return
  code, the updated bitmap and the attempt counter.
\<close>

fun bv_set0 :: "nat \<Rightarrow> (nat \<Rightarrow> bool) \<Rightarrow> nat \<Rightarrow> bitvec \<Rightarrow> nat \<Rightarrow> (rc \<times> bitvec \<times> nat) option"
and bv_reinsert :: "nat \<Rightarrow> (nat \<Rightarrow> bool) \<Rightarrow> nat \<Rightarrow> rc \<Rightarrow> bitvec \<Rightarrow> nat list \<Rightarrow>
      (rc \<times> bitvec \<times> nat) option" where
  "bv_set0 0 orc k p i = None"
| "bv_set0 (Suc fuel) orc k (Bitvec sz ns dv u) i =
     (if sz > BITVEC_NBIT \<and> dv \<noteq> 0 then
        (case u of apSub subs \<Rightarrow> do {
           sub \<leftarrow> rd subs (i div dv);
           case sub of
             Some q \<Rightarrow> do {
               (rc, q', k') \<leftarrow> bv_set0 fuel orc k q (i mod dv);
               Some (rc, Bitvec sz ns dv (apSub (subs[i div dv := Some q'])), k') }
           | None \<Rightarrow>
               (case sqlite3BitvecCreate orc k dv of
                  (None, k1) \<Rightarrow> Some (SQLITE_NOMEM, Bitvec sz ns dv (apSub subs), k1)
                | (Some q, k1) \<Rightarrow> do {
                    (rc, q', k') \<leftarrow> bv_set0 fuel orc k1 q (i mod dv);
                    Some (rc, Bitvec sz ns dv (apSub (subs[i div dv := Some q'])), k') }) }
         | _ \<Rightarrow> None)
      else if sz \<le> BITVEC_NBIT then
        (case u of aBitmap m \<Rightarrow> do {
           e \<leftarrow> rd m (i div BITVEC_SZELEM);
           Some (SQLITE_OK, Bitvec sz ns dv
             (aBitmap (m[i div BITVEC_SZELEM := e OR push_bit (i mod BITVEC_SZELEM) 1])), k) }
         | _ \<Rightarrow> None)
      else
        (case u of aHash t \<Rightarrow>
           (let h = BITVEC_HASH i; v = i + 1;
                set_end = (\<lambda>h. Some (SQLITE_OK, Bitvec sz (ns + 1) dv (aHash (t[h := v])), k));
                rehash = (\<lambda>h. if ns \<ge> BITVEC_MXHASH then
                    (if \<not> orc k then Some (SQLITE_NOMEM, Bitvec sz ns dv (aHash t), Suc k)
                     else do {
                       (rc, p', k') \<leftarrow> bv_set0 fuel orc (Suc k)
                          (Bitvec sz ns ((sz + BITVEC_NPTR - 1) div BITVEC_NPTR)
                             (apSub (replicate BITVEC_NPTR None))) (v - 1);
                       bv_reinsert fuel orc k' rc p' t })
                  else set_end h)
            in if t ! h = 0 then (if ns < BITVEC_NINT - 1 then set_end h else rehash h)
               else do {
                 r \<leftarrow> bv_hash_probe BITVEC_NINT t h v;
                 case r of None \<Rightarrow> Some (SQLITE_OK, Bitvec sz ns dv (aHash t), k)
                 | Some h' \<Rightarrow> rehash h' })
         | _ \<Rightarrow> None))"
| "bv_reinsert fuel orc k rc p [] = Some (rc, p, k)"
| "bv_reinsert fuel orc k rc p (v # vs) =
     (if v \<noteq> 0 then do {
        (rc', p', k') \<leftarrow> bv_set0 fuel orc k p (v - 1);
        bv_reinsert fuel orc k' (rc_or rc rc') p' vs }
      else bv_reinsert fuel orc k rc p vs)"

text \<open>The fuel of the recursion: \<open>bv_set0_terminates\<close> below shows that ten levels suffice for every \<open>u32\<close> size.\<close>

definition BITVEC_DEPTH :: nat where "BITVEC_DEPTH = 10"

definition sqlite3BitvecSet ::
  "(nat \<Rightarrow> bool) \<Rightarrow> nat \<Rightarrow> bitvec option \<Rightarrow> nat \<Rightarrow> (rc \<times> bitvec option \<times> nat) option" where
  "sqlite3BitvecSet orc k p i =
     (case p of None \<Rightarrow> Some (SQLITE_OK, None, k)
      | Some p \<Rightarrow> do {
          (rc, p', k') \<leftarrow> bv_set0 BITVEC_DEPTH orc k p (i - 1);
          Some (rc, Some p', k') })"

text \<open>
  \<open>sqlite3BitvecClear\<close>: in the hash representation the table is rebuilt from the copy in
  \<open>pBuf\<close> without the value that is cleared.
\<close>

fun bv_rebuild :: "nat \<Rightarrow> nat list \<Rightarrow> nat list \<Rightarrow> nat \<Rightarrow> (nat list \<times> nat) option" where
  "bv_rebuild skip [] t ns = Some (t, ns)"
| "bv_rebuild skip (v # vs) t ns =
     (if v \<noteq> 0 \<and> v \<noteq> skip then do {
        h \<leftarrow> bv_hash_free BITVEC_NINT t (BITVEC_HASH (v - 1));
        bv_rebuild skip vs (t[h := v]) (ns + 1) }
      else bv_rebuild skip vs t ns)"

fun bv_clear0 :: "bitvec \<Rightarrow> nat \<Rightarrow> bitvec option" where
  "bv_clear0 (Bitvec sz ns dv u) i =
     (if dv \<noteq> 0 then
        (case u of apSub subs \<Rightarrow>
           if i div dv < length subs then
             (case subs ! (i div dv) of None \<Rightarrow> Some (Bitvec sz ns dv u)
              | Some q \<Rightarrow> do {
                  q' \<leftarrow> bv_clear0 q (i mod dv);
                  Some (Bitvec sz ns dv (apSub (subs[i div dv := Some q']))) })
           else None
         | _ \<Rightarrow> None)
      else if sz \<le> BITVEC_NBIT then
        (case u of aBitmap m \<Rightarrow> do {
           e \<leftarrow> rd m (i div BITVEC_SZELEM);
           Some (Bitvec sz ns dv (aBitmap
             (m[i div BITVEC_SZELEM := e AND NOT (push_bit (i mod BITVEC_SZELEM) 1)]))) }
         | _ \<Rightarrow> None)
      else
        (case u of aHash t \<Rightarrow> do {
           (t', ns') \<leftarrow> bv_rebuild (i + 1) t (replicate BITVEC_NINT 0) 0;
           Some (Bitvec sz ns' dv (aHash t')) }
         | _ \<Rightarrow> None))"

declare bv_clear0.simps [simp del]

definition sqlite3BitvecClear :: "bitvec option \<Rightarrow> nat \<Rightarrow> bitvec option option" where
  "sqlite3BitvecClear p i =
     (case p of None \<Rightarrow> Some None | Some p \<Rightarrow> map_option Some (bv_clear0 p (i - 1)))"

definition sqlite3BitvecSize :: "bitvec \<Rightarrow> nat" where
  "sqlite3BitvecSize p = iSize p"

section \<open>Abstraction and invariant\<close>

text \<open>\<open>bv_mem p i\<close>: bit \<open>i + 1\<close> is recorded in \<open>p\<close>.\<close>

fun bv_mem :: "bitvec \<Rightarrow> nat \<Rightarrow> bool" where
  "bv_mem (Bitvec sz ns dv u) i =
     (case u of
        aBitmap m \<Rightarrow> i div 8 < length m \<and> bit (m ! (i div 8)) (i mod 8)
      | aHash t \<Rightarrow> i + 1 \<in> set t
      | apSub subs \<Rightarrow>
          if i div dv < length subs then
            (case subs ! (i div dv) of None \<Rightarrow> False | Some q \<Rightarrow> bv_mem q (i mod dv))
          else False)"

declare bv_mem.simps [simp del]

definition bv_abs :: "bitvec option \<Rightarrow> nat set" where
  "bv_abs p = (case p of None \<Rightarrow> {} | Some p \<Rightarrow> {i. 1 \<le> i \<and> i \<le> iSize p \<and> bv_mem p (i - 1)})"

text \<open>
  \<open>probe t h d\<close> is the slot \<open>d\<close> steps after \<open>h\<close> in the cyclic probe order; a value is
  reachable when no empty slot comes before it.
\<close>

definition probe :: "nat \<Rightarrow> nat \<Rightarrow> nat" where
  "probe h d = (h + d) mod BITVEC_NINT"

definition bv_reach :: "nat list \<Rightarrow> nat \<Rightarrow> nat \<Rightarrow> bool" where
  "bv_reach t h v \<longleftrightarrow>
     (\<exists>d<BITVEC_NINT. t ! probe h d = v \<and> (\<forall>e\<le>d. t ! probe h e \<noteq> 0))"

definition bv_hash_inv :: "nat \<Rightarrow> nat \<Rightarrow> nat list \<Rightarrow> bool" where
  "bv_hash_inv sz ns t \<longleftrightarrow>
     length t = BITVEC_NINT \<and> (\<forall>v\<in>set t. v \<le> sz) \<and>
     (\<forall>v\<in>set t. v \<noteq> 0 \<longrightarrow> bv_reach t (BITVEC_HASH (v - 1)) v) \<and>
     ns = card {j. j < BITVEC_NINT \<and> t ! j \<noteq> 0} \<and> ns < BITVEC_NINT"

definition bv_divisor :: "nat \<Rightarrow> nat" where
  "bv_divisor sz = (sz + BITVEC_NPTR - 1) div BITVEC_NPTR"

fun bv_wf :: "bitvec \<Rightarrow> bool" where
  "bv_wf (Bitvec sz ns dv u) =
     (case u of
        aBitmap m \<Rightarrow> sz \<le> BITVEC_NBIT \<and> dv = 0 \<and> length m = BITVEC_NELEM
      | aHash t \<Rightarrow> sz > BITVEC_NBIT \<and> dv = 0 \<and> bv_hash_inv sz ns t
      | apSub subs \<Rightarrow> sz > BITVEC_NBIT \<and> dv = bv_divisor sz \<and> length subs = BITVEC_NPTR \<and>
          list_all (\<lambda>s. case s of None \<Rightarrow> True | Some q \<Rightarrow> iSize q = dv \<and> bv_wf q) subs)"

declare bv_wf.simps [simp del]

lemmas bv_wf_apSub = bv_wf.simps [of _ _ _ "apSub _", simplified]

section \<open>The hash table\<close>

lemma probe_0: "h < BITVEC_NINT \<Longrightarrow> probe h 0 = h"
  by (simp add: probe_def)

lemma probe_Suc: "probe (probe h (Suc 0)) d = probe h (Suc d)"
  by (simp add: probe_def mod_simps)

lemma probe_less: "probe h d < BITVEC_NINT"
  by (simp add: probe_def)

lemma next_slot: "h < BITVEC_NINT \<Longrightarrow> (if h + 1 \<ge> BITVEC_NINT then 0 else h + 1) = probe h (Suc 0)"
  by (cases "h = BITVEC_NINT - 1") (auto simp: probe_def)

lemma probe_onto: "h < BITVEC_NINT \<Longrightarrow> z < BITVEC_NINT \<Longrightarrow> \<exists>d<BITVEC_NINT. probe h d = z"
proof -
  assume h: "h < BITVEC_NINT" and z: "z < BITVEC_NINT"
  show ?thesis
  proof (cases "h \<le> z")
    case True
    with z have "probe h (z - h) = z" by (simp add: probe_def)
    with z show ?thesis by (intro exI [of _ "z - h"]) simp
  next
    case False
    with h z have "h + (BITVEC_NINT + z - h) = BITVEC_NINT + z" by simp
    then have "probe h (BITVEC_NINT + z - h) = z" using z unfolding probe_def by simp
    with False h show ?thesis by (intro exI [of _ "BITVEC_NINT + z - h"]) simp
  qed
qed

text \<open>\<open>bv_run t h d\<close>: the probe sequence from \<open>h\<close> meets its first empty slot after \<open>d\<close> steps.\<close>

definition bv_run :: "nat list \<Rightarrow> nat \<Rightarrow> nat \<Rightarrow> bool" where
  "bv_run t h d \<longleftrightarrow> d < BITVEC_NINT \<and> t ! probe h d = 0 \<and> (\<forall>e<d. t ! probe h e \<noteq> 0)"

lemma bv_run_exists:
  assumes "h < BITVEC_NINT" and "z < BITVEC_NINT" and "t ! z = 0"
  shows "\<exists>d. bv_run t h d"
proof -
  obtain d where d: "d < BITVEC_NINT" "probe h d = z" using probe_onto assms by blast
  define m where "m = (LEAST d. t ! probe h d = 0)"
  have "t ! probe h m = 0" unfolding m_def using d assms(3) LeastI [of "\<lambda>d. t ! probe h d = 0" d] by simp
  moreover have "m \<le> d" unfolding m_def using d assms(3) Least_le [of "\<lambda>d. t ! probe h d = 0" d] by simp
  moreover have "\<forall>e<m. t ! probe h e \<noteq> 0" unfolding m_def by (auto dest: not_less_Least)
  ultimately show ?thesis using d by (auto simp: bv_run_def intro!: exI [of _ m])
qed

lemma bv_run_step:
  "bv_run t h (Suc d) \<Longrightarrow> h < BITVEC_NINT \<Longrightarrow> t ! h \<noteq> 0 \<and> bv_run t (probe h (Suc 0)) d"
proof -
  assume r: "bv_run t h (Suc d)" and h: "h < BITVEC_NINT"
  then have "t ! probe h 0 \<noteq> 0" by (simp add: bv_run_def)
  moreover have "bv_run t (probe h (Suc 0)) d"
    using r by (simp add: bv_run_def probe_Suc)
  ultimately show ?thesis using h by (simp add: probe_0)
qed

lemma bv_hash_test_run:
  assumes "bv_run t h d" and "h < BITVEC_NINT" and "d < f" and "i \<noteq> 0"
  shows "bv_hash_test f t h i = Some (\<exists>e<d. t ! probe h e = i)"
  using assms
proof (induction f arbitrary: h d)
  case (Suc f)
  show ?case
  proof (cases d)
    case 0
    with Suc.prems have "t ! h = 0" by (simp add: bv_run_def probe_0)
    with 0 show ?thesis by simp
  next
    case (Suc d')
    have s: "t ! h \<noteq> 0" "bv_run t (probe h (Suc 0)) d'"
      using bv_run_step Suc.prems Suc by blast+
    have "(\<exists>e<Suc d'. t ! probe h e = i) \<longleftrightarrow> t ! h = i \<or> (\<exists>e<d'. t ! probe (probe h (Suc 0)) e = i)"
      using Suc.prems(2) by (auto simp: probe_Suc probe_0 less_Suc_eq_0_disj)
    moreover have "bv_hash_test f t (probe h (Suc 0)) i = Some (\<exists>e<d'. t ! probe (probe h (Suc 0)) e = i)"
      using Suc.IH [OF s(2) probe_less] Suc.prems Suc by simp
    ultimately show ?thesis using s Suc by (simp add: probe_def)
  qed
qed simp

lemma bv_hash_free_run:
  assumes "bv_run t h d" and "h < BITVEC_NINT" and "d < f"
  shows "bv_hash_free f t h = Some (probe h d)"
  using assms
proof (induction f arbitrary: h d)
  case (Suc f)
  show ?case
  proof (cases d)
    case 0
    with Suc.prems show ?thesis by (simp add: bv_run_def probe_0)
  next
    case (Suc d')
    have s: "t ! h \<noteq> 0" "bv_run t (probe h (Suc 0)) d'"
      using bv_run_step Suc.prems Suc by blast+
    then show ?thesis
      using Suc.IH [OF s(2) probe_less] Suc.prems Suc next_slot [OF Suc.prems(2)]
      by (simp add: probe_Suc)
  qed
qed simp

lemma bv_hash_probe_run:
  assumes "bv_run t h (Suc d)" and "h < BITVEC_NINT" and "d < f" and "i \<noteq> 0"
  shows "bv_hash_probe f t h i =
    Some (if \<exists>e<Suc d. t ! probe h e = i then None else Some (probe h (Suc d)))"
  using assms
proof (induction f arbitrary: h d)
  case (Suc f)
  have s: "t ! h \<noteq> 0" "bv_run t (probe h (Suc 0)) d"
    using bv_run_step Suc.prems by blast+
  have split: "(\<exists>e<Suc d. t ! probe h e = i) \<longleftrightarrow> t ! h = i \<or> (\<exists>e<d. t ! probe (probe h (Suc 0)) e = i)"
    using Suc.prems(2) by (auto simp: probe_Suc probe_0 less_Suc_eq_0_disj)
  show ?case
  proof (cases d)
    case 0
    with s have "t ! probe h (Suc 0) = 0" by (simp add: bv_run_def probe_def)
    with 0 split next_slot [OF Suc.prems(2)] show ?thesis by (simp add: Let_def)
  next
    case (Suc d')
    then have "t ! probe h (Suc 0) \<noteq> 0"
      using s(2) bv_run_step [of t "probe h (Suc 0)"] probe_less by blast
    then show ?thesis
      using Suc.IH [of "probe h (Suc 0)" d'] Suc.prems Suc s split next_slot [OF Suc.prems(2)] probe_less
      by (auto simp: Let_def probe_Suc)
  qed
qed simp

lemma bv_reach_run: "bv_run t h d \<Longrightarrow> bv_reach t h v \<longleftrightarrow> v \<noteq> 0 \<and> (\<exists>e<d. t ! probe h e = v)"
proof -
  assume r: "bv_run t h d"
  have "bv_reach t h v \<Longrightarrow> \<exists>e<d. t ! probe h e = v"
    using r unfolding bv_reach_def bv_run_def by (metis linorder_not_less)
  moreover have "\<exists>e<d. t ! probe h e = v \<Longrightarrow> bv_reach t h v"
    using r unfolding bv_reach_def bv_run_def by (metis less_trans order.strict_trans1)
  moreover have "bv_reach t h v \<Longrightarrow> v \<noteq> 0" by (auto simp: bv_reach_def)
  ultimately show ?thesis by blast
qed

lemma bv_hash_inv_run:
  assumes "bv_hash_inv sz ns t" and "h < BITVEC_NINT"
  shows "\<exists>d. bv_run t h d"
proof -
  have "\<exists>z<BITVEC_NINT. t ! z = 0"
  proof (rule ccontr)
    assume "\<not> ?thesis"
    then have "{j. j < BITVEC_NINT \<and> t ! j \<noteq> 0} = {..<BITVEC_NINT}" by auto
    with assms show False by (auto simp: bv_hash_inv_def)
  qed
  with assms(2) show ?thesis using bv_run_exists by blast
qed

lemma bv_hash_inv_mem:
  assumes "bv_hash_inv sz ns t" and "bv_run t (BITVEC_HASH i) d"
  shows "i + 1 \<in> set t \<longleftrightarrow> (\<exists>e<d. t ! probe (BITVEC_HASH i) e = i + 1)"
proof
  assume "i + 1 \<in> set t"
  with assms(1) have "bv_reach t (BITVEC_HASH i) (i + 1)"
    unfolding bv_hash_inv_def by (metis add_diff_cancel_right' add_eq_0_iff_both_eq_0 one_neq_zero)
  with assms(2) show "\<exists>e<d. t ! probe (BITVEC_HASH i) e = i + 1" by (simp add: bv_reach_run)
next
  assume "\<exists>e<d. t ! probe (BITVEC_HASH i) e = i + 1"
  then show "i + 1 \<in> set t"
    using assms(1) probe_less unfolding bv_hash_inv_def by (metis nth_mem)
qed

lemma hash_less [simp]: "BITVEC_HASH i < 124"
  by (simp add: BITVEC_HASH_def)

lemma bv_hash_test_inv:
  assumes "bv_hash_inv sz ns t"
  shows "bv_hash_test BITVEC_NINT t (BITVEC_HASH i) (i + 1) = Some (i + 1 \<in> set t)"
proof -
  obtain d where d: "bv_run t (BITVEC_HASH i) d" using bv_hash_inv_run [OF assms, of "BITVEC_HASH i"] by auto
  then show ?thesis
    using bv_hash_test_run [OF d, of BITVEC_NINT "i + 1"] bv_hash_inv_mem [OF assms d]
    by (simp add: bv_run_def)
qed

text \<open>Storing a value in the first empty slot of its probe sequence keeps the table valid.\<close>

lemma set_update_zero: "s < length t \<Longrightarrow> t ! s = 0 \<Longrightarrow> set (t[s := v]) - {0} = insert v (set t) - {0::nat}"
proof -
  assume s: "s < length t" and z: "t ! s = 0"
  have "x \<in> set (t[s := v])" if "x \<in> set t" "x \<noteq> 0" for x
  proof -
    from that(1) obtain j where j: "j < length t" "t ! j = x" by (auto simp: in_set_conv_nth)
    with z that(2) have "t[s := v] ! j = x" by (cases "j = s") auto
    with j show ?thesis by (metis length_list_update nth_mem)
  qed
  moreover have "v \<in> set (t[s := v])" using s by (rule set_update_memI)
  ultimately show ?thesis using set_update_subset_insert [of t s v] by auto
qed

lemma bv_hash_insert:
  assumes inv: "bv_hash_inv sz ns t" and run: "bv_run t (BITVEC_HASH (v - 1)) d"
    and v: "v \<noteq> 0" "v \<le> sz" and ns: "ns < BITVEC_NINT - 1"
  shows "bv_hash_inv sz (ns + 1) (t[probe (BITVEC_HASH (v - 1)) d := v])"
    and "set (t[probe (BITVEC_HASH (v - 1)) d := v]) - {0} = insert v (set t) - {0}"
proof -
  let ?h = "BITVEC_HASH (v - 1)"
  let ?s = "probe ?h d"
  let ?t = "t[?s := v]"
  have len: "length t = BITVEC_NINT" and s: "?s < length t" and z: "t ! ?s = 0"
    using inv run probe_less by (auto simp: bv_hash_inv_def bv_run_def)
  show st: "set ?t - {0} = insert v (set t) - {0}" using s z by (rule set_update_zero)
  have keep: "t ! j \<noteq> 0 \<Longrightarrow> ?t ! j = t ! j" for j using z by (cases "j = ?s") auto
  have mono: "bv_reach ?t h w" if r: "bv_reach t h w" for h w
  proof -
    from r obtain d' where d': "d' < BITVEC_NINT" "t ! probe h d' = w" "\<forall>e\<le>d'. t ! probe h e \<noteq> 0"
      unfolding bv_reach_def by blast
    then have "\<forall>e\<le>d'. ?t ! probe h e = t ! probe h e" using keep by blast
    with d' show ?thesis unfolding bv_reach_def by (intro exI [of _ d']) simp
  qed
  have new: "bv_reach ?t ?h v"
  proof -
    have "?t ! probe ?h e \<noteq> 0" if "e \<le> d" for e
      using that run s v(1) by (auto simp: bv_run_def nth_list_update le_less)
    then show ?thesis using run s unfolding bv_reach_def bv_run_def by auto
  qed
  have "bv_reach ?t (BITVEC_HASH (w - 1)) w" if "w \<in> set ?t" "w \<noteq> 0" for w
  proof (cases "w = v")
    case False
    with that st have "w \<in> set t" by auto
    with inv that(2) mono show ?thesis by (simp add: bv_hash_inv_def)
  qed (use new in simp)
  moreover have "\<forall>w\<in>set ?t. w \<le> sz"
    using inv v(2) set_update_subset_insert [of t ?s v] by (auto simp: bv_hash_inv_def)
  moreover have "{j. j < BITVEC_NINT \<and> ?t ! j \<noteq> 0} = insert ?s {j. j < BITVEC_NINT \<and> t ! j \<noteq> 0}"
    using s len v(1) by (auto simp: nth_list_update)
  then have "card {j. j < BITVEC_NINT \<and> ?t ! j \<noteq> 0} = ns + 1"
    using inv z by (simp add: bv_hash_inv_def)
  ultimately show "bv_hash_inv sz (ns + 1) ?t"
    using len ns by (simp add: bv_hash_inv_def)
qed

lemma bv_hash_empty: "bv_hash_inv sz 0 (replicate BITVEC_NINT 0)"
  by (auto simp: bv_hash_inv_def)

section \<open>Bits within a byte of the bitmap\<close>

lemma bit_set_bit: "n < 8 \<Longrightarrow> bit ((e::u8) OR push_bit n 1) m \<longleftrightarrow> bit e m \<or> m = n"
  by (auto simp: bit_simps push_bit_of_1)

lemma bit_clear_bit: "n < 8 \<Longrightarrow> m < 8 \<Longrightarrow> bit ((e::u8) AND NOT (push_bit n 1)) m \<longleftrightarrow> bit e m \<and> m \<noteq> n"
  by (auto simp: bit_simps push_bit_of_1)

lemma eq_iff_div_mod: "(i::nat) = j \<longleftrightarrow> i div n = j div n \<and> i mod n = j mod n"
  by (metis div_mod_decomp)

section \<open>Correctness\<close>

lemma bv_wf_bitmap [simp]: "bv_wf (Bitvec sz ns dv (aBitmap m)) \<longleftrightarrow> sz \<le> 3968 \<and> dv = 0 \<and> length m = 496"
  and bv_wf_hash [simp]: "bv_wf (Bitvec sz ns dv (aHash t)) \<longleftrightarrow> 3968 < sz \<and> dv = 0 \<and> bv_hash_inv sz ns t"
  by (simp_all add: bv_wf.simps)

lemma bv_wf_sub: "bv_wf (Bitvec sz ns dv (apSub subs)) \<longleftrightarrow> 3968 < sz \<and> dv = bv_divisor sz \<and>
    length subs = 62 \<and> (\<forall>j<62. \<forall>q. subs ! j = Some q \<longrightarrow> iSize q = dv \<and> bv_wf q)"
  by (auto simp: bv_wf.simps list_all_length split: option.splits)

lemma bv_divisor_pos: "0 < sz \<Longrightarrow> 0 < bv_divisor sz"
  by (simp add: bv_divisor_def)

lemma bv_bin_less: "i < sz \<Longrightarrow> i div bv_divisor sz < 62"
  unfolding bv_divisor_def by (rule less_mult_imp_div_less) simp

lemma bv_zero_wf: "bv_wf (bitvec_zero sz)" and bv_zero_mem: "\<not> bv_mem (bitvec_zero sz) j"
  and bv_zero_size [simp]: "iSize (bitvec_zero sz) = sz"
  using bv_hash_empty [of sz] by (auto simp: bitvec_zero_def bv_mem.simps)

lemma bv_test0_correct: "bv_wf p \<Longrightarrow> i < iSize p \<Longrightarrow> bv_test0 p i = Some (bv_mem p i)"
proof (induction p i rule: bv_test0.induct)
  case (1 sz ns dv u i)
  show ?case
  proof (cases u)
    case (aBitmap m)
    with 1 have "i < 496 * 8" "length m = 496" by simp_all
    then have "i div 8 < length m" by (simp add: less_mult_imp_div_less)
    with aBitmap 1 show ?thesis
      by (simp add: bv_test0.simps bv_mem.simps rd_in_range and_exp_eq_0_iff_not_bit)
  next
    case (aHash t)
    with 1 show ?thesis
      using bv_hash_test_inv [of sz ns t i] by (simp add: bv_test0.simps bv_mem.simps)
  next
    case (apSub subs)
    with 1 have wf: "3968 < sz" "dv = bv_divisor sz" "length subs = 62"
      "\<forall>j<62. \<forall>q. subs ! j = Some q \<longrightarrow> iSize q = dv \<and> bv_wf q" by (simp_all add: bv_wf_sub)
    have dv: "0 < dv" "i div dv < 62" using wf 1 bv_divisor_pos bv_bin_less by auto
    show ?thesis
    proof (cases "subs ! (i div dv)")
      case None
      with apSub dv wf(3) show ?thesis by (simp add: bv_test0.simps bv_mem.simps)
    next
      case (Some q)
      with wf dv have "iSize q = dv" "bv_wf q" by auto
      then have "bv_test0 q (i mod dv) = Some (bv_mem q (i mod dv))"
        using 1(1) apSub dv wf(3) Some by simp
      with Some apSub dv wf(3) show ?thesis by (simp add: bv_test0.simps bv_mem.simps)
    qed
  qed
qed

text \<open>
  What an update of one sub-bitmap or of one bit means for the whole: \<open>bv_step ok p i p'\<close> says
  that \<open>p'\<close> is well formed, has the size of \<open>p\<close>, holds nothing but the bits of \<open>p\<close> and
  \<open>i\<close>, and holds all of them when \<open>ok\<close>.
\<close>

definition bv_step :: "bool \<Rightarrow> bitvec \<Rightarrow> nat set \<Rightarrow> bitvec \<Rightarrow> bool" where
  "bv_step ok p S p' \<longleftrightarrow> bv_wf p' \<and> iSize p' = iSize p \<and>
     (\<forall>j. bv_mem p' j \<longrightarrow> bv_mem p j \<or> j \<in> S) \<and>
     (ok \<longrightarrow> (\<forall>j. bv_mem p j \<or> j \<in> S \<longrightarrow> bv_mem p' j))"

lemma bv_step_refl: "bv_wf p \<Longrightarrow> S \<subseteq> {j. bv_mem p j} \<or> \<not> ok \<Longrightarrow> bv_step ok p S p"
  by (auto simp: bv_step_def)

lemma bv_step_trans:
  "bv_step ok p S p' \<Longrightarrow> bv_step ok' p' S' p'' \<Longrightarrow> bv_step (ok \<and> ok') p (S \<union> S') p''"
  by (auto simp: bv_step_def)

lemma bv_step_sub:
  assumes wf: "bv_wf (Bitvec sz ns dv (apSub subs))" and i: "i < sz"
    and old: "subs ! (i div dv) = Some q \<or> subs ! (i div dv) = None \<and> (\<forall>j. \<not> bv_mem q j)"
    and size: "iSize q = dv" and step: "bv_step ok q {i mod dv} q'"
  shows "bv_step ok (Bitvec sz ns dv (apSub subs)) {i}
     (Bitvec sz ns dv (apSub (subs[i div dv := Some q'])))"
proof -
  have w: "3968 < sz" "dv = bv_divisor sz" "length subs = 62" "0 < dv" "i div dv < 62"
    using wf i bv_divisor_pos bv_bin_less by (auto simp: bv_wf_sub)
  have q': "bv_wf q'" "iSize q' = dv" using step size by (simp_all add: bv_step_def)
  have "bv_wf (Bitvec sz ns dv (apSub (subs[i div dv := Some q'])))"
    using wf q' w by (auto simp: bv_wf_sub nth_list_update split: if_splits)
  moreover have oldmem: "bv_mem (Bitvec sz ns dv (apSub subs)) j \<longleftrightarrow> bv_mem q (j mod dv)"
    if "j div dv = i div dv" for j
    using that old w by (auto simp: bv_mem.simps)
  moreover have newmem: "bv_mem (Bitvec sz ns dv (apSub (subs[i div dv := Some q']))) j \<longleftrightarrow>
      (if j div dv = i div dv then bv_mem q' (j mod dv) else bv_mem (Bitvec sz ns dv (apSub subs)) j)" for j
    using w by (auto simp: bv_mem.simps nth_list_update)
  moreover have "j div dv = i div dv \<Longrightarrow> j mod dv = i mod dv \<longleftrightarrow> j = i" for j
    using eq_iff_div_mod [of j i dv] by blast
  ultimately show ?thesis using step by (auto simp: bv_step_def)
qed

lemma bv_step_bitmap:
  assumes "bv_wf (Bitvec sz ns dv (aBitmap m))" and "i < sz"
  shows "bv_step ok (Bitvec sz ns dv (aBitmap m)) {i}
    (Bitvec sz ns dv (aBitmap (m[i div 8 := (m ! (i div 8)) OR push_bit (i mod 8) 1])))"
proof -
  have "i < 496 * 8" using assms by simp
  then have "i div 8 < length m" using assms by (simp add: less_mult_imp_div_less)
  then have "bv_mem (Bitvec sz ns dv (aBitmap (m[i div 8 := (m ! (i div 8)) OR push_bit (i mod 8) 1]))) j
      \<longleftrightarrow> bv_mem (Bitvec sz ns dv (aBitmap m)) j \<or> j = i" for j
    by (cases "j div 8 = i div 8")
      (auto simp: bv_mem.simps bit_set_bit eq_iff_div_mod [of j i 8] simp del: push_bit_of_1)
  then show ?thesis
    using assms by (simp add: bv_step_def)
qed

lemma bv_step_hash:
  assumes wf: "bv_wf (Bitvec sz ns dv (aHash t))" and "i < sz" and "ns < BITVEC_NINT - 1"
    and "bv_run t (BITVEC_HASH i) d"
  shows "bv_step ok (Bitvec sz ns dv (aHash t)) {i}
    (Bitvec sz (ns + 1) dv (aHash (t[probe (BITVEC_HASH i) d := i + 1])))"
proof -
  have "bv_hash_inv sz ns t" using wf by simp
  from bv_hash_insert [OF this, of "i + 1" d] assms
  have "bv_hash_inv sz (ns + 1) (t[probe (BITVEC_HASH i) d := i + 1])"
    and st: "set (t[probe (BITVEC_HASH i) d := i + 1]) - {0} = insert (i + 1) (set t) - {0}"
    by simp_all
  moreover have "j + 1 \<in> set (t[probe (BITVEC_HASH i) d := i + 1]) \<longleftrightarrow> j = i \<or> j + 1 \<in> set t" for j
    using st by (auto simp: set_eq_iff)
  ultimately show ?thesis using wf by (auto simp: bv_step_def bv_mem.simps)
qed

lemma bv_empty_sub_wf: "3968 < sz \<Longrightarrow> bv_wf (Bitvec sz ns (bv_divisor sz) (apSub (replicate 62 None)))"
  and bv_empty_sub_mem: "\<not> bv_mem (Bitvec sz ns dv (apSub (replicate 62 None))) j"
  by (auto simp: bv_wf_sub bv_mem.simps)

text \<open>
  The contract of one insertion, for any fuel: if it returns, the code is \<open>SQLITE_OK\<close> or
  \<open>SQLITE_NOMEM\<close>, the bitmap stays well formed, no stray bit appears, and on \<open>SQLITE_OK\<close> all
  bits are there. Without an allocation failure the code is \<open>SQLITE_OK\<close>.
\<close>

definition bv_set_post :: "(nat \<Rightarrow> bool) \<Rightarrow> bitvec \<Rightarrow> nat set \<Rightarrow> rc \<Rightarrow> bitvec \<Rightarrow> bool" where
  "bv_set_post orc p S rc p' \<longleftrightarrow> rc \<in> {SQLITE_OK, SQLITE_NOMEM} \<and>
     ((\<forall>j. orc j) \<longrightarrow> rc = SQLITE_OK) \<and> bv_step (rc = SQLITE_OK) p S p'"

definition bv_set_ok :: "nat \<Rightarrow> bool" where
  "bv_set_ok fuel \<longleftrightarrow> (\<forall>orc k p i rc p' k'. bv_wf p \<longrightarrow> i < iSize p \<longrightarrow>
     bv_set0 fuel orc k p i = Some (rc, p', k') \<longrightarrow> bv_set_post orc p {i} rc p')"

lemma bv_set_okD:
  "bv_set_ok fuel \<Longrightarrow> bv_wf p \<Longrightarrow> i < iSize p \<Longrightarrow> bv_set0 fuel orc k p i = Some (rc, p', k') \<Longrightarrow>
     bv_set_post orc p {i} rc p'"
  unfolding bv_set_ok_def by blast

lemma bv_reinsert_post:
  assumes "bv_set_ok fuel"
  shows "bv_wf p \<Longrightarrow> \<forall>v\<in>set vs. v \<le> iSize p \<Longrightarrow> rc0 \<in> {SQLITE_OK, SQLITE_NOMEM} \<Longrightarrow>
     bv_reinsert fuel orc k rc0 p vs = Some (rc, p', k') \<Longrightarrow>
     rc \<in> {SQLITE_OK, SQLITE_NOMEM} \<and> (rc = SQLITE_OK \<longrightarrow> rc0 = SQLITE_OK) \<and>
     ((\<forall>j. orc j) \<longrightarrow> rc0 = SQLITE_OK \<longrightarrow> rc = SQLITE_OK) \<and>
     bv_step (rc = SQLITE_OK) p {j. j + 1 \<in> set vs} p'"
proof (induction vs arbitrary: k rc0 p)
  case Nil
  then show ?case by (auto simp: bv_step_def)
next
  case (Cons v vs)
  show ?case
  proof (cases "v = 0")
    case True
    then have e: "{j. j + 1 \<in> set (v # vs)} = {j. j + 1 \<in> set vs}" by auto
    show ?thesis using Cons.IH [of p rc0 k] Cons.prems True unfolding e by simp
  next
    case False
    with Cons.prems obtain rc1 p1 k1 where
      1: "bv_set0 fuel orc k p (v - 1) = Some (rc1, p1, k1)" and
      2: "bv_reinsert fuel orc k1 (rc_or rc0 rc1) p1 vs = Some (rc, p', k')"
      by (auto split: Option.bind_splits)
    have "v - 1 < iSize p" using False Cons.prems(2) by (simp add: Suc_le_lessD)
    then have post: "bv_set_post orc p {v - 1} rc1 p1"
      using bv_set_okD [OF assms Cons.prems(1) _ 1] by blast
    then have "bv_wf p1" "iSize p1 = iSize p" "rc_or rc0 rc1 \<in> {SQLITE_OK, SQLITE_NOMEM}"
      using Cons.prems(3) by (auto simp: bv_set_post_def bv_step_def rc_or_def)
    from Cons.IH [OF this(1) _ this(3) 2] Cons.prems(2) this(2)
    have rest: "rc \<in> {SQLITE_OK, SQLITE_NOMEM}" "rc = SQLITE_OK \<longrightarrow> rc_or rc0 rc1 = SQLITE_OK"
      "bv_step (rc = SQLITE_OK) p1 {j. j + 1 \<in> set vs} p'" by auto
    have ok: "rc = SQLITE_OK \<Longrightarrow> rc0 = SQLITE_OK \<and> rc1 = SQLITE_OK"
      using rest(2) by (auto simp: rc_or_def split: if_splits)
    have avail: "(\<forall>j. orc j) \<Longrightarrow> rc0 = SQLITE_OK \<Longrightarrow> rc = SQLITE_OK"
      using post Cons.IH [OF \<open>bv_wf p1\<close> _ \<open>rc_or rc0 rc1 \<in> _\<close> 2] Cons.prems(2) \<open>iSize p1 = iSize p\<close>
      by (auto simp: bv_set_post_def rc_or_def)
    from post have "bv_step (rc1 = SQLITE_OK) p {v - 1} p1" by (simp add: bv_set_post_def)
    from bv_step_trans [OF this rest(3)]
    have "bv_step (rc1 = SQLITE_OK \<and> rc = SQLITE_OK) p ({v - 1} \<union> {j. j + 1 \<in> set vs}) p'" .
    moreover have "{v - 1} \<union> {j. j + 1 \<in> set vs} = {j. j + 1 \<in> set (v # vs)}"
      using False by auto
    ultimately show ?thesis using rest(1) ok avail by (auto simp: bv_step_def)
  qed
qed

lemma bv_set0_bitmap:
  assumes wf: "bv_wf (Bitvec sz ns dv (aBitmap m))" and i: "i < sz"
    and ret: "bv_set0 (Suc fuel) orc k (Bitvec sz ns dv (aBitmap m)) i = Some (rc, p', k')"
  shows "bv_set_post orc (Bitvec sz ns dv (aBitmap m)) {i} rc p'"
proof -
  have "i < 496 * 8" "length m = 496" using wf i by simp_all
  then have "i div 8 < length m" by (simp add: less_mult_imp_div_less)
  with wf i ret show ?thesis
    using bv_step_bitmap [of sz ns dv m i]
    by (auto simp: bv_set_post_def rd_in_range simp del: push_bit_of_1)
qed

lemma bv_set0_sub:
  assumes ok: "bv_set_ok fuel" and wf: "bv_wf (Bitvec sz ns dv (apSub subs))" and i: "i < sz"
    and ret: "bv_set0 (Suc fuel) orc k (Bitvec sz ns dv (apSub subs)) i = Some (rc, p', k')"
  shows "bv_set_post orc (Bitvec sz ns dv (apSub subs)) {i} rc p'"
proof -
  have w: "3968 < sz" "dv = bv_divisor sz" "length subs = 62" "0 < dv" "i div dv < 62"
    "\<forall>j<62. \<forall>q. subs ! j = Some q \<longrightarrow> iSize q = dv \<and> bv_wf q"
    using wf i bv_divisor_pos bv_bin_less by (auto simp: bv_wf_sub)
  have rd: "rd subs (i div dv) = Some (subs ! (i div dv))" using w by (simp add: rd_in_range)
  have into: "bv_set_post orc (Bitvec sz ns dv (apSub subs)) {i} rc p'"
    if q: "subs ! (i div dv) = Some q \<or> subs ! (i div dv) = None \<and> q = bitvec_zero dv"
      and r: "bv_set0 fuel orc k1 q (i mod dv) = Some (rc, q', k')"
      and p': "p' = Bitvec sz ns dv (apSub (subs[i div dv := Some q']))" for q q' k1
  proof -
    have "bv_wf q" "iSize q = dv" using q w bv_zero_wf by auto
    with bv_set_okD [OF ok _ _ r] w(4) have "bv_set_post orc q {i mod dv} rc q'" by simp
    then show ?thesis
      using bv_step_sub [OF wf i _ \<open>iSize q = dv\<close>, of "rc = SQLITE_OK" q'] q p' bv_zero_mem
      by (auto simp: bv_set_post_def)
  qed
  show ?thesis
  proof (cases "subs ! (i div dv)")
    case (Some q)
    with ret w(1,4) rd obtain q' where "bv_set0 fuel orc k q (i mod dv) = Some (rc, q', k')"
      and "p' = Bitvec sz ns dv (apSub (subs[i div dv := Some q']))"
      by (auto split: Option.bind_splits)
    with Some show ?thesis by (intro into) auto
  next
    case None
    show ?thesis
    proof (cases "orc k")
      case True
      with None ret w(1,4) rd obtain q' where
        "bv_set0 fuel orc (Suc k) (bitvec_zero dv) (i mod dv) = Some (rc, q', k')"
        and "p' = Bitvec sz ns dv (apSub (subs[i div dv := Some q']))"
        by (auto simp: sqlite3BitvecCreate_def split: Option.bind_splits)
      with None show ?thesis by (intro into) auto
    next
      case False
      with None ret w rd wf show ?thesis
        by (auto simp: sqlite3BitvecCreate_def bv_set_post_def intro!: bv_step_refl)
    qed
  qed
qed

lemma bv_set0_hash:
  assumes ok: "bv_set_ok fuel" and wf: "bv_wf (Bitvec sz ns dv (aHash t))" and i: "i < sz"
    and ret: "bv_set0 (Suc fuel) orc k (Bitvec sz ns dv (aHash t)) i = Some (rc, p', k')"
  shows "bv_set_post orc (Bitvec sz ns dv (aHash t)) {i} rc p'"
proof -
  let ?p = "Bitvec sz ns dv (aHash t)"
  let ?h = "BITVEC_HASH i"
  let ?sub = "Bitvec sz ns (bv_divisor sz) (apSub (replicate 62 None))"
  have inv: "bv_hash_inv sz ns t" "3968 < sz" "dv = 0" using wf by simp_all
  obtain d where d: "bv_run t ?h d" using bv_hash_inv_run [OF inv(1), of ?h] by auto
  have set_end: "bv_set_post orc ?p {i} SQLITE_OK (Bitvec sz (ns + 1) dv (aHash (t[probe ?h d := i + 1])))"
    if "ns < BITVEC_NINT - 1"
    using bv_step_hash [OF wf i that d] by (simp add: bv_set_post_def)
  have rehash: "bv_set_post orc ?p {i} rc p'"
    if 1: "bv_set0 fuel orc (Suc k) ?sub i = Some (rc1, p1, k1)"
      and 2: "bv_reinsert fuel orc k1 rc1 p1 t = Some (rc, p', k')" for rc1 p1 k1
  proof -
    have swf: "bv_wf ?sub" and smem: "\<And>j. \<not> bv_mem ?sub j"
      using bv_empty_sub_wf [OF inv(2)] bv_empty_sub_mem by simp_all
    from bv_set_okD [OF ok swf _ 1] i have post: "bv_set_post orc ?sub {i} rc1 p1" by simp
    then have p1: "bv_wf p1" "iSize p1 = sz" "rc1 \<in> {SQLITE_OK, SQLITE_NOMEM}"
      by (auto simp: bv_set_post_def bv_step_def)
    have "\<forall>v\<in>set t. v \<le> iSize p1" using inv p1 by (simp add: bv_hash_inv_def)
    note r = bv_reinsert_post [OF ok p1(1) this p1(3) 2]
    have "bv_step (rc1 = SQLITE_OK) ?sub {i} p1" using post by (simp add: bv_set_post_def)
    from bv_step_trans [OF this] r
    have "bv_step (rc1 = SQLITE_OK \<and> rc = SQLITE_OK) ?sub ({i} \<union> {j. j + 1 \<in> set t}) p'" by blast
    moreover have "(\<forall>j. orc j) \<longrightarrow> rc = SQLITE_OK"
      using post r by (auto simp: bv_set_post_def)
    moreover have "bv_mem ?p j \<longleftrightarrow> j + 1 \<in> set t" for j by (simp add: bv_mem.simps)
    ultimately show ?thesis
      using r smem by (auto simp: bv_set_post_def bv_step_def simp del: bv_mem.simps)
  qed
  have full: "bv_set_post orc ?p {i} rc p'"
    if "(if ns \<ge> BITVEC_MXHASH then
          (if \<not> orc k then Some (SQLITE_NOMEM, ?p, Suc k)
           else do { (rc, p', k') \<leftarrow> bv_set0 fuel orc (Suc k) ?sub i; bv_reinsert fuel orc k' rc p' t })
         else Some (SQLITE_OK, Bitvec sz (ns + 1) dv (aHash (t[probe ?h d := i + 1])), k))
       = Some (rc, p', k')"
  proof (cases "ns \<ge> BITVEC_MXHASH \<and> orc k")
    case True
    with that rehash show ?thesis by (auto split: Option.bind_splits)
  next
    case False
    with that set_end wf show ?thesis
      by (auto simp: bv_set_post_def intro: bv_step_refl split: if_splits)
  qed
  show ?thesis
  proof (cases d)
    case 0
    with d have "t ! ?h = 0" "probe ?h d = ?h" by (simp_all add: bv_run_def probe_0)
    moreover have "\<not> ns < BITVEC_NINT - 1 \<Longrightarrow> ns \<ge> BITVEC_MXHASH" by simp
    ultimately show ?thesis
      using ret full set_end inv
      by (cases "ns < BITVEC_NINT - 1") (auto simp: Let_def bv_divisor_def cong: if_cong)
  next
    case (Suc d')
    have nz: "t ! ?h \<noteq> 0" using bv_run_step [of t ?h d'] d Suc by simp
    have pr: "bv_hash_probe BITVEC_NINT t ?h (i + 1) =
      Some (if i + 1 \<in> set t then None else Some (probe ?h d))"
      using bv_hash_probe_run [of t ?h d' BITVEC_NINT "i + 1"] d Suc bv_hash_inv_mem [OF inv(1) d]
      by (simp add: bv_run_def)
    show ?thesis
    proof (cases "i + 1 \<in> set t")
      case True
      with nz pr ret inv wf show ?thesis
        by (auto simp: Let_def bv_set_post_def bv_mem.simps intro!: bv_step_refl)
    next
      case False
      with nz pr ret inv full show ?thesis by (simp add: Let_def bv_divisor_def cong: if_cong)
    qed
  qed
qed

lemma bv_set0_post: "bv_set_ok fuel"
proof (induction fuel)
  case 0
  then show ?case by (simp add: bv_set_ok_def)
next
  case (Suc fuel)
  show ?case
    unfolding bv_set_ok_def
  proof (intro allI impI)
    fix orc k p i rc p' k'
    assume "bv_wf p" "i < iSize p" "bv_set0 (Suc fuel) orc k p i = Some (rc, p', k')"
    moreover obtain sz ns dv u where "p = Bitvec sz ns dv u" by (cases p)
    ultimately show "bv_set_post orc p {i} rc p'"
      using bv_set0_bitmap bv_set0_hash [OF Suc] bv_set0_sub [OF Suc] by (cases u) auto
  qed
qed

text \<open>
  Depth of the recursion: a bitmap whose size is at most \<open>BITVEC_NBIT * 62\<^sup>n\<close> has \<open>n\<close> levels
  of sub-bitmaps, and each level costs one descent and at most one re-insertion.
\<close>

lemma bv_reinsert_total:
  assumes wf: "bv_wf p" "\<forall>v\<in>set vs. v \<le> iSize p"
    and total: "\<And>q i k. bv_wf q \<Longrightarrow> iSize q = iSize p \<Longrightarrow> P q \<Longrightarrow> i < iSize q \<Longrightarrow>
        \<exists>rc q' k'. bv_set0 fuel orc k q i = Some (rc, q', k') \<and> P q'"
    and P: "P p"
  shows "bv_reinsert fuel orc k rc p vs \<noteq> None"
  using wf P total
proof (induction vs arbitrary: k rc p)
  case (Cons v vs)
  show ?case
  proof (cases "v = 0")
    case True
    with Cons.IH [of p k rc] Cons.prems show ?thesis by auto
  next
    case False
    then have i: "v - 1 < iSize p" using Cons.prems(2) by (simp add: Suc_le_lessD)
    obtain rc1 p1 k1 where 1: "bv_set0 fuel orc k p (v - 1) = Some (rc1, p1, k1)" "P p1"
      using Cons.prems(4) [OF Cons.prems(1) refl Cons.prems(3) i] by blast
    have "bv_wf p1" "iSize p1 = iSize p"
      using bv_set_okD [OF bv_set0_post Cons.prems(1) i 1(1)] by (simp_all add: bv_set_post_def bv_step_def)
    then have "bv_reinsert fuel orc k1 (rc_or rc rc1) p1 vs \<noteq> None"
      using Cons.IH [of p1 k1 "rc_or rc rc1"] Cons.prems 1(2) by auto
    with 1 False show ?thesis by simp
  qed
qed simp

definition is_sub :: "bitvec \<Rightarrow> bool" where
  "is_sub p \<longleftrightarrow> (\<exists>subs. un p = apSub subs)"

definition bv_total :: "nat \<Rightarrow> bool" where
  "bv_total n \<longleftrightarrow> (\<forall>fuel orc k p i. bv_wf p \<longrightarrow> i < iSize p \<longrightarrow> iSize p \<le> 3968 * 62 ^ n \<longrightarrow>
     2 * n + 2 \<le> fuel \<longrightarrow> bv_set0 fuel orc k p i \<noteq> None)"

lemma bv_totalD:
  "bv_total n \<Longrightarrow> bv_wf p \<Longrightarrow> i < iSize p \<Longrightarrow> iSize p \<le> 3968 * 62 ^ n \<Longrightarrow> 2 * n + 2 \<le> fuel \<Longrightarrow>
     \<exists>rc p' k'. bv_set0 fuel orc k p i = Some (rc, p', k')"
  unfolding bv_total_def by (metis not_None_eq prod_cases3)

lemma bv_divisor_le: "sz \<le> 3968 * 62 ^ Suc n \<Longrightarrow> bv_divisor sz \<le> 3968 * 62 ^ n"
  unfolding bv_divisor_def by (rule order_trans [OF div_le_mono [of _ "3968 * 62 ^ Suc n + 61"]]) simp_all

lemma bv_set0_sub_total:
  assumes "bv_total n" and wf: "bv_wf p" and i: "i < iSize p" and sz: "iSize p \<le> 3968 * 62 ^ Suc n"
    and fuel: "2 * n + 3 \<le> fuel" and sub: "is_sub p"
  shows "\<exists>rc p' k'. bv_set0 fuel orc k p i = Some (rc, p', k') \<and> is_sub p'"
proof -
  obtain sz ns dv subs where p: "p = Bitvec sz ns dv (apSub subs)"
    using sub by (cases p) (auto simp: is_sub_def)
  obtain f where f: "fuel = Suc f" "2 * n + 2 \<le> f" using fuel by (cases fuel) auto
  have w: "3968 < sz" "dv = bv_divisor sz" "length subs = 62" "0 < dv" "i div dv < 62"
    "\<forall>j<62. \<forall>q. subs ! j = Some q \<longrightarrow> iSize q = dv \<and> bv_wf q"
    using wf i p bv_divisor_pos bv_bin_less by (auto simp: bv_wf_sub)
  have rd: "rd subs (i div dv) = Some (subs ! (i div dv))" using w by (simp add: rd_in_range)
  have dv: "dv \<le> 3968 * 62 ^ n" using sz p w(2) bv_divisor_le by simp
  have inner: "\<exists>rc q' k'. bv_set0 f orc k1 q (i mod dv) = Some (rc, q', k')"
    if "bv_wf q" "iSize q = dv" for q k1
    using bv_totalD [OF assms(1) that(1) _ _ f(2), of "i mod dv" orc k1] that(2) dv w(4) by simp
  show ?thesis
  proof (cases "subs ! (i div dv)")
    case (Some q)
    with w inner [of q k] obtain rc q' k' where "bv_set0 f orc k q (i mod dv) = Some (rc, q', k')"
      by auto
    with Some w rd f p show ?thesis by (simp add: is_sub_def)
  next
    case None
    obtain rc q' k' where "bv_set0 f orc (Suc k) (bitvec_zero dv) (i mod dv) = Some (rc, q', k')"
      using inner [OF bv_zero_wf bv_zero_size, of "Suc k"] by blast
    with None w rd f p show ?thesis
      by (cases "orc k") (simp_all add: is_sub_def sqlite3BitvecCreate_def)
  qed
qed

lemma bv_set0_hash_total:
  assumes "bv_total n" and wf: "bv_wf (Bitvec sz ns dv (aHash t))" and i: "i < sz"
    and sz: "sz \<le> 3968 * 62 ^ Suc n" and fuel: "2 * n + 3 \<le> fuel"
  shows "bv_set0 (Suc fuel) orc k (Bitvec sz ns dv (aHash t)) i \<noteq> None"
proof -
  let ?h = "BITVEC_HASH i"
  let ?sub = "Bitvec sz ns (bv_divisor sz) (apSub (replicate 62 None))"
  have inv: "bv_hash_inv sz ns t" "3968 < sz" "dv = 0" using wf by simp_all
  obtain d where d: "bv_run t ?h d" using bv_hash_inv_run [OF inv(1), of ?h] by auto
  have total: "\<exists>rc q' k'. bv_set0 fuel orc k q j = Some (rc, q', k') \<and> is_sub q'"
    if "bv_wf q" "iSize q = sz" "is_sub q" "j < iSize q" for q j k
    using bv_set0_sub_total [OF assms(1) that(1,4) _ fuel that(3)] that(2) sz by simp
  have sub: "bv_wf ?sub" "is_sub ?sub" using bv_empty_sub_wf [OF inv(2)] by (simp_all add: is_sub_def)
  obtain rc1 p1 k1 where 1: "bv_set0 fuel orc (Suc k) ?sub i = Some (rc1, p1, k1)" "is_sub p1"
    using total [OF sub(1) _ sub(2), of i "Suc k"] i by auto
  have p1: "bv_wf p1" "iSize p1 = sz"
    using bv_set_okD [OF bv_set0_post sub(1) _ 1(1)] i by (simp_all add: bv_set_post_def bv_step_def)
  have re: "bv_reinsert fuel orc k1 rc1 p1 t \<noteq> None"
    using bv_reinsert_total [of p1 t is_sub fuel orc, OF p1(1) _ _ 1(2)] total inv p1(2)
    by (simp add: bv_hash_inv_def)
  show ?thesis
  proof (cases d)
    case 0
    with d have "t ! ?h = 0" by (simp add: bv_run_def probe_0)
    with inv 1 re show ?thesis by (auto simp: Let_def bv_divisor_def)
  next
    case (Suc d')
    have nz: "t ! ?h \<noteq> 0" using bv_run_step [of t ?h d'] d Suc by simp
    have pr: "bv_hash_probe BITVEC_NINT t ?h (i + 1) \<noteq> None"
      using bv_hash_probe_run [of t ?h d' BITVEC_NINT "i + 1"] d Suc by (simp add: bv_run_def)
    with nz inv 1 re show ?thesis by (auto simp: Let_def bv_divisor_def split: option.splits)
  qed
qed

lemma bv_set0_bitmap_total:
  assumes "bv_wf (Bitvec sz ns dv (aBitmap m))" and "i < sz"
  shows "bv_set0 (Suc fuel) orc k (Bitvec sz ns dv (aBitmap m)) i \<noteq> None"
proof -
  have "i < 496 * 8" "length m = 496" using assms by simp_all
  then have "i div 8 < length m" by (simp add: less_mult_imp_div_less)
  with assms show ?thesis by (simp add: rd_in_range)
qed

lemma bv_set0_terminates: "bv_total n"
proof (induction n)
  case 0
  show ?case
    unfolding bv_total_def
  proof (intro allI impI)
    fix fuel :: nat and orc k p i
    assume *: "bv_wf p" "i < iSize p" "iSize p \<le> 3968 * 62 ^ 0" "2 * 0 + 2 \<le> fuel"
    moreover obtain sz ns dv u where p: "p = Bitvec sz ns dv u" by (cases p)
    moreover obtain f where "fuel = Suc f" using *(4) by (cases fuel) auto
    ultimately show "bv_set0 fuel orc k p i \<noteq> None"
      using bv_set0_bitmap_total by (cases u) (auto simp: bv_wf_sub)
  qed
next
  case (Suc n)
  show ?case
    unfolding bv_total_def
  proof (intro allI impI)
    fix fuel :: nat and orc k p i
    assume *: "bv_wf p" "i < iSize p" "iSize p \<le> 3968 * 62 ^ Suc n" "2 * Suc n + 2 \<le> fuel"
    obtain sz ns dv u where p: "p = Bitvec sz ns dv u" by (cases p)
    obtain f where f: "fuel = Suc f" "2 * n + 3 \<le> f" using *(4) by (cases fuel) auto
    show "bv_set0 fuel orc k p i \<noteq> None"
    proof (cases u)
      case (aBitmap m)
      with * p f bv_set0_bitmap_total show ?thesis by auto
    next
      case (aHash t)
      with * p f bv_set0_hash_total [OF Suc] show ?thesis by auto
    next
      case (apSub subs)
      then have "is_sub p" using p by (simp add: is_sub_def)
      moreover have "2 * n + 3 \<le> fuel" using *(4) by simp
      ultimately show ?thesis using bv_set0_sub_total [OF Suc *(1-3)] by (metis option.distinct(1))
    qed
  qed
qed

subsection \<open>Clearing\<close>

lemma bv_rebuild_correct:
  assumes "bv_hash_inv sz ns t" and "\<forall>v\<in>set vs. v \<le> sz" 
    and "ns + length (filter (\<lambda>v. v \<noteq> 0) vs) < BITVEC_NINT"
  shows "\<exists>t' ns'. bv_rebuild skip vs t ns = Some (t', ns') \<and> bv_hash_inv sz ns' t' \<and>
     set t' - {0} = (set t \<union> (set vs - {skip})) - {0}"
  using assms
proof (induction vs arbitrary: t ns)
  case (Cons v vs)
  show ?case
  proof (cases "v \<noteq> 0 \<and> v \<noteq> skip")
    case True
    let ?h = "BITVEC_HASH (v - 1)"
    obtain d where d: "bv_run t ?h d" using bv_hash_inv_run [OF Cons.prems(1), of ?h] by auto
    have free: "bv_hash_free BITVEC_NINT t ?h = Some (probe ?h d)"
      using bv_hash_free_run [OF d, of BITVEC_NINT] d by (simp add: bv_run_def)
    have ns: "ns < BITVEC_NINT - 1" using Cons.prems(3) True by auto
    have v: "v \<le> sz" using Cons.prems(2) by simp
    note ins = bv_hash_insert [OF Cons.prems(1) d _ v ns]
    have "\<forall>v\<in>set vs. v \<le> sz" "ns + 1 + length (filter (\<lambda>v. v \<noteq> 0) vs) < BITVEC_NINT"
      using Cons.prems(2,3) True by simp_all
    from Cons.IH [OF ins(1) this] True
    obtain t' ns' where "bv_rebuild skip vs (t[probe ?h d := v]) (ns + 1) = Some (t', ns')"
      "bv_hash_inv sz ns' t'" "set t' - {0} = (set (t[probe ?h d := v]) \<union> (set vs - {skip})) - {0}"
      by blast
    moreover have "(set (t[probe ?h d := v]) \<union> (set vs - {skip})) - {0} = (set t \<union> (set (v # vs) - {skip})) - {0}"
      unfolding Un_Diff ins(2) [OF conjunct1 [OF True]] using True by auto
    ultimately show ?thesis using True free by simp
  next
    case False
    then have "bv_rebuild skip (v # vs) t ns = bv_rebuild skip vs t ns" by auto
    moreover have "\<forall>v\<in>set vs. v \<le> sz" "ns + length (filter (\<lambda>v. v \<noteq> 0) vs) < BITVEC_NINT"
      using Cons.prems(2,3) by (simp_all split: if_splits)
    note Cons.IH [OF Cons.prems(1) this]
    moreover have "(set t \<union> (set (v # vs) - {skip})) - {0} = (set t \<union> (set vs - {skip})) - {0}"
      using False by auto
    ultimately show ?thesis by simp
  qed
qed auto

lemma card_nonzero: "card {j. j < length t \<and> t ! j \<noteq> 0} = length (filter (\<lambda>v. v \<noteq> (0::nat)) t)"
  by (simp add: length_filter_conv_card)

definition bv_cleared :: "bitvec \<Rightarrow> nat \<Rightarrow> bitvec \<Rightarrow> bool" where
  "bv_cleared p i p' \<longleftrightarrow> bv_wf p' \<and> iSize p' = iSize p \<and> (\<forall>j. bv_mem p' j \<longleftrightarrow> bv_mem p j \<and> j \<noteq> i)"

lemma bv_clear0_hash:
  assumes wf: "bv_wf (Bitvec sz ns dv (aHash t))"
  shows "\<exists>p'. bv_clear0 (Bitvec sz ns dv (aHash t)) i = Some p' \<and> bv_cleared (Bitvec sz ns dv (aHash t)) i p'"
proof -
  have inv: "bv_hash_inv sz ns t" using wf by simp
  have "length (filter (\<lambda>v. v \<noteq> 0) t) < BITVEC_NINT"
    using inv card_nonzero [of t] by (simp add: bv_hash_inv_def)
  then obtain t' ns' where r: "bv_rebuild (i + 1) t (replicate BITVEC_NINT 0) 0 = Some (t', ns')"
    "bv_hash_inv sz ns' t'" "set t' - {0} = (set (replicate BITVEC_NINT 0) \<union> (set t - {i + 1})) - {0}"
    using bv_rebuild_correct [OF bv_hash_empty, of t sz "i + 1"] inv by (auto simp: bv_hash_inv_def)
  have "j + 1 \<in> set t' \<longleftrightarrow> j + 1 \<in> set t \<and> j \<noteq> i" for j
    using r(3) by (auto simp: set_eq_iff)
  with r wf show ?thesis by (auto simp: bv_clear0.simps bv_cleared_def bv_mem.simps)
qed

lemma bv_clear0_bitmap:
  assumes wf: "bv_wf (Bitvec sz ns dv (aBitmap m))" and i: "i < sz"
  shows "\<exists>p'. bv_clear0 (Bitvec sz ns dv (aBitmap m)) i = Some p' \<and> bv_cleared (Bitvec sz ns dv (aBitmap m)) i p'"
proof -
  have "i < 496 * 8" using assms by simp
  then have l: "i div 8 < length m" using assms by (simp add: less_mult_imp_div_less)
  then have "bv_mem (Bitvec sz ns dv (aBitmap (m[i div 8 := (m ! (i div 8)) AND NOT (push_bit (i mod 8) 1)]))) j
      \<longleftrightarrow> bv_mem (Bitvec sz ns dv (aBitmap m)) j \<and> j \<noteq> i" for j
    by (cases "j div 8 = i div 8")
      (auto simp: bv_mem.simps bit_clear_bit eq_iff_div_mod [of j i 8] simp del: push_bit_of_1)
  with wf l show ?thesis
    by (simp add: bv_clear0.simps bv_cleared_def rd_in_range del: push_bit_of_1)
qed

lemma bv_clear0_correct:
  "bv_wf p \<Longrightarrow> i < iSize p \<Longrightarrow> \<exists>p'. bv_clear0 p i = Some p' \<and> bv_cleared p i p'"
proof (induction p i rule: bv_clear0.induct)
  case (1 sz ns dv u i)
  show ?case
  proof (cases u)
    case (aBitmap m)
    with 1 bv_clear0_bitmap show ?thesis by simp
  next
    case (aHash t)
    with 1 bv_clear0_hash show ?thesis by simp
  next
    case (apSub subs)
    with 1 have w: "3968 < sz" "dv = bv_divisor sz" "length subs = 62" "0 < dv" "i div dv < 62"
      "\<forall>j<62. \<forall>q. subs ! j = Some q \<longrightarrow> iSize q = dv \<and> bv_wf q"
      using bv_divisor_pos bv_bin_less by (auto simp: bv_wf_sub)
    show ?thesis
    proof (cases "subs ! (i div dv)")
      case None
      then have "\<not> bv_mem (Bitvec sz ns dv u) i" using apSub w by (simp add: bv_mem.simps)
      with None apSub w 1 show ?thesis by (auto simp: bv_clear0.simps bv_cleared_def)
    next
      case (Some q)
      with w have q: "iSize q = dv" "bv_wf q" by auto
      then obtain q' where q': "bv_clear0 q (i mod dv) = Some q'" "bv_cleared q (i mod dv) q'"
        using 1(1) [OF _ apSub _ Some q(2)] w q(1) by auto
      let ?p' = "Bitvec sz ns dv (apSub (subs[i div dv := Some q']))"
      have "bv_wf ?p'"
        using w q q'(2) by (auto simp: bv_wf_sub bv_cleared_def nth_list_update split: if_splits)
      moreover have "bv_mem ?p' j \<longleftrightarrow> bv_mem (Bitvec sz ns dv u) j \<and> j \<noteq> i" for j
        using apSub Some w q'(2) eq_iff_div_mod [of j i dv]
        by (auto simp: bv_mem.simps bv_cleared_def nth_list_update)
      ultimately show ?thesis
        using Some apSub w q'(1) by (simp add: bv_clear0.simps bv_cleared_def)
    qed
  qed
qed

section \<open>The contract: a set of page numbers\<close>

text \<open>
  What pager.c relies on: \<open>test\<close> decides membership in an abstract set of page numbers below a
  fixed bound, \<open>clear\<close> removes a number, and \<open>add\<close> inserts one, unless it reports
  \<open>SQLITE_NOMEM\<close>, when nothing but the new number can have been added.
\<close>

locale page_set =
  fixes invar :: "'s \<Rightarrow> bool"
    and bound :: "'s \<Rightarrow> nat"
    and members :: "'s \<Rightarrow> nat set"
    and test :: "'s \<Rightarrow> nat \<Rightarrow> bool option"
    and add :: "(nat \<Rightarrow> bool) \<Rightarrow> nat \<Rightarrow> 's \<Rightarrow> nat \<Rightarrow> (rc \<times> 's \<times> nat) option"
    and clear :: "'s \<Rightarrow> nat \<Rightarrow> 's option"
  assumes test_members: "invar s \<Longrightarrow> test s i = Some (i \<in> members s)"
    and members_bound: "invar s \<Longrightarrow> members s \<subseteq> {1..bound s}"
    and add_total: "invar s \<Longrightarrow> 1 \<le> i \<Longrightarrow> i \<le> bound s \<Longrightarrow> \<exists>rc s' k'. add orc k s i = Some (rc, s', k')"
    and add_invar: "invar s \<Longrightarrow> 1 \<le> i \<Longrightarrow> i \<le> bound s \<Longrightarrow> add orc k s i = Some (rc, s', k') \<Longrightarrow>
        invar s' \<and> bound s' = bound s \<and> rc \<in> {SQLITE_OK, SQLITE_NOMEM}"
    and add_avail: "invar s \<Longrightarrow> 1 \<le> i \<Longrightarrow> i \<le> bound s \<Longrightarrow> add orc k s i = Some (rc, s', k') \<Longrightarrow> rc \<noteq> SQLITE_OK \<Longrightarrow>
        \<exists>j. \<not> orc j"
    and add_ok: "invar s \<Longrightarrow> 1 \<le> i \<Longrightarrow> i \<le> bound s \<Longrightarrow> add orc k s i = Some (SQLITE_OK, s', k') \<Longrightarrow>
        members s' = insert i (members s)"
    and add_any: "invar s \<Longrightarrow> 1 \<le> i \<Longrightarrow> i \<le> bound s \<Longrightarrow> add orc k s i = Some (rc, s', k') \<Longrightarrow>
        members s' \<subseteq> insert i (members s)"
    and clear_ok: "invar s \<Longrightarrow> 1 \<le> i \<Longrightarrow> i \<le> bound s \<Longrightarrow>
        \<exists>s'. clear s i = Some s' \<and> invar s' \<and> bound s' = bound s \<and> members s' = members s - {i}"
begin

text \<open>A sequence of insertions and removals, stopping at the first failure, as the pager issues them.\<close>

fun run :: "(nat \<Rightarrow> bool) \<Rightarrow> nat \<Rightarrow> 's \<Rightarrow> (bool \<times> nat) list \<Rightarrow> (rc \<times> 's \<times> nat) option" where
  "run orc k s [] = Some (SQLITE_OK, s, k)"
| "run orc k s ((True, i) # ops) = do {
     (rc, s', k') \<leftarrow> add orc k s i;
     if rc = SQLITE_OK then run orc k' s' ops else Some (rc, s', k') }"
| "run orc k s ((False, i) # ops) = do { s' \<leftarrow> clear s i; run orc k s' ops }"

lemma run_correct:
  assumes "invar s" and "\<forall>(b, i)\<in>set ops. 1 \<le> i \<and> i \<le> bound s"
  shows "\<exists>rc s' k'. run orc k s ops = Some (rc, s', k') \<and> invar s' \<and> rc \<in> {SQLITE_OK, SQLITE_NOMEM} \<and>
    (rc = SQLITE_OK \<longrightarrow>
      members s' = fold (\<lambda>(b, i) A. if b then insert i A else A - {i}) ops (members s)) \<and>
    (rc \<noteq> SQLITE_OK \<longrightarrow> (\<exists>j. \<not> orc j) \<and> members s' \<subseteq> members s \<union> {i. (True, i) \<in> set ops})"
  using assms
proof (induction orc k s ops rule: run.induct)
  case (2 orc k s i ops)
  then have i: "1 \<le> i" "i \<le> bound s" by auto
  obtain rc s1 k1 where 1: "add orc k s i = Some (rc, s1, k1)"
    using add_total [OF 2(2) i] by blast
  have inv: "invar s1" "bound s1 = bound s" "rc \<in> {SQLITE_OK, SQLITE_NOMEM}" using add_invar [OF 2(2) i 1] by simp_all
  have sub: "members s1 \<subseteq> insert i (members s)" using add_any [OF 2(2) i 1] .
  show ?case
  proof (cases "rc = SQLITE_OK")
    case True
    with 1 have m: "members s1 = insert i (members s)" using add_ok [OF 2(2) i] by simp
    have "\<forall>(b, i)\<in>set ops. 1 \<le> i \<and> i \<le> bound s1" using 2(3) inv(2) by simp
    from 2(1) [OF 1 refl refl True inv(1) this] obtain rc' s' k' where
      "run orc k1 s1 ops = Some (rc', s', k')" "invar s'" "rc' \<in> {SQLITE_OK, SQLITE_NOMEM}"
      "rc' = SQLITE_OK \<longrightarrow> members s' = fold (\<lambda>(b, i) A. if b then insert i A else A - {i}) ops (members s1)"
      "rc' \<noteq> SQLITE_OK \<longrightarrow> (\<exists>j. \<not> orc j) \<and> members s' \<subseteq> members s1 \<union> {i. (True, i) \<in> set ops}"
      by blast
    with True 1 m show ?thesis by auto
  next
    case False
    with 1 inv sub add_avail [OF 2(2) i 1] show ?thesis by auto
  qed
next
  case (3 orc k s i ops)
  then have i: "1 \<le> i" "i \<le> bound s" by auto
  obtain s1 where 1: "clear s i = Some s1" "invar s1" "bound s1 = bound s" "members s1 = members s - {i}"
    using clear_ok [OF 3(2) i] by blast
  with 3(1) [of s1] 3(3) show ?case by auto
qed simp

end

definition bitvec_ok :: "bitvec \<Rightarrow> bool" where
  "bitvec_ok p \<longleftrightarrow> bv_wf p \<and> iSize p < 2 ^ 32"

definition bitvec_set :: "bitvec \<Rightarrow> nat set" where
  "bitvec_set p = bv_abs (Some p)"

definition bitvec_add :: "(nat \<Rightarrow> bool) \<Rightarrow> nat \<Rightarrow> bitvec \<Rightarrow> nat \<Rightarrow> (rc \<times> bitvec \<times> nat) option" where
  "bitvec_add orc k p i = map_option (\<lambda>(rc, q, k'). (rc, the q, k')) (sqlite3BitvecSet orc k (Some p) i)"

definition bitvec_clear :: "bitvec \<Rightarrow> nat \<Rightarrow> bitvec option" where
  "bitvec_clear p i = map_option the (sqlite3BitvecClear (Some p) i)"

lemma bitvec_set_mem: "1 \<le> i \<Longrightarrow> i \<le> iSize p \<Longrightarrow> i \<in> bitvec_set p \<longleftrightarrow> bv_mem p (i - 1)"
  by (simp add: bitvec_set_def bv_abs_def)

lemma bitvec_add_eq: "bitvec_add orc k p i = bv_set0 BITVEC_DEPTH orc k p (i - 1)"
  by (cases "bv_set0 BITVEC_DEPTH orc k p (i - 1)")
    (auto simp: bitvec_add_def sqlite3BitvecSet_def)

lemma bitvec_add_total:
  assumes "bitvec_ok p" and "1 \<le> i" and "i \<le> iSize p"
  shows "\<exists>rc p' k'. bitvec_add orc k p i = Some (rc, p', k')"
  using bv_totalD [OF bv_set0_terminates [of 4], of p "i - 1" BITVEC_DEPTH orc k] assms
  by (simp add: bitvec_add_eq bitvec_ok_def BITVEC_DEPTH_def)

lemma bitvec_add_post:
  assumes "bitvec_ok p" and "1 \<le> i" and "i \<le> iSize p" and "bitvec_add orc k p i = Some (rc, p', k')"
  shows "bv_set_post orc p {i - 1} rc p'"
  using bv_set_okD [OF bv_set0_post, of p "i - 1" BITVEC_DEPTH orc k rc p' k'] assms
  by (simp add: bitvec_add_eq bitvec_ok_def)

lemma bitvec_step_set:
  assumes "bv_step ok p {i - 1} p'" and "1 \<le> i" and "i \<le> iSize p"
  shows "bitvec_set p' \<subseteq> insert i (bitvec_set p)" and "ok \<Longrightarrow> bitvec_set p' = insert i (bitvec_set p)"
proof -
  have e: "j - 1 = i - 1 \<longleftrightarrow> j = i" if "1 \<le> j" for j using that assms(2) by auto
  show "bitvec_set p' \<subseteq> insert i (bitvec_set p)"
    using assms e by (auto simp: bitvec_set_def bv_abs_def bv_step_def)
  show "ok \<Longrightarrow> bitvec_set p' = insert i (bitvec_set p)"
    using assms e by (auto simp: bitvec_set_def bv_abs_def bv_step_def)
qed

lemma bitvec_clear_correct:
  assumes p: "bitvec_ok p" and i: "1 \<le> i" "i \<le> iSize p"
  shows "\<exists>p'. bitvec_clear p i = Some p' \<and> bitvec_ok p' \<and> iSize p' = iSize p \<and>
    bitvec_set p' = bitvec_set p - {i}"
proof -
  have less: "i - 1 < iSize p" using i by linarith
  obtain p' where p': "bv_clear0 p (i - 1) = Some p'" "bv_cleared p (i - 1) p'"
    using bv_clear0_correct [OF _ less] p unfolding bitvec_ok_def by blast
  have e: "j - 1 = i - 1 \<longleftrightarrow> j = i" if "1 \<le> j" for j using that i(1) by auto
  have "bitvec_set p' = bitvec_set p - {i}"
    using p'(2) e unfolding bitvec_set_def bv_abs_def bv_cleared_def by auto
  moreover have "bitvec_clear p i = Some p'"
    using p'(1) by (simp add: bitvec_clear_def sqlite3BitvecClear_def del: bv_clear0.simps)
  ultimately show ?thesis
    using p p'(2) unfolding bitvec_ok_def bv_cleared_def by auto
qed

interpretation bitvec: page_set bitvec_ok iSize bitvec_set "\<lambda>p. sqlite3BitvecTest (Some p)"
  bitvec_add bitvec_clear
proof
  fix p i
  assume p: "bitvec_ok p"
  show "sqlite3BitvecTest (Some p) i = Some (i \<in> bitvec_set p)"
    using p bv_test0_correct [of p "i - 1"]
    by (auto simp: sqlite3BitvecTest_def bitvec_ok_def bitvec_set_def bv_abs_def)
  show "bitvec_set p \<subseteq> {1..iSize p}" by (auto simp: bitvec_set_def bv_abs_def)
  fix orc k rc p' k'
  assume i: "1 \<le> i" "i \<le> iSize p"
  show "\<exists>rc p' k'. bitvec_add orc k p i = Some (rc, p', k')" by (rule bitvec_add_total [OF p i])
  show "\<exists>p'. bitvec_clear p i = Some p' \<and> bitvec_ok p' \<and> iSize p' = iSize p \<and> bitvec_set p' = bitvec_set p - {i}"
    by (rule bitvec_clear_correct [OF p i])
  { assume a: "bitvec_add orc k p i = Some (rc, p', k')"
    from bitvec_add_post [OF p i a]
    have post: "rc \<in> {SQLITE_OK, SQLITE_NOMEM}" "bv_step (rc = SQLITE_OK) p {i - 1} p'"
      by (simp_all add: bv_set_post_def)
    show "\<exists>j. \<not> orc j" if "rc \<noteq> SQLITE_OK" using bitvec_add_post [OF p i a] that by (auto simp: bv_set_post_def)
    show "bitvec_ok p' \<and> iSize p' = iSize p \<and> rc \<in> {SQLITE_OK, SQLITE_NOMEM}"
      using post p by (simp add: bitvec_ok_def bv_step_def)
    show "bitvec_set p' \<subseteq> insert i (bitvec_set p)" using bitvec_step_set(1) [OF post(2) i] . }
  { assume a: "bitvec_add orc k p i = Some (SQLITE_OK, p', k')"
    from bitvec_add_post [OF p i a] bitvec_step_set(2) [OF _ i]
    show "bitvec_set p' = insert i (bitvec_set p)" by (simp add: bv_set_post_def) }
qed


section \<open>Properties\<close>

lemma bitvec_zero_ok: "sz < 2 ^ 32 \<Longrightarrow> bitvec_ok (bitvec_zero sz)"
  and bitvec_zero_size: "iSize (bitvec_zero sz) = sz"
  and bitvec_zero_set: "bitvec_set (bitvec_zero sz) = {}"
proof -
  show size: "iSize (bitvec_zero sz) = sz" by (simp add: bitvec_zero_def)
  show "sz < 2 ^ 32 \<Longrightarrow> bitvec_ok (bitvec_zero sz)" "bitvec_set (bitvec_zero sz) = {}"
    by (simp_all add: bitvec_ok_def bv_zero_wf bitvec_set_def bv_abs_def bv_zero_mem size)
qed

lemma bitvec_zero_range:
  "bitvec_ok (bitvec_zero 5000)" "(1::nat) \<le> 77" "77 \<le> iSize (bitvec_zero 5000)"
  by (simp_all add: bitvec_zero_ok bitvec_zero_size)

text \<open>
  \<open>sqlite3BitvecSet\<close> on a well-formed bitmap and an index in range always returns; it
  keeps the bitmap well-formed and its size; it returns \<open>SQLITE_OK\<close> or \<open>SQLITE_NOMEM\<close>, and
  the former whenever no allocation fails. After \<open>SQLITE_OK\<close>, \<open>sqlite3BitvecTest\<close> answers
  exactly as before except that the new index is present; after a failure no other index appears.
\<close>

theorem bitvec_set_correct:
  assumes "bitvec_ok p" and "1 \<le> i" and "i \<le> iSize p"
  shows "\<exists>rc p' k'. sqlite3BitvecSet orc k (Some p) i = Some (rc, Some p', k') \<and>
    bitvec_ok p' \<and> iSize p' = iSize p \<and> rc \<in> {SQLITE_OK, SQLITE_NOMEM} \<and>
    ((\<forall>j. orc j) \<longrightarrow> rc = SQLITE_OK) \<and>
    (\<forall>j. \<exists>b b'. sqlite3BitvecTest (Some p) j = Some b \<and> sqlite3BitvecTest (Some p') j = Some b' \<and>
       (b' \<longrightarrow> b \<or> j = i) \<and> (rc = SQLITE_OK \<longrightarrow> b' = (b \<or> j = i)))"
proof -
  obtain rc p' k' where r: "bitvec_add orc k p i = Some (rc, p', k')"
    using bitvec_add_total [OF assms] by blast
  then have r0: "sqlite3BitvecSet orc k (Some p) i = Some (rc, Some p', k')"
    by (auto simp: bitvec_add_eq sqlite3BitvecSet_def)
  note inv = bitvec.add_invar [OF assms r]
  have av: "(\<forall>j. orc j) \<longrightarrow> rc = SQLITE_OK"
    using bitvec_add_post [OF assms r] by (simp add: bv_set_post_def)
  have "bitvec_ok p'" "bitvec_set p' \<subseteq> insert i (bitvec_set p)"
    using inv bitvec.add_any [OF assms r] by simp_all
  moreover have "rc = SQLITE_OK \<longrightarrow> bitvec_set p' = insert i (bitvec_set p)"
    using bitvec.add_ok [OF assms] r by auto
  ultimately have "\<exists>b b'. sqlite3BitvecTest (Some p) j = Some b \<and> sqlite3BitvecTest (Some p') j = Some b' \<and>
      (b' \<longrightarrow> b \<or> j = i) \<and> (rc = SQLITE_OK \<longrightarrow> b' = (b \<or> j = i))" for j
    using bitvec.test_members [OF assms(1), of j] bitvec.test_members [of p' j] by auto
  with r0 inv av show ?thesis by blast
qed

theorem bitvec_set_correct_witness:
  "\<exists>rc p' k'. sqlite3BitvecSet (\<lambda>_. True) 0 (Some (bitvec_zero 5000)) 77 = Some (rc, Some p', k') \<and>
    rc = SQLITE_OK \<and> sqlite3BitvecTest (Some p') 77 = Some True"
proof -
  from bitvec_set_correct [OF bitvec_zero_range, of "\<lambda>_. True" 0] obtain rc p' k' where
    r: "sqlite3BitvecSet (\<lambda>_. True) 0 (Some (bitvec_zero 5000)) 77 = Some (rc, Some p', k')" "rc = SQLITE_OK"
    and t: "\<forall>j. \<exists>b b'. sqlite3BitvecTest (Some (bitvec_zero 5000)) j = Some b \<and>
      sqlite3BitvecTest (Some p') j = Some b' \<and> (rc = SQLITE_OK \<longrightarrow> b' = (b \<or> j = 77))"
    by (elim exE conjE) simp
  from spec [OF t, of 77] r show ?thesis by auto
qed

text \<open>
  \<open>sqlite3BitvecClear\<close> on a well-formed bitmap and an index in range returns a well-formed
  bitmap of the same size on which \<open>sqlite3BitvecTest\<close> answers as before except that the index
  is absent; in particular rebuilding the open-addressing table loses no other entry.
\<close>

theorem bitvec_clear_removes:
  assumes "bitvec_ok p" and "1 \<le> i" and "i \<le> iSize p"
  shows "\<exists>p'. sqlite3BitvecClear (Some p) i = Some (Some p') \<and> bitvec_ok p' \<and> iSize p' = iSize p \<and>
    (\<forall>j. \<exists>b. sqlite3BitvecTest (Some p) j = Some b \<and>
       sqlite3BitvecTest (Some p') j = Some (b \<and> j \<noteq> i))"
proof -
  obtain p' where p': "bitvec_clear p i = Some p'" "bitvec_ok p'" "iSize p' = iSize p"
    "bitvec_set p' = bitvec_set p - {i}" using bitvec.clear_ok [OF assms] by blast
  from p'(1) have "sqlite3BitvecClear (Some p) i = Some (Some p')"
    by (auto simp: bitvec_clear_def sqlite3BitvecClear_def)
  moreover have "\<exists>b. sqlite3BitvecTest (Some p) j = Some b \<and> sqlite3BitvecTest (Some p') j = Some (b \<and> j \<noteq> i)" for j
    unfolding bitvec.test_members [OF assms(1)] bitvec.test_members [OF p'(2)] p'(4) by simp
  ultimately show ?thesis using p'(2,3) by blast
qed

theorem bitvec_clear_removes_witness:
  "\<exists>p'. sqlite3BitvecClear (Some (bitvec_zero 5000)) 77 = Some (Some p') \<and> bitvec_ok p' \<and>
     sqlite3BitvecTest (Some p') 77 = Some False"
proof -
  from bitvec_clear_removes [OF bitvec_zero_range] obtain p' where
    r: "sqlite3BitvecClear (Some (bitvec_zero 5000)) 77 = Some (Some p')" "bitvec_ok p'"
    and t: "\<forall>j. \<exists>b. sqlite3BitvecTest (Some (bitvec_zero 5000)) j = Some b \<and>
      sqlite3BitvecTest (Some p') j = Some (b \<and> j \<noteq> 77)" by (elim exE conjE)
  from spec [OF t, of 77] r show ?thesis by auto
qed

text \<open>
  C6. A whole session: a bitmap created for any 32-bit size and driven through any sequence of in-range insertions and
  removals, whatever representation changes happen on the way. Either every call succeeds and \<open>sqlite3BitvecTest\<close> answers
  exactly as for the set the sequence describes, or the session ends with \<open>SQLITE_NOMEM\<close>; the latter only if an
  allocation failed, and then no number is present that the sequence did not insert.
\<close>

theorem bitvec_session:
  assumes "sz < 2 ^ 32" and "\<forall>(b, i)\<in>set ops. 1 \<le> i \<and> i \<le> sz"
  shows "\<exists>rc p' k'. bitvec.run orc k (bitvec_zero sz) ops = Some (rc, p', k') \<and> bitvec_ok p' \<and>
    (if rc = SQLITE_OK
     then \<forall>j. sqlite3BitvecTest (Some p') j = Some (j \<in> fold (\<lambda>(b, i) A. if b then insert i A else A - {i}) ops {})
     else rc = SQLITE_NOMEM \<and> (\<exists>j. \<not> orc j) \<and>
       (\<forall>j. sqlite3BitvecTest (Some p') j = Some True \<longrightarrow> (True, j) \<in> set ops))"
proof -
  have r: "\<forall>(b, i)\<in>set ops. 1 \<le> i \<and> i \<le> iSize (bitvec_zero sz)" using assms(2) by (simp add: bitvec_zero_size)
  obtain rc p' k' where p: "bitvec.run orc k (bitvec_zero sz) ops = Some (rc, p', k')" "bitvec_ok p'" "rc \<in> {SQLITE_OK, SQLITE_NOMEM}"
    "rc = SQLITE_OK \<longrightarrow> bitvec_set p' = fold (\<lambda>(b, i) A. if b then insert i A else A - {i}) ops {}"
    "rc \<noteq> SQLITE_OK \<longrightarrow> (\<exists>j. \<not> orc j) \<and> bitvec_set p' \<subseteq> {i. (True, i) \<in> set ops}"
    using bitvec.run_correct [OF bitvec_zero_ok [OF assms(1)] r, of orc k] by (auto simp: bitvec_zero_set)
  then show ?thesis by (auto simp: bitvec.test_members)
qed

theorem bitvec_session_witness:
  "\<exists>p' k'. bitvec.run (\<lambda>_. True) 0 (bitvec_zero 100000) [(True, 99), (True, 7), (False, 99)] = Some (SQLITE_OK, p', k') \<and>
    sqlite3BitvecTest (Some p') 7 = Some True \<and> sqlite3BitvecTest (Some p') 99 = Some False"
proof -
  define ops where "ops = [(True, 99 :: nat), (True, 7), (False, 99)]"
  have o: "\<forall>(b, i)\<in>set ops. 1 \<le> i \<and> i \<le> 100000"
    "7 \<in> fold (\<lambda>(b, i) A. if b then insert i A else A - {i}) ops {}" "99 \<notin> fold (\<lambda>(b, i) A. if b then insert i A else A - {i}) ops {}"
    by (simp_all add: ops_def)
  obtain rc p' k' where r: "bitvec.run (\<lambda>_. True) 0 (bitvec_zero 100000) ops = Some (rc, p', k')"
    "if rc = SQLITE_OK then \<forall>j. sqlite3BitvecTest (Some p') j = Some (j \<in> fold (\<lambda>(b, i) A. if b then insert i A else A - {i}) ops {}) else False"
    using bitvec_session [OF _ o(1), of "\<lambda>_. True" 0] by (auto split: if_splits)
  then show ?thesis using o(2,3) unfolding ops_def [symmetric] by (auto split: if_splits)
qed

end
