(* ===== verification/Rowset.thy ===== *)
theory Rowset
  imports Sqlite_Prelude
begin

text \<open>
  rowset.c: the collection of rowids behind the \<open>OP_RowSetAdd\<close>, \<open>OP_RowSetTest\<close> and
  \<open>OP_RowSetRead\<close> opcodes. Insertions go to an unsorted list; the first test of a new batch sorts
  that list and merges it into a forest of binary trees of doubling size; the first read sorts it
  and then takes the smallest element each time.

  A list linked by \<open>pRight\<close> is a list, a tree of \<open>RowSetEntry\<close> objects is a value of
  \<open>rs_tree\<close>, and \<open>pForest\<close> is the list of the trees in it (\<open>RSLeaf\<close> where \<open>pLeft\<close>
  is null). A rowid is only ever compared, so an \<open>i64\<close> is an \<open>int\<close> here.
\<close>

section \<open>The structure\<close>

datatype rs_tree = RSLeaf | RSNode rs_tree int rs_tree

definition ROWSET_ENTRY_PER_CHUNK :: nat where
  "ROWSET_ENTRY_PER_CHUNK = (1024 - 8) div 24"

text \<open>
  \<open>rs_pChunk\<close> counts the chunks on the chunk list. The last two fields are the part of the
  database connection that the code uses: the sticky \<open>mallocFailed\<close> flag, and the number of
  allocation attempts so far, which indexes the oracle.
\<close>

record rowset =
  rs_pChunk :: nat
  rs_pEntry :: "int list"
  rs_pForest :: "rs_tree list"
  rs_nFresh :: nat
  rs_SORTED :: bool
  rs_NEXT :: bool
  rs_iBatch :: u8
  rs_mallocFailed :: bool
  rs_attempts :: nat

text \<open>\<open>nFresh\<close> entries are left over in the memory cell after the \<open>RowSet\<close> object itself.\<close>

definition sqlite3RowSetInit :: "bool \<Rightarrow> nat \<Rightarrow> nat \<Rightarrow> rowset" where
  "sqlite3RowSetInit failed k nFresh =
     \<lparr>rs_pChunk = 0, rs_pEntry = [], rs_pForest = [], rs_nFresh = nFresh, rs_SORTED = True,
      rs_NEXT = False, rs_iBatch = 0, rs_mallocFailed = failed, rs_attempts = k\<rparr>"

definition sqlite3RowSetClear :: "rowset \<Rightarrow> rowset" where
  "sqlite3RowSetClear p = p\<lparr>rs_pChunk := 0, rs_nFresh := 0, rs_pEntry := [], rs_pForest := [],
     rs_SORTED := True, rs_NEXT := False\<rparr>"

section \<open>Inserting\<close>

text \<open>
  \<open>rowSetEntryAlloc\<close>: take a fresh entry, after allocating a chunk when there is none. The
  result is whether an entry was obtained. \<open>sqlite3DbMallocRaw\<close> gives up at once when
  \<open>mallocFailed\<close> is set, and sets it when the allocation fails.
\<close>

definition rowSetEntryAlloc :: "(nat \<Rightarrow> bool) \<Rightarrow> rowset \<Rightarrow> bool \<times> rowset" where
  "rowSetEntryAlloc orc p =
     (if rs_nFresh p = 0 then
        (if rs_mallocFailed p then (False, p)
         else if \<not> orc (rs_attempts p) then
           (False, p\<lparr>rs_mallocFailed := True, rs_attempts := rs_attempts p + 1\<rparr>)
         else (True, p\<lparr>rs_attempts := rs_attempts p + 1, rs_pChunk := rs_pChunk p + 1,
                 rs_nFresh := ROWSET_ENTRY_PER_CHUNK - 1\<rparr>))
      else (True, p\<lparr>rs_nFresh := rs_nFresh p - 1\<rparr>))"

definition sqlite3RowSetInsert :: "(nat \<Rightarrow> bool) \<Rightarrow> rowset \<Rightarrow> int \<Rightarrow> rowset" where
  "sqlite3RowSetInsert orc p rowid =
     (case rowSetEntryAlloc orc p of
        (False, p) \<Rightarrow> p
      | (True, p) \<Rightarrow>
          (if rs_pEntry p \<noteq> [] then
             p\<lparr>rs_SORTED := rs_SORTED p \<and> \<not> rowid \<le> last (rs_pEntry p),
               rs_pEntry := rs_pEntry p @ [rowid]\<rparr>
           else p\<lparr>rs_pEntry := [rowid]\<rparr>))"

section \<open>Merging and sorting\<close>

fun rowSetEntryMerge :: "int list \<Rightarrow> int list \<Rightarrow> int list" where
  "rowSetEntryMerge (a # pA) (b # pB) =
     (if a < b then a # rowSetEntryMerge pA (b # pB)
      else if b < a then b # rowSetEntryMerge (a # pA) pB
      else rowSetEntryMerge pA (b # pB))"
| "rowSetEntryMerge [] pB = pB"
| "rowSetEntryMerge pA [] = pA"

text \<open>
  The buckets of \<open>rowSetEntrySort\<close>: \<open>rs_carry\<close> is the inner loop, which merges the new
  list with the occupied buckets below the first empty one; running past \<open>aBucket[39]\<close> is
  \<open>None\<close>.
\<close>

fun rs_carry :: "int list list \<Rightarrow> int list \<Rightarrow> int list list option" where
  "rs_carry [] p = None"
| "rs_carry ([] # bs) p = Some (p # bs)"
| "rs_carry (b # bs) p = map_option (Cons []) (rs_carry bs (rowSetEntryMerge b p))"

fun rs_sort_loop :: "int list list \<Rightarrow> int list \<Rightarrow> int list list option" where
  "rs_sort_loop bs [] = Some bs"
| "rs_sort_loop bs (x # xs) = do { bs' \<leftarrow> rs_carry bs [x]; rs_sort_loop bs' xs }"

definition rowSetEntrySort :: "int list \<Rightarrow> int list option" where
  "rowSetEntrySort pIn = do {
     aBucket \<leftarrow> rs_sort_loop (replicate 40 []) pIn;
     Some (foldl rowSetEntryMerge [] aBucket) }"

section \<open>Trees\<close>

fun rowSetTreeToList :: "rs_tree \<Rightarrow> int list" where
  "rowSetTreeToList RSLeaf = []"
| "rowSetTreeToList (RSNode l v r) =
     (if l \<noteq> RSLeaf then rowSetTreeToList l else []) @ v #
     (if r \<noteq> RSLeaf then rowSetTreeToList r else [])"

text \<open>The depth is positive in every call; depth 0 takes nothing from the list.\<close>

fun rowSetNDeepTree :: "nat \<Rightarrow> int list \<Rightarrow> rs_tree \<times> int list" where
  "rowSetNDeepTree d [] = (RSLeaf, [])"
| "rowSetNDeepTree 0 xs = (RSLeaf, xs)"
| "rowSetNDeepTree (Suc 0) (x # xs) = (RSNode RSLeaf x RSLeaf, xs)"
| "rowSetNDeepTree (Suc (Suc d)) (x # xs) =
     (case rowSetNDeepTree (Suc d) (x # xs) of
        (l, []) \<Rightarrow> (l, [])
      | (l, y # ys) \<Rightarrow>
          (case rowSetNDeepTree (Suc d) ys of (r, rest) \<Rightarrow> (RSNode l y r, rest)))"

lemma rowSetNDeepTree_list:
  "rowSetNDeepTree d xs = (t, rest) \<Longrightarrow> rowSetTreeToList t @ rest = xs"
proof (induction d xs arbitrary: t rest rule: rowSetNDeepTree.induct)
  case (4 d x xs)
  obtain l mid where l: "rowSetNDeepTree (Suc d) (x # xs) = (l, mid)" by fastforce
  with 4(1) have ll: "rowSetTreeToList l @ mid = x # xs" by simp
  show ?case
  proof (cases mid)
    case Nil
    with 4(3) l ll show ?thesis by simp
  next
    case (Cons y ys)
    obtain r rest' where r: "rowSetNDeepTree (Suc d) ys = (r, rest')" by fastforce
    with 4(2) [OF l [symmetric] Cons] have rr: "rowSetTreeToList r @ rest' = ys" by simp
    from 4(3) l Cons r have t: "t = RSNode l y r" "rest = rest'" by simp_all
    with ll rr Cons show ?thesis by auto
  qed
qed auto

lemma rowSetNDeepTree_length:
  "rowSetNDeepTree d xs = (t, rest) \<Longrightarrow> length rest \<le> length xs"
  using rowSetNDeepTree_list [of d xs t rest] by (metis length_append le_add2)

function rs_grow :: "nat \<Rightarrow> rs_tree \<Rightarrow> int list \<Rightarrow> rs_tree" where
  "rs_grow d p [] = p"
| "rs_grow d p (y # ys) =
     (case rowSetNDeepTree d ys of (r, rest) \<Rightarrow> rs_grow (d + 1) (RSNode p y r) rest)"
  by pat_completeness auto
termination
  by (relation "measure (\<lambda>(d, p, xs). length xs)") (auto simp: less_Suc_eq_le dest!: sym [THEN rowSetNDeepTree_length])

fun rowSetListToTree :: "int list \<Rightarrow> rs_tree" where
  "rowSetListToTree [] = RSLeaf"
| "rowSetListToTree (x # xs) = rs_grow 1 (RSNode RSLeaf x RSLeaf) xs"

section \<open>Reading and testing\<close>

text \<open>\<open>rowSetToList\<close>; its \<open>#if 0\<close> part is not compiled.\<close>

definition rowSetToList :: "rowset \<Rightarrow> rowset option" where
  "rowSetToList p = do {
     es \<leftarrow> (if \<not> rs_SORTED p then rowSetEntrySort (rs_pEntry p) else Some (rs_pEntry p));
     Some (p\<lparr>rs_pEntry := es, rs_NEXT := True\<rparr>) }"

definition sqlite3RowSetNext :: "rowset \<Rightarrow> (int option \<times> rowset) option" where
  "sqlite3RowSetNext p = do {
     p \<leftarrow> (if \<not> rs_NEXT p then rowSetToList p else Some p);
     case rs_pEntry p of
       v # es \<Rightarrow> (let p = p\<lparr>rs_pEntry := es\<rparr>
                 in Some (Some v, if es = [] then sqlite3RowSetClear p else p))
     | [] \<Rightarrow> Some (None, p) }"

text \<open>
  The loop of \<open>sqlite3RowSetTest\<close> over the forest: the new list is merged with each tree in
  turn until an empty place is found. The second result is the list still to be placed when the
  loop reached the end of the forest.
\<close>

fun rs_forest_add :: "rs_tree list \<Rightarrow> int list \<Rightarrow> rs_tree list \<times> int list option" where
  "rs_forest_add [] p = ([], Some p)"
| "rs_forest_add (RSLeaf # ts) p = (rowSetListToTree p # ts, None)"
| "rs_forest_add (t # ts) p =
     (case rs_forest_add ts (rowSetEntryMerge (rowSetTreeToList t) p) of
        (ts', r) \<Rightarrow> (RSLeaf # ts', r))"

fun rs_tree_search :: "rs_tree \<Rightarrow> int \<Rightarrow> bool" where
  "rs_tree_search RSLeaf x = False"
| "rs_tree_search (RSNode l v r) x =
     (if v < x then rs_tree_search r x else if v > x then rs_tree_search l x else True)"

definition rs_batch_sort :: "(nat \<Rightarrow> bool) \<Rightarrow> rowset \<Rightarrow> u8 \<Rightarrow> rowset option" where
  "rs_batch_sort orc p iBatch =
     (if iBatch \<noteq> rs_iBatch p then do {
        p \<leftarrow> (if rs_pEntry p \<noteq> [] then do {
             es \<leftarrow> (if \<not> rs_SORTED p then rowSetEntrySort (rs_pEntry p) else Some (rs_pEntry p));
             case rs_forest_add (rs_pForest p) es of
               (f, None) \<Rightarrow> Some (p\<lparr>rs_pForest := f, rs_pEntry := [], rs_SORTED := True\<rparr>)
             | (f, Some es) \<Rightarrow>
                 (case rowSetEntryAlloc orc p of
                    (True, p) \<Rightarrow> Some (p\<lparr>rs_pForest := f @ [rowSetListToTree es],
                        rs_pEntry := [], rs_SORTED := True\<rparr>)
                  | (False, p) \<Rightarrow> Some (p\<lparr>rs_pForest := f, rs_pEntry := [], rs_SORTED := True\<rparr>)) }
           else Some p);
        Some (p\<lparr>rs_iBatch := iBatch\<rparr>) }
      else Some p)"

definition sqlite3RowSetTest :: "(nat \<Rightarrow> bool) \<Rightarrow> rowset \<Rightarrow> u8 \<Rightarrow> int \<Rightarrow> (bool \<times> rowset) option" where
  "sqlite3RowSetTest orc p iBatch iRowid = do {
     p \<leftarrow> rs_batch_sort orc p iBatch;
     Some (list_ex (\<lambda>t. rs_tree_search t iRowid) (rs_pForest p), p) }"

text \<open>
  The body of \<open>OP_RowSetTest\<close> (vdbe.c) once register P1 holds a RowSet: \<open>iSet\<close> is
  operand P4, and the first result tells whether the jump to P2 is taken.
\<close>

definition OP_RowSetTest :: "(nat \<Rightarrow> bool) \<Rightarrow> rowset \<Rightarrow> int \<Rightarrow> int \<Rightarrow> (bool \<times> rowset) option" where
  "OP_RowSetTest orc p iSet rowid = do {
     (exists, p) \<leftarrow> (if iSet \<noteq> 0
        then sqlite3RowSetTest orc p (if iSet \<ge> 0 then word_of_int (iSet mod 16) else 0xff) rowid
        else Some (False, p));
     if exists then Some (True, p)
     else Some (False, if iSet \<ge> 0 then sqlite3RowSetInsert orc p rowid else p) }"

section \<open>Correctness of the building blocks\<close>

abbreviation strict :: "int list \<Rightarrow> bool" where
  "strict \<equiv> sorted_wrt (<)"

lemma merge_set:
  "strict pA \<Longrightarrow> strict pB \<Longrightarrow> set (rowSetEntryMerge pA pB) = set pA \<union> set pB"
  by (induction pA pB rule: rowSetEntryMerge.induct) auto

lemma merge_strict:
  "strict pA \<Longrightarrow> strict pB \<Longrightarrow> strict (rowSetEntryMerge pA pB)"
  by (induction pA pB rule: rowSetEntryMerge.induct) (auto simp: merge_set less_imp_le order.strict_trans)

lemma merge_nonempty: "rowSetEntryMerge pA pB = [] \<longleftrightarrow> pA = [] \<and> pB = []"
  by (induction pA pB rule: rowSetEntryMerge.induct) auto

text \<open>The occupied buckets are the binary digits of the number of entries processed.\<close>

fun rs_weight :: "int list list \<Rightarrow> nat" where
  "rs_weight [] = 0"
| "rs_weight (b # bs) = (if b = [] then 0 else 1) + 2 * rs_weight bs"

definition rs_buckets_ok :: "int list list \<Rightarrow> bool" where
  "rs_buckets_ok bs \<longleftrightarrow> (\<forall>b\<in>set bs. strict b)"

lemma rs_carry_ok:
  assumes "rs_buckets_ok bs" and "strict p" and "p \<noteq> []" and "rs_weight bs + 1 < 2 ^ length bs"
  shows "\<exists>bs'. rs_carry bs p = Some bs' \<and> rs_buckets_ok bs' \<and> length bs' = length bs \<and>
    rs_weight bs' = rs_weight bs + 1 \<and> \<Union> (set ` set bs') = set p \<union> \<Union> (set ` set bs)"
  using assms
proof (induction bs p rule: rs_carry.induct)
  case (3 v va bs p)
  let ?m = "rowSetEntryMerge (v # va) p"
  have s: "strict (v # va)" using 3(2) by (simp add: rs_buckets_ok_def)
  have m: "strict ?m" "?m \<noteq> []" "set ?m = set (v # va) \<union> set p"
    using merge_strict [OF s 3(3)] merge_set [OF s 3(3)] 3(4) merge_nonempty [of "v # va" p] by simp_all
  have "rs_buckets_ok bs" "rs_weight bs + 1 < 2 ^ length bs"
    using 3(2,5) by (simp_all add: rs_buckets_ok_def)
  from 3(1) [OF this(1) m(1,2) this(2)] obtain bs' where
    "rs_carry bs ?m = Some bs'" "rs_buckets_ok bs'" "length bs' = length bs"
    "rs_weight bs' = rs_weight bs + 1" "\<Union> (set ` set bs') = set ?m \<union> \<Union> (set ` set bs)" by blast
  with m(3) show ?case by (auto simp: rs_buckets_ok_def)
qed (auto simp: rs_buckets_ok_def)

lemma rs_sort_loop_ok:
  assumes "rs_buckets_ok bs" and "rs_weight bs + length xs < 2 ^ length bs"
  shows "\<exists>bs'. rs_sort_loop bs xs = Some bs' \<and> rs_buckets_ok bs' \<and>
    \<Union> (set ` set bs') = set xs \<union> \<Union> (set ` set bs)"
  using assms
proof (induction bs xs rule: rs_sort_loop.induct)
  case (2 bs x xs)
  then obtain bs' where c: "rs_carry bs [x] = Some bs'" "rs_buckets_ok bs'" "length bs' = length bs"
    "rs_weight bs' = rs_weight bs + 1" "\<Union> (set ` set bs') = set [x] \<union> \<Union> (set ` set bs)"
    using rs_carry_ok [of bs "[x]"] by auto
  with 2(1) [OF c(1,2)] 2(3) show ?case by auto
qed auto

lemma foldl_merge:
  assumes "rs_buckets_ok bs" and "strict acc"
  shows "strict (foldl rowSetEntryMerge acc bs) \<and>
    set (foldl rowSetEntryMerge acc bs) = set acc \<union> \<Union> (set ` set bs)"
  using assms
  by (induction bs arbitrary: acc) (auto simp: rs_buckets_ok_def merge_strict merge_set)

lemma rs_weight_replicate: "rs_weight (replicate n []) = 0"
  by (induction n) auto

lemma rowSetEntrySort_ok:
  assumes "length xs < 2 ^ 40"
  shows "\<exists>ys. rowSetEntrySort xs = Some ys \<and> strict ys \<and> set ys = set xs"
proof -
  have "rs_buckets_ok (replicate 40 [])" "\<Union> (set ` set (replicate 40 ([] :: int list))) = {}"
    by (auto simp: rs_buckets_ok_def)
  with rs_sort_loop_ok [of "replicate 40 []" xs] assms obtain bs where
    "rs_sort_loop (replicate 40 []) xs = Some bs" "rs_buckets_ok bs" "\<Union> (set ` set bs) = set xs"
    by (auto simp: rs_weight_replicate)
  with foldl_merge [of bs "[]"] show ?thesis by (simp add: rowSetEntrySort_def)
qed

lemma rs_grow_list: "rowSetTreeToList (rs_grow d p xs) = rowSetTreeToList p @ xs"
proof (induction d p xs rule: rs_grow.induct)
  case (2 d p y ys)
  obtain r rest where r: "rowSetNDeepTree d ys = (r, rest)" by fastforce
  from rowSetNDeepTree_list [OF this] have e: "rowSetTreeToList r @ rest = ys" .
  from 2 [OF r [symmetric]] r e show ?case by auto
qed simp

lemma ListToTree_list: "rowSetTreeToList (rowSetListToTree xs) = xs"
  by (cases xs) (simp_all add: rs_grow_list)

lemma tree_search_list:
  "strict (rowSetTreeToList t) \<Longrightarrow> rs_tree_search t x \<longleftrightarrow> x \<in> set (rowSetTreeToList t)"
  by (induction t) (auto simp: sorted_wrt_append split: if_splits)


text \<open>The tree built from a list is as shallow as a binary tree of that size can be.\<close>

fun rs_height :: "rs_tree \<Rightarrow> nat" where
  "rs_height RSLeaf = 0"
| "rs_height (RSNode l v r) = Suc (max (rs_height l) (rs_height r))"

lemma NDeepTree_shape:
  "rowSetNDeepTree d xs = (t, rest) \<Longrightarrow>
     rs_height t \<le> d \<and> (rest \<noteq> [] \<longrightarrow> Suc (length (rowSetTreeToList t)) = 2 ^ d)"
proof (induction d xs arbitrary: t rest rule: rowSetNDeepTree.induct)
  case (4 d x xs)
  obtain l mid where l: "rowSetNDeepTree (Suc d) (x # xs) = (l, mid)" by fastforce
  note hl = 4(1) [OF l]
  show ?case
  proof (cases mid)
    case Nil
    with 4(3) l hl show ?thesis by simp
  next
    case (Cons y ys)
    obtain r rest' where r: "rowSetNDeepTree (Suc d) ys = (r, rest')" by fastforce
    note hr = 4(2) [OF l [symmetric] Cons r]
    from 4(3) l Cons r have t: "t = RSNode l y r" "rest = rest'" by simp_all
    have "Suc (length (rowSetTreeToList t)) =
        Suc (length (rowSetTreeToList l)) + Suc (length (rowSetTreeToList r))"
      using t by simp
    with t hl hr Cons show ?thesis by auto
  qed
qed auto

lemma rs_grow_shape:
  assumes "rs_height p = d" and "Suc (length (rowSetTreeToList p)) = 2 ^ d" and "0 < d"
  shows "2 ^ (rs_height (rs_grow d p xs) - 1) \<le> length (rowSetTreeToList (rs_grow d p xs))"
  using assms
proof (induction d p xs rule: rs_grow.induct)
  case (1 d p)
  then have "2 ^ (d - 1) + 2 ^ (d - 1) = (2 ^ d :: nat)" "0 < (2 :: nat) ^ (d - 1)"
    by (cases d) simp_all
  with 1 show ?case by simp
next
  case (2 d p y ys)
  obtain r rest where r: "rowSetNDeepTree d ys = (r, rest)" by fastforce
  note h = NDeepTree_shape [OF r]
  let ?q = "RSNode p y r"
  have q: "rs_height ?q = d + 1" using h 2(2) by simp
  have len: "length (rowSetTreeToList ?q) = Suc (length (rowSetTreeToList p)) + length (rowSetTreeToList r)"
    by simp
  show ?case
  proof (cases "rest = []")
    case True
    with r q len 2(3) show ?thesis by simp
  next
    case False
    with h len 2(3) have "Suc (length (rowSetTreeToList ?q)) = 2 ^ (d + 1)" by simp
    from 2(1) [OF r [symmetric] q this] r show ?thesis by simp
  qed
qed

lemma ListToTree_shallow:
  "xs \<noteq> [] \<Longrightarrow> 2 ^ (rs_height (rowSetListToTree xs) - 1) \<le> length xs"
  using rs_grow_shape [of "RSNode RSLeaf (hd xs) RSLeaf" 1 "tl xs"] ListToTree_list [of xs]
  by (cases xs) auto

section \<open>Invariant and abstraction\<close>

text \<open>
  The rowids inserted in the current batch and those already in the forest; entries of the
  pending list are sorted whenever the flag says so.
\<close>

definition rs_pending :: "rowset \<Rightarrow> int set" where
  "rs_pending p = set (rs_pEntry p)"

definition rs_tested :: "rowset \<Rightarrow> int set" where
  "rs_tested p = (\<Union>t\<in>set (rs_pForest p). set (rowSetTreeToList t))"

definition rs_ok :: "rowset \<Rightarrow> bool" where
  "rs_ok p \<longleftrightarrow> (rs_SORTED p \<or> rs_NEXT p \<longrightarrow> strict (rs_pEntry p)) \<and>
     (\<forall>t\<in>set (rs_pForest p). strict (rowSetTreeToList t))"

definition rs_small :: "rowset \<Rightarrow> bool" where
  "rs_small p \<longleftrightarrow> length (rs_pEntry p) < 2 ^ 40"

lemma entryAlloc_frame:
  assumes "rowSetEntryAlloc orc p = (b, p')"
  shows "rs_pEntry p' = rs_pEntry p" "rs_pForest p' = rs_pForest p" "rs_SORTED p' = rs_SORTED p"
    "rs_NEXT p' = rs_NEXT p" "rs_iBatch p' = rs_iBatch p" "\<not> b \<longrightarrow> rs_mallocFailed p'"
    "rs_mallocFailed p \<longrightarrow> rs_mallocFailed p'" "b \<longrightarrow> rs_mallocFailed p' = rs_mallocFailed p"
  using assms by (auto simp: rowSetEntryAlloc_def split: if_splits)

lemma strict_snoc: "strict (xs @ [x]) \<longleftrightarrow> strict xs \<and> (xs = [] \<or> last xs < x)"
proof (cases xs rule: rev_cases)
  case (snoc ys y)
  then show ?thesis by (auto simp: sorted_wrt_append)
qed simp

lemma insert_cases:
  "(\<exists>q. sqlite3RowSetInsert orc p x = q \<and> rs_mallocFailed q \<and> rs_pEntry q = rs_pEntry p \<and>
     rs_pForest q = rs_pForest p \<and> rs_SORTED q = rs_SORTED p \<and> rs_NEXT q = rs_NEXT p \<and> rs_iBatch q = rs_iBatch p) \<or>
   (\<exists>q. sqlite3RowSetInsert orc p x = q \<and> rs_mallocFailed q = rs_mallocFailed p \<and>
     rs_pEntry q = rs_pEntry p @ [x] \<and> rs_pForest q = rs_pForest p \<and> rs_NEXT q = rs_NEXT p \<and>
     rs_iBatch q = rs_iBatch p \<and>
     rs_SORTED q = (rs_SORTED p \<and> (rs_pEntry p = [] \<or> last (rs_pEntry p) < x)))"
proof -
  obtain b q where a: "rowSetEntryAlloc orc p = (b, q)" by fastforce
  note f = entryAlloc_frame [OF a]
  show ?thesis
    using a f by (cases b) (auto simp: sqlite3RowSetInsert_def)
qed

lemma insert_ok:
  assumes "rs_ok p" and "\<not> rs_NEXT p"
  shows "rs_ok (sqlite3RowSetInsert orc p x)" and "\<not> rs_NEXT (sqlite3RowSetInsert orc p x)"
    and "rs_pForest (sqlite3RowSetInsert orc p x) = rs_pForest p"
    and "rs_iBatch (sqlite3RowSetInsert orc p x) = rs_iBatch p"
    and "length (rs_pEntry (sqlite3RowSetInsert orc p x)) \<le> Suc (length (rs_pEntry p))"
    and "\<not> rs_mallocFailed (sqlite3RowSetInsert orc p x) \<Longrightarrow> \<not> rs_mallocFailed p \<and>
      rs_pending (sqlite3RowSetInsert orc p x) = insert x (rs_pending p)"
  using insert_cases [of orc p x] assms by (auto simp: rs_ok_def rs_pending_def strict_snoc)

lemma sorted_entries:
  assumes "rs_ok p" and "rs_small p"
  shows "\<exists>es. (if \<not> rs_SORTED p then rowSetEntrySort (rs_pEntry p) else Some (rs_pEntry p)) = Some es \<and>
    strict es \<and> set es = rs_pending p"
  using assms rowSetEntrySort_ok [of "rs_pEntry p"]
  by (auto simp: rs_ok_def rs_small_def rs_pending_def)

section \<open>Reading in order\<close>

text \<open>
  What the VDBE relies on for \<open>OP_RowSetAdd\<close> and \<open>OP_RowSetRead\<close>: a writing phase that
  collects rowids, then a reading phase that returns the smallest one left each time. \<open>room\<close> is
  the number of further insertions the structure accepts.
\<close>

locale rowid_collector =
  fixes writing :: "'s \<Rightarrow> bool"
    and reading :: "'s \<Rightarrow> bool"
    and contents :: "'s \<Rightarrow> int set"
    and failed :: "'s \<Rightarrow> bool"
    and ins :: "'s \<Rightarrow> int \<Rightarrow> 's"
    and nxt :: "'s \<Rightarrow> (int option \<times> 's) option"
    and used :: "'s \<Rightarrow> nat"
    and limit :: nat
  assumes contents_finite: "finite (contents s)"
    and ins_writing: "writing s \<Longrightarrow> writing (ins s x)"
    and ins_used: "writing s \<Longrightarrow> used (ins s x) \<le> Suc (used s)"
    and ins_contents: "writing s \<Longrightarrow> \<not> failed (ins s x) \<Longrightarrow>
        \<not> failed s \<and> contents (ins s x) = insert x (contents s)"
    and writing_reading: "writing s \<Longrightarrow> used s < limit \<Longrightarrow> reading s"
    and nxt_empty: "reading s \<Longrightarrow> contents s = {} \<Longrightarrow>
        \<exists>s'. nxt s = Some (None, s') \<and> reading s' \<and> contents s' = {}"
    and nxt_min: "reading s \<Longrightarrow> contents s \<noteq> {} \<Longrightarrow>
        \<exists>s'. nxt s = Some (Some (Min (contents s)), s') \<and> reading s' \<and>
          contents s' = contents s - {Min (contents s)}"
begin

fun reads :: "nat \<Rightarrow> 's \<Rightarrow> int option list option" where
  "reads 0 s = Some []"
| "reads (Suc n) s = do { (v, s') \<leftarrow> nxt s; vs \<leftarrow> reads n s'; Some (v # vs) }"

lemma reads_empty: "reading s \<Longrightarrow> contents s = {} \<Longrightarrow> reads m s = Some (replicate m None)"
proof (induction m arbitrary: s)
  case (Suc m)
  from nxt_empty [OF Suc(2,3)] Suc(1) show ?case by fastforce
qed simp

lemma reads_sorted:
  assumes "reading s" and "n = card (contents s)"
  shows "reads (n + m) s = Some (map Some (sorted_list_of_set (contents s)) @ replicate m None)"
  using assms
proof (induction n arbitrary: s)
  case 0
  then have "contents s = {}" using contents_finite [of s] by simp
  with 0 reads_empty [of s m] show ?case by simp
next
  case (Suc n)
  let ?C = "contents s"
  have ne: "?C \<noteq> {}" using Suc(3) by auto
  from nxt_min [OF Suc(2) ne] obtain s' where
    s': "nxt s = Some (Some (Min ?C), s')" "reading s'" "contents s' = ?C - {Min ?C}" by blast
  have "n = card (contents s')"
    using Suc(3) s'(3) ne contents_finite [of s] by simp
  from Suc(1) [OF s'(2) this] s' contents_finite [of s] ne show ?case
    by (simp add: sorted_list_of_set_nonempty)
qed

lemma fold_ins:
  assumes "writing s" and "\<not> failed (foldl ins s xs)"
  shows "writing (foldl ins s xs) \<and> \<not> failed s \<and> contents (foldl ins s xs) = contents s \<union> set xs \<and>
    used (foldl ins s xs) \<le> used s + length xs"
  using assms
proof (induction xs arbitrary: s)
  case (Cons x xs)
  from Cons(1) [OF ins_writing [OF Cons(2)]] Cons(3)
  have "writing (foldl ins (ins s x) xs)" "\<not> failed (ins s x)"
    "contents (foldl ins (ins s x) xs) = contents (ins s x) \<union> set xs"
    "used (foldl ins (ins s x) xs) \<le> used (ins s x) + length xs" by simp_all
  with ins_contents [OF Cons(2)] ins_used [OF Cons(2), of x] show ?case by fastforce
qed simp

lemma collect_and_read:
  assumes "writing s" and "contents s = {}" and "used s + length xs < limit"
    and "\<not> failed (foldl ins s xs)"
  shows "reads (card (set xs) + m) (foldl ins s xs) =
    Some (map Some (sorted_list_of_set (set xs)) @ replicate m None)"
proof -
  note f = fold_ins [OF assms(1,4)]
  then have "reading (foldl ins s xs)" using assms(3) writing_reading by auto
  from reads_sorted [OF this, of "card (set xs)" m] f assms(2) show ?thesis by simp
qed

end

definition rs_writing :: "rowset \<Rightarrow> bool" where
  "rs_writing p \<longleftrightarrow> rs_ok p \<and> \<not> rs_NEXT p"

definition rs_reading :: "rowset \<Rightarrow> bool" where
  "rs_reading p \<longleftrightarrow> rs_ok p \<and> rs_small p"

lemma strict_Cons_Min: "strict (v # es) \<Longrightarrow> Min (set (v # es)) = v \<and> set (v # es) - {v} = set es"
  by (auto intro!: Min_eqI)

lemma next_entries:
  assumes "rs_reading p"
  shows "\<exists>q. (if \<not> rs_NEXT p then rowSetToList p else Some p) = Some q \<and> rs_ok q \<and> rs_small q \<and>
    strict (rs_pEntry q) \<and> set (rs_pEntry q) = rs_pending p"
proof (cases "rs_NEXT p")
  case True
  with assms show ?thesis by (auto simp: rs_reading_def rs_ok_def rs_pending_def)
next
  case False
  from assms sorted_entries [of p] obtain es where
    es: "(if \<not> rs_SORTED p then rowSetEntrySort (rs_pEntry p) else Some (rs_pEntry p)) = Some es"
      "strict es" "set es = rs_pending p" by (auto simp: rs_reading_def)
  have "length es \<le> length (rs_pEntry p)"
    using es(2,3) distinct_card [of es] card_length [of "rs_pEntry p"]
    by (simp add: strict_sorted_iff rs_pending_def)
  with False es assms show ?thesis by (auto simp: rowSetToList_def rs_reading_def rs_ok_def rs_small_def)
qed

interpretation rowset_read: rowid_collector rs_writing rs_reading rs_pending rs_mallocFailed
  "sqlite3RowSetInsert orc" sqlite3RowSetNext "\<lambda>p. length (rs_pEntry p)" "2 ^ 40"
  for orc :: "nat \<Rightarrow> bool"
proof
  fix p :: rowset and x :: int
  show "finite (rs_pending p)" by (simp add: rs_pending_def)
  { assume w: "rs_writing p"
    note i = insert_ok [of p orc x]
    show "rs_writing (sqlite3RowSetInsert orc p x)" using w i by (simp add: rs_writing_def)
    show "length (rs_pEntry (sqlite3RowSetInsert orc p x)) \<le> Suc (length (rs_pEntry p))"
      using w i by (simp add: rs_writing_def)
    show "\<not> rs_mallocFailed (sqlite3RowSetInsert orc p x) \<Longrightarrow>
        \<not> rs_mallocFailed p \<and> rs_pending (sqlite3RowSetInsert orc p x) = insert x (rs_pending p)"
      using w i by (simp add: rs_writing_def)
    show "length (rs_pEntry p) < 2 ^ 40 \<Longrightarrow> rs_reading p"
      using w by (simp add: rs_writing_def rs_reading_def rs_small_def) }
  assume r: "rs_reading p"
  obtain q where q: "(if \<not> rs_NEXT p then rowSetToList p else Some p) = Some q" "rs_ok q" "rs_small q"
    "strict (rs_pEntry q)" "set (rs_pEntry q) = rs_pending p" using next_entries [OF r] by blast
  { assume "rs_pending p = {}"
    with q show "\<exists>p'. sqlite3RowSetNext p = Some (None, p') \<and> rs_reading p' \<and> rs_pending p' = {}"
      by (auto simp: sqlite3RowSetNext_def rs_reading_def rs_pending_def) }
  { assume "rs_pending p \<noteq> {}"
    with q(5) obtain v es where e: "rs_pEntry q = v # es" by (cases "rs_pEntry q") auto
    note m = strict_Cons_Min [of v es]
    show "\<exists>p'. sqlite3RowSetNext p = Some (Some (Min (rs_pending p)), p') \<and> rs_reading p' \<and>
        rs_pending p' = rs_pending p - {Min (rs_pending p)}"
      using q e m
      by (auto simp: sqlite3RowSetNext_def Let_def rs_reading_def rs_pending_def rs_small_def rs_ok_def
          sqlite3RowSetClear_def) }
qed


section \<open>Testing\<close>

definition forest_set :: "rs_tree list \<Rightarrow> int set" where
  "forest_set f = (\<Union>t\<in>set f. set (rowSetTreeToList t))"

definition forest_ok :: "rs_tree list \<Rightarrow> bool" where
  "forest_ok f \<longleftrightarrow> (\<forall>t\<in>set f. strict (rowSetTreeToList t))"

lemma forest_simps [simp]:
  "forest_set [] = {}" "forest_set (t # f) = set (rowSetTreeToList t) \<union> forest_set f"
  "forest_set (f @ [t]) = set (rowSetTreeToList t) \<union> forest_set f"
  "forest_ok []" "forest_ok (t # f) \<longleftrightarrow> strict (rowSetTreeToList t) \<and> forest_ok f"
  "forest_ok (f @ [t]) \<longleftrightarrow> strict (rowSetTreeToList t) \<and> forest_ok f"
  by (auto simp: forest_set_def forest_ok_def)

lemma forest_add_ok:
  assumes "forest_ok f" and "strict es" and "rs_forest_add f es = (f', r)"
  shows "forest_ok f' \<and> (case r of None \<Rightarrow> forest_set f' = forest_set f \<union> set es
    | Some es' \<Rightarrow> strict es' \<and> forest_set f' \<union> set es' = forest_set f \<union> set es \<and> forest_set f' = {})"
  using assms
proof (induction f es arbitrary: f' r rule: rs_forest_add.induct)
  case (3 l v t ts es)
  let ?t = "RSNode l v t"
  obtain f1 r1 where a: "rs_forest_add ts (rowSetEntryMerge (rowSetTreeToList ?t) es) = (f1, r1)"
    by fastforce
  have st: "strict (rowSetTreeToList ?t)" using 3(2) by (simp del: rowSetTreeToList.simps)
  have "forest_ok ts" using 3(2) by simp
  from 3(1) [OF this merge_strict [OF st 3(3)] a]
  have "forest_ok f1 \<and> (case r1 of None \<Rightarrow> forest_set f1 = forest_set ts \<union> (set (rowSetTreeToList ?t) \<union> set es)
    | Some es' \<Rightarrow> strict es' \<and> forest_set f1 \<union> set es' = forest_set ts \<union> (set (rowSetTreeToList ?t) \<union> set es) \<and> forest_set f1 = {})"
    unfolding merge_set [OF st 3(3)] .
  moreover have "f' = RSLeaf # f1" "r = r1" using 3(4) a by simp_all
  ultimately show ?case
    by (cases r1) (auto simp del: rowSetTreeToList.simps(2))
qed (auto simp: ListToTree_list)

lemma forest_search:
  "forest_ok f \<Longrightarrow> list_ex (\<lambda>t. rs_tree_search t x) f \<longleftrightarrow> x \<in> forest_set f"
  by (induction f) (auto simp: tree_search_list)

lemma rs_ok_forest: "rs_ok p \<longleftrightarrow> (rs_SORTED p \<or> rs_NEXT p \<longrightarrow> strict (rs_pEntry p)) \<and> forest_ok (rs_pForest p)"
  and rs_tested_forest: "rs_tested p = forest_set (rs_pForest p)"
  by (simp_all add: rs_ok_def forest_ok_def rs_tested_def forest_set_def)

text \<open>The set that a test in batch \<open>b\<close> searches, and what is left pending after it.\<close>

definition rs_visible :: "rowset \<Rightarrow> u8 \<Rightarrow> int set" where
  "rs_visible p b = rs_tested p \<union> (if b \<noteq> rs_iBatch p then rs_pending p else {})"

lemma batch_sort_same: "b = rs_iBatch p \<Longrightarrow> rs_batch_sort orc p b = Some p"
  by (simp add: rs_batch_sort_def)

lemma batch_sort_none:
  "b \<noteq> rs_iBatch p \<Longrightarrow> rs_pEntry p = [] \<Longrightarrow> rs_batch_sort orc p b = Some (p\<lparr>rs_iBatch := b\<rparr>)"
  by (simp add: rs_batch_sort_def)

lemma batch_sort_ok:
  assumes "rs_writing p" and "rs_small p"
  shows "\<exists>q. rs_batch_sort orc p b = Some q \<and> rs_writing q \<and> rs_small q \<and> rs_iBatch q = b \<and>
    (rs_mallocFailed p \<longrightarrow> rs_mallocFailed q) \<and>
    rs_tested q \<subseteq> rs_visible p b \<and> (\<not> rs_mallocFailed q \<longrightarrow> rs_tested q = rs_visible p b) \<and>
    rs_pending q = (if b = rs_iBatch p then rs_pending p else {})"
proof (cases "b = rs_iBatch p \<or> rs_pEntry p = []")
  case True
  then show ?thesis
  proof
    assume "b = rs_iBatch p"
    with assms show ?thesis by (simp add: batch_sort_same rs_visible_def)
  next
    assume e: "rs_pEntry p = []"
    show ?thesis
    proof (cases "b = rs_iBatch p")
      case False
      with e assms show ?thesis
        by (simp add: batch_sort_none rs_visible_def rs_writing_def rs_ok_def rs_small_def rs_pending_def rs_tested_def)
    qed (use assms in \<open>simp add: batch_sort_same rs_visible_def\<close>)
  qed
next
  case False
  then have new: "b \<noteq> rs_iBatch p" "rs_pEntry p \<noteq> []" by auto
  from assms sorted_entries [of p] obtain es where
    es: "(if \<not> rs_SORTED p then rowSetEntrySort (rs_pEntry p) else Some (rs_pEntry p)) = Some es"
      "strict es" "set es = rs_pending p" by (auto simp: rs_writing_def)
  obtain f r where fr: "rs_forest_add (rs_pForest p) es = (f, r)" by fastforce
  have "forest_ok (rs_pForest p)" using assms(1) by (simp add: rs_writing_def rs_ok_forest)
  note add = forest_add_ok [OF this es(2) fr]
  obtain ab q where a: "rowSetEntryAlloc orc p = (ab, q)" by fastforce
  note frame = entryAlloc_frame [OF a]
  show ?thesis
  proof (cases r)
    case None
    with new es fr add assms show ?thesis
      by (auto simp: rs_batch_sort_def rs_visible_def rs_writing_def rs_ok_forest rs_tested_forest
          rs_small_def rs_pending_def)
  next
    case (Some es')
    with new es fr add assms a frame show ?thesis
      by (cases ab) (auto simp: rs_batch_sort_def rs_visible_def rs_writing_def rs_ok_forest rs_tested_forest
          rs_small_def rs_pending_def ListToTree_list)
  qed
qed

lemma test_ok:
  assumes "rs_writing p" and "rs_small p"
  shows "\<exists>r q. sqlite3RowSetTest orc p b x = Some (r, q) \<and> rs_writing q \<and> rs_small q \<and> rs_iBatch q = b \<and>
    (rs_mallocFailed p \<longrightarrow> rs_mallocFailed q) \<and> (r \<longrightarrow> x \<in> rs_visible p b) \<and>
    (\<not> rs_mallocFailed q \<longrightarrow> r = (x \<in> rs_visible p b) \<and> rs_tested q = rs_visible p b) \<and>
    rs_pending q = (if b = rs_iBatch p then rs_pending p else {})"
proof -
  from batch_sort_ok [OF assms] obtain q where q: "rs_batch_sort orc p b = Some q" "rs_writing q" "rs_small q"
    "rs_iBatch q = b" "rs_mallocFailed p \<longrightarrow> rs_mallocFailed q" "rs_tested q \<subseteq> rs_visible p b"
    "\<not> rs_mallocFailed q \<longrightarrow> rs_tested q = rs_visible p b"
    "rs_pending q = (if b = rs_iBatch p then rs_pending p else {})" by blast
  have "forest_ok (rs_pForest q)" using q(2) by (simp add: rs_writing_def rs_ok_forest)
  from forest_search [OF this, of x] q show ?thesis
    by (auto simp: sqlite3RowSetTest_def rs_tested_forest)
qed

section \<open>Properties\<close>

text \<open>
  \<open>rowSetEntrySort\<close>, the bottom-up merge sort with forty buckets, returns the sorted list of
  the distinct rowids of its input and never steps outside its bucket array, for inputs of fewer
  than \<open>2^40\<close> entries.
\<close>

theorem rowset_sort:
  assumes "length xs < 2 ^ 40"
  shows "rowSetEntrySort xs = Some (sorted_list_of_set (set xs))"
proof -
  from rowSetEntrySort_ok [OF assms] obtain ys where ys: "rowSetEntrySort xs = Some ys" "strict ys" "set ys = set xs"
    by blast
  then have "ys = sorted_list_of_set (set xs)"
    using sorted_list_of_set.idem_if_sorted_distinct [of ys] by (simp add: strict_sorted_iff)
  with ys show ?thesis by simp
qed

theorem rowset_sort_witness: "rowSetEntrySort [5, 3, 9, 3, 5] = Some [3, 5, 9]"
proof -
  have "sorted_list_of_set (set [5, 3, 9, 3, 5::int]) = [3, 5, 9]" by code_simp
  with rowset_sort [of "[5, 3, 9, 3, 5]"] show ?thesis by simp
qed

text \<open>
  C30. Rowids inserted into a fresh RowSet, in any order and with repetitions, come back from
  \<open>sqlite3RowSetNext\<close> in strictly increasing order, each once, and then the RowSet reports that
  it is empty however often it is asked, provided no allocation failed.
\<close>

theorem rowset_read_sorted:
  assumes "length xs < 2 ^ 40"
    and "\<not> rs_mallocFailed (foldl (sqlite3RowSetInsert orc) (sqlite3RowSetInit False k n) xs)"
  shows "rowset_read.reads (card (set xs) + m) (foldl (sqlite3RowSetInsert orc) (sqlite3RowSetInit False k n) xs)
    = Some (map Some (sorted_list_of_set (set xs)) @ replicate m None)"
  by (rule rowset_read.collect_and_read [OF _ _ _ assms(2)])
    (use assms(1) in \<open>simp_all add: rs_writing_def rs_ok_def rs_pending_def sqlite3RowSetInit_def\<close>)

theorem rowset_read_sorted_witness:
  "rowset_read.reads 4 (foldl (sqlite3RowSetInsert (\<lambda>_. True)) (sqlite3RowSetInit False 0 1) [7, 2, 7, 4])
    = Some [Some 2, Some 4, Some 7, None]"
proof -
  have "\<not> rs_mallocFailed (foldl (sqlite3RowSetInsert (\<lambda>_. True)) (sqlite3RowSetInit False 0 1) [7, 2, 7, 4])"
    by (simp add: sqlite3RowSetInsert_def rowSetEntryAlloc_def sqlite3RowSetInit_def)
  moreover have "sorted_list_of_set (set [7, 2, 7, 4::int]) = [2, 4, 7]" "card (set [7, 2, 7, 4::int]) = 3"
    by code_simp+
  ultimately show ?thesis
    using rowset_read_sorted [of "[7, 2, 7, 4]" "\<lambda>_. True" 0 1 1] by (simp del: foldl.simps list.set)
qed

text \<open>
  C31. \<open>sqlite3RowSetTest\<close> answers, whatever trees the forest holds, exactly whether the rowid was
  inserted before the current batch began: it searches the rowids already in the forest and, at the
  first test of a new batch, those pending from the batch before, which it moves into the forest.
  After a failed allocation it may forget rowids but never invents one.
\<close>

theorem rowset_test_correct:
  assumes "rs_writing p" and "rs_small p"
  shows "\<exists>r q. sqlite3RowSetTest orc p b x = Some (r, q) \<and> rs_writing q \<and>
    (r \<longrightarrow> x \<in> rs_tested p \<union> rs_pending p) \<and>
    (\<not> rs_mallocFailed q \<longrightarrow>
       (r \<longleftrightarrow> x \<in> rs_tested p \<or> b \<noteq> rs_iBatch p \<and> x \<in> rs_pending p) \<and>
       rs_tested q \<union> rs_pending q = rs_tested p \<union> rs_pending p)"
proof -
  from test_ok [OF assms, of orc b x] obtain r q where "sqlite3RowSetTest orc p b x = Some (r, q)"
    "rs_writing q" "r \<longrightarrow> x \<in> rs_visible p b"
    "\<not> rs_mallocFailed q \<longrightarrow> r = (x \<in> rs_visible p b) \<and> rs_tested q = rs_visible p b"
    "rs_pending q = (if b = rs_iBatch p then rs_pending p else {})" by blast
  then show ?thesis unfolding rs_visible_def by (cases "b = rs_iBatch p") auto
qed

theorem rowset_test_correct_witness:
  "\<exists>r q. sqlite3RowSetTest (\<lambda>_. True) (sqlite3RowSetInit False 0 1) 1 42 = Some (r, q) \<and> rs_writing q \<and>
    (r \<longrightarrow> 42 \<in> rs_tested (sqlite3RowSetInit False 0 1) \<union> rs_pending (sqlite3RowSetInit False 0 1))"
proof -
  have "rs_writing (sqlite3RowSetInit False 0 1)" "rs_small (sqlite3RowSetInit False 0 1)"
    by (simp_all add: rs_writing_def rs_ok_def rs_small_def sqlite3RowSetInit_def)
  from rowset_test_correct [OF this, of "\<lambda>_. True" 1 42] show ?thesis by blast
qed

text \<open>
  The tree that \<open>rowSetListToTree\<close> builds holds the list in order and is as shallow as
  possible: a tree of height \<open>h\<close> has at least \<open>2^(h-1)\<close> entries.
\<close>

theorem rowset_tree_shallow:
  assumes "xs \<noteq> []"
  shows "rowSetTreeToList (rowSetListToTree xs) = xs \<and>
    2 ^ (rs_height (rowSetListToTree xs) - 1) \<le> length xs"
  using ListToTree_list [of xs] ListToTree_shallow [OF assms] by blast

theorem rowset_tree_shallow_witness:
  "rowSetTreeToList (rowSetListToTree [1, 2, 3, 4, 5]) = [1, 2, 3, 4, 5] \<and>
    2 ^ (rs_height (rowSetListToTree [1, 2, 3, 4, 5]) - 1) \<le> length [1::int, 2, 3, 4, 5]"
  by (rule rowset_tree_shallow) simp

end
