(* ===== verification/Char_Tables.thy ===== *)
theory Char_Tables
  imports Sqlite_Prelude
begin

text \<open>
  The character tables of global.c (the ASCII variant), transcribed entry by entry, with the
  macros of sqliteInt.h that read them, and what each macro decides.
\<close>

section \<open>Character tables\<close>

definition sqlite3UpperToLower :: "u8 list" where
  "sqlite3UpperToLower = [
    0, 1, 2, 3, 4, 5, 6, 7, 8, 9, 10, 11, 12, 13, 14, 15, 16, 17,
    18, 19, 20, 21, 22, 23, 24, 25, 26, 27, 28, 29, 30, 31, 32, 33, 34, 35,
    36, 37, 38, 39, 40, 41, 42, 43, 44, 45, 46, 47, 48, 49, 50, 51, 52, 53,
    54, 55, 56, 57, 58, 59, 60, 61, 62, 63, 64, 97, 98, 99, 100, 101, 102, 103,
    104, 105, 106, 107, 108, 109, 110, 111, 112, 113, 114, 115, 116, 117, 118, 119, 120, 121,
    122, 91, 92, 93, 94, 95, 96, 97, 98, 99, 100, 101, 102, 103, 104, 105, 106, 107,
    108, 109, 110, 111, 112, 113, 114, 115, 116, 117, 118, 119, 120, 121, 122, 123, 124, 125,
    126, 127, 128, 129, 130, 131, 132, 133, 134, 135, 136, 137, 138, 139, 140, 141, 142, 143,
    144, 145, 146, 147, 148, 149, 150, 151, 152, 153, 154, 155, 156, 157, 158, 159, 160, 161,
    162, 163, 164, 165, 166, 167, 168, 169, 170, 171, 172, 173, 174, 175, 176, 177, 178, 179,
    180, 181, 182, 183, 184, 185, 186, 187, 188, 189, 190, 191, 192, 193, 194, 195, 196, 197,
    198, 199, 200, 201, 202, 203, 204, 205, 206, 207, 208, 209, 210, 211, 212, 213, 214, 215,
    216, 217, 218, 219, 220, 221, 222, 223, 224, 225, 226, 227, 228, 229, 230, 231, 232, 233,
    234, 235, 236, 237, 238, 239, 240, 241, 242, 243, 244, 245, 246, 247, 248, 249, 250, 251,
    252, 253, 254, 255]"

definition sqlite3CtypeMap :: "u8 list" where
  "sqlite3CtypeMap = [
    0x00, 0x00, 0x00, 0x00, 0x00, 0x00, 0x00, 0x00, 0x00, 0x01, 0x01, 0x01, 0x01, 0x01, 0x00, 0x00,
    0x00, 0x00, 0x00, 0x00, 0x00, 0x00, 0x00, 0x00, 0x00, 0x00, 0x00, 0x00, 0x00, 0x00, 0x00, 0x00,
    0x01, 0x00, 0x00, 0x00, 0x40, 0x00, 0x00, 0x00, 0x00, 0x00, 0x00, 0x00, 0x00, 0x00, 0x00, 0x00,
    0x0c, 0x0c, 0x0c, 0x0c, 0x0c, 0x0c, 0x0c, 0x0c, 0x0c, 0x0c, 0x00, 0x00, 0x00, 0x00, 0x00, 0x00,
    0x00, 0x0a, 0x0a, 0x0a, 0x0a, 0x0a, 0x0a, 0x02, 0x02, 0x02, 0x02, 0x02, 0x02, 0x02, 0x02, 0x02,
    0x02, 0x02, 0x02, 0x02, 0x02, 0x02, 0x02, 0x02, 0x02, 0x02, 0x02, 0x00, 0x00, 0x00, 0x00, 0x40,
    0x00, 0x2a, 0x2a, 0x2a, 0x2a, 0x2a, 0x2a, 0x22, 0x22, 0x22, 0x22, 0x22, 0x22, 0x22, 0x22, 0x22,
    0x22, 0x22, 0x22, 0x22, 0x22, 0x22, 0x22, 0x22, 0x22, 0x22, 0x22, 0x00, 0x00, 0x00, 0x00, 0x00,
    0x40, 0x40, 0x40, 0x40, 0x40, 0x40, 0x40, 0x40, 0x40, 0x40, 0x40, 0x40, 0x40, 0x40, 0x40, 0x40,
    0x40, 0x40, 0x40, 0x40, 0x40, 0x40, 0x40, 0x40, 0x40, 0x40, 0x40, 0x40, 0x40, 0x40, 0x40, 0x40,
    0x40, 0x40, 0x40, 0x40, 0x40, 0x40, 0x40, 0x40, 0x40, 0x40, 0x40, 0x40, 0x40, 0x40, 0x40, 0x40,
    0x40, 0x40, 0x40, 0x40, 0x40, 0x40, 0x40, 0x40, 0x40, 0x40, 0x40, 0x40, 0x40, 0x40, 0x40, 0x40,
    0x40, 0x40, 0x40, 0x40, 0x40, 0x40, 0x40, 0x40, 0x40, 0x40, 0x40, 0x40, 0x40, 0x40, 0x40, 0x40,
    0x40, 0x40, 0x40, 0x40, 0x40, 0x40, 0x40, 0x40, 0x40, 0x40, 0x40, 0x40, 0x40, 0x40, 0x40, 0x40,
    0x40, 0x40, 0x40, 0x40, 0x40, 0x40, 0x40, 0x40, 0x40, 0x40, 0x40, 0x40, 0x40, 0x40, 0x40, 0x40,
    0x40, 0x40, 0x40, 0x40, 0x40, 0x40, 0x40, 0x40, 0x40, 0x40, 0x40, 0x40, 0x40, 0x40, 0x40, 0x40]"

definition UpperToLower :: "u8 \<Rightarrow> u8" where
  "UpperToLower c = sqlite3UpperToLower ! unat c"

definition ctype :: "u8 \<Rightarrow> u8" where
  "ctype c = sqlite3CtypeMap ! unat c"

definition sqlite3Toupper :: "u8 \<Rightarrow> u8" where "sqlite3Toupper c = c AND NOT (ctype c AND 0x20)"
definition sqlite3Isspace :: "u8 \<Rightarrow> bool" where "sqlite3Isspace c \<longleftrightarrow> ctype c AND 0x01 \<noteq> 0"
definition sqlite3Isalnum :: "u8 \<Rightarrow> bool" where "sqlite3Isalnum c \<longleftrightarrow> ctype c AND 0x06 \<noteq> 0"
definition sqlite3Isalpha :: "u8 \<Rightarrow> bool" where "sqlite3Isalpha c \<longleftrightarrow> ctype c AND 0x02 \<noteq> 0"
definition sqlite3Isdigit :: "u8 \<Rightarrow> bool" where "sqlite3Isdigit c \<longleftrightarrow> ctype c AND 0x04 \<noteq> 0"
definition sqlite3Isxdigit :: "u8 \<Rightarrow> bool" where "sqlite3Isxdigit c \<longleftrightarrow> ctype c AND 0x08 \<noteq> 0"
definition IdChar :: "u8 \<Rightarrow> bool" where "IdChar c \<longleftrightarrow> ctype c AND 0x46 \<noteq> 0"

text \<open>What the tables mean, checked entry by entry.\<close>

lemma table_lookup:
  assumes "tab = map (\<lambda>i. f (of_nat i)) [0..<256]"
  shows "tab ! unat (c::u8) = f c"
  using unat_u8_less [of c] by (simp add: assms)

definition lower_spec :: "u8 \<Rightarrow> u8" where
  "lower_spec c = (if 65 \<le> unat c \<and> unat c \<le> 90 then c + 32 else c)"

lemma UpperToLower_eq: "UpperToLower c = lower_spec c"
  unfolding UpperToLower_def by (rule table_lookup) code_simp

lemma ctype_table:
  "map (\<lambda>i. sqlite3CtypeMap ! i) [0..<256] = sqlite3CtypeMap"
  by code_simp

lemma ctype_all: "list_all (\<lambda>i. P (of_nat i) (sqlite3CtypeMap ! i)) [0..<256] \<Longrightarrow> P c (ctype c)"
  using unat_u8_less [of c] by (force simp: ctype_def list_all_iff)

lemma Isspace_iff: "sqlite3Isspace c \<longleftrightarrow> unat c = 32 \<or> 9 \<le> unat c \<and> unat c \<le> 13"
  unfolding sqlite3Isspace_def
  by (rule ctype_all [of "\<lambda>c m. m AND 0x01 \<noteq> 0 \<longleftrightarrow> unat c = 32 \<or> 9 \<le> unat c \<and> unat c \<le> 13"]) code_simp

lemma Isdigit_iff: "sqlite3Isdigit c \<longleftrightarrow> 48 \<le> unat c \<and> unat c \<le> 57"
  unfolding sqlite3Isdigit_def
  by (rule ctype_all [of "\<lambda>c m. m AND 0x04 \<noteq> 0 \<longleftrightarrow> 48 \<le> unat c \<and> unat c \<le> 57"]) code_simp

lemma Isalpha_iff: "sqlite3Isalpha c \<longleftrightarrow> 65 \<le> unat c \<and> unat c \<le> 90 \<or> 97 \<le> unat c \<and> unat c \<le> 122"
  unfolding sqlite3Isalpha_def
  by (rule ctype_all [of "\<lambda>c m. m AND 0x02 \<noteq> 0 \<longleftrightarrow> 65 \<le> unat c \<and> unat c \<le> 90 \<or> 97 \<le> unat c \<and> unat c \<le> 122"]) code_simp

lemma Isalnum_iff: "sqlite3Isalnum c \<longleftrightarrow> sqlite3Isalpha c \<or> sqlite3Isdigit c"
  unfolding sqlite3Isalnum_def sqlite3Isalpha_def sqlite3Isdigit_def
  by (rule ctype_all [of "\<lambda>c m. m AND 0x06 \<noteq> 0 \<longleftrightarrow> m AND 0x02 \<noteq> 0 \<or> m AND 0x04 \<noteq> 0"]) code_simp

lemma Isxdigit_iff: "sqlite3Isxdigit c \<longleftrightarrow> 48 \<le> unat c \<and> unat c \<le> 57 \<or>
    65 \<le> unat c \<and> unat c \<le> 70 \<or> 97 \<le> unat c \<and> unat c \<le> 102"
  unfolding sqlite3Isxdigit_def
  by (rule ctype_all [of "\<lambda>c m. m AND 0x08 \<noteq> 0 \<longleftrightarrow> 48 \<le> unat c \<and> unat c \<le> 57 \<or>
    65 \<le> unat c \<and> unat c \<le> 70 \<or> 97 \<le> unat c \<and> unat c \<le> 102"]) code_simp

lemma Toupper_eq: "sqlite3Toupper c = (if 97 \<le> unat c \<and> unat c \<le> 122 then c - 32 else c)"
  unfolding sqlite3Toupper_def
  by (rule ctype_all [of "\<lambda>c m. c AND NOT (m AND 0x20) = (if 97 \<le> unat c \<and> unat c \<le> 122 then c - 32 else c)"]) code_simp

lemma IdChar_iff: "IdChar c \<longleftrightarrow> sqlite3Isalnum c \<or> unat c \<in> {36, 95} \<or> 128 \<le> unat c"
  unfolding IdChar_def sqlite3Isalnum_def
  by (rule ctype_all [of "\<lambda>c m. m AND 0x46 \<noteq> 0 \<longleftrightarrow> m AND 0x06 \<noteq> 0 \<or> unat c \<in> {36, 95} \<or> 128 \<le> unat c"]) code_simp

lemmas ctype_iffs = Isspace_iff Isdigit_iff Isalpha_iff Isalnum_iff Isxdigit_iff


end
