(* ===== verification/Text_Util.thy ===== *)
theory Text_Util
  imports Char_Tables
begin

text \<open>
  The string routines of util.c: length, case-independent comparison and dequoting. A C string is
  a \<open>u8 list\<close> that holds a zero byte; reading past the end of the list is \<open>None\<close>.
\<close>

section \<open>C strings\<close>

fun sqlite3Strlen30_loop :: "u8 list \<Rightarrow> nat option" where
  "sqlite3Strlen30_loop [] = None"
| "sqlite3Strlen30_loop (c # z) = (if c \<noteq> 0 then map_option Suc (sqlite3Strlen30_loop z) else Some 0)"

definition sqlite3Strlen30 :: "u8 list \<Rightarrow> nat option" where
  "sqlite3Strlen30 z = map_option (\<lambda>n. n mod 2 ^ 30) (sqlite3Strlen30_loop z)"

fun sqlite3_stricmp :: "u8 list \<Rightarrow> u8 list \<Rightarrow> int option" where
  "sqlite3_stricmp (x # a) (y # b) =
     (if x \<noteq> 0 \<and> UpperToLower x = UpperToLower y then sqlite3_stricmp a b
      else Some (uint (UpperToLower x) - uint (UpperToLower y)))"
| "sqlite3_stricmp _ _ = None"

text \<open>The count is a natural number: a negative \<open>N\<close> compares nothing, as 0 does.\<close>

fun sqlite3_strnicmp :: "nat \<Rightarrow> u8 list \<Rightarrow> u8 list \<Rightarrow> int option" where
  "sqlite3_strnicmp 0 a b = Some 0"
| "sqlite3_strnicmp (Suc n) (x # a) (y # b) =
     (if x \<noteq> 0 \<and> UpperToLower x = UpperToLower y then sqlite3_strnicmp n a b
      else Some (uint (UpperToLower x) - uint (UpperToLower y)))"
| "sqlite3_strnicmp (Suc n) _ _ = None"

text \<open>
  \<open>sqlite3Dequote\<close> works in place on the buffer \<open>z\<close>: the loop reads at \<open>i\<close> and writes at
  \<open>j\<close>. The result is the buffer with the return value, \<open>None\<close> in its second place for the
  return value \<open>-1\<close>.
\<close>

function dequote_loop :: "u8 \<Rightarrow> u8 list \<Rightarrow> nat \<Rightarrow> nat \<Rightarrow> (u8 list \<times> nat) option" where
  "dequote_loop quote z i j =
     (if i < length z then
        (if z ! i = 0 then do { z' \<leftarrow> wr z j 0; Some (z', j) }
         else if z ! i = quote then do {
           q \<leftarrow> rd z (i + 1);
           if q = quote then do { z' \<leftarrow> wr z j quote;
               (if length z' = length z then dequote_loop quote z' (i + 2) (j + 1) else None) }
           else do { z' \<leftarrow> wr z j 0; Some (z', j) } }
         else do { z' \<leftarrow> wr z j (z ! i);
               (if length z' = length z then dequote_loop quote z' (i + 1) (j + 1) else None) })
      else None)"
  by pat_completeness auto
termination
  by (relation "measure (\<lambda>(q, z, i, j). length z - i)") auto

declare dequote_loop.simps [simp del]

definition sqlite3Dequote :: "u8 list \<Rightarrow> (u8 list \<times> nat option) option" where
  "sqlite3Dequote z = do {
     quote \<leftarrow> rd z 0;
     if quote \<in> {39, 34, 96, 91} then do {
       (z', n) \<leftarrow> dequote_loop (if quote = 91 then 93 else quote) z 1 0;
       Some (z', Some n) }
     else Some (z, None) }"

section \<open>Case-independent comparison is a total order on strings\<close>

definition fold_case :: "u8 list \<Rightarrow> u8 list" where
  "fold_case = map UpperToLower"

definition cstring :: "u8 list \<Rightarrow> bool" where
  "cstring s \<longleftrightarrow> 0 \<notin> set s"

lemma UpperToLower_0 [simp]: "UpperToLower 0 = 0" "UpperToLower x = 0 \<longleftrightarrow> x = 0"
proof -
  show "UpperToLower 0 = 0" by (simp add: UpperToLower_eq lower_spec_def)
  have "x + 32 \<noteq> 0" if "65 \<le> unat x" "unat x \<le> 90" for x :: u8
  proof
    assume "x + 32 = 0"
    then have "unat (x + 32) = 0" by simp
    moreover have "unat (x + 32) = unat x + 32" using that by (simp add: unat_word_ariths)
    ultimately show False by simp
  qed
  then show "UpperToLower x = 0 \<longleftrightarrow> x = 0" by (auto simp: UpperToLower_eq lower_spec_def)
qed

text \<open>The lexicographic order on the folded bytes, with the end of the string lowest.\<close>

fun cmp_spec :: "u8 list \<Rightarrow> u8 list \<Rightarrow> int" where
  "cmp_spec [] [] = 0"
| "cmp_spec [] (y # b) = - uint (UpperToLower y)"
| "cmp_spec (x # a) [] = uint (UpperToLower x)"
| "cmp_spec (x # a) (y # b) =
     (if UpperToLower x = UpperToLower y then cmp_spec a b
      else uint (UpperToLower x) - uint (UpperToLower y))"

lemma stricmp_spec:
  "cstring a \<Longrightarrow> cstring b \<Longrightarrow> sqlite3_stricmp (a @ 0 # xs) (b @ 0 # ys) = Some (cmp_spec a b)"
  by (induction a b rule: cmp_spec.induct) (auto simp: cstring_def)

lemma strnicmp_spec:
  "cstring a \<Longrightarrow> cstring b \<Longrightarrow>
   sqlite3_strnicmp n (a @ 0 # xs) (b @ 0 # ys) = Some (cmp_spec (take n a) (take n b))"
proof (induction a b arbitrary: n rule: cmp_spec.induct)
  case 1
  then show ?case by (cases n) auto
next
  case (2 y b)
  then show ?case by (cases n) (auto simp: cstring_def)
next
  case (3 x a)
  then show ?case by (cases n) (auto simp: cstring_def)
next
  case (4 x a y b)
  then show ?case by (cases n) (auto simp: cstring_def)
qed

lemma strnicmp_exact:
  "cstring a \<Longrightarrow> length a = n \<Longrightarrow> length b = n \<Longrightarrow> sqlite3_strnicmp n (a @ xs) (b @ ys) = Some (cmp_spec a b)"
  by (induction a b arbitrary: n rule: cmp_spec.induct) (auto simp: cstring_def)

lemma cmp_spec_0: "cstring a \<Longrightarrow> cstring b \<Longrightarrow> cmp_spec a b = 0 \<longleftrightarrow> fold_case a = fold_case b"
  by (induction a b rule: cmp_spec.induct)
    (auto simp: cstring_def fold_case_def uint_0_iff simp flip: word_uint_eq_iff)

lemma cmp_spec_antisym: "cmp_spec b a = - cmp_spec a b"
  by (induction a b rule: cmp_spec.induct) auto

lemma uint_u8_ge: "0 \<le> uint (x::u8)"
  by simp

lemma uint_lower_pos: "x \<noteq> 0 \<Longrightarrow> 0 < uint (UpperToLower x)"
proof -
  assume "x \<noteq> 0"
  then have "UpperToLower x \<noteq> 0" by simp
  then have "uint (UpperToLower x) \<noteq> 0" by (simp only: unsigned_eq_0_iff not_False_eq_True)
  then show ?thesis using uint_u8_ge [of "UpperToLower x"] by linarith
qed

lemma cmp_spec_trans:
  "cstring a \<Longrightarrow> cstring b \<Longrightarrow> cstring c \<Longrightarrow> cmp_spec a b < 0 \<Longrightarrow> cmp_spec b c < 0 \<Longrightarrow> cmp_spec a c < 0"
proof (induction a b arbitrary: c rule: cmp_spec.induct)
  case (2 y b)
  then show ?case by (cases c) (auto simp: cstring_def uint_lower_pos)
next
  case (3 x a)
  then show ?case using uint_u8_ge [of "UpperToLower x"] by simp
next
  case (4 x a y b)
  show ?case
  proof (cases c)
    case Nil
    with 4 show ?thesis using uint_u8_ge [of "UpperToLower y"] by simp
  next
    case (Cons z d)
    with 4 show ?thesis by (auto simp: cstring_def split: if_splits)
  qed
qed auto

section \<open>Dequoting\<close>

text \<open>An SQL literal doubles the quote character inside it.\<close>

fun sql_quote :: "u8 \<Rightarrow> u8 list \<Rightarrow> u8 list" where
  "sql_quote q [] = []"
| "sql_quote q (c # s) = (if c = q then q # q # sql_quote q s else c # sql_quote q s)"

lemma sql_quote_length: "length s \<le> length (sql_quote q s)"
  by (induction s) auto

text \<open>
  The loop invariant: \<open>done\<close> has been written to the front of the buffer, and what is still to
  be read has not been overwritten, since \<open>j < i\<close>.
\<close>

lemma dequote_loop_sim:
  assumes "cstring s" and "q \<noteq> 0" and "e \<noteq> q"
    and "drop i z = sql_quote q s @ q # e # rest" and "j < i" and "i \<le> length z"
  shows "\<exists>z'. dequote_loop q z i j = Some (z', j + length s) \<and> length z' = length z \<and>
    take j z' = take j z \<and> take (length s + 1) (drop j z') = s @ [0]"
  using assms
proof (induction s arbitrary: z i j)
  case Nil
  from Nil have d: "drop i z = q # e # rest" by simp
  from arg_cong [OF d, of length] have l: "i < length z" "Suc i < length z" by simp_all
  have zi: "z ! i = q" using d by (rule nth_via_drop)
  have "drop (Suc i) z = e # rest" using d by (metis drop_Suc list.sel(3) tl_drop)
  then have zi1: "z ! Suc i = e" by (rule nth_via_drop)
  have "dequote_loop q z i j = Some (z[j := 0], j)"
    using Nil(2,3,5) l zi zi1 by (subst dequote_loop.simps) (simp add: rd_in_range wr_in_range)
  moreover have "take 1 (drop j (z[j := 0])) = [0]"
    using Nil(5) l by (simp add: take_Suc_conv_app_nth [of 0, simplified] hd_drop_conv_nth)
  ultimately show ?case using Nil(5) l by simp
next
  case (Cons c s)
  let ?n = "if c = q then 2 else 1"
  let ?z = "z[j := c]"
  have len: "i + ?n < length z"
    using arg_cong [OF Cons(5), of length] by (auto split: if_splits)
  have zi: "z ! i = c" using Cons(5) nth_via_drop [of i z c] by (auto split: if_splits)
  have zi1: "z ! (i + 1) = q" if "c = q"
  proof -
    have "drop (Suc i) z = q # sql_quote q s @ q # e # rest"
      using Cons(5) that by (simp add: drop_Suc flip: drop_tl) (metis drop_Suc list.sel(3) tl_drop)
    then show ?thesis using nth_via_drop by fastforce
  qed
  have rest: "drop (i + ?n) ?z = sql_quote q s @ q # e # rest"
  proof -
    have "drop (i + ?n) ?z = drop (i + ?n) z" using Cons(6) by simp
    also have "\<dots> = drop ?n (drop i z)" by (simp add: add.commute)
    also have "\<dots> = sql_quote q s @ q # e # rest" unfolding Cons(5) by simp
    finally show ?thesis .
  qed
  have cs: "cstring s" using Cons(2) by (simp add: cstring_def)
  have jj: "j + 1 < i + ?n" and il: "i + ?n \<le> length ?z" using Cons(6) len by simp_all
  from Cons(1) [OF cs Cons(3,4) rest jj il] obtain z' where
    z': "dequote_loop q ?z (i + ?n) (j + 1) = Some (z', j + 1 + length s)" "length z' = length z"
      "take (j + 1) z' = take (j + 1) ?z" "take (length s + 1) (drop (j + 1) z') = s @ [0]" by auto
  have j: "j < length z" using Cons(6,7) by simp
  have zj: "z' ! j = c" using z'(3) j z'(2) by (metis less_add_one nth_list_update_eq nth_take)
  have "take j z' = take j z" using z'(3)
    by (metis (no_types, lifting) add.commute le_add2 min.absorb1 take_take take_update_cancel order_refl)
  moreover have "take (length (c # s) + 1) (drop j z') = (c # s) @ [0]"
    using z'(2,4) zj j by (simp add: Cons_nth_drop_Suc [symmetric])
  moreover have "dequote_loop q z i j = dequote_loop q ?z (i + ?n) (j + 1)"
    using len zi zi1 Cons(2) j
    by (subst dequote_loop.simps) (auto simp: rd_in_range wr_in_range cstring_def)
  ultimately show ?case using z'(1,2) by auto
qed

lemma Dequote_quote:
  assumes "q \<in> {39, 34, 96}" and "cstring s"
  shows "\<exists>z'. sqlite3Dequote (q # sql_quote q s @ [q, 0]) = Some (z', Some (length s)) \<and>
    take (length s + 1) z' = s @ [0]"
  using dequote_loop_sim [OF assms(2), of q 0 1 "q # sql_quote q s @ [q, 0]" "[]" 0] assms(1)
  by (auto simp: sqlite3Dequote_def)


section \<open>Properties\<close>

text \<open>
  \<open>sqlite3_stricmp\<close> and \<open>sqlite3_strnicmp\<close> on zero-terminated strings never read past a
  terminator and compare the case-folded strings: they return zero exactly for strings (or prefixes
  of the given length) that are equal up to ASCII case, and a negative number exactly when the
  arguments swapped give a positive one.
\<close>

theorem stricmp_compares:
  assumes "cstring a" and "cstring b"
  shows "\<exists>c d. sqlite3_stricmp (a @ [0]) (b @ [0]) = Some c \<and> (c = 0 \<longleftrightarrow> fold_case a = fold_case b) \<and>
    sqlite3_stricmp (b @ [0]) (a @ [0]) = Some (- c) \<and>
    sqlite3_strnicmp n (a @ [0]) (b @ [0]) = Some d \<and>
    (d = 0 \<longleftrightarrow> fold_case (take n a) = fold_case (take n b))"
proof -
  have "cstring (take n a)" "cstring (take n b)"
    using assms by (auto simp: cstring_def dest: in_set_takeD)
  with assms show ?thesis
    using stricmp_spec [OF assms, of "[]" "[]"] stricmp_spec [OF assms(2,1), of "[]" "[]"]
      strnicmp_spec [OF assms, of n "[]" "[]"]
    by (simp add: cmp_spec_0 cmp_spec_antisym [of b a])
qed

theorem stricmp_compares_witness:
  "\<exists>c d. sqlite3_stricmp ([83, 81, 76] @ [0]) ([115, 113, 108] @ [0]) = Some c \<and>
    (c = 0 \<longleftrightarrow> fold_case [83, 81, 76] = fold_case [115, 113, 108]) \<and>
    sqlite3_stricmp ([115, 113, 108] @ [0]) ([83, 81, 76] @ [0]) = Some (- c) \<and>
    sqlite3_strnicmp 2 ([83, 81, 76] @ [0]) ([115, 113, 108] @ [0]) = Some d \<and>
    (d = 0 \<longleftrightarrow> fold_case (take 2 [83, 81, 76]) = fold_case (take 2 [115, 113, 108]))"
  by (rule stricmp_compares) (simp_all add: cstring_def)

text \<open>
  C40. Dequoting inverts quoting: for each of the three symmetric quote characters and every
  zero-free text, \<open>sqlite3Dequote\<close> applied in place to the literal that doubles the quotes inside
  the text leaves the text, zero-terminated, at the start of the buffer and returns its length.
\<close>

theorem dequote_roundtrip:
  assumes "q \<in> {39, 34, 96}" and "cstring s"
  shows "\<exists>z'. sqlite3Dequote (q # sql_quote q s @ [q, 0]) = Some (z', Some (length s)) \<and>
    take (length s + 1) z' = s @ [0]"
  using assms by (rule Dequote_quote)

theorem dequote_roundtrip_witness:
  "\<exists>z'. sqlite3Dequote (39 # sql_quote 39 [105, 39, 115] @ [39, 0]) = Some (z', Some (length [105::u8, 39, 115])) \<and>
    take (length [105::u8, 39, 115] + 1) z' = [105, 39, 115] @ [0]"
  by (rule dequote_roundtrip) (simp_all add: cstring_def)

end
