(* ===== verification/Hash.thy ===== *)
theory Hash
  imports Text_Util
begin

text \<open>
  hash.c: the hash table behind the symbol tables (tables, indices, functions, collations,
  modules). All elements are on one doubly linked list; the buckets, once allocated, each point to
  the first element of a run of that list. Keys are compared without regard to ASCII case.

  The list from \<open>first\<close> is a list of elements; an element carries its address (\<open>he_id\<close>), and
  a bucket's \<open>chain\<close> is such an address. \<open>h_next\<close> supplies the address of the next element
  allocated. \<open>malloc\<close> fails as the oracle says; \<open>msize\<close> is \<open>sqlite3MallocSize\<close> of a block
  requested with a given size.
\<close>

section \<open>The structure\<close>

record 'd helem =
  he_id :: nat
  he_key :: "u8 list"
  he_data :: 'd

record 'd hash =
  h_htsize :: nat
  h_count :: nat
  h_first :: "'d helem list"
  h_ht :: "(nat \<times> nat option) list option"
  h_next :: nat

definition sqlite3HashInit :: "nat \<Rightarrow> 'd hash" where
  "sqlite3HashInit a = \<lparr>h_htsize = 0, h_count = 0, h_first = [], h_ht = None, h_next = a\<rparr>"

definition sqlite3HashClear :: "'d hash \<Rightarrow> 'd hash" where
  "sqlite3HashClear pH = pH\<lparr>h_first := [], h_ht := None, h_htsize := 0, h_count := 0\<rparr>"

definition strHash :: "u8 list \<Rightarrow> u32" where
  "strHash z = foldl (\<lambda>h c. push_bit 3 h XOR h XOR ucast (UpperToLower c)) 0 z"

section \<open>Operations\<close>

definition insert_before :: "nat \<Rightarrow> 'd helem \<Rightarrow> 'd helem list \<Rightarrow> 'd helem list" where
  "insert_before a e es = takeWhile (\<lambda>x. he_id x \<noteq> a) es @ e # dropWhile (\<lambda>x. he_id x \<noteq> a) es"

text \<open>\<open>pEntry\<close> is null or the bucket with the given index.\<close>

definition insertElement :: "'d hash \<Rightarrow> nat option \<Rightarrow> 'd helem \<Rightarrow> 'd hash" where
  "insertElement pH pEntry pNew =
     (case pEntry of
        None \<Rightarrow> pH\<lparr>h_first := pNew # h_first pH\<rparr>
      | Some h \<Rightarrow>
          (let (c, chain) = the (h_ht pH) ! h;
               pHead = (if c \<noteq> 0 then chain else None);
               pH = pH\<lparr>h_ht := Some ((the (h_ht pH))[h := (c + 1, Some (he_id pNew))])\<rparr>
           in case pHead of
                None \<Rightarrow> pH\<lparr>h_first := pNew # h_first pH\<rparr>
              | Some a \<Rightarrow> pH\<lparr>h_first := insert_before a pNew (h_first pH)\<rparr>))"

text \<open>
  \<open>rehash\<close>: \<open>SQLITE_MALLOC_SOFT_LIMIT\<close> is 1024 bytes, that is 64 buckets. The first result is
  the return value, the last one the number of allocation attempts.
\<close>

definition SQLITE_MALLOC_SOFT_LIMIT :: nat where "SQLITE_MALLOC_SOFT_LIMIT = 1024"
definition sizeof_ht :: nat where "sizeof_ht = 16"

definition rehash_all :: "'d hash \<Rightarrow> 'd helem list \<Rightarrow> 'd hash" where
  "rehash_all pH es = foldl (\<lambda>pH e. insertElement pH (Some (unat (strHash (he_key e)) mod h_htsize pH)) e) pH es"

definition rehash :: "(nat \<Rightarrow> bool) \<Rightarrow> (nat \<Rightarrow> nat) \<Rightarrow> nat \<Rightarrow> 'd hash \<Rightarrow> nat \<Rightarrow> bool \<times> 'd hash \<times> nat" where
  "rehash orc msize k pH new_size =
     (let new_size = (if new_size * sizeof_ht > SQLITE_MALLOC_SOFT_LIMIT
                      then SQLITE_MALLOC_SOFT_LIMIT div sizeof_ht else new_size)
      in if new_size = h_htsize pH then (False, pH, k)
         else if \<not> orc k then (False, pH, k + 1)
         else let new_size = msize (new_size * sizeof_ht) div sizeof_ht
           in (True, rehash_all (pH\<lparr>h_ht := Some (replicate new_size (0, None)), h_htsize := new_size, h_first := []\<rparr>)
                       (h_first pH), k + 1))"

fun find_loop :: "nat \<Rightarrow> u8 list \<Rightarrow> 'd helem list \<Rightarrow> 'd helem option" where
  "find_loop 0 pKey es = None"
| "find_loop (Suc n) pKey [] = None"
| "find_loop (Suc n) pKey (e # es) =
     (if length (he_key e) = length pKey \<and> sqlite3_strnicmp (length pKey) (he_key e) pKey = Some 0
      then Some e else find_loop n pKey es)"

definition findElementGivenHash :: "'d hash \<Rightarrow> u8 list \<Rightarrow> nat \<Rightarrow> 'd helem option" where
  "findElementGivenHash pH pKey h =
     (case h_ht pH of
        Some t \<Rightarrow>
          (case t ! h of
             (count, None) \<Rightarrow> None
           | (count, Some a) \<Rightarrow> find_loop count pKey (dropWhile (\<lambda>x. he_id x \<noteq> a) (h_first pH)))
      | None \<Rightarrow> find_loop (h_count pH) pKey (h_first pH))"

definition elem_next :: "'d helem \<Rightarrow> 'd helem list \<Rightarrow> nat option" where
  "elem_next e es = (case dropWhile (\<lambda>x. he_id x \<noteq> he_id e) es of x # y # _ \<Rightarrow> Some (he_id y) | _ \<Rightarrow> None)"

definition removeElementGivenHash :: "'d hash \<Rightarrow> 'd helem \<Rightarrow> nat \<Rightarrow> 'd hash" where
  "removeElementGivenHash pH elem h =
     (let nxt = elem_next elem (h_first pH);
          pH = pH\<lparr>h_first := filter (\<lambda>x. he_id x \<noteq> he_id elem) (h_first pH)\<rparr>;
          pH = (case h_ht pH of
                  None \<Rightarrow> pH
                | Some t \<Rightarrow>
                    (case t ! h of (c, chain) \<Rightarrow>
                       pH\<lparr>h_ht := Some (t[h := (c - 1, if chain = Some (he_id elem) then nxt else chain)])\<rparr>));
          pH = pH\<lparr>h_count := h_count pH - 1\<rparr>
      in if h_count pH = 0 then sqlite3HashClear pH else pH)"

definition sqlite3HashFind :: "'d hash \<Rightarrow> u8 list \<Rightarrow> 'd option" where
  "sqlite3HashFind pH pKey =
     (let h = (if h_ht pH \<noteq> None then unat (strHash pKey) mod h_htsize pH else 0)
      in map_option he_data (findElementGivenHash pH pKey h))"

text \<open>
  \<open>sqlite3HashInsert\<close>: a null \<open>data\<close> is \<open>None\<close>. The first result is the pointer returned,
  the last one the number of allocation attempts.
\<close>

definition set_elem :: "'d helem \<Rightarrow> u8 list \<Rightarrow> 'd \<Rightarrow> 'd helem list \<Rightarrow> 'd helem list" where
  "set_elem e pKey d es = map (\<lambda>x. if he_id x = he_id e then x\<lparr>he_data := d, he_key := pKey\<rparr> else x) es"

definition sqlite3HashInsert :: "(nat \<Rightarrow> bool) \<Rightarrow> (nat \<Rightarrow> nat) \<Rightarrow> nat \<Rightarrow> 'd hash \<Rightarrow> u8 list \<Rightarrow> 'd option \<Rightarrow>
    'd option \<times> 'd hash \<times> nat" where
  "sqlite3HashInsert orc msize k pH pKey data =
     (let h = (if h_htsize pH \<noteq> 0 then unat (strHash pKey) mod h_htsize pH else 0)
      in case findElementGivenHash pH pKey h of
           Some elem \<Rightarrow>
             (case data of
                None \<Rightarrow> (Some (he_data elem), removeElementGivenHash pH elem h, k)
              | Some d \<Rightarrow> (Some (he_data elem), pH\<lparr>h_first := set_elem elem pKey d (h_first pH)\<rparr>, k))
         | None \<Rightarrow>
             (case data of
                None \<Rightarrow> (None, pH, k)
              | Some d \<Rightarrow>
                  (if \<not> orc k then (data, pH, k + 1)
                   else
                     (let new_elem = \<lparr>he_id = h_next pH, he_key = pKey, he_data = d\<rparr>;
                          pH = pH\<lparr>h_count := h_count pH + 1, h_next := h_next pH + 1\<rparr>;
                          (pH, k, h) =
                            (if h_count pH \<ge> 10 \<and> h_count pH > 2 * h_htsize pH then
                               (case rehash orc msize (k + 1) pH (h_count pH * 2) of
                                  (True, pH, k) \<Rightarrow> (pH, k, unat (strHash pKey) mod h_htsize pH)
                                | (False, pH, k) \<Rightarrow> (pH, k, h))
                             else (pH, k + 1, h))
                      in (None, insertElement pH (if h_ht pH \<noteq> None then Some h else None) new_elem, k)))))"

section \<open>Runs of a list\<close>

text \<open>The elements that satisfy \<open>P\<close> are contiguous.\<close>

definition contig :: "('a \<Rightarrow> bool) \<Rightarrow> 'a list \<Rightarrow> bool" where
  "contig P xs \<longleftrightarrow> (\<forall>x\<in>set (dropWhile P (dropWhile (\<lambda>x. \<not> P x) xs)). \<not> P x)"

lemma dropWhile_none: "\<forall>x\<in>set xs. \<not> P x \<Longrightarrow> dropWhile P (xs @ ys) = (if xs = [] then dropWhile P ys else xs @ ys)"
  by (cases xs) auto

lemma contig_iff: "contig P xs \<longleftrightarrow> (\<exists>as bs cs. xs = as @ bs @ cs \<and> (\<forall>x\<in>set as. \<not> P x) \<and>
    (\<forall>x\<in>set bs. P x) \<and> (\<forall>x\<in>set cs. \<not> P x))"
proof
  assume c: "contig P xs"
  let ?as = "takeWhile (\<lambda>x. \<not> P x) xs" and ?d = "dropWhile (\<lambda>x. \<not> P x) xs"
  have x: "xs = ?as @ takeWhile P ?d @ dropWhile P ?d" by simp
  show "\<exists>as bs cs. xs = as @ bs @ cs \<and> (\<forall>x\<in>set as. \<not> P x) \<and> (\<forall>x\<in>set bs. P x) \<and> (\<forall>x\<in>set cs. \<not> P x)"
  proof (intro exI conjI)
    show "xs = ?as @ takeWhile P ?d @ dropWhile P ?d" by (rule x)
    show "\<forall>x\<in>set ?as. \<not> P x" "\<forall>x\<in>set (takeWhile P ?d). P x"
      by (intro ballI, blast dest: set_takeWhileD)+
    show "\<forall>x\<in>set (dropWhile P ?d). \<not> P x" using c unfolding contig_def .
  qed
next
  assume "\<exists>as bs cs. xs = as @ bs @ cs \<and> (\<forall>x\<in>set as. \<not> P x) \<and> (\<forall>x\<in>set bs. P x) \<and> (\<forall>x\<in>set cs. \<not> P x)"
  then obtain as bs cs where xs: "xs = as @ bs @ cs" "\<forall>x\<in>set as. \<not> P x" "\<forall>x\<in>set bs. P x" "\<forall>x\<in>set cs. \<not> P x"
    by blast
  have "set (dropWhile P (dropWhile (\<lambda>x. \<not> P x) (bs @ cs))) \<subseteq> set cs"
    using xs(3,4) by (cases bs) (auto dest!: set_dropWhileD)
  with xs show "contig P xs" by (auto simp: contig_def)
qed

lemma contig_none: "\<forall>x\<in>set xs. \<not> P x \<Longrightarrow> contig P xs"
  by (auto simp: contig_def dest!: set_dropWhileD)

lemma contig_pad: "contig P xs \<Longrightarrow> \<forall>x\<in>set l. \<not> P x \<Longrightarrow> \<forall>x\<in>set r. \<not> P x \<Longrightarrow> contig P (l @ xs @ r)"
proof -
  assume c: "contig P xs" and l: "\<forall>x\<in>set l. \<not> P x" and r: "\<forall>x\<in>set r. \<not> P x"
  from c obtain as bs cs where "xs = as @ bs @ cs" "\<forall>x\<in>set as. \<not> P x" "\<forall>x\<in>set bs. P x" "\<forall>x\<in>set cs. \<not> P x"
    by (auto simp: contig_iff)
  with l r show ?thesis unfolding contig_iff
    by (intro exI [of _ "l @ as"] exI [of _ bs] exI [of _ "cs @ r"]) auto
qed

lemma contig_filter: "contig P xs \<Longrightarrow> contig P (filter R xs)"
proof -
  assume "contig P xs"
  then obtain as bs cs where "xs = as @ bs @ cs" "\<forall>x\<in>set as. \<not> P x" "\<forall>x\<in>set bs. P x" "\<forall>x\<in>set cs. \<not> P x"
    by (auto simp: contig_iff)
  then show ?thesis unfolding contig_iff
    by (intro exI [of _ "filter R as"] exI [of _ "filter R bs"] exI [of _ "filter R cs"]) auto
qed

text \<open>An element can be put between two runs without breaking a third one.\<close>

lemma contig_split:
  assumes c: "contig P (ps @ g # qs)" and g: "\<not> P g"
  shows "contig P ps \<and> (\<forall>x\<in>set qs. \<not> P x) \<or> (\<forall>x\<in>set ps. \<not> P x) \<and> contig P qs"
proof (cases "\<exists>x\<in>set ps. P x")
  case True
  let ?d = "dropWhile (\<lambda>x. \<not> P x) ps"
  have d: "dropWhile (\<lambda>x. \<not> P x) (ps @ g # qs) = ?d @ g # qs" using True by (auto simp: dropWhile_append1)
  have dw: "dropWhile P (ys @ g # qs) = dropWhile P ys @ g # qs" for ys using g by (induction ys) auto
  have "\<forall>x\<in>set (dropWhile P ?d @ g # qs). \<not> P x" using c unfolding contig_def d dw .
  then show ?thesis unfolding contig_def set_append list.set(2) by blast
next
  case False
  then have d: "dropWhile (\<lambda>x. \<not> P x) (ps @ g # qs) = dropWhile (\<lambda>x. \<not> P x) qs" using g by simp
  have "contig P qs" using c unfolding contig_def d .
  with False show ?thesis by blast
qed

lemma contig_insert:
  assumes "contig P (ps @ g # qs)" and "\<not> P g" and "\<not> P e"
  shows "contig P (ps @ e # g # qs)"
  using contig_split [OF assms(1,2)]
proof
  assume "contig P ps \<and> (\<forall>x\<in>set qs. \<not> P x)"
  with assms show ?thesis using contig_pad [of P ps "[]" "e # g # qs"] by auto
next
  assume "(\<forall>x\<in>set ps. \<not> P x) \<and> contig P qs"
  with assms show ?thesis using contig_pad [of P qs "ps @ [e, g]" "[]"] by auto
qed

lemma contig_run: "contig P xs \<Longrightarrow> \<exists>cs. dropWhile (\<lambda>x. \<not> P x) xs = filter P xs @ cs \<and> (\<forall>x\<in>set cs. \<not> P x)"
proof -
  assume "contig P xs"
  then obtain as bs cs where xs: "xs = as @ bs @ cs" "\<forall>x\<in>set as. \<not> P x" "\<forall>x\<in>set bs. P x" "\<forall>x\<in>set cs. \<not> P x"
    by (auto simp: contig_iff)
  then have "filter P xs = bs" by (auto simp: filter_id_conv)
  moreover have "dropWhile (\<lambda>x. \<not> P x) xs = dropWhile (\<lambda>x. \<not> P x) (bs @ cs)" using xs by auto
  moreover have "dropWhile (\<lambda>x. \<not> P x) (bs @ cs) = bs @ (if bs = [] then [] else cs)"
    using xs(3,4) by (cases bs) auto
  ultimately have "dropWhile (\<lambda>x. \<not> P x) xs = filter P xs @ (if bs = [] then [] else cs)" by simp
  with xs(4) show ?thesis by (intro exI [of _ "if bs = [] then [] else cs"]) simp
qed



section \<open>The invariant\<close>

definition in_bucket :: "nat \<Rightarrow> nat \<Rightarrow> 'd helem \<Rightarrow> bool" where
  "in_bucket n h e \<longleftrightarrow> unat (strHash (he_key e)) mod n = h"

definition bucket_ok :: "('d helem \<Rightarrow> bool) \<Rightarrow> 'd helem list \<Rightarrow> nat \<times> nat option \<Rightarrow> bool" where
  "bucket_ok P es b \<longleftrightarrow> contig P es \<and> fst b = length (filter P es) \<and>
     (filter P es \<noteq> [] \<longrightarrow> snd b = Some (he_id (hd (filter P es))))"

definition table_ok :: "nat \<Rightarrow> (nat \<times> nat option) list \<Rightarrow> 'd helem list \<Rightarrow> bool" where
  "table_ok n t es \<longleftrightarrow> 0 < n \<and> length t = n \<and> (\<forall>h<n. bucket_ok (in_bucket n h) es (t ! h))"

definition elems_ok :: "nat \<Rightarrow> 'd helem list \<Rightarrow> bool" where
  "elems_ok a es \<longleftrightarrow> distinct (map he_id es) \<and> distinct (map (\<lambda>e. fold_case (he_key e)) es) \<and>
     (\<forall>e\<in>set es. cstring (he_key e) \<and> he_id e < a)"

definition hash_ok :: "'d hash \<Rightarrow> bool" where
  "hash_ok pH \<longleftrightarrow> elems_ok (h_next pH) (h_first pH) \<and> h_count pH = length (h_first pH) \<and>
     (case h_ht pH of None \<Rightarrow> h_htsize pH = 0 | Some t \<Rightarrow> table_ok (h_htsize pH) t (h_first pH))"

text \<open>What the table denotes: a map from case-folded keys to data.\<close>

definition elem_map :: "'d helem list \<Rightarrow> u8 list \<rightharpoonup> 'd" where
  "elem_map es = map_of (map (\<lambda>e. (fold_case (he_key e), he_data e)) es)"

definition hash_map :: "'d hash \<Rightarrow> u8 list \<rightharpoonup> 'd" where
  "hash_map pH = elem_map (h_first pH)"

lemma elem_map_Some:
  assumes "distinct (map (\<lambda>e. fold_case (he_key e)) es)"
  shows "elem_map es k = Some d \<longleftrightarrow> (\<exists>e\<in>set es. fold_case (he_key e) = k \<and> he_data e = d)"
  using assms unfolding elem_map_def by (subst map_of_eq_Some_iff) (auto simp: comp_def)

lemma elem_map_None: "elem_map es k = None \<longleftrightarrow> (\<forall>e\<in>set es. fold_case (he_key e) \<noteq> k)"
  unfolding elem_map_def map_of_eq_None_iff by (auto simp: image_image)

lemma elem_map_cong:
  assumes "elems_ok a es" and "elems_ok b es'" and "set es = set es'"
  shows "elem_map es = elem_map es'"
proof
  fix k
  show "elem_map es k = elem_map es' k"
  proof (cases "elem_map es k")
    case None
    then show ?thesis using assms(3) elem_map_None [of es k] elem_map_None [of es' k] by simp
  next
    case (Some d)
    then have "elem_map es' k = Some d"
      using assms elem_map_Some [of es k d] elem_map_Some [of es' k d] by (simp add: elems_ok_def)
    with Some show ?thesis by simp
  qed
qed

lemma strHash_fold: "fold_case a = fold_case b \<Longrightarrow> strHash a = strHash b"
proof -
  have "foldl (\<lambda>h c. push_bit 3 h XOR h XOR ucast (UpperToLower c)) v z =
      foldl (\<lambda>h c. push_bit 3 h XOR h XOR ucast c) v (fold_case z)" for v :: u32 and z
    by (induction z arbitrary: v) (simp_all add: fold_case_def)
  then show "fold_case a = fold_case b \<Longrightarrow> strHash a = strHash b" by (simp add: strHash_def)
qed

section \<open>Inserting an element\<close>

lemma first_in_run:
  assumes "filter P es \<noteq> []" and "distinct (map he_id es)"
  obtains ps qs where "es = ps @ hd (filter P es) # qs" and "\<forall>x\<in>set ps. \<not> P x"
    and "takeWhile (\<lambda>x. he_id x \<noteq> he_id (hd (filter P es))) es = ps"
    and "dropWhile (\<lambda>x. he_id x \<noteq> he_id (hd (filter P es))) es = hd (filter P es) # qs"
proof -
  have "\<exists>ps g qs. es = ps @ g # qs \<and> (\<forall>x\<in>set ps. \<not> P x) \<and> P g"
    using assms(1) split_list_first_prop [of es P] by (auto simp: filter_empty_conv)
  then obtain ps g qs where es: "es = ps @ g # qs" "\<forall>x\<in>set ps. \<not> P x" "P g" by blast
  then have "filter P ps = []" by (simp add: filter_empty_conv)
  then have g: "hd (filter P es) = g" using es by simp
  have "\<forall>x\<in>set ps. he_id x \<noteq> he_id g" using assms(2) es(1) by (auto simp: image_iff)
  then have "takeWhile (\<lambda>x. he_id x \<noteq> he_id g) es = ps" "dropWhile (\<lambda>x. he_id x \<noteq> he_id g) es = g # qs"
    using es(1) by (simp_all add: takeWhile_append2 dropWhile_append2)
  with that es g show ?thesis by simp
qed

lemma bucket_insert_same:
  assumes "bucket_ok P (ps @ qs) b" and "P e" and "\<forall>x\<in>set ps. \<not> P x"
    and "filter P (ps @ qs) = [] \<or> (\<exists>q qs'. qs = q # qs' \<and> P q)"
  shows "bucket_ok P (ps @ e # qs) (fst b + 1, Some (he_id e))"
proof -
  have fp: "filter P ps = []" using assms(3) by (simp add: filter_empty_conv)
  from assms(1) obtain as bs cs where d: "ps @ qs = as @ bs @ cs" "\<forall>x\<in>set as. \<not> P x" "\<forall>x\<in>set bs. P x" "\<forall>x\<in>set cs. \<not> P x"
    by (auto simp: bucket_ok_def contig_iff)
  have "contig P (ps @ e # qs)"
    using assms(4)
  proof
    assume "filter P (ps @ qs) = []"
    then have "\<forall>x\<in>set qs. \<not> P x" by (simp add: filter_empty_conv)
    then show ?thesis using assms(2,3) contig_pad [of P "[e]" ps qs] by (simp add: contig_def)
  next
    assume "\<exists>q qs'. qs = q # qs' \<and> P q"
    then obtain q qs' where q: "qs = q # qs'" "P q" by blast
    have c: "contig P (ps @ qs)" using assms(1) by (simp add: bucket_ok_def)
    have dw: "dropWhile (\<lambda>x. \<not> P x) (ps @ qs) = qs" "dropWhile (\<lambda>x. \<not> P x) (ps @ e # qs) = e # qs"
      using assms(2,3) q by (simp_all add: dropWhile_append2)
    have "dropWhile P (e # qs) = dropWhile P qs" using assms(2) by simp
    then show ?thesis using c unfolding contig_def dw by (simp only:)
  qed
  then show ?thesis using assms(1,2) fp by (simp add: bucket_ok_def)
qed

lemma bucket_insert_other:
  assumes "bucket_ok P (ps @ qs) b" and "\<not> P e"
    and "ps = [] \<or> (\<exists>q qs'. qs = q # qs' \<and> \<not> P q)"
  shows "bucket_ok P (ps @ e # qs) b"
proof -
  have "contig P (ps @ e # qs)"
    using assms(3)
  proof
    assume "ps = []"
    with assms(1,2) show ?thesis using contig_pad [of P qs "[e]" "[]"] by (simp add: bucket_ok_def)
  next
    assume "\<exists>q qs'. qs = q # qs' \<and> \<not> P q"
    with assms(1,2) show ?thesis using contig_insert [of P ps _ _ e] by (auto simp: bucket_ok_def)
  qed
  with assms(1,2) show ?thesis by (simp add: bucket_ok_def)
qed

lemma insertElement_table:
  assumes ht: "h_ht pH = Some t" and ok: "table_ok n t (h_first pH)" and dist: "distinct (map he_id (h_first pH))"
    and h: "h = unat (strHash (he_key e)) mod n"
  shows "\<exists>t' ps qs. insertElement pH (Some h) e = pH\<lparr>h_ht := Some t', h_first := ps @ e # qs\<rparr> \<and>
    h_first pH = ps @ qs \<and> table_ok n t' (ps @ e # qs)"
proof -
  let ?es = "h_first pH" and ?P = "in_bucket n h"
  obtain c chain where b: "t ! h = (c, chain)" by fastforce
  have n0: "0 < n" "length t = n" using ok by (simp_all add: table_ok_def)
  have hn: "h < n" "h < length t" using n0 h by simp_all
  have bk: "bucket_ok ?P ?es (c, chain)" using ok hn b unfolding table_ok_def by metis
  have Pe: "?P e" by (simp add: in_bucket_def h)
  let ?t = "t[h := (c + 1, Some (he_id e))]"
  have tab: "table_ok n ?t (ps @ e # qs)"
    if s: "?es = ps @ qs" and np: "\<forall>x\<in>set ps. \<not> ?P x"
      and q: "filter ?P ?es = [] \<and> ps = [] \<or> (\<exists>q qs'. qs = q # qs' \<and> ?P q)" for ps qs
  proof -
    have "bucket_ok (in_bucket n g) (ps @ e # qs) (?t ! g)" if g: "g < n" for g
    proof (cases "g = h")
      case True
      with bucket_insert_same [of ?P ps qs "(c, chain)" e] bk s np q Pe hn show ?thesis by auto
    next
      case False
      have "bucket_ok (in_bucket n g) (ps @ qs) (t ! g)" using ok s g by (simp add: table_ok_def)
      moreover have "\<not> in_bucket n g e" using False Pe by (simp add: in_bucket_def)
      moreover have "ps = [] \<or> (\<exists>q qs'. qs = q # qs' \<and> \<not> in_bucket n g q)"
        using q False by (auto simp: in_bucket_def)
      ultimately have "bucket_ok (in_bucket n g) (ps @ e # qs) (t ! g)" by (rule bucket_insert_other)
      with False show ?thesis by simp
    qed
    then show ?thesis using ok by (simp add: table_ok_def)
  qed
  show ?thesis
  proof (cases "filter ?P ?es = []")
    case True
    then have "c = 0" using bk by (simp add: bucket_ok_def)
    then have "insertElement pH (Some h) e = pH\<lparr>h_ht := Some ?t, h_first := [] @ e # ?es\<rparr>"
      using ht b by (simp add: insertElement_def)
    with tab [of "[]" ?es] True show ?thesis
      by (intro exI [of _ ?t] exI [of _ "[]"] exI [of _ ?es]) auto
  next
    case False
    then obtain ps qs where s: "?es = ps @ hd (filter ?P ?es) # qs" "\<forall>x\<in>set ps. \<not> ?P x"
      and w: "takeWhile (\<lambda>x. he_id x \<noteq> he_id (hd (filter ?P ?es))) ?es = ps"
        "dropWhile (\<lambda>x. he_id x \<noteq> he_id (hd (filter ?P ?es))) ?es = hd (filter ?P ?es) # qs"
      using first_in_run [OF False dist] by blast
    have ch: "c \<noteq> 0" "chain = Some (he_id (hd (filter ?P ?es)))" using bk False by (auto simp: bucket_ok_def)
    have g: "?P (hd (filter ?P ?es))" using False hd_in_set [of "filter ?P ?es"] by auto
    have "insertElement pH (Some h) e = pH\<lparr>h_ht := Some ?t, h_first := ps @ e # hd (filter ?P ?es) # qs\<rparr>"
      using ht b ch w by (simp add: insertElement_def insert_before_def)
    with tab [OF s(1,2)] g s(1) show ?thesis by blast
  qed
qed


lemma rehash_all_ok:
  assumes "h_ht pH = Some t" and "table_ok (h_htsize pH) t (h_first pH)"
    and "distinct (map he_id (h_first pH @ es))"
  shows "\<exists>t' fs. rehash_all pH es = pH\<lparr>h_ht := Some t', h_first := fs\<rparr> \<and>
    set fs = set (h_first pH) \<union> set es \<and> length fs = length (h_first pH) + length es \<and>
    table_ok (h_htsize pH) t' fs"
  using assms
proof (induction es arbitrary: pH t)
  case Nil
  then show ?case by (intro exI [of _ t] exI [of _ "h_first pH"]) (simp add: rehash_all_def)
next
  case (Cons e es)
  let ?h = "unat (strHash (he_key e)) mod h_htsize pH"
  from insertElement_table [OF Cons(2,3) _ refl, of e] Cons(4) obtain t1 ps qs where
    i: "insertElement pH (Some ?h) e = pH\<lparr>h_ht := Some t1, h_first := ps @ e # qs\<rparr>"
      "h_first pH = ps @ qs" "table_ok (h_htsize pH) t1 (ps @ e # qs)" by auto
  let ?pH = "pH\<lparr>h_ht := Some t1, h_first := ps @ e # qs\<rparr>"
  have "distinct (map he_id (h_first ?pH @ es))" using Cons(4) i(2) by auto
  with Cons(1) [of ?pH t1] i(3) obtain t' fs where
    r: "rehash_all ?pH es = ?pH\<lparr>h_ht := Some t', h_first := fs\<rparr>" "set fs = set (ps @ e # qs) \<union> set es"
      "length fs = length (ps @ e # qs) + length es" "table_ok (h_htsize pH) t' fs" by auto
  have "rehash_all pH (e # es) = rehash_all ?pH es" using i(1) by (simp add: rehash_all_def)
  with r i(2) show ?case by (intro exI [of _ t'] exI [of _ fs]) auto
qed

lemma table_ok_empty: "0 < n \<Longrightarrow> table_ok n (replicate n (0, None)) []"
  by (simp add: table_ok_def bucket_ok_def contig_def)

lemma elems_ok_set:
  assumes "elems_ok a es" and "set fs = set es" and "length fs = length es"
  shows "elems_ok a fs"
proof -
  have "distinct es" using assms(1) distinct_map by (auto simp: elems_ok_def)
  then have "card (set fs) = length fs" using assms(2,3) by (simp add: distinct_card)
  then have "distinct fs" by (rule card_distinct)
  with assms show ?thesis by (auto simp: elems_ok_def distinct_map)
qed

text \<open>The allocator may return a larger block than requested, never a smaller one.\<close>

definition msize_ok :: "(nat \<Rightarrow> nat) \<Rightarrow> bool" where
  "msize_ok msize \<longleftrightarrow> (\<forall>n. n \<le> msize n)"

definition table_part_ok :: "'d hash \<Rightarrow> bool" where
  "table_part_ok pH \<longleftrightarrow> (case h_ht pH of None \<Rightarrow> h_htsize pH = 0 | Some t \<Rightarrow> table_ok (h_htsize pH) t (h_first pH))"

lemma rehash_ok:
  assumes "elems_ok a (h_first pH)" and "table_part_ok pH" and "msize_ok msize" and "0 < new_size"
    and "rehash orc msize k pH new_size = (b, pH', k')"
  shows "set (h_first pH') = set (h_first pH) \<and> length (h_first pH') = length (h_first pH) \<and>
    table_part_ok pH' \<and> h_next pH' = h_next pH \<and> h_count pH' = h_count pH \<and>
    (b \<longrightarrow> h_ht pH' \<noteq> None) \<and> (\<not> b \<longrightarrow> pH' = pH)"
proof -
  define sz where "sz = (if new_size * sizeof_ht > SQLITE_MALLOC_SOFT_LIMIT
     then SQLITE_MALLOC_SOFT_LIMIT div sizeof_ht else new_size)"
  define n where "n = msize (sz * sizeof_ht) div sizeof_ht"
  let ?pH = "pH\<lparr>h_ht := Some (replicate n (0, None)), h_htsize := n, h_first := []\<rparr>"
  have "0 < sz" using assms(4) by (simp add: sz_def SQLITE_MALLOC_SOFT_LIMIT_def sizeof_ht_def)
  moreover have "sz * sizeof_ht \<le> msize (sz * sizeof_ht)" using assms(3) by (simp add: msize_ok_def)
  ultimately have n: "0 < n" unfolding n_def sizeof_ht_def by (simp add: div_greater_zero_iff)
  have "distinct (map he_id (h_first pH))" using assms(1) by (simp add: elems_ok_def)
  with rehash_all_ok [of ?pH "replicate n (0, None)" "h_first pH"] table_ok_empty [OF n] obtain t' fs where
    r: "rehash_all ?pH (h_first pH) = ?pH\<lparr>h_ht := Some t', h_first := fs\<rparr>" "set fs = set (h_first pH)"
      "length fs = length (h_first pH)" "table_ok n t' fs" by auto
  have "(b, pH', k') = (if sz = h_htsize pH then (False, pH, k) else if \<not> orc k then (False, pH, k + 1)
      else (True, rehash_all ?pH (h_first pH), k + 1))"
    unfolding assms(5) [symmetric] rehash_def Let_def sz_def [symmetric] n_def by simp
  with r assms(2) show ?thesis by (auto simp: table_part_ok_def split: if_splits)
qed

section \<open>Finding, removing and replacing\<close>

lemma key_match:
  assumes "cstring (he_key e)" and "cstring k"
  shows "length (he_key e) = length k \<and> sqlite3_strnicmp (length k) (he_key e) k = Some 0 \<longleftrightarrow>
    fold_case (he_key e) = fold_case k"
proof (cases "length (he_key e) = length k")
  case True
  with strnicmp_exact [OF assms(1) True refl, of "[]" "[]"] cmp_spec_0 [OF assms] show ?thesis by simp
next
  case False
  then show ?thesis by (metis fold_case_def length_map)
qed

lemma find_loop_find:
  assumes "\<forall>e\<in>set es. cstring (he_key e)" and "cstring k"
  shows "find_loop (length es) k (es @ rest) = List.find (\<lambda>e. fold_case (he_key e) = fold_case k) es"
  using assms
proof (induction es)
  case (Cons e es)
  with key_match [of e k] show ?case by auto
qed simp

lemma find_filter: "(\<And>x. Q x \<Longrightarrow> P x) \<Longrightarrow> List.find Q (filter P es) = List.find Q es"
  by (induction es) auto

text \<open>Starting at the element a bucket points to, the list continues with the whole run.\<close>

lemma run_from:
  assumes "contig P es" and "filter P es \<noteq> []" and "distinct (map he_id es)"
  shows "\<exists>rest. dropWhile (\<lambda>x. he_id x \<noteq> he_id (hd (filter P es))) es = filter P es @ rest"
proof -
  obtain ps qs where s: "es = ps @ hd (filter P es) # qs" "\<forall>x\<in>set ps. \<not> P x"
    "dropWhile (\<lambda>x. he_id x \<noteq> he_id (hd (filter P es))) es = hd (filter P es) # qs"
    by (rule first_in_run [OF assms(2,3)])
  have "P (hd (filter P es))" using assms(2) hd_in_set [of "filter P es"] by auto
  then have "dropWhile (\<lambda>x. \<not> P x) (ps @ hd (filter P es) # qs) = hd (filter P es) # qs"
    using s(2) by (simp add: dropWhile_append2)
  then have "dropWhile (\<lambda>x. \<not> P x) es = hd (filter P es) # qs" using s(1) by (simp only:)
  with contig_run [OF assms(1)] s(3) show ?thesis by auto
qed

lemma findElement_ok:
  assumes ok: "elems_ok a (h_first pH)" "table_part_ok pH" "h_count pH = length (h_first pH)" and k: "cstring k"
    and h: "h_ht pH \<noteq> None \<Longrightarrow> h = unat (strHash k) mod h_htsize pH"
  shows "findElementGivenHash pH k h = List.find (\<lambda>e. fold_case (he_key e) = fold_case k) (h_first pH)"
proof (cases "h_ht pH")
  case None
  have "\<forall>e\<in>set (h_first pH). cstring (he_key e)" using ok by (simp add: elems_ok_def)
  from find_loop_find [OF this k, of "[]"] None ok show ?thesis by (simp add: findElementGivenHash_def)
next
  case (Some t)
  let ?es = "h_first pH" and ?P = "in_bucket (h_htsize pH) h"
  let ?Q = "\<lambda>e. fold_case (he_key e) = fold_case k"
  obtain c chain where b: "t ! h = (c, chain)" by fastforce
  have "table_ok (h_htsize pH) t ?es" using ok Some by (simp add: table_part_ok_def)
  moreover from this have "h < h_htsize pH" using h Some by (simp add: table_ok_def)
  ultimately have bk: "bucket_ok ?P ?es (c, chain)" using b unfolding table_ok_def by metis
  have QP: "?Q x \<Longrightarrow> ?P x" for x using h Some strHash_fold [of "he_key x" k] by (simp add: in_bucket_def)
  note ff = find_filter [of ?Q ?P ?es, OF QP]
  show ?thesis
  proof (cases "filter ?P ?es = []")
    case True
    then have "c = 0" "List.find ?Q ?es = None" using bk ff by (simp_all add: bucket_ok_def)
    then show ?thesis using Some b by (simp add: findElementGivenHash_def split: option.split)
  next
    case False
    have dist: "distinct (map he_id ?es)" and cs: "\<forall>e\<in>set ?es. cstring (he_key e)"
      using ok by (simp_all add: elems_ok_def)
    have ch: "c = length (filter ?P ?es)" "chain = Some (he_id (hd (filter ?P ?es)))" "contig ?P ?es"
      using bk False unfolding bucket_ok_def fst_conv snd_conv by blast+
    obtain rest where r: "dropWhile (\<lambda>x. he_id x \<noteq> he_id (hd (filter ?P ?es))) ?es = filter ?P ?es @ rest"
      using run_from [OF ch(3) False dist] by blast
    have "findElementGivenHash pH k h = find_loop (length (filter ?P ?es)) k (filter ?P ?es @ rest)"
      unfolding findElementGivenHash_def Some option.case b ch prod.case r ..
    also have "\<dots> = List.find ?Q (filter ?P ?es)" using cs by (intro find_loop_find k) auto
    finally show ?thesis by (simp only: ff)
  qed
qed


lemma same_id:
  "distinct (map he_id es) \<Longrightarrow> x \<in> set es \<Longrightarrow> e \<in> set es \<Longrightarrow> he_id x = he_id e \<Longrightarrow> x = e"
  by (simp add: distinct_map inj_on_def)

lemma bucket_remove_other:
  assumes "bucket_ok P es b" and "distinct (map he_id es)" and "e \<in> set es" and "\<not> P e"
  shows "bucket_ok P (filter (\<lambda>x. he_id x \<noteq> he_id e) es) b"
proof -
  have "filter P (filter (\<lambda>x. he_id x \<noteq> he_id e) es) = filter P es"
    using same_id [OF assms(2)] assms(3,4) by (auto intro!: filter_cong)
  with assms(1) contig_filter show ?thesis unfolding bucket_ok_def by metis
qed

lemma bucket_remove_same:
  assumes ok: "bucket_ok P es (c, chain)" and dist: "distinct (map he_id es)" and e: "e \<in> set es" "P e"
  shows "bucket_ok P (filter (\<lambda>x. he_id x \<noteq> he_id e) es)
    (c - 1, if chain = Some (he_id e) then elem_next e es else chain)"
proof -
  let ?F = "filter P es" and ?R = "\<lambda>x. he_id x \<noteq> he_id e"
  have "e \<in> set ?F" using e by simp
  then obtain l r where F: "?F = l @ e # r" by (meson split_list)
  have dF: "distinct (map he_id ?F)" using dist by (rule distinct_map_filter)
  have keep: "filter ?R l = l" "filter ?R r = r"
    using dF unfolding F by (auto simp: filter_id_conv image_iff)
  have F': "filter P (filter ?R es) = l @ r"
  proof -
    have "filter P (filter ?R es) = filter ?R ?F" by (simp add: conj_commute)
    also have "\<dots> = l @ r" unfolding F using keep by simp
    finally show ?thesis .
  qed
  have c: "c = Suc (length l + length r)" "chain = Some (he_id (hd ?F))" "contig P es"
    using ok F by (simp_all add: bucket_ok_def)
  have head: "(if chain = Some (he_id e) then elem_next e es else chain) = Some (he_id (hd (l @ r)))"
    if "l @ r \<noteq> []"
  proof (cases l)
    case Nil
    then obtain y r' where r: "r = y # r'" using \<open>l @ r \<noteq> []\<close> by (cases r) auto
    have hd: "hd ?F = e" using F Nil by simp
    obtain rest where "dropWhile (\<lambda>x. he_id x \<noteq> he_id e) es = ?F @ rest"
      using run_from [OF c(3) _ dist] F unfolding hd by auto
    then have "elem_next e es = Some (he_id y)" unfolding F Nil r by (simp add: elem_next_def)
    with c(2) hd Nil r show ?thesis by simp
  next
    case (Cons x l')
    then have "he_id x \<noteq> he_id e" using dF unfolding F by auto
    with c(2) F Cons show ?thesis by simp
  qed
  have "contig P (filter ?R es)" by (rule contig_filter [OF c(3)])
  with F' c(1) head show ?thesis by (simp add: bucket_ok_def)
qed

lemma table_remove:
  assumes ok: "table_ok n t es" and dist: "distinct (map he_id es)" and e: "e \<in> set es"
    and h: "h = unat (strHash (he_key e)) mod n" and b: "t ! h = (c, chain)"
  shows "table_ok n (t[h := (c - 1, if chain = Some (he_id e) then elem_next e es else chain)])
    (filter (\<lambda>x. he_id x \<noteq> he_id e) es)"
proof -
  let ?t = "t[h := (c - 1, if chain = Some (he_id e) then elem_next e es else chain)]"
  have n: "0 < n" "length t = n" using ok by (simp_all add: table_ok_def)
  then have hn: "h < n" using h by simp
  have "bucket_ok (in_bucket n g) (filter (\<lambda>x. he_id x \<noteq> he_id e) es) (?t ! g)" if g: "g < n" for g
  proof -
    have bk: "bucket_ok (in_bucket n g) es (t ! g)" using ok g by (simp add: table_ok_def)
    show ?thesis
    proof (cases "g = h")
      case True
      then have "bucket_ok (in_bucket n h) es (c, chain)" using bk b by simp
      from bucket_remove_same [OF this dist e] True h hn n show ?thesis by (simp add: in_bucket_def)
    next
      case False
      then have "\<not> in_bucket n g e" using h by (simp add: in_bucket_def)
      from bucket_remove_other [OF bk dist e this] False show ?thesis by simp
    qed
  qed
  with n show ?thesis by (simp add: table_ok_def)
qed

lemma table_map:
  assumes "table_ok n t es" and "\<forall>x\<in>set es. he_id (f x) = he_id x \<and> strHash (he_key (f x)) = strHash (he_key x)"
  shows "table_ok n t (map f es)"
proof -
  have flt: "filter (in_bucket n h) (map f es) = map f (filter (in_bucket n h) es)" for h
    using assms(2) by (auto simp: filter_map in_bucket_def intro!: arg_cong [of _ _ "map f"] filter_cong)
  have ctg: "contig (in_bucket n h) es \<Longrightarrow> contig (in_bucket n h) (map f es)" for h
  proof -
    assume "contig (in_bucket n h) es"
    then obtain as bs cs where "es = as @ bs @ cs" "\<forall>x\<in>set as. \<not> in_bucket n h x"
      "\<forall>x\<in>set bs. in_bucket n h x" "\<forall>x\<in>set cs. \<not> in_bucket n h x" by (auto simp: contig_iff)
    with assms(2) show ?thesis unfolding contig_iff
      by (intro exI [of _ "map f as"] exI [of _ "map f bs"] exI [of _ "map f cs"]) (auto simp: in_bucket_def)
  qed
  have hd: "he_id (hd (map f xs)) = he_id (hd xs)" if "xs \<noteq> []" "set xs \<subseteq> set es" for xs
    using that assms(2) by (cases xs) auto
  have "bucket_ok (in_bucket n h) (map f es) b" if "bucket_ok (in_bucket n h) es b" for h b
    using that ctg [of h] hd [of "filter (in_bucket n h) es"] by (auto simp: bucket_ok_def flt)
  with assms(1) show ?thesis by (simp add: table_ok_def)
qed


section \<open>The whole operation\<close>

lemma hash_ok_parts: "hash_ok pH \<longleftrightarrow>
    elems_ok (h_next pH) (h_first pH) \<and> h_count pH = length (h_first pH) \<and> table_part_ok pH"
  by (simp add: hash_ok_def table_part_ok_def)

lemma map_ext_Some: "(\<And>k d. m k = Some d \<longleftrightarrow> m' k = Some d) \<Longrightarrow> m = m'"
  by (rule ext) (metis not_None_eq)

lemma elem_map_filter:
  assumes "elems_ok a es" and "e \<in> set es"
  shows "elem_map (filter (\<lambda>x. he_id x \<noteq> he_id e) es) = (elem_map es)(fold_case (he_key e) := None)"
proof (rule map_ext_Some)
  fix k d
  let ?R = "\<lambda>x. he_id x \<noteq> he_id e"
  have d: "distinct (map (\<lambda>e. fold_case (he_key e)) es)" "distinct (map he_id es)"
    using assms(1) by (simp_all add: elems_ok_def)
  have keep: "?R x \<longleftrightarrow> fold_case (he_key x) \<noteq> fold_case (he_key e)" if "x \<in> set es" for x
    using that assms(2) d by (auto simp: distinct_map inj_on_def)
  have "elem_map (filter ?R es) k = Some d \<longleftrightarrow> (\<exists>x\<in>set (filter ?R es). fold_case (he_key x) = k \<and> he_data x = d)"
    by (rule elem_map_Some [OF distinct_map_filter [OF d(1)]])
  then show "elem_map (filter ?R es) k = Some d \<longleftrightarrow> ((elem_map es)(fold_case (he_key e) := None)) k = Some d"
    using keep elem_map_Some [OF d(1), of k d] by auto
qed

lemma elem_map_set:
  assumes "elems_ok a es" and "e \<in> set es" and "fold_case k = fold_case (he_key e)"
  shows "elem_map (set_elem e k d es) = (elem_map es)(fold_case k \<mapsto> d)"
proof (rule map_ext_Some)
  fix q v
  let ?f = "\<lambda>x. if he_id x = he_id e then x\<lparr>he_data := d, he_key := k\<rparr> else x"
  have dk: "distinct (map (\<lambda>e. fold_case (he_key e)) es)" "distinct (map he_id es)"
    using assms(1) by (simp_all add: elems_ok_def)
  have keep: "he_id x = he_id e \<longleftrightarrow> fold_case (he_key x) = fold_case k" if "x \<in> set es" for x
    using that assms(2,3) dk by (auto simp: distinct_map inj_on_def)
  have keys: "map (\<lambda>e. fold_case (he_key e)) (set_elem e k d es) = map (\<lambda>e. fold_case (he_key e)) es"
    using keep by (auto simp: set_elem_def)
  have "elem_map (set_elem e k d es) q = Some v \<longleftrightarrow>
      (\<exists>x\<in>set (set_elem e k d es). fold_case (he_key x) = q \<and> he_data x = v)"
    by (rule elem_map_Some) (simp only: keys dk)
  also have "\<dots> \<longleftrightarrow> (\<exists>x\<in>set es. fold_case (he_key (?f x)) = q \<and> he_data (?f x) = v)"
    unfolding set_elem_def set_map by blast
  also have "\<dots> \<longleftrightarrow> ((elem_map es)(fold_case k \<mapsto> d)) q = Some v"
    using keep assms(2,3) elem_map_Some [OF dk(1), of q v] by (auto split: if_splits)
  finally show "elem_map (set_elem e k d es) q = Some v \<longleftrightarrow> ((elem_map es)(fold_case k \<mapsto> d)) q = Some v" .
qed

lemma elem_map_add:
  assumes "elems_ok a (ps @ e # qs)" and "elems_ok b es" and "set (ps @ qs) = set es"
  shows "elem_map (ps @ e # qs) = (elem_map es)(fold_case (he_key e) \<mapsto> he_data e)"
proof (rule map_ext_Some)
  fix k d
  have dk: "distinct (map (\<lambda>e. fold_case (he_key e)) (ps @ e # qs))" "distinct (map (\<lambda>e. fold_case (he_key e)) es)"
    using assms(1,2) by (simp_all add: elems_ok_def)
  have "fold_case (he_key x) \<noteq> fold_case (he_key e)" if "x \<in> set es" for x
  proof -
    have "x \<in> set ps \<or> x \<in> set qs" using that assms(3) by auto
    with dk(1) show ?thesis by (elim disjE) (force simp: image_iff)+
  qed
  then show "elem_map (ps @ e # qs) k = Some d \<longleftrightarrow> ((elem_map es)(fold_case (he_key e) \<mapsto> he_data e)) k = Some d"
    using elem_map_Some [OF dk(1), of k d] elem_map_Some [OF dk(2), of k d] assms(3) by auto
qed

lemma find_facts:
  assumes "hash_ok pH" and "cstring k"
    and "h = (if h_htsize pH \<noteq> 0 then unat (strHash k) mod h_htsize pH else 0)"
  shows "findElementGivenHash pH k h = List.find (\<lambda>e. fold_case (he_key e) = fold_case k) (h_first pH)"
  using assms by (intro findElement_ok [of "h_next pH"]) (auto simp: hash_ok_parts table_part_ok_def table_ok_def)

lemma HashFind_map:
  assumes "hash_ok pH" and "cstring k"
  shows "sqlite3HashFind pH k = hash_map pH (fold_case k)"
proof -
  have "findElementGivenHash pH k (if h_ht pH \<noteq> None then unat (strHash k) mod h_htsize pH else 0) =
      List.find (\<lambda>e. fold_case (he_key e) = fold_case k) (h_first pH)"
    using assms by (intro findElement_ok [of "h_next pH"]) (auto simp: hash_ok_parts)
  moreover have "map_option he_data (List.find (\<lambda>e. fold_case (he_key e) = q) es) = elem_map es q" for es :: "'a helem list" and q
    by (induction es) (auto simp: elem_map_def)
  ultimately show ?thesis by (simp add: sqlite3HashFind_def hash_map_def Let_def)
qed

lemma removeElement_ok:
  assumes ok: "hash_ok pH" and e: "e \<in> set (h_first pH)"
    and h: "h = (if h_htsize pH \<noteq> 0 then unat (strHash (he_key e)) mod h_htsize pH else 0)"
  shows "hash_ok (removeElementGivenHash pH e h) \<and>
    hash_map (removeElementGivenHash pH e h) = (hash_map pH)(fold_case (he_key e) := None)"
proof -
  let ?R = "\<lambda>x. he_id x \<noteq> he_id e" and ?es = "h_first pH"
  have el: "elems_ok (h_next pH) ?es" "h_count pH = length ?es" "table_part_ok pH" using ok by (simp_all add: hash_ok_parts)
  have d: "distinct (map he_id ?es)" "distinct ?es" using el(1) distinct_map by (auto simp: elems_ok_def)
  have el': "elems_ok (h_next pH) (filter ?R ?es)" using el(1) by (auto simp: elems_ok_def distinct_map_filter)
  have "filter ?R ?es = remove1 e ?es"
    using d e same_id [OF d(1)] by (auto simp: distinct_remove1_removeAll removeAll_filter_not_eq intro!: filter_cong)
  then have len: "length (filter ?R ?es) = h_count pH - 1" using e el(2) by (simp add: length_remove1)
  note m = elem_map_filter [OF el(1) e]
  define pH1 where "pH1 = (case h_ht pH of None \<Rightarrow> pH\<lparr>h_first := filter ?R ?es\<rparr>
     | Some t \<Rightarrow> (case t ! h of (c, chain) \<Rightarrow> pH\<lparr>h_first := filter ?R ?es,
          h_ht := Some (t[h := (c - 1, if chain = Some (he_id e) then elem_next e ?es else chain)])\<rparr>))"
  have f1: "h_first pH1 = filter ?R ?es" "h_count pH1 = h_count pH" "h_next pH1 = h_next pH" "h_htsize pH1 = h_htsize pH"
    by (simp_all add: pH1_def split: option.splits prod.splits)
  have tp: "table_part_ok pH1"
  proof (cases "h_ht pH")
    case None
    with el(3) show ?thesis by (simp add: pH1_def table_part_ok_def)
  next
    case (Some t)
    obtain c chain where b: "t ! h = (c, chain)" by fastforce
    have tk: "table_ok (h_htsize pH) t ?es" using el(3) Some by (simp add: table_part_ok_def)
    then have "h = unat (strHash (he_key e)) mod h_htsize pH" using h by (auto simp: table_ok_def)
    from table_remove [OF tk d(1) e this b] Some b show ?thesis by (simp add: pH1_def table_part_ok_def)
  qed
  have r: "removeElementGivenHash pH e h =
    (if h_count pH - 1 = 0 then sqlite3HashClear (pH1\<lparr>h_count := h_count pH - 1\<rparr>) else pH1\<lparr>h_count := h_count pH - 1\<rparr>)"
    unfolding removeElementGivenHash_def pH1_def Let_def by (cases "h_ht pH") (auto split: prod.splits)
  show ?thesis
  proof (cases "h_count pH - 1 = 0")
    case True
    then have "filter ?R ?es = []" using len by simp
    with True m show ?thesis unfolding r
      by (simp add: sqlite3HashClear_def hash_ok_parts elems_ok_def table_part_ok_def hash_map_def elem_map_def f1)
  next
    case False
    with m el' len tp show ?thesis unfolding r
      by (simp add: hash_ok_parts f1 hash_map_def table_part_ok_def split: option.splits)
  qed
qed

lemma replace_ok:
  assumes ok: "hash_ok pH" and e: "e \<in> set (h_first pH)" and k: "fold_case k = fold_case (he_key e)" "cstring k"
  shows "hash_ok (pH\<lparr>h_first := set_elem e k d (h_first pH)\<rparr>) \<and>
    hash_map (pH\<lparr>h_first := set_elem e k d (h_first pH)\<rparr>) = (hash_map pH)(fold_case k \<mapsto> d)"
proof -
  let ?es = "h_first pH" and ?f = "\<lambda>x. if he_id x = he_id e then x\<lparr>he_data := d, he_key := k\<rparr> else x"
  have el: "elems_ok (h_next pH) ?es" "h_count pH = length ?es" "table_part_ok pH" using ok by (simp_all add: hash_ok_parts)
  have same: "he_id x = he_id e \<Longrightarrow> x = e" if "x \<in> set ?es" for x
    using same_id [OF _ that e] el(1) by (simp add: elems_ok_def)
  have ids: "map he_id (set_elem e k d ?es) = map he_id ?es" by (simp add: set_elem_def)
  have keys: "map (\<lambda>x. fold_case (he_key x)) (set_elem e k d ?es) = map (\<lambda>x. fold_case (he_key x)) ?es"
    using same k(1) by (auto simp: set_elem_def)
  have "elems_ok (h_next pH) (set_elem e k d ?es)"
    using el(1) k(2) unfolding elems_ok_def ids keys by (auto simp: set_elem_def)
  moreover have "table_ok n t ?es \<Longrightarrow> table_ok n t (set_elem e k d ?es)" for n t
    unfolding set_elem_def by (rule table_map) (use same strHash_fold [OF k(1)] in auto)
  ultimately have "hash_ok (pH\<lparr>h_first := set_elem e k d ?es\<rparr>)"
    using el by (auto simp: hash_ok_parts table_part_ok_def set_elem_def split: option.splits)
  with elem_map_set [OF el(1) e k(1), of d] show ?thesis by (simp add: hash_map_def)
qed


lemma elems_ok_add:
  assumes "elems_ok a es" and "set (ps @ qs) = set es" and "length (ps @ qs) = length es"
    and "cstring (he_key e)" and "he_id e = a" and "\<forall>x\<in>set es. fold_case (he_key x) \<noteq> fold_case (he_key e)"
  shows "elems_ok (a + 1) (ps @ e # qs)"
proof -
  have pq: "elems_ok a (ps @ qs)" by (rule elems_ok_set [OF assms(1-3)])
  have "he_id e \<notin> he_id ` set (ps @ qs)" using pq assms(5) by (auto simp: elems_ok_def)
  moreover have "fold_case (he_key e) \<notin> (\<lambda>x. fold_case (he_key x)) ` set (ps @ qs)"
    using assms(2,6) by (metis (no_types, lifting) imageE)
  ultimately show ?thesis using pq assms(4,5) by (auto simp: elems_ok_def less_Suc_eq)
qed

lemma add_element_ok:
  assumes el: "elems_ok a es" and f: "set (h_first pH) = set es" "length (h_first pH) = length es"
    and tp: "table_part_ok pH" and e: "cstring (he_key e)" "he_id e = a"
      "\<forall>x\<in>set es. fold_case (he_key x) \<noteq> fold_case (he_key e)"
    and h: "h_ht pH \<noteq> None \<Longrightarrow> h = unat (strHash (he_key e)) mod h_htsize pH"
    and fr: "h_next pH = a + 1" "h_count pH = length es + 1"
  defines "pH' \<equiv> insertElement pH (if h_ht pH \<noteq> None then Some h else None) e"
  shows "hash_ok pH' \<and> hash_map pH' = (elem_map es)(fold_case (he_key e) \<mapsto> he_data e)"
proof -
  have fin: "hash_ok pH' \<and> hash_map pH' = (elem_map es)(fold_case (he_key e) \<mapsto> he_data e)"
    if s: "h_first pH = ps @ qs" and p': "h_first pH' = ps @ e # qs" "h_next pH' = h_next pH"
      "h_count pH' = h_count pH" "table_part_ok pH'" for ps qs
  proof -
    have "elems_ok (a + 1) (ps @ e # qs)"
      using elems_ok_add [OF el _ _ e] f s by auto
    moreover from elem_map_add [OF this el] f s
    have "elem_map (ps @ e # qs) = (elem_map es)(fold_case (he_key e) \<mapsto> he_data e)" by simp
    ultimately show ?thesis using p' fr f s by (simp add: hash_ok_parts hash_map_def)
  qed
  show ?thesis
  proof (cases "h_ht pH")
    case None
    then have "pH' = pH\<lparr>h_first := e # h_first pH\<rparr>" by (simp add: pH'_def insertElement_def)
    with fin [of "[]" "h_first pH"] None tp show ?thesis by (simp add: table_part_ok_def)
  next
    case (Some t)
    have "distinct (map he_id (h_first pH))" using elems_ok_set [OF el f] by (simp add: elems_ok_def)
    with insertElement_table [of pH t "h_htsize pH" h e] Some tp h obtain t' ps qs where
      "insertElement pH (Some h) e = pH\<lparr>h_ht := Some t', h_first := ps @ e # qs\<rparr>"
      "h_first pH = ps @ qs" "table_ok (h_htsize pH) t' (ps @ e # qs)" by (auto simp: table_part_ok_def)
    with fin [of ps qs] Some show ?thesis by (simp add: pH'_def table_part_ok_def)
  qed
qed

lemma HashInsert_new:
  assumes ok: "hash_ok pH" and k: "cstring key" and ms: "msize_ok msize" and o: "orc k"
    and new: "hash_map pH (fold_case key) = None"
  shows "\<exists>pH' k'. sqlite3HashInsert orc msize k pH key (Some d) = (None, pH', k') \<and> hash_ok pH' \<and>
    hash_map pH' = (hash_map pH)(fold_case key \<mapsto> d)"
proof -
  define h where "h = (if h_htsize pH \<noteq> 0 then unat (strHash key) mod h_htsize pH else 0)"
  define e where "e = \<lparr>he_id = h_next pH, he_key = key, he_data = d\<rparr>"
  define pH1 where "pH1 = pH\<lparr>h_count := h_count pH + 1, h_next := h_next pH + 1\<rparr>"
  have el: "elems_ok (h_next pH) (h_first pH)" "h_count pH = length (h_first pH)" "table_part_ok pH"
    using ok by (simp_all add: hash_ok_parts)
  have nokey: "\<forall>x\<in>set (h_first pH). fold_case (he_key x) \<noteq> fold_case key"
    using new by (simp add: hash_map_def elem_map_None)
  then have nf: "findElementGivenHash pH key h = None"
    using find_facts [OF ok k h_def] by (simp add: find_None_iff)
  have tp1: "table_part_ok pH1" using el(3) by (simp add: pH1_def table_part_ok_def split: option.splits)
  have h1: "h_ht pH1 \<noteq> None \<Longrightarrow> h = unat (strHash key) mod h_htsize pH1"
    using el(3) by (auto simp: pH1_def h_def table_part_ok_def table_ok_def)
  have fin: "hash_ok (insertElement q (if h_ht q \<noteq> None then Some g else None) e) \<and>
      hash_map (insertElement q (if h_ht q \<noteq> None then Some g else None) e) = (hash_map pH)(fold_case key \<mapsto> d)"
    if "set (h_first q) = set (h_first pH)" "length (h_first q) = length (h_first pH)" "table_part_ok q"
      "h_ht q \<noteq> None \<Longrightarrow> g = unat (strHash key) mod h_htsize q" "h_next q = h_next pH + 1" "h_count q = h_count pH + 1" for q g
    using add_element_ok [OF el(1) that(1-3), of e g] that(4-6) nokey k el(2) by (simp add: e_def hash_map_def)
  have ins: "sqlite3HashInsert orc msize k pH key (Some d) =
     (let (q, k, g) = (if h_count pH1 \<ge> 10 \<and> h_count pH1 > 2 * h_htsize pH1 then
          (case rehash orc msize (k + 1) pH1 (h_count pH1 * 2) of
             (True, q, k) \<Rightarrow> (q, k, unat (strHash key) mod h_htsize q) | (False, q, k) \<Rightarrow> (q, k, h))
        else (pH1, k + 1, h))
      in (None, insertElement q (if h_ht q \<noteq> None then Some g else None) e, k))"
    unfolding sqlite3HashInsert_def h_def [symmetric] Let_def nf option.case pH1_def e_def using o by simp
  show ?thesis
  proof (cases "h_count pH1 \<ge> 10 \<and> h_count pH1 > 2 * h_htsize pH1")
    case False
    have "sqlite3HashInsert orc msize k pH key (Some d) =
        (None, insertElement pH1 (if h_ht pH1 \<noteq> None then Some h else None) e, k + 1)"
      unfolding ins if_not_P [OF False] by simp
    moreover have "set (h_first pH1) = set (h_first pH)" "length (h_first pH1) = length (h_first pH)"
      "h_next pH1 = h_next pH + 1" "h_count pH1 = h_count pH + 1" by (simp_all add: pH1_def)
    ultimately show ?thesis using fin [of pH1 h, OF _ _ tp1 h1] by blast
  next
    case True
    obtain b q k1 where r: "rehash orc msize (k + 1) pH1 (h_count pH1 * 2) = (b, q, k1)" by (metis prod_cases3)
    have "elems_ok (h_next pH) (h_first pH1)" using el(1) by (simp add: pH1_def)
    from rehash_ok [OF this tp1 ms _ r] True
    have q: "set (h_first q) = set (h_first pH)" "length (h_first q) = length (h_first pH)" "table_part_ok q"
      "h_next q = h_next pH + 1" "h_count q = h_count pH + 1" "\<not> b \<longrightarrow> q = pH1"
      by (auto simp: pH1_def)
    show ?thesis
    proof (cases b)
      case True
      with fin [of q "unat (strHash key) mod h_htsize q"] q r \<open>h_count pH1 \<ge> 10 \<and> _\<close> show ?thesis
        unfolding ins by simp
    next
      case False
      with fin [of q h] q r h1 \<open>h_count pH1 \<ge> 10 \<and> _\<close> show ?thesis unfolding ins by simp
    qed
  qed
qed


text \<open>What an insertion does to the map and what it returns, in every case.\<close>

definition insert_result :: "bool \<Rightarrow> (u8 list \<rightharpoonup> 'd) \<Rightarrow> u8 list \<Rightarrow> 'd option \<Rightarrow> 'd option \<times> (u8 list \<rightharpoonup> 'd)" where
  "insert_result malloc_ok m key data =
     (case data of
        None \<Rightarrow> (m key, m(key := None))
      | Some d \<Rightarrow> if m key = None \<and> \<not> malloc_ok then (data, m) else (m key, m(key \<mapsto> d)))"

lemma HashInsert_ok:
  assumes ok: "hash_ok pH" and k: "cstring key" and ms: "msize_ok msize"
  shows "\<exists>r pH' k'. sqlite3HashInsert orc msize k pH key data = (r, pH', k') \<and> hash_ok pH' \<and>
    (r, hash_map pH') = insert_result (orc k) (hash_map pH) (fold_case key) data"
proof -
  define h where "h = (if h_htsize pH \<noteq> 0 then unat (strHash key) mod h_htsize pH else 0)"
  have fd: "findElementGivenHash pH key h = List.find (\<lambda>e. fold_case (he_key e) = fold_case key) (h_first pH)"
    by (rule find_facts [OF ok k h_def])
  show ?thesis
  proof (cases "findElementGivenHash pH key h")
    case None
    then have m: "hash_map pH (fold_case key) = None"
      using fd by (simp add: hash_map_def elem_map_None find_None_iff)
    show ?thesis
    proof (cases data)
      case None
      with m ok \<open>findElementGivenHash pH key h = None\<close> show ?thesis
        by (auto simp: sqlite3HashInsert_def Let_def h_def insert_result_def fun_upd_idem_iff)
    next
      case (Some d)
      show ?thesis
      proof (cases "orc k")
        case True
        with HashInsert_new [where orc = orc and k = k, OF ok k ms True m, of d] m Some show ?thesis by (auto simp: insert_result_def)
      next
        case False
        with m ok Some None show ?thesis
          by (auto simp: sqlite3HashInsert_def Let_def h_def insert_result_def)
      qed
    qed
  next
    case (Some e)
    then have e: "e \<in> set (h_first pH)" "fold_case (he_key e) = fold_case key"
      using fd by (auto simp: find_Some_iff)
    have "elems_ok (h_next pH) (h_first pH)" using ok by (simp add: hash_ok_parts)
    then have m: "hash_map pH (fold_case key) = Some (he_data e)"
      using e elem_map_Some [of "h_first pH" "fold_case key" "he_data e"] by (auto simp: hash_map_def elems_ok_def)
    show ?thesis
    proof (cases data)
      case None
      have "h = (if h_htsize pH \<noteq> 0 then unat (strHash (he_key e)) mod h_htsize pH else 0)"
        using strHash_fold [OF e(2)] by (simp add: h_def)
      from removeElement_ok [OF ok e(1) this] None Some m e(2) show ?thesis
        by (simp add: sqlite3HashInsert_def Let_def h_def insert_result_def)
    next
      case (Some d)
      with replace_ok [OF ok e(1) e(2) [symmetric] k, of d] \<open>findElementGivenHash pH key h = Some e\<close> m show ?thesis
        by (simp add: sqlite3HashInsert_def Let_def h_def insert_result_def)
    qed
  qed
qed

section \<open>The contract: a symbol table\<close>

text \<open>
  What the callers rely on: a finite map from names, compared without regard to case, that
  \<open>ins\<close> updates (or deletes from, for a null datum) and \<open>find\<close> reads. A failed allocation
  leaves the map alone and is reported by returning the new datum.
\<close>

locale symbol_table =
  fixes invar :: "'s \<Rightarrow> bool"
    and denote :: "'s \<Rightarrow> u8 list \<rightharpoonup> 'd"
    and find :: "'s \<Rightarrow> u8 list \<Rightarrow> 'd option"
    and ins :: "(nat \<Rightarrow> bool) \<Rightarrow> nat \<Rightarrow> 's \<Rightarrow> u8 list \<Rightarrow> 'd option \<Rightarrow> 'd option \<times> 's \<times> nat"
  assumes find_denote: "invar s \<Longrightarrow> cstring k \<Longrightarrow> find s k = denote s (fold_case k)"
    and ins_denote: "invar s \<Longrightarrow> cstring k \<Longrightarrow>
      \<exists>r s' n'. ins orc n s k data = (r, s', n') \<and> invar s' \<and>
        (r, denote s') = insert_result (orc n) (denote s) (fold_case k) data"
begin

lemma find_ins:
  assumes "invar s" and "cstring k" and "cstring q" and "\<forall>n. orc n" and "ins orc n s k data = (r, s', n')"
  shows "invar s' \<and> r = find s k \<and> find s' q = (if fold_case q = fold_case k then data else find s q)"
proof -
  obtain r1 s1 n1 where i: "ins orc n s k data = (r1, s1, n1)" "invar s1"
    "(r1, denote s1) = insert_result (orc n) (denote s) (fold_case k) data"
    using ins_denote [OF assms(1,2)] by blast
  with assms show ?thesis by (cases data) (auto simp: find_denote insert_result_def)
qed

text \<open>A table filled from a list of definitions answers as the list does, the last one winning.\<close>

fun define_all :: "(nat \<Rightarrow> bool) \<Rightarrow> nat \<Rightarrow> 's \<Rightarrow> (u8 list \<times> 'd) list \<Rightarrow> 's \<times> nat" where
  "define_all orc n s [] = (s, n)"
| "define_all orc n s ((k, d) # ds) = (case ins orc n s k (Some d) of (r, s', n') \<Rightarrow> define_all orc n' s' ds)"

lemma define_all_find:
  assumes "invar s" and "\<forall>(k, d)\<in>set ds. cstring k" and "cstring q" and "\<forall>n. orc n"
  shows "find (fst (define_all orc n s ds)) q =
    (case map_of (rev (map (\<lambda>(k, d). (fold_case k, d)) ds)) (fold_case q) of None \<Rightarrow> find s q | Some d \<Rightarrow> Some d)"
  using assms(1,2)
proof (induction ds arbitrary: n s)
  case (Cons kd ds)
  obtain k d where kd: "kd = (k, d)" by fastforce
  obtain r s' n' where i: "ins orc n s k (Some d) = (r, s', n')" by (metis prod_cases3)
  have ck: "cstring k" using Cons(3) kd by simp
  have inv: "invar s'" and f: "find s' q = (if fold_case q = fold_case k then Some d else find s q)"
    using find_ins [OF Cons(2) ck assms(3,4) i] by simp_all
  from Cons(1) [OF inv, of n'] Cons(3) kd i f show ?case
    by (auto simp: map_add_def split: option.splits)
qed simp

end

text \<open>The allocators of mem1.c and mem5.c round a request up to a multiple of eight or more.\<close>

definition ROUND8 :: "nat \<Rightarrow> nat" where
  "ROUND8 n = (n + 7) div 8 * 8"

lemma ROUND8_msize: "msize_ok ROUND8"
proof -
  have "n \<le> (n + 7) div 8 * 8" for n :: nat by presburger
  then show ?thesis by (simp add: msize_ok_def ROUND8_def)
qed

interpretation hash: symbol_table hash_ok hash_map sqlite3HashFind "\<lambda>orc. sqlite3HashInsert orc ROUND8"
proof
  show "hash_ok s \<Longrightarrow> cstring k \<Longrightarrow> sqlite3HashFind s k = hash_map s (fold_case k)" for s :: "'a hash" and k
    by (rule HashFind_map)
  show "hash_ok s \<Longrightarrow> cstring k \<Longrightarrow> \<exists>r s' n'. sqlite3HashInsert orc ROUND8 n s k data = (r, s', n') \<and>
      hash_ok s' \<and> (r, hash_map s') = insert_result (orc n) (hash_map s) (fold_case k) data"
    for s :: "'a hash" and k orc n data
    by (rule HashInsert_ok [OF _ _ ROUND8_msize])
qed

section \<open>Properties\<close>

lemma hash_init_ok: "hash_ok (sqlite3HashInit a)" and hash_init_map: "hash_map (sqlite3HashInit a) = Map.empty"
  by (simp_all add: sqlite3HashInit_def hash_ok_def elems_ok_def hash_map_def elem_map_def)

text \<open>
  C32. \<open>sqlite3HashInsert\<close> refines an update of a finite map from case-folded names: whatever the
  table's state (no bucket array yet, a rehash on this very call, a failed allocation of the larger
  array), it keeps the invariant, returns the datum previously stored under the name, stores or
  deletes exactly that name, and on a failed allocation of the new element changes nothing and
  returns the new datum.
\<close>

theorem hash_insert_refines:
  assumes "hash_ok pH" and "cstring key" and "msize_ok msize"
  shows "\<exists>r pH' k'. sqlite3HashInsert orc msize k pH key data = (r, pH', k') \<and> hash_ok pH' \<and>
    (r, hash_map pH') =
      (case data of
         None \<Rightarrow> (hash_map pH (fold_case key), (hash_map pH)(fold_case key := None))
       | Some d \<Rightarrow>
           if hash_map pH (fold_case key) = None \<and> \<not> orc k then (data, hash_map pH)
           else (hash_map pH (fold_case key), (hash_map pH)(fold_case key \<mapsto> d)))"
  using HashInsert_ok [OF assms, of orc k data] by (simp add: insert_result_def)

theorem hash_insert_refines_witness:
  "\<exists>r pH' k'. sqlite3HashInsert (\<lambda>_. True) ROUND8 0 (sqlite3HashInit 0) [97, 98] (Some (7::nat)) = (r, pH', k') \<and>
    hash_ok pH' \<and> r = None \<and> hash_map pH' (fold_case [65, 66]) = Some 7"
proof -
  have "cstring [97, 98]" by (simp add: cstring_def)
  from hash_insert_refines [OF hash_init_ok this ROUND8_msize, of "\<lambda>_. True" 0 0 "Some (7::nat)"]
  obtain r pH' k' where "sqlite3HashInsert (\<lambda>_. True) ROUND8 0 (sqlite3HashInit 0) [97, 98] (Some (7::nat)) = (r, pH', k')"
    "hash_ok pH'" "(r, hash_map pH') = (None, [fold_case [97, 98] \<mapsto> 7])" by (auto simp: hash_init_map)
  moreover have "fold_case [65, 66] = fold_case [97, 98]"
    by (simp add: fold_case_def UpperToLower_eq lower_spec_def)
  ultimately show ?thesis by auto
qed

text \<open>
  C33. A lookup through the buckets finds what a search of the whole list would: after any series of
  definitions in an empty table (growing through its rehashes), \<open>sqlite3HashFind\<close> returns for every
  name the datum of the last definition whose name is equal up to case, and null if there is none.
\<close>

theorem hash_find_last_definition:
  assumes "\<forall>(k, d)\<in>set ds. cstring k" and "cstring q" and "\<forall>n. orc n"
  shows "sqlite3HashFind (fst (hash.define_all orc n (sqlite3HashInit a) ds)) q =
    map_of (rev (map (\<lambda>(k, d). (fold_case k, d)) ds)) (fold_case q)"
  using hash.define_all_find [OF hash_init_ok assms, of n a]
    hash.find_denote [OF hash_init_ok assms(2), of a]
  by (simp add: hash_init_map split: option.splits)

theorem hash_find_last_definition_witness:
  "sqlite3HashFind (fst (hash.define_all (\<lambda>_. True) 0 (sqlite3HashInit 0) [([97], 1), ([98], 2), ([65], 3::nat)])) [97] =
    map_of (rev (map (\<lambda>(k, d). (fold_case k, d)) [([97], 1), ([98], 2), ([65], 3)])) (fold_case [97])"
  by (rule hash_find_last_definition) (simp_all add: cstring_def)

end
