(* ===== verification/Int_Util.thy ===== *)
theory Int_Util
  imports Char_Tables
begin

text \<open>
  The integer routines of util.c: addition, subtraction and multiplication of 64-bit integers with
  overflow detection, conversion of decimal text to integers, big-endian four-byte integers and
  hexadecimal text. The signed types of C are \<open>int\<close> here; \<open>i64_wrap\<close> is what a two's-complement
  machine leaves in an \<open>i64\<close> variable.
\<close>

section \<open>Checked 64-bit arithmetic\<close>

definition is_i64 :: "int \<Rightarrow> bool" where
  "is_i64 x \<longleftrightarrow> SMALLEST_INT64 \<le> x \<and> x \<le> LARGEST_INT64"

definition i64_wrap :: "int \<Rightarrow> int" where
  "i64_wrap x = (x + 9223372036854775808) mod 18446744073709551616 - 9223372036854775808"

text \<open>The result is the return value (true for overflow) and the new contents of \<open>*pA\<close>.\<close>

definition sqlite3AddInt64 :: "int \<Rightarrow> int \<Rightarrow> bool \<times> int" where
  "sqlite3AddInt64 iA iB =
     (if iB \<ge> 0 then
        (if iA > 0 \<and> i64_wrap (LARGEST_INT64 - iA) < iB then (True, iA) else (False, i64_wrap (iA + iB)))
      else
        (if iA < 0 \<and> i64_wrap (- (i64_wrap (iA + LARGEST_INT64))) > i64_wrap (iB + 1) then (True, iA)
         else (False, i64_wrap (iA + iB))))"

definition sqlite3SubInt64 :: "int \<Rightarrow> int \<Rightarrow> bool \<times> int" where
  "sqlite3SubInt64 iA iB =
     (if iB = SMALLEST_INT64 then
        (if iA \<ge> 0 then (True, iA) else (False, i64_wrap (iA - iB)))
      else sqlite3AddInt64 iA (i64_wrap (- iB)))"

text \<open>Division and remainder of C, which truncate towards zero.\<close>

definition cdiv :: "int \<Rightarrow> int \<Rightarrow> int" where
  "cdiv a b = (if a < 0 then - ((- a) div b) else a div b)"

definition cmod :: "int \<Rightarrow> int \<Rightarrow> int" where
  "cmod a b = a - cdiv a b * b"

definition TWOPOWER32 :: int where "TWOPOWER32 = 4294967296"
definition TWOPOWER31 :: int where "TWOPOWER31 = 2147483648"

definition sqlite3MulInt64 :: "int \<Rightarrow> int \<Rightarrow> bool \<times> int" where
  "sqlite3MulInt64 iA iB =
     (let iA1 = cdiv iA TWOPOWER32; iA0 = cmod iA TWOPOWER32;
          iB1 = cdiv iB TWOPOWER32; iB0 = cmod iB TWOPOWER32
      in if i64_wrap (iA1 * iB1) \<noteq> 0 then (True, iA)
         else let r = i64_wrap (i64_wrap (iA1 * iB0) + i64_wrap (iA0 * iB1))
           in if r < - TWOPOWER31 \<or> r \<ge> TWOPOWER31 then (True, iA)
              else case sqlite3AddInt64 (i64_wrap (r * TWOPOWER32)) (i64_wrap (iA0 * iB0)) of
                     (True, _) \<Rightarrow> (True, iA)
                   | (False, r) \<Rightarrow> (False, r))"

definition sqlite3AbsInt32 :: "int \<Rightarrow> int" where
  "sqlite3AbsInt32 x = (if x \<ge> 0 then x else if x = - 2147483648 then 0x7fffffff else - x)"

lemma i64_wrap_id: "is_i64 x \<Longrightarrow> i64_wrap x = x"
  by (simp add: i64_wrap_def is_i64_def SMALLEST_INT64_def LARGEST_INT64_def)

lemma i64_wrap_range: "is_i64 (i64_wrap x)"
proof -
  have "0 \<le> (x + 9223372036854775808) mod 18446744073709551616"
    "(x + 9223372036854775808) mod 18446744073709551616 < 18446744073709551616" by simp_all
  then show ?thesis unfolding i64_wrap_def is_i64_def SMALLEST_INT64_def LARGEST_INT64_def by linarith
qed

lemmas i64_limits = SMALLEST_INT64_def LARGEST_INT64_def

lemma AddInt64_exact:
  assumes "is_i64 a" and "is_i64 b"
  shows "sqlite3AddInt64 a b = (if is_i64 (a + b) then (False, a + b) else (True, a))"
proof (cases "b \<ge> 0")
  case True
  then have "a > 0 \<Longrightarrow> i64_wrap (LARGEST_INT64 - a) = LARGEST_INT64 - a"
    using assms by (intro i64_wrap_id) (auto simp: is_i64_def i64_limits)
  with True assms show ?thesis
    by (auto simp: sqlite3AddInt64_def i64_wrap_id) (auto simp: is_i64_def i64_limits)
next
  case False
  then have "i64_wrap (b + 1) = b + 1"
    and "a < 0 \<Longrightarrow> i64_wrap (a + LARGEST_INT64) = a + LARGEST_INT64"
    and "a < 0 \<Longrightarrow> i64_wrap (- (a + LARGEST_INT64)) = - (a + LARGEST_INT64)"
    using assms by (auto intro!: i64_wrap_id simp: is_i64_def i64_limits)
  with False assms show ?thesis
    by (auto simp: sqlite3AddInt64_def i64_wrap_id) (auto simp: is_i64_def i64_limits)
qed

lemma SubInt64_exact:
  assumes "is_i64 a" and "is_i64 b"
  shows "sqlite3SubInt64 a b = (if is_i64 (a - b) then (False, a - b) else (True, a))"
proof (cases "b = SMALLEST_INT64")
  case True
  with assms show ?thesis
    by (auto simp: sqlite3SubInt64_def i64_wrap_id) (auto simp: is_i64_def i64_limits)
next
  case False
  then have "is_i64 (- b)" using assms by (auto simp: is_i64_def i64_limits)
  with False assms show ?thesis
    by (simp add: sqlite3SubInt64_def i64_wrap_id AddInt64_exact)
qed

section \<open>Multiplication\<close>

text \<open>The low halves; the code multiplies them in an \<open>i64\<close>.\<close>

definition low_product :: "int \<Rightarrow> int \<Rightarrow> int" where
  "low_product a b = cmod a TWOPOWER32 * cmod b TWOPOWER32"

lemma cdiv_cmod: "a = cdiv a b * b + cmod a b"
  by (simp add: cmod_def)

lemma cmod_nonneg: "0 \<le> a \<Longrightarrow> 0 < b \<Longrightarrow> 0 \<le> cmod a b \<and> cmod a b < b \<and> 0 \<le> cdiv a b"
  by (simp add: cmod_def cdiv_def minus_div_mult_eq_mod pos_imp_zdiv_nonneg_iff)

lemma cdiv_neg: "cdiv (- a) b = - cdiv a b" if "0 < b"
  by (auto simp: cdiv_def)

lemma cmod_neg: "cmod (- a) b = - cmod a b" if "0 < b"
  using that by (simp add: cmod_def cdiv_neg)

text \<open>Multiplying the magnitudes: both operands are split at bit 32.\<close>

lemma split_bounds:
  assumes "is_i64 a"
  shows "\<bar>cmod a TWOPOWER32\<bar> < TWOPOWER32" and "\<bar>cdiv a TWOPOWER32\<bar> \<le> TWOPOWER31"
    and "a = cdiv a TWOPOWER32 * TWOPOWER32 + cmod a TWOPOWER32"
    and "0 \<le> a \<Longrightarrow> 0 \<le> cmod a TWOPOWER32 \<and> 0 \<le> cdiv a TWOPOWER32"
    and "a \<le> 0 \<Longrightarrow> cmod a TWOPOWER32 \<le> 0 \<and> cdiv a TWOPOWER32 \<le> 0"
proof -
  have pos: "0 < TWOPOWER32" by (simp add: TWOPOWER32_def)
  have eq: "a = cdiv a TWOPOWER32 * TWOPOWER32 + cmod a TWOPOWER32" by (rule cdiv_cmod)
  have nn: "0 \<le> a \<Longrightarrow> 0 \<le> cmod a TWOPOWER32 \<and> cmod a TWOPOWER32 < TWOPOWER32 \<and> 0 \<le> cdiv a TWOPOWER32"
    using cmod_nonneg [of a TWOPOWER32] pos by simp
  have np: "a \<le> 0 \<Longrightarrow> - TWOPOWER32 < cmod a TWOPOWER32 \<and> cmod a TWOPOWER32 \<le> 0 \<and> cdiv a TWOPOWER32 \<le> 0"
    using cmod_nonneg [of "- a" TWOPOWER32] pos by (simp add: cmod_neg cdiv_neg)
  have "\<bar>cmod a TWOPOWER32\<bar> < TWOPOWER32" using nn np by (cases "0 \<le> a") auto
  moreover have "\<bar>cdiv a TWOPOWER32\<bar> \<le> TWOPOWER31"
    using nn np eq assms by (cases "0 \<le> a") (auto simp: is_i64_def i64_limits TWOPOWER32_def TWOPOWER31_def)
  ultimately show "\<bar>cmod a TWOPOWER32\<bar> < TWOPOWER32" "\<bar>cdiv a TWOPOWER32\<bar> \<le> TWOPOWER31"
    "a = cdiv a TWOPOWER32 * TWOPOWER32 + cmod a TWOPOWER32"
    "0 \<le> a \<Longrightarrow> 0 \<le> cmod a TWOPOWER32 \<and> 0 \<le> cdiv a TWOPOWER32"
    "a \<le> 0 \<Longrightarrow> cmod a TWOPOWER32 \<le> 0 \<and> cdiv a TWOPOWER32 \<le> 0"
    using eq nn np by blast+
qed


lemma halves_sign:
  assumes "is_i64 a" and "is_i64 b" and "0 \<le> a \<longleftrightarrow> 0 \<le> b"
  shows "0 \<le> cdiv a TWOPOWER32 * cmod b TWOPOWER32" "0 \<le> low_product a b"
    "0 \<le> cmod a TWOPOWER32 * cdiv b TWOPOWER32" "0 \<le> cdiv a TWOPOWER32 * cdiv b TWOPOWER32"
  using split_bounds(4,5) [OF assms(1)] split_bounds(4,5) [OF assms(2)] assms(3)
  by (cases "0 \<le> a"; simp add: low_product_def mult_nonneg_nonneg mult_nonpos_nonpos)+

lemma halves_sign_neg:
  assumes "is_i64 a" and "is_i64 b" and "0 \<le> a \<longleftrightarrow> \<not> 0 \<le> b"
  shows "cdiv a TWOPOWER32 * cmod b TWOPOWER32 \<le> 0" "low_product a b \<le> 0"
    "cmod a TWOPOWER32 * cdiv b TWOPOWER32 \<le> 0" "cdiv a TWOPOWER32 * cdiv b TWOPOWER32 \<le> 0"
  using split_bounds(4,5) [OF assms(1)] split_bounds(4,5) [OF assms(2)] assms(3)
  by (cases "0 \<le> a"; simp add: low_product_def mult_nonneg_nonpos mult_nonpos_nonneg)+

lemma cross_bound:
  assumes "\<bar>x\<bar> \<le> TWOPOWER31" and "\<bar>y\<bar> < TWOPOWER32"
  shows "is_i64 (x * y)" "is_i64 (y * x)"
proof -
  have "\<bar>x * y\<bar> \<le> TWOPOWER31 * (TWOPOWER32 - 1)"
    unfolding abs_mult using assms by (intro mult_mono) auto
  then show "is_i64 (x * y)" "is_i64 (y * x)"
    by (auto simp: is_i64_def i64_limits TWOPOWER31_def TWOPOWER32_def mult.commute abs_le_iff)
qed

lemma high_overflow:
  assumes "is_i64 a" and "is_i64 b" and "cdiv a TWOPOWER32 * cdiv b TWOPOWER32 \<noteq> 0"
  shows "\<not> is_i64 (a * b)"
proof -
  have mag: "TWOPOWER32 \<le> \<bar>x\<bar>" if "is_i64 x" "cdiv x TWOPOWER32 \<noteq> 0" for x
    using split_bounds(3-5) [OF that(1)] that(2)
    by (cases "0 \<le> x") (auto simp: TWOPOWER32_def)
  have "TWOPOWER32 \<le> \<bar>a\<bar>" "TWOPOWER32 \<le> \<bar>b\<bar>" using assms mag by auto
  then have "TWOPOWER32 * TWOPOWER32 \<le> \<bar>a * b\<bar>"
    unfolding abs_mult by (intro mult_mono) (auto simp: TWOPOWER32_def)
  then show ?thesis by (auto simp: is_i64_def i64_limits TWOPOWER32_def)
qed

lemma MulInt64_exact:
  assumes a: "is_i64 a" and b: "is_i64 b" and low: "is_i64 (low_product a b)"
  shows "sqlite3MulInt64 a b = (if is_i64 (a * b) then (False, a * b) else (True, a))"
proof -
  let ?a1 = "cdiv a TWOPOWER32" and ?a0 = "cmod a TWOPOWER32"
  let ?b1 = "cdiv b TWOPOWER32" and ?b0 = "cmod b TWOPOWER32"
  have bd: "\<bar>?a1\<bar> \<le> TWOPOWER31" "\<bar>?b1\<bar> \<le> TWOPOWER31" "\<bar>?a0\<bar> < TWOPOWER32" "\<bar>?b0\<bar> < TWOPOWER32"
    using split_bounds [OF a] split_bounds [OF b] by blast+
  have hi: "is_i64 (?a1 * ?b1)" using bd by (intro cross_bound(1)) (auto simp: TWOPOWER31_def TWOPOWER32_def)
  have cr: "is_i64 (?a1 * ?b0)" "is_i64 (?a0 * ?b1)" using cross_bound bd by blast+
  show ?thesis
  proof (cases "?a1 * ?b1 = 0")
    case False
    with high_overflow [OF a b] hi show ?thesis by (simp add: sqlite3MulInt64_def Let_def i64_wrap_id)
  next
    case True
    let ?r = "?a1 * ?b0 + ?a0 * ?b1"
    have "a * b = (?a1 * TWOPOWER32 + ?a0) * (?b1 * TWOPOWER32 + ?b0)"
      using cdiv_cmod [of a TWOPOWER32] cdiv_cmod [of b TWOPOWER32] by simp
    also have "\<dots> = ?a1 * ?b1 * TWOPOWER32 * TWOPOWER32 + ?r * TWOPOWER32 + ?a0 * ?b0"
      by (simp add: algebra_simps)
    finally have ab: "a * b = ?r * TWOPOWER32 + low_product a b"
      using True by (simp add: low_product_def)
    have r: "is_i64 ?r" using True cr by auto
    have sg: "0 \<le> ?r \<and> 0 \<le> low_product a b \<or> ?r \<le> 0 \<and> low_product a b \<le> 0"
      using halves_sign [OF a b] halves_sign_neg [OF a b] by (cases "0 \<le> a"; cases "0 \<le> b") auto
    show ?thesis
    proof (cases "?r < - TWOPOWER31 \<or> ?r \<ge> TWOPOWER31")
      case False
      then have "is_i64 (?r * TWOPOWER32)" by (auto simp: is_i64_def i64_limits TWOPOWER31_def TWOPOWER32_def)
      with False True cr r hi low ab show ?thesis
        by (simp add: sqlite3MulInt64_def Let_def i64_wrap_id AddInt64_exact low_product_def [symmetric])
    next
      case over: True
      with sg ab have "\<not> is_i64 (a * b)"
        by (auto simp: is_i64_def i64_limits TWOPOWER31_def TWOPOWER32_def)
      with over True cr r hi show ?thesis
        by (simp add: sqlite3MulInt64_def Let_def i64_wrap_id)
    qed
  qed
qed


section \<open>Decimal text\<close>

datatype text_enc = SQLITE_UTF8 | SQLITE_UTF16LE | SQLITE_UTF16BE

text \<open>
  The bytes that the loops of \<open>sqlite3Atoi64\<close> visit: for UTF-16 they step over every other byte
  and stop at the first character whose high byte is not zero (\<open>nonNum\<close>). \<open>scan16\<close> is the loop
  that looks for such a byte; \<open>strided\<close> is \<open>zNum[0], zNum[incr], ...\<close> up to \<open>zEnd\<close>.
\<close>

function scan16 :: "u8 list \<Rightarrow> nat \<Rightarrow> nat \<Rightarrow> nat option" where
  "scan16 z i len = (if i < len then do { c \<leftarrow> rd z i; if c = 0 then scan16 z (i + 2) len else Some i }
                     else Some i)"
  by pat_completeness auto
termination
  by (relation "measure (\<lambda>(z, i, len). len - i)") auto

declare scan16.simps [simp del]

function strided :: "u8 list \<Rightarrow> nat \<Rightarrow> nat \<Rightarrow> nat \<Rightarrow> u8 list option" where
  "strided z k zEnd incr =
     (if k < zEnd \<and> 0 < incr then do { c \<leftarrow> rd z k; cs \<leftarrow> strided z (k + incr) zEnd incr; Some (c # cs) }
      else Some [])"
  by pat_completeness auto
termination
  by (relation "measure (\<lambda>(z, k, zEnd, incr). zEnd - k)") auto

declare strided.simps [simp del]

definition text_units :: "u8 list \<Rightarrow> nat \<Rightarrow> text_enc \<Rightarrow> (u8 list \<times> bool) option" where
  "text_units z len enc =
     (case enc of
        SQLITE_UTF8 \<Rightarrow> do { us \<leftarrow> strided z 0 len 1; Some (us, False) }
      | SQLITE_UTF16LE \<Rightarrow> do { i \<leftarrow> scan16 z 1 len; us \<leftarrow> strided z 0 (i - 1) 2; Some (us, i < len) }
      | SQLITE_UTF16BE \<Rightarrow> do { i \<leftarrow> scan16 z 0 len; us \<leftarrow> strided z 1 i 2; Some (us, i < len) })"

definition digit_val :: "u8 \<Rightarrow> nat" where
  "digit_val c = unat c - 48"

definition pow63 :: "u8 list" where
  "pow63 = [57, 50, 50, 51, 51, 55, 50, 48, 51, 54, 56, 53, 52, 55, 55, 53, 56, 48]"

fun compare2pow63_loop :: "u8 list \<Rightarrow> u8 list \<Rightarrow> int option" where
  "compare2pow63_loop (c # zNum) (d # p) =
     (if uint c - uint d \<noteq> 0 then Some ((uint c - uint d) * 10) else compare2pow63_loop zNum p)"
| "compare2pow63_loop (c # zNum) [] = Some (uint c - 56)"
| "compare2pow63_loop [] p = None"

definition compare2pow63 :: "u8 list \<Rightarrow> int option" where
  "compare2pow63 zNum = compare2pow63_loop zNum pow63"

text \<open>The accumulator \<open>u\<close> of the conversion loop is 64 bits wide and may wrap.\<close>

definition u64_of_digits :: "u8 list \<Rightarrow> u64" where
  "u64_of_digits ds = foldl (\<lambda>u c. u * 10 + ucast c - 48) 0 ds"

definition skip_sign :: "u8 list \<Rightarrow> bool \<times> u8 list" where
  "skip_sign zs = (case zs of c # cs \<Rightarrow> if c = 45 then (True, cs) else if c = 43 then (False, cs) else (False, zs)
                   | [] \<Rightarrow> (False, []))"

text \<open>The result is the return code 0, 1 or 2 and the value stored in \<open>*pNum\<close>.\<close>

definition sqlite3Atoi64 :: "u8 list \<Rightarrow> nat \<Rightarrow> text_enc \<Rightarrow> (nat \<times> int) option" where
  "sqlite3Atoi64 z len enc = do {
     (us, nonNum) \<leftarrow> text_units z len enc;
     let (neg, zStart) = skip_sign (dropWhile sqlite3Isspace us);
         zNum = dropWhile (\<lambda>c. c = 48) zStart;
         ds = takeWhile (\<lambda>c. 48 \<le> unat c \<and> unat c \<le> 57) zNum;
         rest = drop (length ds) zNum;
         u = u64_of_digits ds;
         v = (if uint u > LARGEST_INT64 then SMALLEST_INT64 else if neg then - uint u else uint u)
     in if (rest \<noteq> [] \<and> hd rest \<noteq> 0) \<or> (ds = [] \<and> zStart = zNum) \<or> length ds > 19 \<or> nonNum then Some (1, v)
        else if length ds < 19 then Some (0, v)
        else do {
          c \<leftarrow> compare2pow63 zNum;
          Some (if c < 0 then 0 else if c > 0 then 1 else if neg then 0 else 2, v) } }"

text \<open>
  \<open>sqlite3GetInt32\<close> reads a zero-terminated string; the accumulator is at most eleven digits,
  far from the limits of its 64 bits. \<open>None\<close> in the inner option is the return value 0.
\<close>

fun getint_digits :: "nat \<Rightarrow> u8 list \<Rightarrow> int \<Rightarrow> nat \<Rightarrow> (int \<times> nat) option" where
  "getint_digits 0 z v i = Some (v, i)"
| "getint_digits (Suc f) [] v i = None"
| "getint_digits (Suc f) (c # z) v i =
     (if 48 \<le> unat c \<and> unat c \<le> 57 then getint_digits f z (v * 10 + int (digit_val c)) (i + 1)
      else Some (v, i))"

fun skip_zeros :: "u8 list \<Rightarrow> u8 list option" where
  "skip_zeros [] = None"
| "skip_zeros (c # z) = (if c = 48 then skip_zeros z else Some (c # z))"

definition sqlite3GetInt32 :: "u8 list \<Rightarrow> int option option" where
  "sqlite3GetInt32 zNum = do {
     c0 \<leftarrow> rd zNum 0;
     let (neg, zNum) = skip_sign zNum in do {
       zNum \<leftarrow> skip_zeros zNum;
       (v, i) \<leftarrow> getint_digits 11 zNum 0 0;
       Some (if i > 10 then None
             else if v - (if neg then 1 else 0) > 2147483647 then None
             else Some (if neg then - v else v)) } }"

definition sqlite3Atoi :: "u8 list \<Rightarrow> int option" where
  "sqlite3Atoi z = map_option (\<lambda>r. case r of None \<Rightarrow> 0 | Some v \<Rightarrow> v) (sqlite3GetInt32 z)"

section \<open>Big-endian and hexadecimal\<close>

definition sqlite3Get4byte :: "u8 list \<Rightarrow> u32 option" where
  "sqlite3Get4byte p = do {
     a \<leftarrow> rd p 0; b \<leftarrow> rd p 1; c \<leftarrow> rd p 2; d \<leftarrow> rd p 3;
     Some (push_bit 24 (ucast a) OR push_bit 16 (ucast b) OR push_bit 8 (ucast c) OR ucast d) }"

definition sqlite3Put4byte :: "u32 \<Rightarrow> u8 list" where
  "sqlite3Put4byte v = [ucast (drop_bit 24 v), ucast (drop_bit 16 v), ucast (drop_bit 8 v), ucast v]"

definition sqlite3HexToInt :: "u8 \<Rightarrow> u8" where
  "sqlite3HexToInt h = (h + 9 * (1 AND drop_bit 6 h)) AND 0xf"

text \<open>\<open>n\<close> counts the characters of the literal between the quotes and the closing quote.\<close>

function hex_loop :: "u8 list \<Rightarrow> nat \<Rightarrow> nat \<Rightarrow> u8 list option" where
  "hex_loop z i n =
     (if i < n then do {
        a \<leftarrow> rd z i; b \<leftarrow> rd z (i + 1);
        bs \<leftarrow> hex_loop z (i + 2) n;
        Some ((push_bit 4 (sqlite3HexToInt a) OR sqlite3HexToInt b) # bs) }
      else Some [])"
  by pat_completeness auto
termination
  by (relation "measure (\<lambda>(z, i, n). n - i)") auto

declare hex_loop.simps [simp del]

text \<open>The inner option is the pointer returned, null when the allocation fails.\<close>

definition sqlite3HexToBlob :: "bool \<Rightarrow> u8 list \<Rightarrow> nat \<Rightarrow> u8 list option option" where
  "sqlite3HexToBlob malloc_ok z n =
     (if malloc_ok then do { bs \<leftarrow> hex_loop z 0 (n - 1); Some (Some (bs @ [0])) } else Some None)"

section \<open>Correctness of the decimal conversions\<close>

definition is_dec :: "u8 \<Rightarrow> bool" where
  "is_dec c \<longleftrightarrow> 48 \<le> unat c \<and> unat c \<le> 57"

fun dec_val :: "u8 list \<Rightarrow> nat \<Rightarrow> nat" where
  "dec_val [] a = a"
| "dec_val (c # cs) a = dec_val cs (a * 10 + digit_val c)"

lemma dec_val_acc: "dec_val ds a = a * 10 ^ length ds + dec_val ds 0"
proof (induction ds arbitrary: a)
  case (Cons c ds)
  show ?case unfolding dec_val.simps by (subst (1 2) Cons) (simp add: algebra_simps)
qed simp

lemma digit_val_9: "is_dec c \<Longrightarrow> digit_val c \<le> 9"
  by (auto simp: is_dec_def digit_val_def)

lemma dec_val_bound: "list_all is_dec ds \<Longrightarrow> dec_val ds 0 < 10 ^ length ds"
proof (induction ds)
  case (Cons c ds)
  have "digit_val c * 10 ^ length ds \<le> 9 * 10 ^ length ds"
    using Cons(2) digit_val_9 [of c] by (intro mult_right_mono) auto
  moreover have "dec_val (c # ds) 0 = digit_val c * 10 ^ length ds + dec_val ds 0"
    using dec_val_acc [of ds "digit_val c"] by simp
  moreover have "dec_val ds 0 < 10 ^ length ds" using Cons by simp
  moreover have "(10::nat) ^ length (c # ds) = 9 * 10 ^ length ds + 10 ^ length ds" by simp
  ultimately show ?case by linarith
qed simp

lemma dec_val_zeros: "dec_val (dropWhile (\<lambda>c. c = 48) ds) 0 = dec_val ds 0"
  by (induction ds) (simp_all add: digit_val_def)

lemma unat_numeral_eq_48: "unat (48::u8) = 48"
  by simp

lemma digit_val_pos: "is_dec c \<Longrightarrow> c \<noteq> 48 \<Longrightarrow> 1 \<le> digit_val c"
proof -
  assume d: "is_dec c" and n: "c \<noteq> 48"
  from n have "unat c \<noteq> 48" by (metis unat_numeral_eq_48 word_unat_eq_iff)
  with d show ?thesis by (auto simp: is_dec_def digit_val_def)
qed

lemma dropWhile_zero_lower:
  assumes d: "dropWhile (\<lambda>c. c = 48) ds = c # cs" and "list_all is_dec ds"
  shows "10 ^ length cs \<le> dec_val ds 0"
proof -
  have "c \<noteq> 48" using hd_dropWhile [of "\<lambda>c. c = 48" ds] d by simp
  moreover have "is_dec c" using set_dropWhileD [of c "\<lambda>c. c = 48" ds] assms by (simp add: list_all_iff)
  ultimately have "1 * 10 ^ length cs \<le> digit_val c * 10 ^ length cs"
    by (intro mult_right_mono digit_val_pos) simp_all
  also have "\<dots> \<le> dec_val (c # cs) 0" using dec_val_acc [of cs "digit_val c"] by simp
  also have "\<dots> = dec_val ds 0" using dec_val_zeros [of ds] d by simp
  finally show ?thesis by simp
qed

lemma ucast_digit: "is_dec c \<Longrightarrow> (ucast c :: u64) = of_nat (digit_val c) + 48"
proof -
  assume "is_dec c"
  then have "unat c = digit_val c + 48" by (auto simp: is_dec_def digit_val_def)
  then have "(of_nat (unat c) :: u64) = of_nat (digit_val c + 48)" by (rule arg_cong)
  then show ?thesis by simp
qed

lemma u64_of_digits_val:
  "list_all is_dec ds \<Longrightarrow> foldl (\<lambda>u c. u * 10 + ucast c - 48) (of_nat a :: u64) ds = of_nat (dec_val ds a)"
proof (induction ds arbitrary: a)
  case (Cons c ds)
  have "(of_nat a * 10 + ucast c - 48 :: u64) = of_nat (a * 10 + digit_val c)"
    using Cons(2) by (simp add: ucast_digit)
  with Cons show ?case by (simp only: foldl.simps dec_val.simps list.pred_inject)
qed simp


lemma u64_of_digits_eq:
  assumes "list_all is_dec ds" and "dec_val ds 0 < 2 ^ 64"
  shows "uint (u64_of_digits ds) = int (dec_val ds 0)"
proof -
  have "u64_of_digits ds = of_nat (dec_val ds 0)"
    using u64_of_digits_val [OF assms(1), of 0] by (simp add: u64_of_digits_def)
  then show ?thesis using assms(2) by (simp add: uint_nat unat_of_nat)
qed

text \<open>Comparing digit by digit against \<open>2^63\<close> is comparing the numbers.\<close>

lemma is_dec_56: "is_dec 56"
  by (simp add: is_dec_def)

lemma uint_digit: "is_dec c \<Longrightarrow> uint c = int (digit_val c) + 48"
  using uint_nat [of c] by (auto simp: is_dec_def digit_val_def)

lemma uint_digits: "is_dec c \<Longrightarrow> is_dec d \<Longrightarrow> uint c - uint d = int (digit_val c) - int (digit_val d)"
  by (simp add: uint_digit)

lemma compare2pow63_loop_ok:
  assumes "list_all is_dec ds" and "list_all is_dec p" and "length ds = Suc (length p)"
  shows "\<exists>c. compare2pow63_loop ds p = Some c \<and>
    (c < 0 \<longleftrightarrow> dec_val ds 0 < dec_val (p @ [56]) 0) \<and> (c = 0 \<longleftrightarrow> dec_val ds 0 = dec_val (p @ [56]) 0)"
  using assms
proof (induction ds p rule: compare2pow63_loop.induct)
  case (1 c ds d p)
  have len: "length (p @ [56]) = length ds" using 1(4) by simp
  note dv = dec_val_acc [of ds "digit_val c"] dec_val_acc [of "p @ [56]" "digit_val d", unfolded len]
  have dec: "is_dec c" "is_dec d" "list_all is_dec ds" "list_all is_dec (p @ [56])"
    using 1(2,3) is_dec_56 by simp_all
  note b = dec_val_bound [OF dec(3)] dec_val_bound [OF dec(4), unfolded len]
  show ?case
  proof (cases "uint c - uint d = 0")
    case True
    then have "digit_val c = digit_val d" using uint_digits [OF dec(1,2)] by simp
    with True 1(1) [OF _ dec(3)] 1(3,4) dv len show ?thesis by simp
  next
    case False
    then have ne: "digit_val c \<noteq> digit_val d" using uint_digits [OF dec(1,2)] by simp
    have less: "x * 10 ^ k + a < y * 10 ^ k + e" if "x < y" "a < 10 ^ k" for x y a e k :: nat
    proof -
      have "Suc x * 10 ^ k \<le> y * 10 ^ k" using that(1) by (intro mult_right_mono) auto
      with that(2) show ?thesis by simp
    qed
    show ?thesis
    proof (cases "digit_val c < digit_val d")
      case True
      with less [OF True b(1), of "dec_val (p @ [56]) 0"] False uint_digits [OF dec(1,2)] dv len show ?thesis by simp
    next
      case ge: False
      with ne have gt: "digit_val d < digit_val c" by simp
      from less [OF this b(2), of "dec_val ds 0"] gt False uint_digits [OF dec(1,2)] dv len show ?thesis
        by simp
    qed
  qed
next
  case (2 c ds)
  then have "ds = []" "is_dec c" by simp_all
  moreover have "uint c - 56 = int (digit_val c) - int (digit_val 56)"
    using uint_digits [of c 56] 2 is_dec_56 by simp
  ultimately show ?case by simp
qed simp

lemma pow63_val: "dec_val (pow63 @ [56]) 0 = 9223372036854775808"
  by (simp add: pow63_def digit_val_def)

lemma pow63_dec: "list_all is_dec pow63" "length pow63 = 18"
  by (simp_all add: pow63_def is_dec_def)

lemma compare2pow63_ok:
  assumes "list_all is_dec ds" and "length ds = 19"
  shows "\<exists>c. compare2pow63 ds = Some c \<and> (c < 0 \<longleftrightarrow> dec_val ds 0 < 9223372036854775808) \<and>
    (c = 0 \<longleftrightarrow> dec_val ds 0 = 9223372036854775808)"
  using compare2pow63_loop_ok [OF assms(1) pow63_dec(1)] assms(2)
  by (simp add: compare2pow63_def pow63_val pow63_dec(2))

lemma strided_1: "k \<le> zEnd \<Longrightarrow> zEnd \<le> length z \<Longrightarrow> strided z k zEnd 1 = Some (take (zEnd - k) (drop k z))"
proof (induction "zEnd - k" arbitrary: k)
  case 0
  then show ?case by (subst strided.simps) simp
next
  case (Suc n)
  then have "strided z (k + 1) zEnd 1 = Some (take (zEnd - (k + 1)) (drop (k + 1) z))" by simp
  moreover have "zEnd - k = Suc (zEnd - (k + 1))" using Suc by simp
  ultimately show ?case
    using Suc by (subst strided.simps) (simp add: rd_in_range Cons_nth_drop_Suc [symmetric])
qed

lemma text_units_utf8: "len \<le> length z \<Longrightarrow> text_units z len SQLITE_UTF8 = Some (take len z, False)"
  using strided_1 [of 0 len z] by (simp add: text_units_def)

text \<open>Characters below 256 in the three encodings, and that the units of an encoded text are its characters.\<close>

definition enc_text :: "text_enc \<Rightarrow> u8 list \<Rightarrow> u8 list" where
  "enc_text enc t = (case enc of
     SQLITE_UTF8 \<Rightarrow> t
   | SQLITE_UTF16LE \<Rightarrow> concat (map (\<lambda>c. [c, 0]) t)
   | SQLITE_UTF16BE \<Rightarrow> concat (map (\<lambda>c. [0, c]) t))"

lemma pairs_length: "length (concat (map (\<lambda>c. [f c, g c]) t)) = 2 * length t"
  by (induction t) auto

lemma pairs_nth:
  assumes "j < length t"
  shows "rd (concat (map (\<lambda>c. [f c, g c]) t) @ more) (2 * j) = Some (f (t ! j))"
    and "rd (concat (map (\<lambda>c. [f c, g c]) t) @ more) (Suc (2 * j)) = Some (g (t ! j))"
proof -
  have "concat (map (\<lambda>c. [f c, g c]) t) ! (2 * j) = f (t ! j) \<and> concat (map (\<lambda>c. [f c, g c]) t) ! Suc (2 * j) = g (t ! j)"
    using assms by (induction t arbitrary: j) (auto simp: nth_Cons split: nat.splits)
  then show "rd (concat (map (\<lambda>c. [f c, g c]) t) @ more) (2 * j) = Some (f (t ! j))"
    "rd (concat (map (\<lambda>c. [f c, g c]) t) @ more) (Suc (2 * j)) = Some (g (t ! j))"
    using assms by (simp_all add: rd_in_range pairs_length nth_append)
qed

lemma scan16_zeros: "(\<And>j. j < n \<Longrightarrow> rd z (i + 2 * j) = Some 0) \<Longrightarrow> (n = 0 \<or> i + 2 * n - 2 < len) \<Longrightarrow> len \<le> i + 2 * n \<Longrightarrow>
  scan16 z i len = Some (i + 2 * n)"
proof (induction n arbitrary: i)
  case 0
  then show ?case by (subst scan16.simps) simp
next
  case (Suc n)
  have "rd z (i + 2 + 2 * j) = Some 0" if "j < n" for j using Suc.prems(1) [of "Suc j"] that by (simp add: add.assoc)
  then have "scan16 z (i + 2) len = Some (i + 2 + 2 * n)" using Suc.prems(2,3) by (intro Suc.IH) auto
  moreover have "rd z i = Some 0" using Suc.prems(1) [of 0] by simp
  ultimately show ?case using Suc.prems(2) by (subst scan16.simps) simp
qed

lemma strided_pairs: "(\<And>j. j < length us \<Longrightarrow> rd z (k + 2 * j) = Some (us ! j)) \<Longrightarrow> (us = [] \<or> k + 2 * length us - 2 < e) \<Longrightarrow>
  e \<le> k + 2 * length us \<Longrightarrow> strided z k e 2 = Some us"
proof (induction us arbitrary: k)
  case Nil
  then show ?case by (subst strided.simps) simp
next
  case (Cons u us)
  have "rd z (k + 2 + 2 * j) = Some (us ! j)" if "j < length us" for j using Cons.prems(1) [of "Suc j"] that by (simp add: add.assoc)
  then have "strided z (k + 2) e 2 = Some us" using Cons.prems(2,3) by (intro Cons.IH) auto
  moreover have "rd z k = Some u" using Cons.prems(1) [of 0] by simp
  ultimately show ?case using Cons.prems(2) by (subst strided.simps) simp
qed

lemma text_units_enc: "text_units (enc_text enc t @ more) (length (enc_text enc t)) enc = Some (t, False)"
proof (cases enc)
  case SQLITE_UTF8
  then show ?thesis by (simp add: enc_text_def text_units_utf8)
next
  case SQLITE_UTF16LE
  let ?z = "concat (map (\<lambda>c. [c, 0]) t) @ more"
  have "scan16 ?z 1 (2 * length t) = Some (1 + 2 * length t)"
    by (rule scan16_zeros) (use pairs_nth(2) [of _ t "\<lambda>c. c" "\<lambda>c. 0"] in \<open>auto, (cases t; simp)\<close>)
  moreover have "strided ?z 0 (2 * length t) 2 = Some t"
    by (rule strided_pairs) (use pairs_nth(1) [of _ t "\<lambda>c. c" "\<lambda>c. 0"] in \<open>auto, (cases t; simp)\<close>)
  ultimately show ?thesis unfolding SQLITE_UTF16LE enc_text_def text_enc.case text_units_def
    pairs_length [of "\<lambda>c. c" "\<lambda>c. 0" t] by simp
next
  case SQLITE_UTF16BE
  let ?z = "concat (map (\<lambda>c. [0, c]) t) @ more"
  have "scan16 ?z 0 (2 * length t) = Some (0 + 2 * length t)"
    by (rule scan16_zeros) (use pairs_nth(1) [of _ t "\<lambda>c. 0" "\<lambda>c. c"] in \<open>auto, (cases t; simp)\<close>)
  moreover have "strided ?z 1 (2 * length t) 2 = Some t"
    by (rule strided_pairs) (use pairs_nth(2) [of _ t "\<lambda>c. 0" "\<lambda>c. c"] in \<open>auto, (cases t; simp)\<close>)
  ultimately show ?thesis unfolding SQLITE_UTF16BE enc_text_def text_enc.case text_units_def
    pairs_length [of "\<lambda>c. 0" "\<lambda>c. c" t] by simp
qed

text \<open>What an optional sign and a digit string denote.\<close>

definition signed_val :: "u8 list \<Rightarrow> u8 list \<Rightarrow> int" where
  "signed_val sg ds = (if sg = [45] then - int (dec_val ds 0) else int (dec_val ds 0))"

definition num_text :: "u8 list \<Rightarrow> u8 list \<Rightarrow> u8 list \<Rightarrow> bool" where
  "num_text sp sg ds \<longleftrightarrow> list_all sqlite3Isspace sp \<and> sg \<in> {[], [43], [45]} \<and> ds \<noteq> [] \<and> list_all is_dec ds"

lemma num_text_scan:
  assumes "num_text sp sg ds"
  shows "skip_sign (dropWhile sqlite3Isspace (sp @ sg @ ds)) = (sg = [45], ds)"
proof -
  obtain d ds' where ds: "ds = d # ds'" "is_dec d" using assms by (cases ds) (auto simp: num_text_def)
  then have "\<not> sqlite3Isspace d" "d \<noteq> 45" "d \<noteq> 43" by (auto simp: is_dec_def Isspace_iff)
  moreover have "\<not> sqlite3Isspace 43" "\<not> sqlite3Isspace 45" by (simp_all add: Isspace_iff)
  moreover have "dropWhile sqlite3Isspace (sp @ xs) = dropWhile sqlite3Isspace xs" for xs
    using assms by (auto simp: num_text_def list_all_iff dropWhile_append2)
  ultimately show ?thesis using assms ds(1) by (auto simp: num_text_def skip_sign_def)
qed

lemma takeWhile_dec: "list_all is_dec ds \<Longrightarrow> takeWhile (\<lambda>c. 48 \<le> unat c \<and> unat c \<le> 57) ds = ds"
  by (induction ds) (auto simp: is_dec_def)

lemma power_mono_10: "m \<le> n \<Longrightarrow> (10::nat) ^ m \<le> 10 ^ n"
  by (rule power_increasing) simp_all

lemma drop_all_length: "drop (length xs) xs = []"
  by simp

lemma Atoi64_digits:
  assumes n: "num_text sp sg ds"
  shows "\<exists>r v. sqlite3Atoi64 (enc_text enc (sp @ sg @ ds) @ more) (length (enc_text enc (sp @ sg @ ds))) enc = Some (r, v) \<and>
    (if is_i64 (signed_val sg ds) then r = 0 \<and> v = signed_val sg ds
     else if signed_val sg ds = 9223372036854775808 then r = 2 \<and> v = SMALLEST_INT64 else r = 1)"
proof -
  let ?zs = "dropWhile (\<lambda>c. c = 48) ds" and ?N = "dec_val ds 0"
  have dec: "list_all is_dec ds" and ne: "ds \<noteq> []" using n by (simp_all add: num_text_def)
  have zdec: "list_all is_dec ?zs" using dec by (auto simp: list_all_iff dest: set_dropWhileD)
  have zval: "dec_val ?zs 0 = ?N" by (rule dec_val_zeros)
  let ?txt = "sp @ sg @ ds"
  have units: "text_units (enc_text enc ?txt @ more) (length (enc_text enc ?txt)) enc = Some (?txt, False)"
    by (rule text_units_enc)
  have start: "\<not> (?zs = [] \<and> ds = ?zs)" using ne by metis
  have eval: "sqlite3Atoi64 (enc_text enc ?txt @ more) (length (enc_text enc ?txt)) enc =
    (let v = (if uint (u64_of_digits ?zs) > LARGEST_INT64 then SMALLEST_INT64
              else if sg = [45] then - uint (u64_of_digits ?zs) else uint (u64_of_digits ?zs))
     in if length ?zs > 19 then Some (1, v) else if length ?zs < 19 then Some (0, v)
        else do { c \<leftarrow> compare2pow63 ?zs;
          Some (if c < 0 then 0 else if c > 0 then 1 else if sg = [45] then 0 else 2, v) })"
    unfolding sqlite3Atoi64_def units Option.bind.simps prod.case num_text_scan [OF n] Let_def
      takeWhile_dec [OF zdec] using start by (simp only: drop_all_length) simp
  consider "length ?zs > 19" | "length ?zs < 19" | "length ?zs = 19" by linarith
  then show ?thesis
  proof cases
    case 1
    then obtain c cs where zs: "?zs = c # cs" by (cases ?zs) auto
    from 1 have "(10::nat) ^ 19 \<le> 10 ^ length cs" using zs by (intro power_mono_10) simp
    also have "\<dots> \<le> ?N" by (rule dropWhile_zero_lower [OF zs dec])
    finally have "\<not> is_i64 (signed_val sg ds)" "signed_val sg ds \<noteq> 9223372036854775808"
      by (auto simp: signed_val_def is_i64_def i64_limits)
    with 1 show ?thesis unfolding eval by simp
  next
    case 2
    have "?N < 10 ^ length ?zs" using dec_val_bound [OF zdec] zval by simp
    also have "\<dots> \<le> 10 ^ 18" using 2 by (intro power_mono_10) simp
    finally have small: "?N < 10 ^ 18" .
    with u64_of_digits_eq [OF zdec] zval have "uint (u64_of_digits ?zs) = int ?N" by simp
    with small 2 show ?thesis unfolding eval by (auto simp: signed_val_def is_i64_def i64_limits)
  next
    case 3
    have "?N < 10 ^ 19" using dec_val_bound [OF zdec] zval 3 by simp
    with u64_of_digits_eq [OF zdec] zval have "uint (u64_of_digits ?zs) = int ?N" by simp
    with compare2pow63_ok [OF zdec 3] 3 zval show ?thesis
      unfolding eval by (auto simp: signed_val_def is_i64_def i64_limits)
  qed
qed


lemma getint_digits_short:
  "list_all is_dec ds \<Longrightarrow> \<not> is_dec c \<Longrightarrow> length ds < f \<Longrightarrow>
   getint_digits f (ds @ c # more) (int v) i = Some (int (dec_val ds v), i + length ds)"
proof (induction ds arbitrary: f v i)
  case Nil
  then show ?case by (cases f) (auto simp: is_dec_def)
next
  case (Cons d ds)
  obtain g where f: "f = Suc g" using Cons(4) by (cases f) auto
  have "getint_digits f ((d # ds) @ c # more) (int v) i = getint_digits g (ds @ c # more) (int (v * 10 + digit_val d)) (i + 1)"
    using f Cons(2) by (simp add: is_dec_def mult.commute)
  also have "\<dots> = Some (int (dec_val ds (v * 10 + digit_val d)), i + 1 + length ds)"
    using Cons(2-4) f by (intro Cons(1)) auto
  finally show ?case by simp
qed

lemma getint_digits_long:
  "list_all is_dec ds \<Longrightarrow> f \<le> length ds \<Longrightarrow> \<exists>w. getint_digits f (ds @ z) v i = Some (w, i + f)"
proof (induction f arbitrary: ds v i)
  case (Suc f)
  then obtain d ds' where ds: "ds = d # ds'" "is_dec d" by (cases ds) auto
  with Suc(1) [of ds' "v * 10 + int (digit_val d)" "i + 1"] Suc(2,3) show ?case
    by (simp add: is_dec_def [symmetric])
qed simp

lemma skip_zeros_text:
  "\<not> is_dec c \<Longrightarrow> skip_zeros (ds @ c # more) = Some (dropWhile (\<lambda>c. c = 48) ds @ c # more)"
  by (induction ds) (auto simp: is_dec_def)

lemma GetInt32_digits:
  assumes n: "num_text [] sg ds" and c: "\<not> is_dec c"
  shows "sqlite3GetInt32 (sg @ ds @ c # more) =
    Some (if - 2147483648 \<le> signed_val sg ds \<and> signed_val sg ds \<le> 2147483647
          then Some (signed_val sg ds) else None)"
proof -
  let ?zs = "dropWhile (\<lambda>c. c = 48) ds" and ?N = "dec_val ds 0"
  have dec: "list_all is_dec ds" and ne: "ds \<noteq> []" using n by (simp_all add: num_text_def)
  have zdec: "list_all is_dec ?zs" using dec by (auto simp: list_all_iff dest: set_dropWhileD)
  have zval: "dec_val ?zs 0 = ?N" by (rule dec_val_zeros)
  obtain x xs where ds: "ds = x # xs" "is_dec x" using dec ne by (cases ds) auto
  then have "x \<noteq> 45" "x \<noteq> 43" by (auto simp: is_dec_def)
  then have sk: "skip_sign (sg @ ds @ c # more) = (sg = [45], ds @ c # more)"
    using n ds(1) by (auto simp: num_text_def skip_sign_def)
  have rd0: "\<exists>c0. rd (sg @ ds @ c # more) 0 = Some c0" by (simp add: rd_in_range)
  show ?thesis
  proof (cases "length ?zs \<le> 10")
    case True
    then have g: "getint_digits 11 (?zs @ c # more) 0 0 = Some (int ?N, length ?zs)"
      using getint_digits_short [OF zdec c, of 11 more 0 0] zval by simp
    show ?thesis using rd0 True
      by (auto simp: sqlite3GetInt32_def sk skip_zeros_text [OF c] g signed_val_def)
  next
    case False
    then obtain y ys where zs: "?zs = y # ys" by (cases ?zs) auto
    from False have "(10::nat) ^ 10 \<le> 10 ^ length ys" using zs by (intro power_mono_10) simp
    also have "\<dots> \<le> ?N" by (rule dropWhile_zero_lower [OF zs dec])
    finally have "10 ^ 10 \<le> ?N" .
    then have big: "\<not> (- 2147483648 \<le> signed_val sg ds \<and> signed_val sg ds \<le> 2147483647)"
      by (auto simp: signed_val_def)
    obtain w where "getint_digits 11 (?zs @ c # more) 0 0 = Some (w, 11)"
      using getint_digits_long [OF zdec, of 11 "c # more" 0 0] False by auto
    with big show ?thesis using rd0 by (auto simp: sqlite3GetInt32_def sk skip_zeros_text [OF c])
  qed
qed

section \<open>Correctness of the binary conversions\<close>

lemma Get4byte_Put4byte: "sqlite3Get4byte (sqlite3Put4byte v @ more) = Some v"
proof -
  have "push_bit 24 (ucast (ucast (drop_bit 24 v) :: u8)) OR push_bit 16 (ucast (ucast (drop_bit 16 v) :: u8)) OR
      push_bit 8 (ucast (ucast (drop_bit 8 v) :: u8)) OR ucast (ucast v :: u8) = v"
    by (rule u32_eqI) (simp add: bit_simps bitblast)
  then show ?thesis by (simp add: sqlite3Get4byte_def sqlite3Put4byte_def)
qed

lemma Put4byte_Get4byte: "sqlite3Get4byte [a, b, c, d] = Some v \<Longrightarrow> sqlite3Put4byte v = [a, b, c, d]"
  by (auto simp: sqlite3Get4byte_def sqlite3Put4byte_def intro!: u8_eqI) (simp_all add: bit_simps bitblast)

text \<open>The digits of a byte as the SQL function \<open>hex\<close> and the literal syntax write them.\<close>

definition hex_digit :: "u8 \<Rightarrow> u8" where
  "hex_digit n = (if n < 10 then n + 48 else n + 55)"

fun hex_text :: "u8 list \<Rightarrow> u8 list" where
  "hex_text [] = []"
| "hex_text (b # bs) = hex_digit (drop_bit 4 b) # hex_digit (b AND 0xf) # hex_text bs"

lemma HexToInt_table:
  "map (\<lambda>i. sqlite3HexToInt (hex_digit (of_nat i))) [0..<16] = map of_nat [0..<16]"
  by code_simp

lemma HexToInt_hex_digit: "n < 16 \<Longrightarrow> sqlite3HexToInt (hex_digit n) = n"
proof -
  assume "n < 16"
  then have u: "unat n < 16" by (simp add: word_less_nat_alt)
  have "map (\<lambda>i. sqlite3HexToInt (hex_digit (of_nat i))) [0..<16] ! unat n = map of_nat [0..<16] ! unat n"
    by (simp only: HexToInt_table)
  with u show ?thesis by simp
qed

lemma byte_halves: "push_bit 4 (drop_bit 4 b) OR (b AND 0xf) = (b::u8)"
  by (rule u8_eqI) (simp add: bit_simps bitblast)

lemma nibble_less: "drop_bit 4 (b::u8) < 16" "(b::u8) AND 0xf < 16"
proof -
  have "unat (drop_bit 4 b) = unat b div 16" by (simp only: unat_drop_bit_eq) (simp add: drop_bit_eq_div)
  then show "drop_bit 4 b < 16" using unat_u8_less [of b] by (simp add: word_less_nat_alt)
  show "b AND 0xf < 16" by (rule le_less_trans [OF word_and_le1]) simp
qed

lemma hex_loop_text: "hex_loop (pre @ hex_text bs @ post) (length pre) (length pre + 2 * length bs) = Some bs"
proof (induction bs arbitrary: pre)
  case Nil
  then show ?case by (subst hex_loop.simps) simp
next
  case (Cons b bs)
  let ?ds = "[hex_digit (drop_bit 4 b), hex_digit (b AND 0xf)]"
  have "hex_loop (pre @ hex_text (b # bs) @ post) (length pre + 2) (length pre + 2 * length (b # bs)) = Some bs"
    using Cons [of "pre @ ?ds"] by simp
  then show ?case
    by (subst hex_loop.simps)
      (simp add: rd_in_range nth_append HexToInt_hex_digit nibble_less byte_halves)
qed

section \<open>Properties\<close>

text \<open>
  \<open>sqlite3AddInt64\<close> and \<open>sqlite3SubInt64\<close> detect overflow exactly: on all pairs of 64-bit
  operands they store the mathematical result and return 0 when it is representable, and return 1
  with the operand unchanged when it is not.
\<close>

theorem add_sub_int64_exact:
  assumes "is_i64 a" and "is_i64 b"
  shows "sqlite3AddInt64 a b = (if is_i64 (a + b) then (False, a + b) else (True, a)) \<and>
    sqlite3SubInt64 a b = (if is_i64 (a - b) then (False, a - b) else (True, a))"
  using AddInt64_exact [OF assms] SubInt64_exact [OF assms] by blast

theorem add_sub_int64_exact_witness:
  "sqlite3AddInt64 9223372036854775807 1 = (True, 9223372036854775807) \<and>
   sqlite3SubInt64 9223372036854775807 1 = (False, 9223372036854775806)"
  using add_sub_int64_exact [of 9223372036854775807 1] by (simp add: is_i64_def i64_limits)

text \<open>
  C37. \<open>sqlite3MulInt64\<close> is exact in the same sense on every pair of 64-bit operands for which the
  product of the low 32-bit halves, which the code forms in a signed 64-bit variable, is itself
  representable.
\<close>

theorem mul_int64_exact:
  assumes "is_i64 a" and "is_i64 b" and "is_i64 (low_product a b)"
  shows "sqlite3MulInt64 a b = (if is_i64 (a * b) then (False, a * b) else (True, a))"
  using assms by (rule MulInt64_exact)

theorem mul_int64_exact_witness:
  "sqlite3MulInt64 3000000000 3000000000 = (False, 9000000000000000000)"
  using mul_int64_exact [of 3000000000 3000000000]
  by (simp add: is_i64_def i64_limits low_product_def cmod_def cdiv_def TWOPOWER32_def)

text \<open>
  C38. Without that condition \<open>sqlite3MulInt64\<close> misses overflows. For all operands below \<open>2^32\<close> whose product does not fit
  in 64 bits it reports success, and stores the product reduced by \<open>2^64\<close>, a negative number, although the comment
  promises a return of 1 and an unchanged operand.
\<close>

theorem mul_int64_missed_overflow:
  assumes "0 \<le> a" "a < 2 ^ 32" and "0 \<le> b" "b < 2 ^ 32" and "\<not> is_i64 (a * b)"
  shows "sqlite3MulInt64 a b = (False, a * b - 2 ^ 64) \<and> a * b - 2 ^ 64 < 0"
proof -
  define x where "x = a * b"
  have h: "cdiv a TWOPOWER32 = 0" "cdiv b TWOPOWER32 = 0" "cmod a TWOPOWER32 = a" "cmod b TWOPOWER32 = b"
    using assms(1-4) by (simp_all add: cdiv_def cmod_def TWOPOWER32_def)
  have "a * b \<le> 4294967295 * 4294967295" using assms(1-4) by (intro mult_mono) simp_all
  then have hi: "x < 18446744073709551616" by (simp add: x_def)
  have lo: "9223372036854775808 \<le> x"
    using assms(5) mult_nonneg_nonneg [OF assms(1,3)] unfolding x_def [symmetric] by (auto simp: is_i64_def i64_limits)
  have "x + 9223372036854775808 = x - 9223372036854775808 + 18446744073709551616" by simp
  then have "(x + 9223372036854775808) mod 18446744073709551616 = (x - 9223372036854775808) mod 18446744073709551616"
    by (simp only: mod_add_self2)
  also have "\<dots> = x - 9223372036854775808" by (rule mod_pos_pos_trivial) (use hi lo in simp_all)
  finally have w: "i64_wrap x = x - 18446744073709551616" by (simp add: i64_wrap_def)
  have i: "is_i64 0" "is_i64 (x - 18446744073709551616)" using hi lo by (simp_all add: is_i64_def i64_limits)
  have "sqlite3AddInt64 0 (x - 18446744073709551616) = (False, x - 18446744073709551616)"
    using AddInt64_exact [OF i] i(2) by simp
  then show ?thesis using w hi
    by (simp add: sqlite3MulInt64_def h Let_def i64_wrap_id [OF i(1)] TWOPOWER31_def x_def [symmetric])
qed

theorem mul_int64_missed_overflow_witness: "sqlite3MulInt64 4294967295 4294967295 = (False, - 8589934591)"
  using mul_int64_missed_overflow [of 4294967295 4294967295] by (simp add: is_i64_def i64_limits)

text \<open>
  C39. \<open>sqlite3Atoi64\<close> on text in any of the three encodings made of white space, an optional sign and at least one digit
  returns 0 with the value exactly when the value fits in 64 bits, 2 exactly for \<open>2^63\<close>, that is
  \<open>9223372036854775808\<close>, and 1 for everything larger, whatever the number of leading zeros and
  whatever follows the given length. (The comment of the function says 2 for \<open>9223372036854665808\<close>,
  which fits in 64 bits: the code returns 0 for it, as for every value that fits.)
\<close>

theorem atoi64_decimal:
  assumes "num_text sp sg ds"
  shows "\<exists>r v. sqlite3Atoi64 (enc_text enc (sp @ sg @ ds) @ more) (length (enc_text enc (sp @ sg @ ds))) enc = Some (r, v) \<and>
    (if is_i64 (signed_val sg ds) then r = 0 \<and> v = signed_val sg ds
     else if signed_val sg ds = 9223372036854775808 then r = 2 \<and> v = SMALLEST_INT64 else r = 1)"
  using assms by (rule Atoi64_digits)

theorem atoi64_decimal_witness:
  "sqlite3Atoi64 [32, 0, 45, 0, 48, 0, 49, 0, 50, 0, 51] 10 SQLITE_UTF16LE = Some (0, - 12)"
proof -
  have t: "num_text [32] [45] [48, 49, 50]" by (simp add: num_text_def is_dec_def Isspace_iff)
  have "signed_val [45] [48, 49, 50] = - 12" by (simp add: signed_val_def digit_val_def)
  with atoi64_decimal [OF t, of SQLITE_UTF16LE "[51]"] show ?thesis
    by (simp add: is_i64_def i64_limits enc_text_def eval_nat_numeral)
qed

text \<open>
  \<open>sqlite3GetInt32\<close> reads the longest digit string after an optional sign and succeeds exactly
  when the value lies between \<open>-2^31\<close> and \<open>2^31 - 1\<close>, without reading past the first non-digit.
\<close>

theorem getint32_decimal:
  assumes "num_text [] sg ds" and "\<not> is_dec c"
  shows "sqlite3GetInt32 (sg @ ds @ c # more) =
    Some (if - 2147483648 \<le> signed_val sg ds \<and> signed_val sg ds \<le> 2147483647
          then Some (signed_val sg ds) else None)"
  using assms by (rule GetInt32_digits)

theorem getint32_decimal_witness:
  "sqlite3GetInt32 ([45] @ [50, 49, 52, 55, 52, 56, 51, 54, 52, 56] @ 0 # []) = Some (Some (- 2147483648))"
proof -
  have "num_text [] [45] [50, 49, 52, 55, 52, 56, 51, 54, 52, 56]" "\<not> is_dec 0"
    by (simp_all add: num_text_def is_dec_def)
  from getint32_decimal [OF this, of "[]"] show ?thesis by (simp add: signed_val_def digit_val_def)
qed

text \<open>
  Binary text forms round-trip: a four-byte big-endian integer is read back from the bytes
  written, and \<open>sqlite3HexToBlob\<close> turns the hexadecimal text of any byte string back into it.
\<close>

theorem fourbyte_and_hex_roundtrip:
  "sqlite3Get4byte (sqlite3Put4byte v @ more) = Some v \<and>
   sqlite3HexToBlob True (hex_text bs @ post) (2 * length bs + 1) = Some (Some (bs @ [0]))"
  using Get4byte_Put4byte hex_loop_text [of "[]" bs post] by (simp add: sqlite3HexToBlob_def)

end
