(* ===== verification/Utf.thy ===== *)
theory Utf
  imports Int_Util
begin

text \<open>
  utf.c: reading and writing single characters in UTF-8 and in both byte orders of UTF-16, and the
  translation of a whole string from one encoding to another. A code point is an \<open>unsigned int\<close>,
  a 32-bit word. The remaining input, from \<open>zIn\<close> up to \<open>zTerm\<close>, is a list; a read past its end is
  \<open>None\<close>.
\<close>

section \<open>Single characters\<close>

definition sqlite3Utf8Trans1 :: "u8 list" where
  "sqlite3Utf8Trans1 = [
    0x00, 0x01, 0x02, 0x03, 0x04, 0x05, 0x06, 0x07, 0x08, 0x09, 0x0a, 0x0b, 0x0c, 0x0d, 0x0e, 0x0f,
    0x10, 0x11, 0x12, 0x13, 0x14, 0x15, 0x16, 0x17, 0x18, 0x19, 0x1a, 0x1b, 0x1c, 0x1d, 0x1e, 0x1f,
    0x00, 0x01, 0x02, 0x03, 0x04, 0x05, 0x06, 0x07, 0x08, 0x09, 0x0a, 0x0b, 0x0c, 0x0d, 0x0e, 0x0f,
    0x00, 0x01, 0x02, 0x03, 0x04, 0x05, 0x06, 0x07, 0x00, 0x01, 0x02, 0x03, 0x00, 0x01, 0x00, 0x00]"

definition WRITE_UTF8 :: "u32 \<Rightarrow> u8 list" where
  "WRITE_UTF8 c =
     (if c < 0x80 then [ucast (c AND 0xFF)]
      else if c < 0x800 then
        [0xC0 + ucast (drop_bit 6 c AND 0x1F), 0x80 + ucast (c AND 0x3F)]
      else if c < 0x10000 then
        [0xE0 + ucast (drop_bit 12 c AND 0x0F), 0x80 + ucast (drop_bit 6 c AND 0x3F), 0x80 + ucast (c AND 0x3F)]
      else
        [0xF0 + ucast (drop_bit 18 c AND 0x07), 0x80 + ucast (drop_bit 12 c AND 0x3F),
         0x80 + ucast (drop_bit 6 c AND 0x3F), 0x80 + ucast (c AND 0x3F)])"

definition WRITE_UTF16LE :: "u32 \<Rightarrow> u8 list" where
  "WRITE_UTF16LE c =
     (if c \<le> 0xFFFF then [ucast (c AND 0xFF), ucast (drop_bit 8 c AND 0xFF)]
      else
        [ucast ((drop_bit 10 c AND 0x3F) + (drop_bit 10 (c - 0x10000) AND 0xC0)),
         ucast (0xD8 + (drop_bit 18 (c - 0x10000) AND 0x03)),
         ucast (c AND 0xFF),
         ucast (0xDC + (drop_bit 8 c AND 0x03))])"

definition WRITE_UTF16BE :: "u32 \<Rightarrow> u8 list" where
  "WRITE_UTF16BE c =
     (if c \<le> 0xFFFF then [ucast (drop_bit 8 c AND 0xFF), ucast (c AND 0xFF)]
      else
        [ucast (0xD8 + (drop_bit 18 (c - 0x10000) AND 0x03)),
         ucast ((drop_bit 10 c AND 0x3F) + (drop_bit 10 (c - 0x10000) AND 0xC0)),
         ucast (0xDC + (drop_bit 8 c AND 0x03)),
         ucast (c AND 0xFF)])"

definition utf16_pair :: "u32 \<Rightarrow> u32 \<Rightarrow> u32" where
  "utf16_pair c c2 = (c2 AND 0x03FF) + push_bit 10 (c AND 0x003F) + push_bit 10 ((c AND 0x03C0) + 0x0040)"

fun READ_UTF16LE :: "u8 list \<Rightarrow> (u32 \<times> u8 list) option" where
  "READ_UTF16LE (x # y # zIn) =
     (let c = ucast x + push_bit 8 (ucast y)
      in if c \<ge> 0xD800 \<and> c < 0xE000 \<and> zIn \<noteq> [] then
           (case zIn of a # b # zIn \<Rightarrow> Some (utf16_pair c (ucast a + push_bit 8 (ucast b)), zIn) | _ \<Rightarrow> None)
         else Some (c, zIn))"
| "READ_UTF16LE _ = None"

fun READ_UTF16BE :: "u8 list \<Rightarrow> (u32 \<times> u8 list) option" where
  "READ_UTF16BE (x # y # zIn) =
     (let c = push_bit 8 (ucast x) + ucast y
      in if c \<ge> 0xD800 \<and> c < 0xE000 \<and> zIn \<noteq> [] then
           (case zIn of a # b # zIn \<Rightarrow> Some (utf16_pair c (push_bit 8 (ucast a) + ucast b), zIn) | _ \<Rightarrow> None)
         else Some (c, zIn))"
| "READ_UTF16BE _ = None"

text \<open>The loop over continuation bytes and the final check of \<open>READ_UTF8\<close>.\<close>

fun utf8_cont :: "u32 \<Rightarrow> u8 list \<Rightarrow> u32 \<times> u8 list" where
  "utf8_cont c [] = (c, [])"
| "utf8_cont c (b # zIn) =
     (if b AND 0xc0 = 0x80 then utf8_cont (push_bit 6 c + ucast (0x3f AND b)) zIn else (c, b # zIn))"

definition utf8_bad :: "u32 \<Rightarrow> bool" where
  "utf8_bad c \<longleftrightarrow> c < 0x80 \<or> c AND 0xFFFFF800 = 0xD800 \<or> c AND 0xFFFFFFFE = 0xFFFE"

fun READ_UTF8 :: "u8 list \<Rightarrow> (u32 \<times> u8 list) option" where
  "READ_UTF8 [] = None"
| "READ_UTF8 (b # zIn) =
     (if b \<ge> 0xc0 then
        (case utf8_cont (ucast (sqlite3Utf8Trans1 ! unat (b - 0xc0))) zIn of
           (c, zIn) \<Rightarrow> Some (if utf8_bad c then 0xFFFD else c, zIn))
      else Some (ucast b, zIn))"

text \<open>
  \<open>sqlite3Utf8Read\<close> has no \<open>zTerm\<close>: its input is zero-terminated, and a zero byte ends the
  continuation loop. Here the continuation loop must meet such a byte inside the buffer.
\<close>

fun utf8_cont0 :: "u32 \<Rightarrow> u8 list \<Rightarrow> (u32 \<times> u8 list) option" where
  "utf8_cont0 c [] = None"
| "utf8_cont0 c (b # pz) =
     (if b AND 0xc0 = 0x80 then utf8_cont0 (push_bit 6 c + ucast (0x3f AND b)) pz else Some (c, b # pz))"

fun sqlite3Utf8Read :: "u8 list \<Rightarrow> (u32 \<times> u8 list) option" where
  "sqlite3Utf8Read [] = None"
| "sqlite3Utf8Read (b # pz) =
     (if b \<ge> 0xc0 then do {
        (c, pz) \<leftarrow> utf8_cont0 (ucast (sqlite3Utf8Trans1 ! unat (b - 0xc0))) pz;
        Some (if utf8_bad c then 0xFFFD else c, pz) }
      else Some (ucast b, pz))"

section \<open>Whole strings\<close>

text \<open>The loops of \<open>sqlite3VdbeMemTranslate\<close>; \<open>cap\<close> bounds the output buffer and every write is checked.\<close>

function translate_loop :: "(u8 list \<Rightarrow> (u32 \<times> u8 list) option) \<Rightarrow> (u32 \<Rightarrow> u8 list) \<Rightarrow> nat \<Rightarrow> u8 list \<Rightarrow> u8 list \<Rightarrow> u8 list option" where
  "translate_loop rdc wrc cap zIn out =
     (if zIn = [] then Some out
      else do {
        (c, zIn') \<leftarrow> rdc zIn;
        (if length zIn' < length zIn \<and> length out + length (wrc c) \<le> cap
         then translate_loop rdc wrc cap zIn' (out @ wrc c) else None) })"
  by pat_completeness auto
termination
  by (relation "measure (\<lambda>(rdc, wrc, cap, zIn, out). length zIn)") auto

declare translate_loop.simps [simp del]

fun swap_bytes :: "u8 list \<Rightarrow> u8 list" where
  "swap_bytes (a # b # z) = b # a # swap_bytes z"
| "swap_bytes z = z"

text \<open>
  \<open>sqlite3VdbeMemTranslate\<close> on the string part of a \<open>Mem\<close>: its bytes, its encoding and the wanted
  one. \<open>malloc_ok\<close> is the outcome of the one allocation it makes (the output buffer, or a writable
  copy when only the byte order changes). \<open>None\<close> is a buffer overrun.
\<close>

definition clear_low_bit :: "nat \<Rightarrow> nat" where
  "clear_low_bit n = n div 2 * 2"

definition sqlite3VdbeMemTranslate :: "bool \<Rightarrow> u8 list \<Rightarrow> text_enc \<Rightarrow> text_enc \<Rightarrow> (rc \<times> u8 list \<times> text_enc) option" where
  "sqlite3VdbeMemTranslate malloc_ok z enc desiredEnc =
     (if enc \<noteq> SQLITE_UTF8 \<and> desiredEnc \<noteq> SQLITE_UTF8 then
        Some (if malloc_ok then (SQLITE_OK, swap_bytes z, desiredEnc) else (SQLITE_NOMEM, z, enc))
      else if desiredEnc = SQLITE_UTF8 then
        (let z = take (clear_low_bit (length z)) z; len = length z * 2 + 1
         in if \<not> malloc_ok then Some (SQLITE_NOMEM, z, enc)
            else do {
              out \<leftarrow> translate_loop (if enc = SQLITE_UTF16LE then READ_UTF16LE else READ_UTF16BE) WRITE_UTF8 (len - 1) z [];
              Some (SQLITE_OK, out, desiredEnc) })
      else
        (let len = length z * 2 + 2
         in if \<not> malloc_ok then Some (SQLITE_NOMEM, z, enc)
            else do {
              out \<leftarrow> translate_loop READ_UTF8
                (if desiredEnc = SQLITE_UTF16LE then WRITE_UTF16LE else WRITE_UTF16BE) (len - 2) z [];
              Some (SQLITE_OK, out, desiredEnc) }))"

definition sqlite3VdbeMemHandleBom :: "bool \<Rightarrow> u8 list \<Rightarrow> text_enc \<Rightarrow> rc \<times> u8 list \<times> text_enc" where
  "sqlite3VdbeMemHandleBom malloc_ok z enc =
     (case z of
        b1 # b2 # z' \<Rightarrow>
          (let bom = (if b1 = 0xFF \<and> b2 = 0xFE then Some SQLITE_UTF16LE
                      else if b1 = 0xFE \<and> b2 = 0xFF then Some SQLITE_UTF16BE else None)
           in case bom of None \<Rightarrow> (SQLITE_OK, z, enc)
              | Some e \<Rightarrow> if malloc_ok then (SQLITE_OK, z', e) else (SQLITE_NOMEM, z, enc))
      | _ \<Rightarrow> (SQLITE_OK, z, enc))"

text \<open>
  \<open>sqlite3Utf8CharLen\<close>: \<open>SQLITE_SKIP_UTF8\<close> looks at bytes past \<open>zTerm\<close> while they are
  continuation bytes, so the buffer \<open>z\<close> is the whole zero-terminated string and \<open>nByte\<close> the limit,
  \<open>None\<close> for a negative argument.
\<close>

fun skip_cont :: "u8 list \<Rightarrow> u8 list option" where
  "skip_cont [] = None"
| "skip_cont (b # z) = (if b AND 0xc0 = 0x80 then skip_cont z else Some (b # z))"

fun SQLITE_SKIP_UTF8 :: "u8 list \<Rightarrow> u8 list option" where
  "SQLITE_SKIP_UTF8 [] = None"
| "SQLITE_SKIP_UTF8 (b # z) = (if b \<ge> 0xc0 then skip_cont z else Some z)"

function charlen_loop :: "nat option \<Rightarrow> nat \<Rightarrow> u8 list \<Rightarrow> nat option" where
  "charlen_loop nByte len z =
     (case z of [] \<Rightarrow> None
      | b # _ \<Rightarrow>
        if b \<noteq> 0 \<and> (case nByte of None \<Rightarrow> True | Some n \<Rightarrow> len - length z < n) then do {
          z' \<leftarrow> SQLITE_SKIP_UTF8 z;
          (if length z' < length z then map_option Suc (charlen_loop nByte len z') else None) }
        else Some 0)"
  by pat_completeness auto
termination
  by (relation "measure (\<lambda>(nByte, len, z). length z)") auto

declare charlen_loop.simps [simp del]

definition sqlite3Utf8CharLen :: "u8 list \<Rightarrow> nat option \<Rightarrow> nat option" where
  "sqlite3Utf8CharLen z nByte = charlen_loop nByte (length z) z"

section \<open>Bits of a character\<close>

lemma add_or: "a AND b = 0 \<Longrightarrow> a + b = (a OR b :: 'a::len word)"
  by (rule disjunctive_add_eq_or)

lemma and_mask_small: "unat c < 2 ^ n \<Longrightarrow> c AND mask n = (c :: 'a::len word)"
  by (simp add: take_bit_eq_mask [symmetric] word_unat_eq_iff unsigned_take_bit_eq take_bit_nat_eq_self)

lemma low_bits:
  "(c::u32) < 0x800 \<Longrightarrow> c AND 0x7FF = c" "c < 0x10000 \<Longrightarrow> c AND 0xFFFF = c" "c < 0x200000 \<Longrightarrow> c AND 0x1FFFFF = c"
  "c < 0x100000 \<Longrightarrow> c AND 0xFFFFF = c" "c < 0x80 \<Longrightarrow> c AND 0x7F = c"
  using and_mask_small [of c 11] and_mask_small [of c 16] and_mask_small [of c 21] and_mask_small [of c 20]
    and_mask_small [of c 7]
  by (simp_all add: mask_eq_exp_minus_1 word_less_nat_alt)

text \<open>The lead-byte table.\<close>

lemma Trans1_2: "list_all (\<lambda>i. sqlite3Utf8Trans1 ! i = of_nat i) [0..<32]"
  and Trans1_3: "list_all (\<lambda>i. sqlite3Utf8Trans1 ! (32 + i) = of_nat i) [0..<16]"
  and Trans1_4: "list_all (\<lambda>i. sqlite3Utf8Trans1 ! (48 + i) = of_nat i) [0..<8]"
  by code_simp+

lemma lead_2: "x < 0x20 \<Longrightarrow> 0xC0 \<le> (0xC0 + x :: u8) \<and> sqlite3Utf8Trans1 ! unat (0xC0 + x - 0xC0) = x"
  using Trans1_2 by (auto simp: list_all_iff word_le_nat_alt word_less_nat_alt unat_word_ariths)

lemma lead_3: "x < 0x10 \<Longrightarrow> 0xC0 \<le> (0xE0 + x :: u8) \<and> sqlite3Utf8Trans1 ! unat (0xE0 + x - 0xC0) = x"
proof -
  assume "x < 0x10"
  then have u: "unat x < 16" by (simp add: word_less_nat_alt)
  have e: "0xE0 + x - 0xC0 = 32 + x" by simp
  have "unat (32 + x) = 32 + unat x" "unat (0xE0 + x) = 224 + unat x" using u by (simp_all add: unat_word_ariths)
  with u Trans1_3 show ?thesis unfolding e by (simp add: list_all_iff word_le_nat_alt)
qed

lemma lead_4: "x < 0x8 \<Longrightarrow> 0xC0 \<le> (0xF0 + x :: u8) \<and> sqlite3Utf8Trans1 ! unat (0xF0 + x - 0xC0) = x"
proof -
  assume "x < 0x8"
  then have u: "unat x < 8" by (simp add: word_less_nat_alt)
  have e: "0xF0 + x - 0xC0 = 48 + x" by simp
  have "unat (48 + x) = 48 + unat x" "unat (0xF0 + x) = 240 + unat x" using u by (simp_all add: unat_word_ariths)
  with u Trans1_4 show ?thesis unfolding e by (simp add: list_all_iff word_le_nat_alt)
qed

lemma ucast_and: "(ucast (c AND 0x1F) :: u8) = ucast (c::u32) AND 0x1F" "(ucast (c AND 0x0F) :: u8) = ucast c AND 0x0F"
  "(ucast (c AND 0x07) :: u8) = ucast c AND 0x07" "(ucast (c AND 0x3F) :: u8) = ucast c AND 0x3F"
  by (rule u8_eqI, simp add: bit_simps bitblast)+

lemma lead_small: "(y::u8) AND 0x1F < 0x20" "y AND 0x0F < 0x10" "y AND 0x07 < 0x8"
  by (rule le_less_trans [OF word_and_le1], simp)+

lemma cont_byte:
  "(0x80 + (y AND 0x3F) :: u8) AND 0xC0 = 0x80" "0x3F AND (0x80 + (y AND 0x3F) :: u8) = y AND 0x3F"
proof -
  have e: "(0x80 + (y AND 0x3F) :: u8) = 0x80 OR (y AND 0x3F)"
    by (rule add_or) (rule u8_eqI, simp add: bit_simps bitblast)
  show "(0x80 + (y AND 0x3F) :: u8) AND 0xC0 = 0x80" "0x3F AND (0x80 + (y AND 0x3F) :: u8) = y AND 0x3F"
    unfolding e by (rule u8_eqI, simp add: bit_simps bitblast)+
qed

definition no_cont :: "u8 list \<Rightarrow> bool" where
  "no_cont rest \<longleftrightarrow> (case rest of [] \<Rightarrow> True | b # _ \<Rightarrow> b AND 0xC0 \<noteq> 0x80)"

lemma utf8_cont_stop: "no_cont rest \<Longrightarrow> utf8_cont c rest = (c, rest)"
  by (cases rest) (simp_all add: no_cont_def)

lemma utf8_cont_step: "utf8_cont c ((0x80 + (y AND 0x3F)) # rest) = utf8_cont (push_bit 6 c OR ucast (y AND 0x3F)) rest"
proof -
  have "push_bit 6 c + ucast (y AND 0x3F) = push_bit 6 c OR ucast (y AND 0x3F)"
    by (rule add_or) (rule u32_eqI, simp add: bit_simps bitblast)
  then show ?thesis by (simp add: cont_byte)
qed

declare utf8_cont.simps [simp del] READ_UTF8.simps [simp del]

lemma read_lead:
  "0xC0 \<le> b \<and> sqlite3Utf8Trans1 ! unat (b - 0xC0) = x \<Longrightarrow> utf8_cont (ucast x) z = (v, rest) \<Longrightarrow>
   READ_UTF8 (b # z) = Some (if utf8_bad v then 0xFFFD else v, rest)"
  by (simp add: READ_UTF8.simps)

lemma read_write_utf8_2:
  assumes "0x80 \<le> c" and "c < 0x800" and "no_cont rest"
  shows "READ_UTF8 (WRITE_UTF8 c @ rest) = Some (if utf8_bad c then 0xFFFD else c, rest)"
proof -
  let ?x = "ucast (drop_bit 6 c) AND 0x1F :: u8"
  have v: "push_bit 6 (ucast ?x) OR ucast ((ucast c AND 0x3F) :: u8) = c AND 0x7FF"
    by (rule u32_eqI) (simp add: bit_simps bitblast)
  have w: "WRITE_UTF8 c = [0xC0 + ?x, 0x80 + (ucast c AND 0x3F)]"
    using assms by (simp add: WRITE_UTF8_def ucast_and not_less)
  show ?thesis
    unfolding w append.simps
    by (rule read_lead [OF lead_2 [OF lead_small(1)]])
      (simp add: utf8_cont_step utf8_cont_stop assms(3) v low_bits(1) [OF assms(2)])
qed

lemma read_write_utf8_3:
  assumes "0x800 \<le> c" and "c < 0x10000" and "no_cont rest"
  shows "READ_UTF8 (WRITE_UTF8 c @ rest) = Some (if utf8_bad c then 0xFFFD else c, rest)"
proof -
  let ?x = "ucast (drop_bit 12 c) AND 0x0F :: u8"
  have v: "push_bit 6 (push_bit 6 (ucast ?x) OR ucast ((ucast (drop_bit 6 c) AND 0x3F) :: u8)) OR
      ucast ((ucast c AND 0x3F) :: u8) = c AND 0xFFFF"
    by (rule u32_eqI) (simp add: bit_simps bitblast)
  have "\<not> c < 0x80" "\<not> c < 0x800" using assms(1) by (simp_all add: word_less_nat_alt word_le_nat_alt)
  then have w: "WRITE_UTF8 c = [0xE0 + ?x, 0x80 + (ucast (drop_bit 6 c) AND 0x3F), 0x80 + (ucast c AND 0x3F)]"
    using assms(2) by (simp add: WRITE_UTF8_def ucast_and)
  show ?thesis
    unfolding w append.simps
    by (rule read_lead [OF lead_3 [OF lead_small(2)]])
      (simp only: utf8_cont_step utf8_cont_stop [OF assms(3)] v low_bits(2) [OF assms(2)])
qed

lemma read_write_utf8_4:
  assumes "0x10000 \<le> c" and "c < 0x200000" and "no_cont rest"
  shows "READ_UTF8 (WRITE_UTF8 c @ rest) = Some (if utf8_bad c then 0xFFFD else c, rest)"
proof -
  let ?x = "ucast (drop_bit 18 c) AND 0x07 :: u8"
  have v: "push_bit 6 (push_bit 6 (push_bit 6 (ucast ?x) OR ucast ((ucast (drop_bit 12 c) AND 0x3F) :: u8)) OR
      ucast ((ucast (drop_bit 6 c) AND 0x3F) :: u8)) OR ucast ((ucast c AND 0x3F) :: u8) = c AND 0x1FFFFF"
    by (rule u32_eqI) (simp add: bit_simps bitblast)
  have "\<not> c < 0x80" "\<not> c < 0x800" "\<not> c < 0x10000"
    using assms(1) by (simp_all add: word_less_nat_alt word_le_nat_alt)
  then have w: "WRITE_UTF8 c = [0xF0 + ?x, 0x80 + (ucast (drop_bit 12 c) AND 0x3F),
      0x80 + (ucast (drop_bit 6 c) AND 0x3F), 0x80 + (ucast c AND 0x3F)]"
    by (simp add: WRITE_UTF8_def ucast_and)
  show ?thesis
    unfolding w append.simps
    by (rule read_lead [OF lead_4 [OF lead_small(3)]])
      (simp only: utf8_cont_step utf8_cont_stop [OF assms(3)] v low_bits(3) [OF assms(2)])
qed

lemma read_write_utf8_1:
  assumes "c < 0x80"
  shows "READ_UTF8 (WRITE_UTF8 c @ rest) = Some (c, rest)"
proof -
  have e: "(ucast (ucast (c AND 0xFF) :: u8) :: u32) = c AND 0xFF"
    by (rule u32_eqI) (simp add: bit_simps bitblast)
  have c: "c AND 0xFF = c" using and_mask_small [of c 8] assms by (simp add: mask_eq_exp_minus_1 word_less_nat_alt)
  have "unat (ucast c :: u8) = unat c" using assms by (simp add: unsigned_ucast_eq take_bit_nat_eq_self word_less_nat_alt)
  then have "\<not> 0xC0 \<le> (ucast c :: u8)" using assms by (simp add: word_le_nat_alt word_less_nat_alt)
  with assms e c show ?thesis by (simp add: WRITE_UTF8_def READ_UTF8.simps)
qed

text \<open>The assertion of \<open>sqlite3UtfSelfTest\<close> for UTF-8, for every code point.\<close>

lemma READ_WRITE_UTF8:
  assumes "c < 0x200000" and "no_cont rest"
  shows "READ_UTF8 (WRITE_UTF8 c @ rest) = Some (if 0x80 \<le> c \<and> utf8_bad c then 0xFFFD else c, rest)"
proof -
  consider "c < 0x80" | "0x80 \<le> c" "c < 0x800" | "0x800 \<le> c" "c < 0x10000" | "0x10000 \<le> c"
    by (meson not_less)
  then show ?thesis
  proof cases
    case 1
    then show ?thesis by (simp add: read_write_utf8_1 not_le [symmetric])
  next
    case 2
    then show ?thesis using read_write_utf8_2 assms(2) by simp
  next
    case 3
    then have "0x80 \<le> c" by (simp add: word_le_nat_alt)
    with 3 show ?thesis using read_write_utf8_3 assms(2) by simp
  next
    case 4
    then have "0x80 \<le> c" by (simp add: word_le_nat_alt)
    with 4 show ?thesis using read_write_utf8_4 assms by simp
  qed
qed


section \<open>UTF-16\<close>

text \<open>Above \<open>0xFFFF\<close> the writers work with \<open>c\<close> and with \<open>c - 0x10000\<close>, which agree in the low 16 bits.\<close>

lemma low16: "(d + 0x10000 :: u32) AND 0xFFFF = d AND 0xFFFF"
proof -
  have m: "unat (x AND 0xFFFF) = unat x mod 65536" for x :: u32
  proof -
    have "x AND 0xFFFF = take_bit 16 x" by (simp add: take_bit_eq_mask mask_eq_exp_minus_1)
    then show ?thesis by (simp only: unsigned_take_bit_eq) (simp add: take_bit_eq_mod)
  qed
  have "unat (d + 0x10000) mod 65536 = (unat d + 65536) mod 4294967296 mod 65536"
    by (simp add: unat_word_ariths)
  also have "\<dots> = unat d mod 65536" by (simp add: mod_mod_cancel)
  finally show ?thesis by (simp add: word_unat_eq_iff m)
qed

lemma low16_parts:
  assumes "c AND 0xFFFF = d AND (0xFFFF::u32)"
  shows "drop_bit 10 c AND 0x3F = drop_bit 10 d AND 0x3F" "c AND 0xFF = d AND 0xFF" "drop_bit 8 c AND 0x03 = drop_bit 8 d AND 0x03"
proof -
  have "drop_bit 10 x AND 0x3F = drop_bit 10 (x AND 0xFFFF)" "x AND 0xFF = (x AND 0xFFFF) AND 0xFF"
    "drop_bit 8 x AND 0x03 = drop_bit 8 (x AND 0xFFFF) AND 0x03" for x :: u32
    by (rule u32_eqI, simp add: bit_simps bitblast)+
  then show "drop_bit 10 c AND 0x3F = drop_bit 10 d AND 0x3F" "c AND 0xFF = d AND 0xFF"
    "drop_bit 8 c AND 0x03 = drop_bit 8 d AND 0x03" using assms by metis+
qed

text \<open>The two surrogates of \<open>0x10000 + d\<close>.\<close>

definition hi_unit :: "u32 \<Rightarrow> u32" where "hi_unit d = 0xD800 OR (drop_bit 10 d AND 0x3FF)"
definition lo_unit :: "u32 \<Rightarrow> u32" where "lo_unit d = 0xDC00 OR (d AND 0x3FF)"

lemma unit_bytes:
  fixes d :: u32
  shows "ucast (ucast ((drop_bit 10 d AND 0x3F) + (drop_bit 10 d AND 0xC0)) :: u8) +
      push_bit 8 (ucast (ucast (0xD8 + (drop_bit 18 d AND 0x03)) :: u8)) = hi_unit d"
    and "ucast (ucast (d AND 0xFF) :: u8) + push_bit 8 (ucast (ucast (0xDC + (drop_bit 8 d AND 0x03)) :: u8)) = lo_unit d"
proof -
  have e: "(drop_bit 10 d AND 0x3F) + (drop_bit 10 d AND 0xC0) = (drop_bit 10 d AND 0x3F) OR (drop_bit 10 d AND 0xC0)"
    "0xD8 + (drop_bit 18 d AND 0x03) = 0xD8 OR (drop_bit 18 d AND 0x03)"
    "0xDC + (drop_bit 8 d AND 0x03) = 0xDC OR (drop_bit 8 d AND 0x03)"
    by (rule add_or, rule u32_eqI, simp add: bit_simps bitblast)+
  have s: "ucast (x::u8) + push_bit 8 (ucast (y::u8)) = (ucast x OR push_bit 8 (ucast y) :: u32)" for x y
    by (rule add_or) (rule u32_eqI, simp add: bit_simps bitblast)
  show "ucast (ucast ((drop_bit 10 d AND 0x3F) + (drop_bit 10 d AND 0xC0)) :: u8) +
      push_bit 8 (ucast (ucast (0xD8 + (drop_bit 18 d AND 0x03)) :: u8)) = hi_unit d"
    "ucast (ucast (d AND 0xFF) :: u8) + push_bit 8 (ucast (ucast (0xDC + (drop_bit 8 d AND 0x03)) :: u8)) = lo_unit d"
    unfolding e s hi_unit_def lo_unit_def by (rule u32_eqI, simp add: bit_simps bitblast)+
qed

lemmas unit_bytes_be = unit_bytes [unfolded add.commute [of _ "push_bit 8 _"]]

lemma hi_unit_range: "0xD800 \<le> hi_unit d \<and> hi_unit d < 0xE000"
proof -
  let ?y = "drop_bit 10 d AND 0x3FF"
  have e: "hi_unit d = 0xD800 + ?y"
    unfolding hi_unit_def by (rule add_or [symmetric]) (rule u32_eqI, simp add: bit_simps bitblast)
  have "?y \<le> 0x3FF" by (rule word_and_le1)
  then have y: "unat ?y \<le> 1023" by (simp add: word_le_nat_alt)
  then have "unat (0xD800 + ?y) = 55296 + unat ?y" by (simp add: unat_word_ariths)
  with y show ?thesis unfolding e by (simp add: word_le_nat_alt word_less_nat_alt)
qed

lemma pair_units: "d < 0x100000 \<Longrightarrow> utf16_pair (hi_unit d) (lo_unit d) = d + 0x10000"
proof -
  assume "d < 0x100000"
  then have d: "d AND 0xFFFFF = d" by (rule low_bits(4))
  let ?a = "lo_unit d AND 0x3FF" and ?b = "push_bit 10 (hi_unit d AND 0x3F)" and ?c = "push_bit 10 (hi_unit d AND 0x3C0)"
  have "?a + ?b = ?a OR ?b" by (rule add_or) (rule u32_eqI, simp add: hi_unit_def bit_simps bitblast)
  moreover have "(?a OR ?b) + ?c = (?a OR ?b) OR ?c"
    by (rule add_or) (rule u32_eqI, simp add: hi_unit_def bit_simps bitblast)
  moreover have "(?a OR ?b) OR ?c = d AND 0xFFFFF"
    by (rule u32_eqI) (simp add: hi_unit_def lo_unit_def bit_simps bitblast)
  moreover have "push_bit 10 (0x40 :: u32) = 0x10000" by simp
  ultimately show ?thesis
    unfolding utf16_pair_def push_bit_add add.assoc [symmetric] by (simp only: d)
qed

definition surrogate :: "u32 \<Rightarrow> bool" where
  "surrogate c \<longleftrightarrow> 0xD800 \<le> c \<and> c < 0xE000"

lemma bmp_bytes: "c \<le> 0xFFFF \<Longrightarrow> ucast (ucast (c AND 0xFF) :: u8) + push_bit 8 (ucast (ucast (drop_bit 8 c AND 0xFF) :: u8)) = (c::u32)"
proof -
  assume "c \<le> 0xFFFF"
  then have "c < 0x10000" by (simp add: word_le_nat_alt word_less_nat_alt)
  then have c: "c AND 0xFFFF = c" by (rule low_bits(2))
  have "ucast (ucast (c AND 0xFF) :: u8) + push_bit 8 (ucast (ucast (drop_bit 8 c AND 0xFF) :: u8))
      = (ucast (ucast (c AND 0xFF) :: u8) OR push_bit 8 (ucast (ucast (drop_bit 8 c AND 0xFF) :: u8)) :: u32)"
    by (rule add_or) (rule u32_eqI, simp add: bit_simps bitblast)
  also have "\<dots> = c AND 0xFFFF" by (rule u32_eqI) (simp add: bit_simps bitblast)
  finally show ?thesis by (simp only: c)
qed

lemma supplementary:
  assumes "\<not> c \<le> 0xFFFF" and "c < 0x110000"
  shows "c - 0x10000 < (0x100000 :: u32)" and "c AND 0xFFFF = (c - 0x10000) AND 0xFFFF"
proof -
  have "unat (c - 0x10000) = unat c - 65536"
    using assms(1) by (simp add: unat_sub word_le_nat_alt)
  then show "c - 0x10000 < 0x100000" using assms by (simp add: word_le_nat_alt word_less_nat_alt)
  show "c AND 0xFFFF = (c - 0x10000) AND 0xFFFF" using low16 [of "c - 0x10000"] by simp
qed

lemma READ_WRITE_UTF16LE:
  assumes "c < 0x110000" and "\<not> surrogate c"
  shows "READ_UTF16LE (WRITE_UTF16LE c @ rest) = Some (c, rest)"
proof (cases "c \<le> 0xFFFF")
  case True
  with bmp_bytes [OF True] assms(2) show ?thesis by (auto simp: WRITE_UTF16LE_def surrogate_def Let_def)
next
  case False
  note s = supplementary [OF False assms(1)]
  note p = low16_parts [OF s(2)]
  from False show ?thesis unfolding WRITE_UTF16LE_def p
    using pair_units [OF s(1)] hi_unit_range [of "c - 0x10000"]
    by (simp only: if_False append.simps READ_UTF16LE.simps unit_bytes Let_def) (simp add: unit_bytes)
qed

lemma READ_WRITE_UTF16BE:
  assumes "c < 0x110000" and "\<not> surrogate c"
  shows "READ_UTF16BE (WRITE_UTF16BE c @ rest) = Some (c, rest)"
proof (cases "c \<le> 0xFFFF")
  case True
  with bmp_bytes [OF True] assms(2) show ?thesis
    by (auto simp: WRITE_UTF16BE_def surrogate_def Let_def add.commute)
next
  case False
  note s = supplementary [OF False assms(1)]
  note p = low16_parts [OF s(2)]
  from False show ?thesis unfolding WRITE_UTF16BE_def p
    using pair_units [OF s(1)] hi_unit_range [of "c - 0x10000"]
    by (simp only: if_False append.simps READ_UTF16BE.simps unit_bytes_be Let_def) (simp add: unit_bytes_be)
qed


section \<open>Translating strings\<close>

text \<open>
  A transcoder reads characters of one encoding and writes them in another. \<open>okin\<close> holds of the
  inputs that the loop is started on. One iteration consumes at least a byte and at most doubles what
  it consumed; a sequence of valid characters is read back one by one.
\<close>

locale transcoder =
  fixes rdc :: "u8 list \<Rightarrow> (u32 \<times> u8 list) option"
    and wrs :: "u32 \<Rightarrow> u8 list"
    and wrt :: "u32 \<Rightarrow> u8 list"
    and okin :: "u8 list \<Rightarrow> bool"
    and valid :: "u32 \<Rightarrow> bool"
  assumes step: "okin z \<Longrightarrow> z \<noteq> [] \<Longrightarrow>
      \<exists>c z'. rdc z = Some (c, z') \<and> okin z' \<and> length z' < length z \<and>
        length (wrt c) \<le> 2 * (length z - length z')"
    and read_back: "valid c \<Longrightarrow> list_all valid cs \<Longrightarrow>
      rdc (wrs c @ concat (map wrs cs)) = Some (c, concat (map wrs cs))"
    and okin_text: "list_all valid cs \<Longrightarrow> okin (concat (map wrs cs))"
    and wrs_nonempty: "wrs c \<noteq> []"
begin

lemma translate_total:
  "okin z \<Longrightarrow> length out + 2 * length z \<le> cap \<Longrightarrow>
   \<exists>out'. translate_loop rdc wrt cap z out = Some out' \<and> length out' \<le> length out + 2 * length z"
proof (induction z arbitrary: out rule: length_induct)
  case (1 z)
  show ?case
  proof (cases "z = []")
    case True
    then show ?thesis by (subst translate_loop.simps) simp
  next
    case False
    from step [OF 1(2) False] obtain c z' where
      s: "rdc z = Some (c, z')" "okin z'" "length z' < length z" "length (wrt c) \<le> 2 * (length z - length z')" by blast
    then have cap: "length (out @ wrt c) + 2 * length z' \<le> length out + 2 * length z" by simp
    with 1(3) have fit: "length (out @ wrt c) + 2 * length z' \<le> cap" by linarith
    from 1(1) [rule_format, OF s(3,2) fit] obtain out' where o:
      "translate_loop rdc wrt cap z' (out @ wrt c) = Some out'" "length out' \<le> length (out @ wrt c) + 2 * length z'"
      by blast
    have "translate_loop rdc wrt cap z out = translate_loop rdc wrt cap z' (out @ wrt c)"
      using s(1,3) fit False by (subst translate_loop.simps) simp
    with o(1) show ?thesis using le_trans [OF o(2) cap] by simp
  qed
qed

lemma translate_text:
  "list_all valid cs \<Longrightarrow> length out + 2 * length (concat (map wrs cs)) \<le> cap \<Longrightarrow>
   translate_loop rdc wrt cap (concat (map wrs cs)) out = Some (out @ concat (map wrt cs))"
proof (induction cs arbitrary: out)
  case Nil
  then show ?case by (subst translate_loop.simps) simp
next
  case (Cons c cs)
  let ?z = "concat (map wrs (c # cs))" and ?z' = "concat (map wrs cs)"
  have ne: "?z \<noteq> []" using wrs_nonempty [of c] by simp
  have r: "rdc ?z = Some (c, ?z')" using read_back [of c cs] Cons(2) by simp
  from step [OF okin_text [OF Cons(2)] ne] r have l: "length ?z' < length ?z"
    "length (wrt c) \<le> 2 * (length ?z - length ?z')" by auto
  then have fit: "length (out @ wrt c) + 2 * length ?z' \<le> cap" using Cons(3) by simp
  have "translate_loop rdc wrt cap ?z out = translate_loop rdc wrt cap ?z' (out @ wrt c)"
    using r l fit ne by (subst translate_loop.simps) simp
  also have "\<dots> = Some ((out @ wrt c) @ concat (map wrt cs))" using Cons fit by (intro Cons(1)) auto
  finally show ?case by simp
qed

end

text \<open>Unicode scalar values other than the two noncharacters that \<open>READ_UTF8\<close> replaces.\<close>

definition valid_char :: "u32 \<Rightarrow> bool" where
  "valid_char c \<longleftrightarrow> c < 0x110000 \<and> \<not> surrogate c \<and> c \<noteq> 0xFFFE \<and> c \<noteq> 0xFFFF"

lemma utf8_bad_iff: "utf8_bad c \<longleftrightarrow> c < 0x80 \<or> surrogate c \<or> c = 0xFFFE \<or> c = 0xFFFF"
proof -
  have "c AND 0xFFFFF800 = 0xD800 \<longleftrightarrow> drop_bit 11 c = 0x1B"
  proof
    have "drop_bit 11 (c AND 0xFFFFF800) = drop_bit 11 c" by (rule u32_eqI) (simp add: bit_simps bitblast)
    then show "c AND 0xFFFFF800 = 0xD800 \<Longrightarrow> drop_bit 11 c = 0x1B" by simp
    have "c AND 0xFFFFF800 = push_bit 11 (drop_bit 11 c)" by (rule u32_eqI) (simp add: bit_simps bitblast)
    then show "drop_bit 11 c = 0x1B \<Longrightarrow> c AND 0xFFFFF800 = 0xD800" by simp
  qed
  also have "\<dots> \<longleftrightarrow> unat c div 2048 = 27"
  proof -
    have "unat (drop_bit 11 c) = unat c div 2048" by (simp only: unat_drop_bit_eq) (simp add: drop_bit_eq_div)
    then show ?thesis by (simp add: word_unat_eq_iff del: unsigned_drop_bit_eq)
  qed
  also have "\<dots> \<longleftrightarrow> surrogate c" by (auto simp: surrogate_def word_le_nat_alt word_less_nat_alt)
  finally have 1: "c AND 0xFFFFF800 = 0xD800 \<longleftrightarrow> surrogate c" .
  have "c = (c AND 0xFFFFFFFE) OR (c AND 1)" by (rule u32_eqI) (simp add: bit_simps bitblast)
  moreover have "c AND 1 = 0 \<or> c AND 1 = 1" by (simp add: and_one_eq mod_2_eq_odd)
  ultimately have "c AND 0xFFFFFFFE = 0xFFFE \<Longrightarrow> c = 0xFFFE \<or> c = 0xFFFF" by (elim disjE) simp_all
  then have "c AND 0xFFFFFFFE = 0xFFFE \<longleftrightarrow> c = 0xFFFE \<or> c = 0xFFFF" by auto
  then show ?thesis using 1 by (simp add: utf8_bad_def)
qed

lemma write_lengths:
  "1 \<le> length (WRITE_UTF8 c)" "length (WRITE_UTF8 c) \<le> 4" "length (WRITE_UTF16LE c) \<le> 4" "length (WRITE_UTF16BE c) \<le> 4"
  "even (length (WRITE_UTF16LE c))" "even (length (WRITE_UTF16BE c))" "WRITE_UTF16LE c \<noteq> []" "WRITE_UTF16BE c \<noteq> []"
  "c \<le> 0xFFFF \<Longrightarrow> length (WRITE_UTF16LE c) = 2" "c \<le> 0xFFFF \<Longrightarrow> length (WRITE_UTF16BE c) = 2"
  by (simp_all add: WRITE_UTF8_def WRITE_UTF16LE_def WRITE_UTF16BE_def)

lemma utf8_cont_length: "utf8_cont c z = (v, z') \<Longrightarrow> length z' \<le> length z \<and> (length z' = length z \<longrightarrow> v = c)"
proof (induction c z rule: utf8_cont.induct)
  case (2 c b z)
  then show ?case by (auto simp: utf8_cont.simps split: if_splits)
qed (simp add: utf8_cont.simps)

lemma Trans1_small: "list_all (\<lambda>i. unat (sqlite3Utf8Trans1 ! i) < 32) [0..<64]"
  by code_simp

lemma unat_ucast_u8: "unat (ucast (b::u8) :: u32) = unat b"
  using unat_u8_less [of b] by (simp add: unsigned_ucast_eq take_bit_nat_eq_self)

lemma read_utf8_step:
  assumes "z \<noteq> []"
  shows "\<exists>c z'. READ_UTF8 z = Some (c, z') \<and> length z' < length z \<and> (Suc (length z') = length z \<longrightarrow> c \<le> 0xFFFF)"
proof -
  obtain b r where z: "z = b # r" using assms by (cases z) auto
  show ?thesis
  proof (cases "b \<ge> 0xc0")
    case False
    have "(ucast b :: u32) \<le> 0xFFFF" using unat_u8_less [of b] by (simp add: word_le_nat_alt unat_ucast_u8)
    with False z show ?thesis by (simp add: READ_UTF8.simps)
  next
    case True
    let ?t = "sqlite3Utf8Trans1 ! unat (b - 0xc0)"
    obtain v z' where u: "utf8_cont (ucast ?t) r = (v, z')" by fastforce
    note l = utf8_cont_length [OF u]
    have "unat (b - 0xc0) = unat b - 192" using True by (simp add: unat_sub word_le_nat_alt)
    then have "unat (b - 0xc0) < 64" using unat_u8_less [of b] by simp
    then have "unat ?t < 32" using Trans1_small by (simp add: list_all_iff)
    then have "utf8_bad (ucast ?t)" by (simp add: utf8_bad_def word_less_nat_alt unat_ucast_u8)
    with l u True z show ?thesis by (auto simp: READ_UTF8.simps)
  qed
qed

lemma no_cont_text: "no_cont (concat (map WRITE_UTF8 cs))"
proof (cases cs)
  case (Cons c cs')
  have "hd (WRITE_UTF8 c) AND 0xC0 \<noteq> 0x80"
  proof (cases "c < 0x80")
    case True
    have "\<not> bit (ucast (c AND 0xFF) :: u8) 7"
    proof -
      have "c AND 0x7F = c" by (rule low_bits(5) [OF True])
      moreover have "\<not> bit (c AND 0x7F) 7" by (simp add: bit_simps)
      ultimately show ?thesis by (simp add: bit_simps)
    qed
    moreover have "bit (x AND 0xC0) 7 \<longleftrightarrow> bit x 7" "bit (0x80::u8) 7" for x :: u8 by (simp_all add: bit_simps)
    ultimately have "ucast (c AND 0xFF) AND 0xC0 \<noteq> (0x80::u8)" by metis
    with True show ?thesis by (simp add: WRITE_UTF8_def)
  next
    case False
    have "0xC0 + (y AND 0x1F) = (0xC0 OR (y AND 0x1F) :: u8)" "0xE0 + (y AND 0x0F) = (0xE0 OR (y AND 0x0F) :: u8)"
      "0xF0 + (y AND 0x07) = (0xF0 OR (y AND 0x07) :: u8)" for y
      by (rule add_or, rule u8_eqI, simp add: bit_simps bitblast)+
    moreover have "bit ((0xC0 OR (y AND 0x1F)) AND 0xC0 :: u8) 6" "bit ((0xE0 OR (y AND 0x0F)) AND 0xC0 :: u8) 6"
      "bit ((0xF0 OR (y AND 0x07)) AND 0xC0 :: u8) 6" "\<not> bit (0x80::u8) 6" for y by (simp_all add: bit_simps)
    ultimately have "0xC0 + (y AND 0x1F) AND 0xC0 \<noteq> (0x80::u8)" "0xE0 + (y AND 0x0F) AND 0xC0 \<noteq> (0x80::u8)"
      "0xF0 + (y AND 0x07) AND 0xC0 \<noteq> (0x80::u8)" for y by metis+
    with False show ?thesis by (simp add: WRITE_UTF8_def ucast_and)
  qed
  moreover obtain b bs where "WRITE_UTF8 c = b # bs" using write_lengths(1) [of c] by (cases "WRITE_UTF8 c") auto
  ultimately show ?thesis using Cons by (simp add: no_cont_def)
qed (simp add: no_cont_def)


lemma utf8_read_back:
  assumes "valid_char c"
  shows "READ_UTF8 (WRITE_UTF8 c @ concat (map WRITE_UTF8 cs)) = Some (c, concat (map WRITE_UTF8 cs))"
proof -
  have "c < 0x200000" using assms by (auto simp: valid_char_def word_less_nat_alt)
  from READ_WRITE_UTF8 [OF this no_cont_text] assms show ?thesis
    by (auto simp: valid_char_def utf8_bad_iff not_le)
qed

lemma utf8_16_growth:
  assumes "z \<noteq> []" and "length (wrt c) \<le> 4" and "c \<le> 0xFFFF \<Longrightarrow> length (wrt c) = 2"
    and "length z' < length z" and "Suc (length z') = length z \<longrightarrow> c \<le> 0xFFFF"
  shows "length (wrt c) \<le> 2 * (length z - length z')"
  using assms by (cases "Suc (length z') = length z") auto

lemma utf8_16_step:
  assumes "z \<noteq> []" and "\<And>c. length (wrt c) \<le> 4" and "\<And>c. c \<le> 0xFFFF \<Longrightarrow> length (wrt c) = 2"
  shows "\<exists>c z'. READ_UTF8 z = Some (c, z') \<and> True \<and> length z' < length z \<and> length (wrt c) \<le> 2 * (length z - length z')"
proof -
  from read_utf8_step [OF assms(1)] obtain c z' where "READ_UTF8 z = Some (c, z')" "length z' < length z"
    "Suc (length z') = length z \<longrightarrow> c \<le> 0xFFFF" by blast
  with utf8_16_growth [of z wrt c z'] assms show ?thesis by blast
qed

interpretation utf8_to_16le: transcoder READ_UTF8 WRITE_UTF8 WRITE_UTF16LE "\<lambda>_. True" valid_char
proof
  show "\<exists>c z'. READ_UTF8 z = Some (c, z') \<and> True \<and> length z' < length z \<and>
      length (WRITE_UTF16LE c) \<le> 2 * (length z - length z')" if "z \<noteq> []" for z
    by (rule utf8_16_step [OF that]) (simp_all add: write_lengths)
  show "WRITE_UTF8 c \<noteq> []" for c using write_lengths(1) [of c] by auto
qed (simp_all only: utf8_read_back)

interpretation utf8_to_16be: transcoder READ_UTF8 WRITE_UTF8 WRITE_UTF16BE "\<lambda>_. True" valid_char
proof
  show "\<exists>c z'. READ_UTF8 z = Some (c, z') \<and> True \<and> length z' < length z \<and>
      length (WRITE_UTF16BE c) \<le> 2 * (length z - length z')" if "z \<noteq> []" for z
    by (rule utf8_16_step [OF that]) (simp_all add: write_lengths)
  show "WRITE_UTF8 c \<noteq> []" for c using write_lengths(1) [of c] by auto
qed (simp_all only: utf8_read_back)

lemma even_list: "even (length (z :: u8 list)) \<Longrightarrow> z \<noteq> [] \<Longrightarrow> \<exists>x y r. z = x # y # r \<and> even (length r)"
  by (cases z rule: swap_bytes.cases) auto

lemma read_utf16_step:
  assumes "rdc = READ_UTF16LE \<or> rdc = READ_UTF16BE" and "even (length z)" and "z \<noteq> []"
  shows "\<exists>c z'. rdc z = Some (c, z') \<and> even (length z') \<and> length z' < length z \<and>
    length (WRITE_UTF8 c) \<le> 2 * (length z - length z')"
proof -
  obtain x y r where z: "z = x # y # r" "even (length r)" using even_list [OF assms(2,3)] by blast
  have g: "length z' + 2 \<le> length z \<Longrightarrow> length (WRITE_UTF8 c) \<le> 2 * (length z - length z')" for c z'
    using write_lengths(2) [of c] by linarith
  show ?thesis
  proof (cases "r = []")
    case True
    with assms(1) z g [of "[]"] show ?thesis by (auto simp: Let_def)
  next
    case False
    then obtain a b r' where r: "r = a # b # r'" "even (length r')" using even_list [OF z(2)] by blast
    from assms(1) have "\<exists>c. rdc z = Some (c, r) \<or> rdc z = Some (c, r')"
      using z r by (auto simp: Let_def)
    then obtain c where "rdc z = Some (c, r) \<or> rdc z = Some (c, r')" by blast
    with g [of r c] g [of r' c] z r show ?thesis by auto
  qed
qed

lemma even_concat: "(\<And>c. even (length (w c))) \<Longrightarrow> even (length (concat (map w cs)))"
  by (induction cs) auto

interpretation utf16le_to_8: transcoder READ_UTF16LE WRITE_UTF16LE WRITE_UTF8 "\<lambda>z. even (length z)" valid_char
proof
  show "valid_char c \<Longrightarrow> READ_UTF16LE (WRITE_UTF16LE c @ concat (map WRITE_UTF16LE cs)) = Some (c, concat (map WRITE_UTF16LE cs))"
    for c cs by (rule READ_WRITE_UTF16LE) (simp_all add: valid_char_def)
qed (simp_all add: write_lengths even_concat read_utf16_step del: READ_UTF16LE.simps)

interpretation utf16be_to_8: transcoder READ_UTF16BE WRITE_UTF16BE WRITE_UTF8 "\<lambda>z. even (length z)" valid_char
proof
  show "valid_char c \<Longrightarrow> READ_UTF16BE (WRITE_UTF16BE c @ concat (map WRITE_UTF16BE cs)) = Some (c, concat (map WRITE_UTF16BE cs))"
    for c cs by (rule READ_WRITE_UTF16BE) (simp_all add: valid_char_def)
qed (simp_all add: write_lengths even_concat read_utf16_step del: READ_UTF16BE.simps)

section \<open>Properties\<close>

text \<open>The bytes of a text in each encoding.\<close>

definition encode_text :: "text_enc \<Rightarrow> u32 list \<Rightarrow> u8 list" where
  "encode_text enc cs = concat (map (case enc of SQLITE_UTF8 \<Rightarrow> WRITE_UTF8
     | SQLITE_UTF16LE \<Rightarrow> WRITE_UTF16LE | SQLITE_UTF16BE \<Rightarrow> WRITE_UTF16BE) cs)"

lemma swap_le_be: "swap_bytes (WRITE_UTF16LE c @ r) = WRITE_UTF16BE c @ swap_bytes r"
  "swap_bytes (WRITE_UTF16BE c @ r) = WRITE_UTF16LE c @ swap_bytes r"
  by (simp_all add: WRITE_UTF16LE_def WRITE_UTF16BE_def)

lemma swap_text: "swap_bytes (concat (map WRITE_UTF16LE cs)) = concat (map WRITE_UTF16BE cs)"
  "swap_bytes (concat (map WRITE_UTF16BE cs)) = concat (map WRITE_UTF16LE cs)"
  by (induction cs) (simp_all add: swap_le_be)

lemma swap_length: "length (swap_bytes z) = length z"
  by (induction z rule: swap_bytes.induct) auto

lemma clear_low_bit_le: "clear_low_bit n \<le> n" and clear_low_bit_even: "even (clear_low_bit n)"
  and clear_low_bit_id: "even n \<Longrightarrow> clear_low_bit n = n"
  by (auto simp: clear_low_bit_def)

text \<open>
  C34. The property that \<open>sqlite3UtfSelfTest\<close> samples, for every code point below \<open>0x110000\<close> and
  whatever follows: reading what was written gives the code point back in UTF-16 (surrogates apart)
  and, in UTF-8, the code point or \<open>0xFFFD\<close> in place of a surrogate, \<open>0xFFFE\<close> or \<open>0xFFFF\<close>, and
  consumes exactly the bytes written.
\<close>

theorem utf_selftest:
  assumes "c < 0x110000" and "no_cont rest"
  shows "READ_UTF8 (WRITE_UTF8 c @ rest) =
      Some (if 0xD800 \<le> c \<and> c < 0xE000 \<or> c = 0xFFFE \<or> c = 0xFFFF then 0xFFFD else c, rest) \<and>
    (\<not> (0xD800 \<le> c \<and> c < 0xE000) \<longrightarrow>
       READ_UTF16LE (WRITE_UTF16LE c @ rest) = Some (c, rest) \<and>
       READ_UTF16BE (WRITE_UTF16BE c @ rest) = Some (c, rest))"
proof -
  have "c < 0x200000" using assms(1) by (auto simp: word_less_nat_alt)
  note r = READ_WRITE_UTF8 [OF this assms(2)]
  have "0x80 \<le> c" if "surrogate c \<or> c = 0xFFFE \<or> c = 0xFFFF"
    using that by (auto simp: surrogate_def word_le_nat_alt)
  then have "0x80 \<le> c \<and> utf8_bad c \<longleftrightarrow> surrogate c \<or> c = 0xFFFE \<or> c = 0xFFFF"
    unfolding utf8_bad_iff by (auto simp: not_less)
  with r show ?thesis
    using READ_WRITE_UTF16LE [OF assms(1)] READ_WRITE_UTF16BE [OF assms(1)] by (simp add: surrogate_def)
qed

theorem utf_selftest_witness: "READ_UTF16LE (WRITE_UTF16LE 0x1F600 @ [0, 0]) = Some (0x1F600, [0, 0])"
  using utf_selftest [of "0x1F600" "[0, 0]"] by (simp add: no_cont_def)

text \<open>
  C35. \<open>sqlite3VdbeMemTranslate\<close> converts any text of valid characters from any encoding to any
  other one exactly, when its allocation succeeds; so translating there and back is the identity.
\<close>

theorem translate_exact:
  assumes "list_all valid_char cs" and "enc \<noteq> desiredEnc"
  shows "sqlite3VdbeMemTranslate True (encode_text enc cs) enc desiredEnc =
    Some (SQLITE_OK, encode_text desiredEnc cs, desiredEnc)"
proof -
  have ev: "clear_low_bit (length (concat (map WRITE_UTF16LE cs))) = length (concat (map WRITE_UTF16LE cs))"
    "clear_low_bit (length (concat (map WRITE_UTF16BE cs))) = length (concat (map WRITE_UTF16BE cs))"
    by (intro clear_low_bit_id even_concat; simp add: write_lengths)+
  show ?thesis
    using assms(2) utf8_to_16le.translate_text [OF assms(1), where out = "[]"] utf8_to_16be.translate_text [OF assms(1), where out = "[]"]
      utf16le_to_8.translate_text [OF assms(1), where out = "[]"] utf16be_to_8.translate_text [OF assms(1), where out = "[]"]
    by (cases enc; cases desiredEnc)
      (simp_all add: sqlite3VdbeMemTranslate_def encode_text_def swap_text ev Let_def del: length_concat)
qed

theorem translate_exact_witness:
  "sqlite3VdbeMemTranslate True (encode_text SQLITE_UTF8 [0x41, 0x20AC, 0x1F600]) SQLITE_UTF8 SQLITE_UTF16LE =
    Some (SQLITE_OK, encode_text SQLITE_UTF16LE [0x41, 0x20AC, 0x1F600], SQLITE_UTF16LE)"
  by (rule translate_exact) (simp_all add: valid_char_def surrogate_def)

text \<open>
  C36. On arbitrary bytes, well-formed or not, \<open>sqlite3VdbeMemTranslate\<close> terminates, reads nothing
  beyond its input, and writes at most twice as many bytes as it reads, so it stays inside the buffer
  of \<open>2n + 1\<close> or \<open>2n + 2\<close> bytes that it allocates, terminator included.
\<close>

theorem translate_no_overrun:
  assumes "enc \<noteq> desiredEnc"
  shows "\<exists>rc z' e. sqlite3VdbeMemTranslate malloc_ok z enc desiredEnc = Some (rc, z', e) \<and>
    length z' \<le> 2 * length z \<and> (malloc_ok \<longrightarrow> rc = SQLITE_OK \<and> e = desiredEnc)"
proof -
  let ?z = "take (clear_low_bit (length z)) z"
  have l: "length ?z \<le> length z" "even (length ?z)"
    using clear_low_bit_le [of "length z"] clear_low_bit_even [of "length z"] by (simp_all add: min_absorb2)
  have to8: "\<exists>out. translate_loop READ_UTF16LE WRITE_UTF8 (2 * length ?z) ?z [] = Some out \<and> length out \<le> 2 * length ?z"
    "\<exists>out. translate_loop READ_UTF16BE WRITE_UTF8 (2 * length ?z) ?z [] = Some out \<and> length out \<le> 2 * length ?z"
    using utf16le_to_8.translate_total [OF l(2), of "[]"] utf16be_to_8.translate_total [OF l(2), of "[]"]
    by (simp_all only: list.size add_0 order_refl)
  have to16: "\<exists>out. translate_loop READ_UTF8 WRITE_UTF16LE (2 * length z) z [] = Some out \<and> length out \<le> 2 * length z"
    "\<exists>out. translate_loop READ_UTF8 WRITE_UTF16BE (2 * length z) z [] = Some out \<and> length out \<le> 2 * length z"
    using utf8_to_16le.translate_total [of "[]" z] utf8_to_16be.translate_total [of "[]" z] by simp_all
  show ?thesis
  proof (cases "enc \<noteq> SQLITE_UTF8 \<and> desiredEnc \<noteq> SQLITE_UTF8")
    case True
    then show ?thesis by (simp add: sqlite3VdbeMemTranslate_def swap_length)
  next
    case False
    then consider "desiredEnc = SQLITE_UTF8" "enc \<noteq> SQLITE_UTF8" | "desiredEnc \<noteq> SQLITE_UTF8" using assms by auto
    then show ?thesis
    proof cases
      case 1
      with to8 l(1) show ?thesis
        by (cases malloc_ok; cases "enc = SQLITE_UTF16LE")
          (auto simp: sqlite3VdbeMemTranslate_def Let_def mult.commute simp del: length_take intro: order_trans)
    next
      case 2
      with False to16 show ?thesis
        by (cases malloc_ok; cases "desiredEnc = SQLITE_UTF16LE")
          (auto simp: sqlite3VdbeMemTranslate_def Let_def mult.commute)
    qed
  qed
qed

theorem translate_no_overrun_witness:
  "\<exists>rc z' e. sqlite3VdbeMemTranslate True [0xC3, 0x28, 0xF8, 0x80] SQLITE_UTF8 SQLITE_UTF16BE = Some (rc, z', e) \<and>
    length z' \<le> 2 * length [0xC3, 0x28, 0xF8, 0x80 :: u8] \<and> (True \<longrightarrow> rc = SQLITE_OK \<and> e = SQLITE_UTF16BE)"
  by (rule translate_no_overrun) simp

end
