(* ===== verification/Btree_Cell.thy ===== *)
theory Btree_Cell
  imports Varint Int_Util
begin

text \<open>
  btree.c, the cells of a b-tree page: the limits that decide how much payload stays on the page,
  the page-type byte, parsing a cell, computing its size, building a cell with its chain of overflow
  pages (\<open>fillInCell\<close>) and reading payload back through the chain (\<open>accessPayload\<close>). The model is
  of a database without auto-vacuum and of a cursor without the incremental-blob cache.
\<close>

section \<open>Page parameters\<close>

text \<open>The fields of \<open>BtShared\<close> and \<open>MemPage\<close> that the cell routines use.\<close>

record bt_shared =
  pageSize :: nat
  usableSize :: nat
  bt_maxLocal :: nat
  bt_minLocal :: nat
  bt_maxLeaf :: nat
  bt_minLeaf :: nat

record mem_page =
  leaf :: bool
  intKey :: bool
  hasData :: bool
  childPtrSize :: nat
  maxLocal :: nat
  minLocal :: nat

text \<open>The computation at the end of \<open>lockBtree\<close>; the casts to \<open>u16\<close> are kept.\<close>

definition u16cast :: "nat \<Rightarrow> nat" where "u16cast n = n mod 65536"

definition bt_limits :: "nat \<Rightarrow> nat \<Rightarrow> bt_shared" where
  "bt_limits pgsz usable =
     \<lparr>pageSize = pgsz, usableSize = usable,
      bt_maxLocal = u16cast ((usable - 12) * 64 div 255 - 23),
      bt_minLocal = u16cast ((usable - 12) * 32 div 255 - 23),
      bt_maxLeaf = u16cast (usable - 35),
      bt_minLeaf = u16cast ((usable - 12) * 32 div 255 - 23)\<rparr>"

definition PTF_INTKEY :: nat where "PTF_INTKEY = 1"
definition PTF_ZERODATA :: nat where "PTF_ZERODATA = 2"
definition PTF_LEAFDATA :: nat where "PTF_LEAFDATA = 4"
definition PTF_LEAF :: nat where "PTF_LEAF = 8"

text \<open>
  \<open>decodeFlags\<close>: \<open>leaf\<close> is the flag byte shifted right by three; a value above 1 is rejected below
  because the remaining bits are then none of the two supported combinations.
\<close>

definition decodeFlags :: "bt_shared \<Rightarrow> u8 \<Rightarrow> mem_page option" where
  "decodeFlags pBt flagByte =
     (let lf = unat (drop_bit 3 flagByte); fb = flagByte AND NOT 8
      in if fb = 5 then
           Some \<lparr>leaf = (lf \<noteq> 0), intKey = True, hasData = (lf \<noteq> 0), childPtrSize = 4 - 4 * lf,
                 maxLocal = bt_maxLeaf pBt, minLocal = bt_minLeaf pBt\<rparr>
         else if fb = 2 then
           Some \<lparr>leaf = (lf \<noteq> 0), intKey = False, hasData = False, childPtrSize = 4 - 4 * lf,
                 maxLocal = bt_maxLocal pBt, minLocal = bt_minLocal pBt\<rparr>
         else None)"

section \<open>Parsing a cell\<close>

record cell_info =
  ci_nKey :: u64
  ci_nData :: nat
  ci_nPayload :: nat
  ci_nHeader :: nat
  ci_nLocal :: nat
  ci_iOverflow :: nat
  ci_nSize :: nat

text \<open>How much of a payload that does not fit is kept on the page.\<close>

definition spill_local :: "bt_shared \<Rightarrow> mem_page \<Rightarrow> nat \<Rightarrow> nat" where
  "spill_local pBt pPage nPayload =
     (let surplus = minLocal pPage + (nPayload - minLocal pPage) mod (usableSize pBt - 4)
      in if surplus \<le> maxLocal pPage then surplus else minLocal pPage)"

text \<open>The second half of \<open>btreeParseCellPtr\<close>: everything that follows from the header.\<close>

definition payload_split :: "bt_shared \<Rightarrow> mem_page \<Rightarrow> nat \<Rightarrow> nat \<Rightarrow> u64 \<Rightarrow> nat \<Rightarrow> cell_info" where
  "payload_split pBt pPage n nPayload nKey nData =
     (if nPayload \<le> maxLocal pPage then
        \<lparr>ci_nKey = nKey, ci_nData = nData, ci_nPayload = nPayload, ci_nHeader = n,
         ci_nLocal = u16cast nPayload, ci_iOverflow = 0,
         ci_nSize = (if u16cast (n + nPayload) < 4 then 4 else u16cast (n + nPayload))\<rparr>
      else
        (let nLocal = u16cast (spill_local pBt pPage nPayload); iOverflow = u16cast (nLocal + n)
         in \<lparr>ci_nKey = nKey, ci_nData = nData, ci_nPayload = nPayload, ci_nHeader = n,
             ci_nLocal = nLocal, ci_iOverflow = iOverflow, ci_nSize = u16cast (iOverflow + 4)\<rparr>))"

text \<open>The cell is the buffer from \<open>pCell\<close> on; a varint that runs off its end is \<open>None\<close>.\<close>

definition btreeParseCellPtr :: "bt_shared \<Rightarrow> mem_page \<Rightarrow> u8 list \<Rightarrow> cell_info option" where
  "btreeParseCellPtr pBt pPage pCell = do {
     let n = childPtrSize pPage;
     (n, nPayload, nKey, nData) \<leftarrow>
       (if intKey pPage then do {
          (n, nPayload) \<leftarrow> (if hasData pPage then do {
               (m, v) \<leftarrow> sqlite3GetVarint32 (drop n pCell);
               Some (n + m, unat v) }
             else Some (n, 0));
          (m, nKey) \<leftarrow> sqlite3GetVarint (drop n pCell);
          Some (n + m, nPayload, nKey, nPayload) }
        else do {
          (m, v) \<leftarrow> sqlite3GetVarint32 (drop n pCell);
          Some (n + m, unat v, ucast v, 0) });
     Some (payload_split pBt pPage n nPayload nKey nData) }"

text \<open>The loop of \<open>cellSizePtr\<close> that steps over the key: at most nine bytes, the ninth whatever it is.\<close>

fun skip_key :: "nat \<Rightarrow> u8 list \<Rightarrow> nat option" where
  "skip_key left [] = None"
| "skip_key left (b # pIter) =
     (if b AND 0x80 \<noteq> 0 \<and> 1 < left then map_option Suc (skip_key (left - 1) pIter) else Some 1)"

definition cellSizePtr :: "bt_shared \<Rightarrow> mem_page \<Rightarrow> u8 list \<Rightarrow> nat option" where
  "cellSizePtr pBt pPage pCell = do {
     let n = childPtrSize pPage;
     (n, nSize) \<leftarrow>
       (if intKey pPage then do {
          (n, nSize) \<leftarrow> (if hasData pPage then do {
               (m, v) \<leftarrow> sqlite3GetVarint32 (drop n pCell);
               Some (n + m, unat v) }
             else Some (n, 0));
          m \<leftarrow> skip_key 9 (drop n pCell);
          Some (n + m, nSize) }
        else do {
          (m, v) \<leftarrow> sqlite3GetVarint32 (drop n pCell);
          Some (n + m, unat v) });
     let nSize = (if nSize > maxLocal pPage then
           (let s = minLocal pPage + (nSize - minLocal pPage) mod (usableSize pBt - 4)
            in (if s > maxLocal pPage then minLocal pPage else s) + 4)
         else nSize);
     let nSize = nSize + n;
     Some (u16cast (if nSize < 4 then 4 else nSize)) }"

section \<open>Building a cell\<close>

text \<open>
  The buffers that \<open>fillInCell\<close> writes to: number 0 is the cell under construction, the others are
  the overflow pages by page number. \<open>alloc k\<close> is the outcome of the \<open>k\<close>-th call of
  \<open>allocateBtreePage\<close>: an error or the number of the page obtained. \<open>pSrc\<close> is what is left of the
  current source (empty from the moment the code's \<open>nSrc\<close> is not positive), \<open>pData\<close> the source that
  follows it. A usable size of at most four bytes would make the loop of the source run forever; it is
  \<open>None\<close>.
\<close>

type_synonym buffers = "nat \<rightharpoonup> u8 list"

definition bwrite :: "buffers \<Rightarrow> nat \<Rightarrow> nat \<Rightarrow> u8 list \<Rightarrow> buffers option" where
  "bwrite bufs key off bs = do { b \<leftarrow> bufs key; b' \<leftarrow> blit b off bs; Some (bufs(key \<mapsto> b')) }"

function fill_loop :: "nat \<Rightarrow> (nat \<Rightarrow> rc + nat) \<Rightarrow> u8 list \<Rightarrow> nat \<Rightarrow> nat \<Rightarrow> nat \<Rightarrow> u8 list \<Rightarrow> nat \<Rightarrow> nat \<Rightarrow> nat \<times> nat \<Rightarrow>
    buffers \<Rightarrow> (rc \<times> buffers) option" where
  "fill_loop usable alloc pData k nPayload spaceLeft pSrc cur pPayload pPrior bufs =
     (if nPayload = 0 then Some (SQLITE_OK, bufs)
      else if spaceLeft = 0 then
        (if usable \<le> 4 then None
         else case alloc k of
           Inl rc \<Rightarrow> Some (rc, bufs)
         | Inr pgno \<Rightarrow> do {
             bufs \<leftarrow> bwrite bufs (fst pPrior) (snd pPrior) (sqlite3Put4byte (of_nat pgno));
             bufs \<leftarrow> bwrite bufs pgno 0 (sqlite3Put4byte 0);
             fill_loop usable alloc pData (k + 1) nPayload (usable - 4) pSrc pgno 4 (pgno, 0) bufs })
      else do {
        let n = min nPayload spaceLeft;
        let n = (if pSrc \<noteq> [] then min n (length pSrc) else n);
        bufs \<leftarrow> bwrite bufs cur pPayload (if pSrc \<noteq> [] then take n pSrc else replicate n 0);
        let pSrc = (if pSrc \<noteq> [] \<and> n = length pSrc then pData else drop n pSrc);
        fill_loop usable alloc pData k (nPayload - n) (spaceLeft - n) pSrc cur (pPayload + n) pPrior bufs })"
  by pat_completeness auto
termination
  by (relation "measure (\<lambda>(usable, alloc, pData, k, nPayload, spaceLeft, pSrc, cur, pPayload, pPrior, bufs).
      2 * nPayload + (if spaceLeft = 0 then 1 else 0))") (auto simp: min_def)

declare fill_loop.simps [simp del]

text \<open>
  \<open>fillInCell\<close>. For an index page the key is the payload; for a table page it is the data followed
  by \<open>nZero\<close> zero bytes, and \<open>nKey\<close> is the rowid. The results are the return code, the cell size
  and the buffers (the size is 0 on the early return, which leaves \<open>*pnSize\<close> alone).
\<close>

definition fillInCell :: "bt_shared \<Rightarrow> mem_page \<Rightarrow> (nat \<Rightarrow> rc + nat) \<Rightarrow> buffers \<Rightarrow> u8 list \<Rightarrow> i64 \<Rightarrow> u8 list \<Rightarrow> nat \<Rightarrow>
    (rc \<times> nat \<times> buffers) option" where
  "fillInCell pBt pPage alloc bufs pKey nKey pData nZero = do {
     let nHeader = (if leaf pPage then 0 else 4);
     let (nData, nZero) = (if hasData pPage then (length pData, nZero) else (0, 0));
     let v = (if hasData pPage then sqlite3PutVarint (of_nat (nData + nZero)) else []);
     bufs \<leftarrow> bwrite bufs 0 nHeader v;
     let nHeader = nHeader + length v;
     let v = sqlite3PutVarint nKey;
     bufs \<leftarrow> bwrite bufs 0 nHeader v;
     let nHeader = nHeader + length v;
     pCell \<leftarrow> bufs 0;
     info \<leftarrow> btreeParseCellPtr pBt pPage pCell;
     if \<not> intKey pPage \<and> sint nKey > 0x7fffffff then Some (SQLITE_CORRUPT, 0, bufs)
     else do {
       let nk = sint (ucast nKey :: u32);
       let (nPayload, pSrc, pData) =
         (if intKey pPage then (nData + nZero, take nData pData, [])
          else (nat (int (nData + nZero) + nk), take (nat nk) pKey, take nData pData));
       (rc, bufs) \<leftarrow> fill_loop (usableSize pBt) alloc pData 0 nPayload (ci_nLocal info) pSrc 0 nHeader
          (0, ci_iOverflow info) bufs;
       Some (rc, ci_nSize info, bufs) } }"

section \<open>Reading payload\<close>

text \<open>
  The loop of \<open>accessPayload\<close> over the overflow chain, for a read. \<open>acquire\<close> is the pager: an error
  or the content of a page. The second result is what has been copied to the caller's buffer.
  \<open>ovflSize\<close> is positive for every page size; the guard makes the recursion total.
\<close>

function access_loop :: "(nat \<Rightarrow> rc + u8 list) \<Rightarrow> nat \<Rightarrow> nat \<Rightarrow> nat \<Rightarrow> nat \<Rightarrow> (rc \<times> u8 list) option" where
  "access_loop acquire ovflSize offset amt nextPage =
     (if amt > 0 \<and> nextPage \<noteq> 0 \<and> ovflSize > 0 then
        (case acquire nextPage of
           Inl rc \<Rightarrow> Some (rc, [])
         | Inr aPayload \<Rightarrow> do {
             next \<leftarrow> sqlite3Get4byte aPayload;
             if offset \<ge> ovflSize then access_loop acquire ovflSize (offset - ovflSize) amt (unat next)
             else do {
               let a = (if amt + offset > ovflSize then ovflSize - offset else amt);
               bs \<leftarrow> rdn aPayload (offset + 4) a;
               (rc, rest) \<leftarrow> access_loop acquire ovflSize 0 (amt - a) (unat next);
               Some (rc, bs @ rest) } })
      else Some (if amt > 0 then SQLITE_CORRUPT else SQLITE_OK, []))"
  by pat_completeness auto
termination
  by (relation "measure (\<lambda>(acquire, ovflSize, offset, amt, nextPage). offset + amt)") auto

declare access_loop.simps [simp del]

text \<open>\<open>pCell\<close> is the page content from the cell on, so its length is what is left of the page.\<close>

definition accessPayload :: "bt_shared \<Rightarrow> mem_page \<Rightarrow> (nat \<Rightarrow> rc + u8 list) \<Rightarrow> u8 list \<Rightarrow> nat \<Rightarrow> nat \<Rightarrow>
    (rc \<times> u8 list) option" where
  "accessPayload pBt pPage acquire pCell offset amt = do {
     info \<leftarrow> btreeParseCellPtr pBt pPage pCell;
     let nKey = (if intKey pPage then 0 else unat (ci_nKey info));
     if offset + amt > nKey + ci_nData info \<or> ci_nHeader info + ci_nLocal info > length pCell
     then Some (SQLITE_CORRUPT, [])
     else do {
       let a = (if offset < ci_nLocal info then
                  (if amt + offset > ci_nLocal info then ci_nLocal info - offset else amt) else 0);
       bs \<leftarrow> (if offset < ci_nLocal info then rdn pCell (ci_nHeader info + offset) a else Some []);
       let off = (if offset < ci_nLocal info then 0 else offset - ci_nLocal info);
       if amt - a > 0 then do {
         nextPage \<leftarrow> sqlite3Get4byte (drop (ci_nHeader info + ci_nLocal info) pCell);
         (rc, rest) \<leftarrow> access_loop acquire (usableSize pBt - 4) off (amt - a) (unat nextPage);
         Some (rc, bs @ rest) }
       else Some (SQLITE_OK, bs) } }"

section \<open>Regions of a buffer\<close>

lemma rdn_blit_other:
  assumes "blit b i xs = Some b'" and "j + n \<le> i \<or> i + length xs \<le> j"
  shows "rdn b' j n = rdn b j n"
  using assms by (auto simp: blit_def rdn_def min_def split: if_splits intro!: nth_equalityI)

lemma rdn_0 [simp]: "rdn b i 0 = (if i \<le> length b then Some [] else None)"
  by (simp add: rdn_def)

lemma rdn_append:
  "rdn b i (m + n) = do { xs \<leftarrow> rdn b i m; ys \<leftarrow> rdn b (i + m) n; Some (xs @ ys) }"
  by (auto simp: rdn_def take_add add.commute)

lemma blit_in_range: "i + length xs \<le> length b \<Longrightarrow> \<exists>b'. blit b i xs = Some b'"
  by (simp add: blit_def)

lemma rdn_length: "rdn b i n = Some xs \<Longrightarrow> length xs = n \<and> i + n \<le> length b"
  by (auto simp: rdn_def split: if_splits)

lemma rdn_sub:
  "rdn b i n = Some xs \<Longrightarrow> j + m \<le> n \<Longrightarrow> rdn b (i + j) m = Some (take m (drop j xs))"
  by (auto simp: rdn_def min_def drop_take add.commute split: if_splits)

lemma Get4byte_rdn: "rdn b i 4 = Some (sqlite3Put4byte v) \<Longrightarrow> sqlite3Get4byte (drop i b) = Some v"
  using Get4byte_Put4byte [of v "drop 4 (drop i b)"]
  by (auto simp: rdn_def split: if_splits) (metis append_take_drop_id drop_drop add.commute)

section \<open>Limits and page types\<close>

text \<open>What \<open>decodeFlags\<close> establishes, for a page of at least 480 usable bytes (the minimum that
  \<open>lockBtree\<close> accepts).\<close>

definition page_ok :: "bt_shared \<Rightarrow> mem_page \<Rightarrow> bool" where
  "page_ok pBt pPage \<longleftrightarrow>
     childPtrSize pPage = (if leaf pPage then 0 else 4) \<and>
     (hasData pPage \<longleftrightarrow> leaf pPage \<and> intKey pPage) \<and>
     4 \<le> minLocal pPage \<and> minLocal pPage \<le> maxLocal pPage \<and> maxLocal pPage + 35 \<le> usableSize pBt \<and>
     usableSize pBt \<le> 65536"

lemma decodeFlags_cases:
  assumes "decodeFlags pBt fb = Some pPage"
  shows "fb = 2 \<or> fb = 10 \<or> fb = 5 \<or> fb = 13"
proof -
  have "fb = 2 \<or> fb = 10" if "fb AND NOT 8 = 2"
  proof (cases "bit fb 3")
    case True
    have "fb = (fb AND NOT 8) OR 8" using True by (intro u8_eqI) (simp add: bit_simps bitblast)
    with that show ?thesis by simp
  next
    case False
    have "fb = fb AND NOT 8" using False by (intro u8_eqI) (simp add: bit_simps bitblast)
    with that show ?thesis by simp
  qed
  moreover have "fb = 5 \<or> fb = 13" if "fb AND NOT 8 = 5"
  proof (cases "bit fb 3")
    case True
    have "fb = (fb AND NOT 8) OR 8" using True by (intro u8_eqI) (simp add: bit_simps bitblast)
    with that show ?thesis by simp
  next
    case False
    have "fb = fb AND NOT 8" using False by (intro u8_eqI) (simp add: bit_simps bitblast)
    with that show ?thesis by simp
  qed
  ultimately show ?thesis using assms by (auto simp: decodeFlags_def Let_def split: if_splits)
qed

lemma decodeFlags_eqs:
  "decodeFlags pBt 2 = Some \<lparr>leaf = False, intKey = False, hasData = False, childPtrSize = 4,
     maxLocal = bt_maxLocal pBt, minLocal = bt_minLocal pBt\<rparr>"
  "decodeFlags pBt 10 = Some \<lparr>leaf = True, intKey = False, hasData = False, childPtrSize = 0,
     maxLocal = bt_maxLocal pBt, minLocal = bt_minLocal pBt\<rparr>"
  "decodeFlags pBt 5 = Some \<lparr>leaf = False, intKey = True, hasData = False, childPtrSize = 4,
     maxLocal = bt_maxLeaf pBt, minLocal = bt_minLeaf pBt\<rparr>"
  "decodeFlags pBt 13 = Some \<lparr>leaf = True, intKey = True, hasData = True, childPtrSize = 0,
     maxLocal = bt_maxLeaf pBt, minLocal = bt_minLeaf pBt\<rparr>"
  by (simp_all add: decodeFlags_def Let_def)

lemma limits_ok:
  assumes "480 \<le> usable" and "usable \<le> 65536"
  shows "4 \<le> bt_minLocal (bt_limits pgsz usable)"
    and "bt_minLocal (bt_limits pgsz usable) \<le> bt_maxLocal (bt_limits pgsz usable)"
    and "bt_maxLocal (bt_limits pgsz usable) + 35 \<le> usable"
    and "bt_minLeaf (bt_limits pgsz usable) = bt_minLocal (bt_limits pgsz usable)"
    and "bt_minLeaf (bt_limits pgsz usable) \<le> bt_maxLeaf (bt_limits pgsz usable)"
    and "bt_maxLeaf (bt_limits pgsz usable) + 35 = usable"
  using assms by (simp_all add: bt_limits_def u16cast_def)

lemma decodeFlags_page_ok:
  assumes "decodeFlags (bt_limits pgsz usable) fb = Some pPage" and "480 \<le> usable" and "usable \<le> 65536"
  shows "page_ok (bt_limits pgsz usable) pPage"
proof -
  have "usableSize (bt_limits pgsz usable) = usable" by (simp add: bt_limits_def)
  then show ?thesis
    using decodeFlags_cases [OF assms(1)] assms(1) limits_ok [OF assms(2,3), of pgsz] assms(3)
    by (auto simp: decodeFlags_eqs page_ok_def)
qed

section \<open>Sizes\<close>

lemma skip_key_GetVarint:
  assumes "varint_spec k acc p = Some (n, v)" and "k \<le> 8"
  shows "skip_key (9 - k) p = Some (n - k)"
  using assms
proof (induction k acc p rule: varint_spec.induct)
  case (2 k acc b bs)
  have b: "b AND 0x80 \<noteq> 0 \<longleftrightarrow> bit b 7" using and_128_iff [of b] by simp
  show ?case
  proof (cases "k = 8 \<or> \<not> bit b 7")
    case True
    with 2 show ?thesis by (auto simp: and_128_iff split: if_splits)
  next
    case False
    then have "varint_spec (Suc k) (push_bit 7 acc OR ucast (b AND 0x7f)) bs = Some (n, v)"
      using 2(2) by simp
    with False 2 have "skip_key (8 - k) bs = Some (n - Suc k)" by simp
    moreover have "Suc k < n" using varint_spec_bounds [of "Suc k" _ bs n v] False 2
      by auto
    moreover have "1 < 9 - k" using False 2(3) by auto
    ultimately show ?thesis using False b by (simp add: Suc_diff_Suc)
  qed
qed simp

lemma spill_local_bounds:
  assumes "minLocal pPage \<le> maxLocal pPage"
  shows "minLocal pPage \<le> spill_local pBt pPage n" and "spill_local pBt pPage n \<le> maxLocal pPage"
  using assms by (auto simp: spill_local_def Let_def)

lemma GetVarint32_length:
  "sqlite3GetVarint32 p = Some (m, v) \<Longrightarrow> 1 \<le> m \<and> m \<le> 9"
  using varint32.get_bounds by blast

lemma GetVarint_skip: "sqlite3GetVarint p = Some (m, v) \<Longrightarrow> skip_key 9 p = Some m \<and> 1 \<le> m \<and> m \<le> 9"
  using skip_key_GetVarint [of 0 0 p m v] varint_spec_bounds [of 0 0 p m v] by (simp add: getVarint_spec)

lemma unat_u32: "unat (v::u32) < 2 ^ 32" and unat_ucast_u32: "unat (ucast (v::u32) :: u64) = unat v"
  using unsigned_less [of v, where ?'a = nat] by (simp_all add: unsigned_ucast_eq take_bit_nat_eq_self)

text \<open>With the limits of \<open>decodeFlags\<close> none of the casts to \<open>u16\<close> loses anything.\<close>

lemma payload_split_exact:
  assumes "page_ok pBt pPage" and "n \<le> 18"
  shows "payload_split pBt pPage n m nKey nData =
     (if m \<le> maxLocal pPage then
        \<lparr>ci_nKey = nKey, ci_nData = nData, ci_nPayload = m, ci_nHeader = n,
         ci_nLocal = m, ci_iOverflow = 0, ci_nSize = max 4 (n + m)\<rparr>
      else let nLocal = spill_local pBt pPage m in
        \<lparr>ci_nKey = nKey, ci_nData = nData, ci_nPayload = m, ci_nHeader = n,
         ci_nLocal = nLocal, ci_iOverflow = nLocal + n, ci_nSize = nLocal + n + 4\<rparr>)"
  using assms spill_local_bounds [of pPage pBt m]
  by (auto simp: page_ok_def payload_split_def Let_def u16cast_def)

lemma payload_split_sel [simp]:
  "ci_nKey (payload_split pBt pPage n m nKey nData) = nKey"
  "ci_nData (payload_split pBt pPage n m nKey nData) = nData"
  "ci_nPayload (payload_split pBt pPage n m nKey nData) = m"
  "ci_nHeader (payload_split pBt pPage n m nKey nData) = n"
  by (simp_all add: payload_split_def Let_def)

definition size_of_split :: "bt_shared \<Rightarrow> mem_page \<Rightarrow> nat \<Rightarrow> nat \<Rightarrow> nat" where
  "size_of_split pBt pPage n m =
     max 4 ((if m > maxLocal pPage then spill_local pBt pPage m + 4 else m) + n)"

text \<open>Both routines step over the same header.\<close>

lemma parse_cases:
  assumes "btreeParseCellPtr pBt pPage pCell = Some info"
  obtains n m nKey nData where
    "n \<le> childPtrSize pPage + (if hasData pPage then 18 else 9)" "m < 2 ^ 32"
    "info = payload_split pBt pPage n m nKey nData"
    "cellSizePtr pBt pPage pCell = Some (u16cast (size_of_split pBt pPage n m))"
    "nData = (if intKey pPage then m else 0)" "\<not> intKey pPage \<Longrightarrow> unat nKey = m"
proof (cases "intKey pPage")
  case True
  show ?thesis
  proof (cases "hasData pPage")
    case hd: True
    from assms True hd obtain a v b k where
      1: "sqlite3GetVarint32 (drop (childPtrSize pPage) pCell) = Some (a, v)"
         "sqlite3GetVarint (drop (childPtrSize pPage + a) pCell) = Some (b, k)"
      by (auto simp: btreeParseCellPtr_def Let_def bind_eq_Some_conv)
    then show ?thesis
      using assms True hd GetVarint32_length [OF 1(1)] GetVarint_skip [OF 1(2)] unat_u32 [of v]
      by (intro that [of "childPtrSize pPage + a + b" "unat v" k "unat v"])
        (auto simp: btreeParseCellPtr_def cellSizePtr_def Let_def size_of_split_def spill_local_def max_def)
  next
    case nd: False
    from assms True nd obtain b k where
      1: "sqlite3GetVarint (drop (childPtrSize pPage) pCell) = Some (b, k)"
      by (auto simp: btreeParseCellPtr_def Let_def bind_eq_Some_conv)
    then show ?thesis
      using assms True nd GetVarint_skip [OF 1]
      by (intro that [of "childPtrSize pPage + b" 0 k 0])
        (auto simp: btreeParseCellPtr_def cellSizePtr_def Let_def size_of_split_def spill_local_def max_def)
  qed
next
  case False
  from assms False obtain a v where
    1: "sqlite3GetVarint32 (drop (childPtrSize pPage) pCell) = Some (a, v)"
    by (auto simp: btreeParseCellPtr_def Let_def bind_eq_Some_conv)
  then show ?thesis
    using assms False GetVarint32_length [OF 1] unat_u32 [of v]
    by (intro that [of "childPtrSize pPage + a" "unat v" "ucast v" 0])
      (auto simp: btreeParseCellPtr_def cellSizePtr_def Let_def size_of_split_def spill_local_def max_def unat_ucast_u32)
qed

lemma cell_size_agrees:
  assumes "page_ok pBt pPage" and "btreeParseCellPtr pBt pPage pCell = Some info"
  shows "cellSizePtr pBt pPage pCell = Some (ci_nSize info)"
proof -
  from assms(2) obtain n m nKey nData where
    n: "n \<le> childPtrSize pPage + (if hasData pPage then 18 else 9)" and i: "info = payload_split pBt pPage n m nKey nData"
    and c: "cellSizePtr pBt pPage pCell = Some (u16cast (size_of_split pBt pPage n m))"
    by (rule parse_cases)
  have "n \<le> 18" using n assms(1) by (simp add: page_ok_def split: if_splits)
  with c assms(1) show ?thesis
    unfolding i payload_split_exact [OF assms(1) \<open>n \<le> 18\<close>]
    using spill_local_bounds [of pPage pBt m]
    by (auto simp: Let_def size_of_split_def page_ok_def u16cast_def max_def)
qed

lemma cell_split_bounds:
  assumes ok: "page_ok pBt pPage" and "btreeParseCellPtr pBt pPage pCell = Some info"
  shows "ci_nLocal info \<le> min (ci_nPayload info) (maxLocal pPage)"
    and "ci_nSize info + 13 \<le> usableSize pBt" and "4 \<le> ci_nSize info"
    and "ci_nLocal info < ci_nPayload info \<Longrightarrow> minLocal pPage \<le> ci_nLocal info \<and>
       ci_iOverflow info = ci_nHeader info + ci_nLocal info \<and> ci_nSize info = ci_iOverflow info + 4"
    and "ci_nLocal info < ci_nPayload info \<Longrightarrow> ci_nLocal info = minLocal pPage \<or>
       (usableSize pBt - 4) dvd (ci_nPayload info - ci_nLocal info)"
    and "ci_iOverflow info = 0 \<longleftrightarrow> ci_nLocal info = ci_nPayload info"
proof -
  from assms(2) obtain n m nKey nData where
    n: "n \<le> childPtrSize pPage + (if hasData pPage then 18 else 9)" and i: "info = payload_split pBt pPage n m nKey nData"
    by (rule parse_cases)
  have "n \<le> 18" using n ok by (simp add: page_ok_def split: if_splits)
  note i = i [unfolded payload_split_exact [OF ok this]]
  have l: "4 \<le> minLocal pPage" "minLocal pPage \<le> maxLocal pPage" "maxLocal pPage + 35 \<le> usableSize pBt"
    using ok by (auto simp: page_ok_def)
  note sp = spill_local_bounds [OF l(2), of pBt m]
  show "ci_nLocal info \<le> min (ci_nPayload info) (maxLocal pPage)"
    and "4 \<le> ci_nSize info"
    and "ci_nLocal info < ci_nPayload info \<Longrightarrow> minLocal pPage \<le> ci_nLocal info \<and>
       ci_iOverflow info = ci_nHeader info + ci_nLocal info \<and> ci_nSize info = ci_iOverflow info + 4"
    and "ci_iOverflow info = 0 \<longleftrightarrow> ci_nLocal info = ci_nPayload info"
    using sp l by (auto simp: i Let_def split: if_splits)
  show "ci_nLocal info < ci_nPayload info \<Longrightarrow> ci_nLocal info = minLocal pPage \<or>
       (usableSize pBt - 4) dvd (ci_nPayload info - ci_nLocal info)"
    using sp l dvd_minus_mod [of "usableSize pBt - 4" "m - minLocal pPage"]
    by (auto simp: i Let_def spill_local_def split: if_splits)
  show "ci_nSize info + 13 \<le> usableSize pBt"
    using sp l \<open>n \<le> 18\<close> by (auto simp: i Let_def split: if_splits)
qed

section \<open>Overflow chains\<close>

text \<open>
  \<open>ovfl_chain usable bufs ps s\<close>: the pages \<open>ps\<close> are linked by their first four bytes, the last one
  holds 0 there, and the bytes after the link are \<open>s\<close>, every page but the last being full.
\<close>

fun ovfl_chain :: "nat \<Rightarrow> buffers \<Rightarrow> nat list \<Rightarrow> u8 list \<Rightarrow> bool" where
  "ovfl_chain usable bufs [] s \<longleftrightarrow> s = []"
| "ovfl_chain usable bufs (p # ps) s \<longleftrightarrow>
     0 < p \<and> p < 2 ^ 32 \<and> s \<noteq> [] \<and>
     (\<exists>b. bufs p = Some b \<and> usable \<le> length b \<and>
        sqlite3Get4byte b = Some (of_nat (hd (ps @ [0]))) \<and>
        rdn b 4 (min (usable - 4) (length s)) = Some (take (usable - 4) s)) \<and>
     ovfl_chain usable bufs ps (drop (usable - 4) s)"

lemma ovfl_chain_bounds: "ovfl_chain usable bufs ps s \<Longrightarrow> p \<in> set ps \<Longrightarrow> 0 < p \<and> p < 2 ^ 32"
  by (induction usable bufs ps s rule: ovfl_chain.induct) auto

lemma ovfl_chain_Nil_iff: "ovfl_chain usable bufs ps s \<Longrightarrow> ps = [] \<longleftrightarrow> s = []"
  by (cases ps) auto

lemma ovfl_chain_cong:
  "(\<And>p. p \<in> set ps \<Longrightarrow> bufs p = bufs' p) \<Longrightarrow> ovfl_chain usable bufs ps s = ovfl_chain usable bufs' ps s"
  by (induction usable bufs ps s rule: ovfl_chain.induct) auto

lemma unat_link: "ovfl_chain usable bufs ps s \<Longrightarrow> unat (of_nat (hd (ps @ [0])) :: u32) = hd (ps @ [0])"
  by (cases ps) (auto simp: unsigned_of_nat take_bit_nat_eq_self)

definition pager_of :: "buffers \<Rightarrow> nat \<Rightarrow> rc + u8 list" where
  "pager_of bufs p = (case bufs p of None \<Rightarrow> Inl SQLITE_CORRUPT | Some b \<Rightarrow> Inr b)"

text \<open>\<open>accessPayload\<close>'s walk along a chain delivers the requested part of its content.\<close>

lemma access_loop_chain:
  assumes "ovfl_chain usable bufs ps s" and "offset + amt \<le> length s" and "4 < usable"
  shows "access_loop (pager_of bufs) (usable - 4) offset amt (hd (ps @ [0]))
       = Some (SQLITE_OK, take amt (drop offset s))"
  using assms
proof (induction usable bufs ps s arbitrary: offset amt rule: ovfl_chain.induct)
  case (1 usable bufs s)
  then show ?case by (simp add: access_loop.simps)
next
  case (2 usable bufs p ps s)
  let ?m = "usable - 4"
  from 2(2) obtain b where p: "0 < p" and b: "bufs p = Some b" "usable \<le> length b"
      "sqlite3Get4byte b = Some (of_nat (hd (ps @ [0])))"
      "rdn b 4 (min ?m (length s)) = Some (take ?m s)"
    and ch: "ovfl_chain usable bufs ps (drop ?m s)" by auto
  note link = unat_link [OF ch]
  have pg: "pager_of bufs p = Inr b" using b(1) by (simp add: pager_of_def)
  show ?case
  proof (cases "amt = 0")
    case True
    then show ?thesis by (simp add: access_loop.simps)
  next
    case amt: False
    show ?thesis
    proof (cases "?m \<le> offset")
      case True
      with 2(3) have "offset - ?m + amt \<le> length (drop ?m s)" by simp
      from 2(1) [OF ch this 2(4)] True amt p b(3) pg link 2(4) show ?thesis
        by (subst access_loop.simps) simp
    next
      case False
      define a where "a = (if amt + offset > ?m then ?m - offset else amt)"
      have a: "a \<le> amt" "offset + a \<le> ?m" "offset + a \<le> length s"
        using False 2(3) by (auto simp: a_def)
      have rd: "rdn b (offset + 4) a = Some (take a (drop offset s))"
        using rdn_sub [OF b(4), of offset a] a by (simp add: add.commute drop_take)
      have "0 + (amt - a) \<le> length (drop ?m s)" using 2(3) a by (auto simp: a_def)
      note ih = 2(1) [OF ch this 2(4)]
      have "take a (drop offset s) @ take (amt - a) (drop ?m s) = take amt (drop offset s)"
      proof (cases "amt + offset > ?m")
        case True
        then have "drop ?m s = drop a (drop offset s)" using False by (simp add: a_def)
        then show ?thesis using a by (simp add: take_add [symmetric] del: drop_drop)
      qed (simp add: a_def)
      with ih rd False amt p b(3) pg link 2(4) show ?thesis
        by (subst access_loop.simps) (simp add: Let_def a_def [symmetric])
    qed
  qed
qed

text \<open>
  What \<open>fillInCell\<close> asks of \<open>allocateBtreePage\<close>: the calls \<open>k\<close> to \<open>N - 1\<close> succeed and give different
  pages, none of them the buffer being filled, whose content has the usable size.
\<close>

definition good_alloc :: "nat \<Rightarrow> (nat \<Rightarrow> rc + nat) \<Rightarrow> buffers \<Rightarrow> nat \<Rightarrow> nat \<Rightarrow> nat \<Rightarrow> bool" where
  "good_alloc usable alloc bufs cur k N \<longleftrightarrow> inj_on alloc {k..<N} \<and>
     (\<forall>j\<in>{k..<N}. \<exists>p b. alloc j = Inr p \<and> 0 < p \<and> p < 2 ^ 32 \<and> p \<noteq> cur \<and> bufs p = Some b \<and> usable \<le> length b)"

definition payload_stream :: "nat \<Rightarrow> u8 list \<Rightarrow> u8 list" where
  "payload_stream n pSrc = pSrc @ replicate (n - length pSrc) 0"

lemma payload_stream_length: "length pSrc \<le> n \<Longrightarrow> length (payload_stream n pSrc) = n"
  by (simp add: payload_stream_def)

lemma bwrite_exists:
  assumes "bufs key = Some b" and "off + length xs \<le> length b"
  obtains b' where "blit b off xs = Some b'" and "bwrite bufs key off xs = Some (bufs(key \<mapsto> b'))"
  using assms blit_in_range [OF assms(2)] by (auto simp: bwrite_def)

text \<open>One turn of the loop inside a buffer writes the next piece of the payload.\<close>

lemma fill_chunk:
  assumes "length pSrc \<le> nPayload" and "0 < nPayload" and "0 < spaceLeft"
  defines "n \<equiv> (if pSrc \<noteq> [] then min (min nPayload spaceLeft) (length pSrc) else min nPayload spaceLeft)"
  defines "pSrc' \<equiv> (if pSrc \<noteq> [] \<and> n = length pSrc then [] else drop n pSrc)"
  shows "0 < n" and "n \<le> nPayload" and "n \<le> spaceLeft" and "length pSrc' \<le> nPayload - n"
    and "(if pSrc \<noteq> [] then take n pSrc else replicate n 0) = take n (payload_stream nPayload pSrc)"
    and "payload_stream (nPayload - n) pSrc' = drop n (payload_stream nPayload pSrc)"
  using assms(1-3) by (auto simp: n_def pSrc'_def payload_stream_def min_def)

text \<open>
  What the loop leaves behind when it has the piece \<open>s\<close> of the payload to store, \<open>spaceLeft\<close> bytes of it
  in the buffer \<open>cur\<close> at \<open>pPayload\<close> and the rest on new pages linked from offset \<open>q\<close> of \<open>cur\<close>.
\<close>

definition fill_post :: "nat \<Rightarrow> (nat \<Rightarrow> rc + nat) \<Rightarrow> nat \<Rightarrow> nat \<Rightarrow> u8 list \<Rightarrow> nat \<Rightarrow> nat \<Rightarrow> nat \<Rightarrow> nat \<Rightarrow>
    buffers \<Rightarrow> u8 list \<Rightarrow> buffers \<Rightarrow> nat list \<Rightarrow> u8 list \<Rightarrow> bool" where
  "fill_post usable alloc k N s spaceLeft cur pPayload q bufs b0 bufs' ps b1 \<longleftrightarrow>
     bufs' cur = Some b1 \<and> length b1 = length b0
     \<and> Inr ` set ps \<subseteq> alloc ` {k..<N} \<and> ovfl_chain usable bufs' ps (drop spaceLeft s)
     \<and> rdn b1 pPayload (min spaceLeft (length s)) = Some (take spaceLeft s)
     \<and> (ps \<noteq> [] \<longrightarrow> rdn b1 q 4 = Some (sqlite3Put4byte (of_nat (hd ps))))
     \<and> (\<forall>i n. (i + n \<le> pPayload \<or> pPayload + spaceLeft \<le> i) \<and>
          (spaceLeft < length s \<longrightarrow> i + n \<le> q \<or> q + 4 \<le> i) \<longrightarrow> rdn b1 i n = rdn b0 i n)
     \<and> (\<forall>p. p \<noteq> cur \<and> Inr p \<notin> alloc ` {k..<N} \<longrightarrow> bufs' p = bufs p)"

lemma good_alloc_cur: "good_alloc usable alloc bufs cur k N \<Longrightarrow> Inr cur \<notin> alloc ` {k..<N}"
  unfolding good_alloc_def by (metis Inr_inject imageE)

lemma good_alloc_upd_cur:
  "good_alloc usable alloc bufs cur k N \<Longrightarrow> good_alloc usable alloc (bufs(cur \<mapsto> b)) cur k N"
  unfolding good_alloc_def by (metis fun_upd_other)

lemma good_alloc_next:
  assumes "good_alloc usable alloc bufs cur k N" and "k < N"
  obtains p b where "alloc k = Inr p" "0 < p" "p < 2 ^ 32" "p \<noteq> cur" "bufs p = Some b" "usable \<le> length b"
    "\<And>b' b''. good_alloc usable alloc (bufs(cur \<mapsto> b', p \<mapsto> b'')) p (k + 1) N"
proof -
  from assms obtain p b where p: "alloc k = Inr p" "0 < p" "p < 2 ^ 32" "p \<noteq> cur"
      "bufs p = Some b" "usable \<le> length b"
    unfolding good_alloc_def by (metis atLeastLessThan_iff order_refl)
  have "good_alloc usable alloc (bufs(cur \<mapsto> b', p \<mapsto> b'')) p (k + 1) N" for b' b''
    unfolding good_alloc_def
  proof (intro conjI ballI)
    show "inj_on alloc {k + 1..<N}" using assms(1) by (auto simp: good_alloc_def inj_on_def)
    fix j assume j: "j \<in> {k + 1..<N}"
    then obtain p' b where p': "alloc j = Inr p'" "0 < p'" "p' < 2 ^ 32" "p' \<noteq> cur" "bufs p' = Some b" "usable \<le> length b"
      using assms(1) unfolding good_alloc_def by (metis atLeastLessThan_iff add_leD1)
    have "p' \<noteq> p"
    proof
      assume "p' = p"
      with p(1) p'(1) have "alloc j = alloc k" by simp
      moreover have "j \<in> {k..<N}" "k \<in> {k..<N}" "inj_on alloc {k..<N}"
        using assms j by (auto simp: good_alloc_def)
      ultimately have "j = k" by (metis inj_onD)
      with j show False by simp
    qed
    with p' show "\<exists>q ba. alloc j = Inr q \<and> 0 < q \<and> q < 2 ^ 32 \<and> q \<noteq> p \<and> (bufs(cur \<mapsto> b', p \<mapsto> b'')) q = Some ba \<and> usable \<le> length ba"
      by auto
  qed
  with p that show ?thesis by blast
qed

lemma fill_post_chunk:
  assumes "blit b0 pPayload (take n s) = Some b'" and "n \<le> spaceLeft" and "n \<le> length s"
    and "spaceLeft < length s \<Longrightarrow> q + 4 \<le> pPayload \<or> pPayload + spaceLeft \<le> q"
    and "fill_post usable alloc k N (drop n s) (spaceLeft - n) cur (pPayload + n) q (bufs(cur \<mapsto> b')) b' bufs' ps b1"
  shows "fill_post usable alloc k N s spaceLeft cur pPayload q bufs b0 bufs' ps b1"
proof -
  note post = assms(5) [unfolded fill_post_def]
  have ln: "length (take n s) = n" using assms(3) by simp
  have same: "rdn b1 i m = rdn b' i m" if "i + m \<le> pPayload + n \<or> pPayload + spaceLeft \<le> i"
      "spaceLeft < length s \<longrightarrow> i + m \<le> q \<or> q + 4 \<le> i" for i m
    using post that assms(2,3) by auto
  have "rdn b1 pPayload n = Some (take n s)"
    using same [of pPayload n] assms(2,4) rdn_blit_same [OF assms(1)] ln
    by (cases "spaceLeft < length s") auto
  moreover have "rdn b1 (pPayload + n) (min spaceLeft (length s) - n) = Some (take (spaceLeft - n) (drop n s))"
  proof -
    have "min (spaceLeft - n) (length (drop n s)) = min spaceLeft (length s) - n"
      by (simp add: min_def)
    then show ?thesis using post by simp
  qed
  moreover have "min spaceLeft (length s) = n + (min spaceLeft (length s) - n)" using assms(2,3) by simp
  moreover have "take n s @ take (spaceLeft - n) (drop n s) = take spaceLeft s"
    using assms(2) by (simp add: take_add [symmetric])
  ultimately have "rdn b1 pPayload (min spaceLeft (length s)) = Some (take spaceLeft s)"
    using rdn_append [of b1 pPayload n "min spaceLeft (length s) - n"] by simp
  moreover have "rdn b1 i m = rdn b0 i m" if "i + m \<le> pPayload \<or> pPayload + spaceLeft \<le> i"
      "spaceLeft < length s \<longrightarrow> i + m \<le> q \<or> q + 4 \<le> i" for i m
    using same [of i m] that rdn_blit_other [OF assms(1), of i m] ln assms(2) by auto
  ultimately show ?thesis
    using post assms(2) blit_length [OF assms(1)] by (auto simp: fill_post_def)
qed

lemma fill_post_page:
  assumes "blit b0 q (sqlite3Put4byte (of_nat p)) = Some b'" and "blit bp 0 (sqlite3Put4byte 0) = Some bp'"
    and "4 < usable" and "usable \<le> length bp" and "0 < length s" and "k < N"
    and "alloc k = Inr p" and "0 < p" and "p < 2 ^ 32" and "p \<noteq> cur" and "Inr cur \<notin> alloc ` {k..<N}"
    and "fill_post usable alloc (k + 1) N s (usable - 4) p 4 0 (bufs(cur \<mapsto> b', p \<mapsto> bp')) bp' bufs' ps bp1"
    and "pPayload \<le> length b0"
  shows "fill_post usable alloc k N s 0 cur pPayload q bufs b0 bufs' (p # ps) b'"
proof -
  note post = assms(12) [unfolded fill_post_def]
  have len: "length (sqlite3Put4byte v) = 4" for v by (simp add: sqlite3Put4byte_def)
  have "{k..<N} = insert k {k + 1..<N}" using assms(6) by auto
  then have img: "alloc ` {k..<N} = insert (Inr p) (alloc ` {k + 1..<N})"
    using assms(7) by simp
  have cur: "bufs' cur = Some b'" using post assms(10,11) img by auto
  have "sqlite3Get4byte bp1 = Some (of_nat (hd (ps @ [0])))"
  proof (cases ps)
    case Nil
    then have "length s \<le> usable - 4" using post by simp
    then have "rdn bp1 0 4 = rdn bp' 0 4" using post by auto
    also have "\<dots> = Some (sqlite3Put4byte 0)" using rdn_blit_same [OF assms(2)] by (simp add: len)
    finally show ?thesis using Get4byte_rdn [of bp1 0] Nil by simp
  next
    case (Cons a list)
    then show ?thesis using post Get4byte_rdn [of bp1 0] by auto
  qed
  then have "ovfl_chain usable bufs' (p # ps) s"
    using post assms(4,5,8,9) blit_length [OF assms(2)] by auto
  moreover have "rdn b' q 4 = Some (sqlite3Put4byte (of_nat p))"
    using rdn_blit_same [OF assms(1)] by (simp add: len)
  moreover have "pPayload \<le> length b'" using assms(13) blit_length [OF assms(1)] by simp
  moreover have "rdn b' i n = rdn b0 i n" if "i + n \<le> q \<or> q + 4 \<le> i" for i n
    using rdn_blit_other [OF assms(1)] that len by simp
  ultimately show ?thesis
    unfolding fill_post_def using post cur img blit_length [OF assms(1)] assms(5,10) by auto
qed

lemma fill_loop_correct:
  assumes "pData = []" and "pPrior = (cur, q)" and "4 < usable" and "length pSrc \<le> nPayload" and "bufs cur = Some b0"
    and "pPayload + min spaceLeft nPayload \<le> length b0"
    and "spaceLeft < nPayload \<Longrightarrow> q + 4 \<le> length b0 \<and> (q + 4 \<le> pPayload \<or> pPayload + spaceLeft \<le> q)"
    and "good_alloc usable alloc bufs cur k N"
    and "nPayload - spaceLeft \<le> (N - k) * (usable - 4)"
  shows "\<exists>bufs' ps b1. fill_loop usable alloc pData k nPayload spaceLeft pSrc cur pPayload pPrior bufs = Some (SQLITE_OK, bufs')
     \<and> fill_post usable alloc k N (payload_stream nPayload pSrc) spaceLeft cur pPayload q bufs b0 bufs' ps b1"
  using assms
proof (induction usable alloc pData k nPayload spaceLeft pSrc cur pPayload pPrior bufs arbitrary: q b0
    rule: fill_loop.induct)
  case (1 usable alloc pData k nPayload spaceLeft pSrc cur pPayload pPrior bufs q b0)
  note ih_page = 1(1) and ih_chunk = 1(2) and pd = 1(3) and pq = 1(4)
    and us = 1(5) and src = 1(6) and b0 = 1(7) and fits = 1(8) and prior = 1(9) and ga = 1(10) and cnt = 1(11)
  let ?s = "payload_stream nPayload pSrc"
  have ls: "length ?s = nPayload" using payload_stream_length [OF src] .
  consider "nPayload = 0" | "0 < nPayload" "spaceLeft = 0" | "0 < nPayload" "0 < spaceLeft" by auto
  then show ?case
  proof cases
    case 1
    then show ?thesis using b0 fits ls by (intro exI [of _ bufs] exI [of _ "[]"] exI [of _ b0]) (simp add: fill_loop.simps fill_post_def)
  next
    case 2
    with cnt have "k < N" by (cases "k < N") auto
    from good_alloc_next [OF ga this] obtain p bp where p: "alloc k = Inr p" "0 < p" "p < 2 ^ 32" "p \<noteq> cur"
        "bufs p = Some bp" "usable \<le> length bp"
        "\<And>b' b''. good_alloc usable alloc (bufs(cur \<mapsto> b', p \<mapsto> b'')) p (k + 1) N" by blast
    have len: "length (sqlite3Put4byte v) = 4" for v by (simp add: sqlite3Put4byte_def)
    from prior 2 have q: "q + 4 \<le> length b0" by simp
    obtain b' where b': "blit b0 q (sqlite3Put4byte (of_nat p)) = Some b'"
        "bwrite bufs cur q (sqlite3Put4byte (of_nat p)) = Some (bufs(cur \<mapsto> b'))"
      by (rule bwrite_exists [of bufs cur b0 q "sqlite3Put4byte (of_nat p)"]) (use b0 q len in auto)
    obtain bp' where bp': "blit bp 0 (sqlite3Put4byte 0) = Some bp'"
        "bwrite (bufs(cur \<mapsto> b')) p 0 (sqlite3Put4byte 0) = Some (bufs(cur \<mapsto> b', p \<mapsto> bp'))"
      by (rule bwrite_exists [of "bufs(cur \<mapsto> b')" p bp 0 "sqlite3Put4byte 0"]) (use p us len in auto)
    have cnt': "nPayload - (usable - 4) \<le> (N - (k + 1)) * (usable - 4)"
    proof -
      obtain m where "N - k = Suc m" "N - (k + 1) = m" using \<open>k < N\<close> by (metis Suc_diff_Suc add.commute plus_1_eq_Suc)
      with cnt 2 show ?thesis by simp
    qed
    define B where "B = bufs(cur \<mapsto> b', p \<mapsto> bp')"
    have B: "bwrite (bufs(cur \<mapsto> b')) p 0 (sqlite3Put4byte 0) = Some B" "B p = Some bp'"
        "good_alloc usable alloc B p (k + 1) N"
      using bp'(2) p(7) by (simp_all add: B_def)
    have "\<exists>bufs' ps b1. fill_loop usable alloc pData (k + 1) nPayload (usable - 4) pSrc p 4 (p, 0) B
          = Some (SQLITE_OK, bufs') \<and>
        fill_post usable alloc (k + 1) N ?s (usable - 4) p 4 0 B bp' bufs' ps b1"
      by (rule ih_page) (use pd pq 2 us src p b' B cnt' blit_length [OF bp'(1)] in auto)
    then obtain bufs' ps b1 where
        r: "fill_loop usable alloc pData (k + 1) nPayload (usable - 4) pSrc p 4 (p, 0) B = Some (SQLITE_OK, bufs')"
        "fill_post usable alloc (k + 1) N ?s (usable - 4) p 4 0 B bp' bufs' ps b1"
      by blast
    have "fill_post usable alloc k N ?s 0 cur pPayload q bufs b0 bufs' (p # ps) b'"
      by (rule fill_post_page [OF b'(1) bp'(1) us p(6) _ \<open>k < N\<close> p(1-4) good_alloc_cur [OF ga] r(2) [unfolded B_def]])
        (use 2 ls fits in auto)
    moreover have "fill_loop usable alloc pData k nPayload spaceLeft pSrc cur pPayload pPrior bufs = Some (SQLITE_OK, bufs')"
      using 2 us p(1) pq b'(2) B(1) r(1) by (subst fill_loop.simps) simp
    ultimately show ?thesis using 2 by blast
  next
    case 3
    define n where "n = (if pSrc \<noteq> [] then min (min nPayload spaceLeft) (length pSrc) else min nPayload spaceLeft)"
    define pSrc' where "pSrc' = (if pSrc \<noteq> [] \<and> n = length pSrc then [] else drop n pSrc)"
    note c = fill_chunk [OF src 3, folded n_def, folded pSrc'_def]
    have lt: "length (take n ?s) = n" using c(2) ls by simp
    obtain b' where b': "blit b0 pPayload (take n ?s) = Some b'"
        "bwrite bufs cur pPayload (take n ?s) = Some (bufs(cur \<mapsto> b'))"
      by (rule bwrite_exists [of bufs cur b0 pPayload "take n ?s"]) (use b0 lt c fits in auto)
    define B where "B = bufs(cur \<mapsto> b')"
    have B: "B cur = Some b'" "good_alloc usable alloc B cur k N"
      using good_alloc_upd_cur [OF ga] by (simp_all add: B_def)
    have bw: "bwrite bufs cur pPayload (if pSrc \<noteq> [] then take n pSrc else replicate n 0) = Some B"
      using b'(2) by (simp only: c(5) B_def)
    have prior': "q + 4 \<le> length b' \<and> (q + 4 \<le> pPayload + n \<or> pPayload + n + (spaceLeft - n) \<le> q)"
      if "spaceLeft - n < nPayload - n"
      using prior that c(3) blit_length [OF b'(1)] by fastforce
    have ps: "pSrc' = (if pSrc \<noteq> [] \<and> n = length pSrc then pData else drop n pSrc)"
      by (simp add: pSrc'_def pd)
    have "\<exists>bufs' ps b1. fill_loop usable alloc pData k (nPayload - n) (spaceLeft - n) pSrc' cur (pPayload + n) pPrior B
          = Some (SQLITE_OK, bufs') \<and>
        fill_post usable alloc k N (payload_stream (nPayload - n) pSrc') (spaceLeft - n) cur (pPayload + n) q B b' bufs' ps b1"
      by (rule ih_chunk [OF _ _ refl n_def bw ps pd pq us c(4) B(1)])
        (use 3 c(1-3) prior' fits cnt B blit_length [OF b'(1)] in auto)
    then obtain bufs' ps b1 where
        r: "fill_loop usable alloc pData k (nPayload - n) (spaceLeft - n) pSrc' cur (pPayload + n) pPrior B = Some (SQLITE_OK, bufs')"
        "fill_post usable alloc k N (drop n ?s) (spaceLeft - n) cur (pPayload + n) q B b' bufs' ps b1"
      unfolding c(6) by blast
    have "fill_post usable alloc k N ?s spaceLeft cur pPayload q bufs b0 bufs' ps b1"
      by (rule fill_post_chunk [OF b'(1) c(3) _ _ r(2) [unfolded B_def]]) (use c ls prior in auto)
    moreover have "fill_loop usable alloc pData k nPayload spaceLeft pSrc cur pPayload pPrior bufs = Some (SQLITE_OK, bufs')"
      unfolding fill_loop.simps [of usable alloc pData k nPayload spaceLeft] Let_def n_def [symmetric] bw ps [symmetric]
      using 3 r(1) by simp
    ultimately show ?thesis by blast
  qed
qed

section \<open>Round trip through a cell\<close>

text \<open>The header and the payload that a cell is meant to have.\<close>

definition cell_varints :: "mem_page \<Rightarrow> nat \<Rightarrow> i64 \<Rightarrow> u8 list" where
  "cell_varints pPage n nKey = (if hasData pPage then sqlite3PutVarint (of_nat n) else []) @ sqlite3PutVarint nKey"

definition cell_payload :: "mem_page \<Rightarrow> u8 list \<Rightarrow> u8 list \<Rightarrow> nat \<Rightarrow> u8 list" where
  "cell_payload pPage pKey pData nZero =
     (if hasData pPage then pData @ replicate nZero 0 else if intKey pPage then [] else pKey)"

lemma GetVarint32_Put:
  assumes "unat v < 2 ^ 32"
  shows "sqlite3GetVarint32 (sqlite3PutVarint v @ rest) = Some (length (sqlite3PutVarint v), ucast v)"
proof -
  have "v \<le> 0xffffffff" using assms by (simp add: word_le_nat_alt)
  then show ?thesis by (simp add: GetVarint32_spec GetVarint_PutVarint saturate32_def)
qed

lemma unat_of_nat64: "n < 2 ^ 32 \<Longrightarrow> unat (of_nat n :: u64) = n"
  by (simp add: unsigned_of_nat take_bit_nat_eq_self)

lemma unat_ucast32: "unat (v::u64) < 2 ^ 32 \<Longrightarrow> unat (ucast v :: u32) = unat v"
  by (simp add: unsigned_ucast_eq take_bit_nat_eq_self)

lemma ucast_ucast32: "unat (v::u64) < 2 ^ 32 \<Longrightarrow> ucast (ucast v :: u32) = v"
  by (metis unat_ucast32 unat_ucast_u32 word_unat_eq_iff)

lemma parse_header:
  assumes ok: "page_ok pBt pPage" and "length cp = childPtrSize pPage" and "n < 2 ^ 32"
    and "intKey pPage \<and> \<not> hasData pPage \<Longrightarrow> n = 0" and "\<not> intKey pPage \<Longrightarrow> unat nKey = n"
  shows "btreeParseCellPtr pBt pPage (cp @ cell_varints pPage n nKey @ rest) =
     Some (payload_split pBt pPage (length cp + length (cell_varints pPage n nKey)) n nKey
        (if intKey pPage then n else 0))"
proof (cases "hasData pPage")
  case True
  then have "intKey pPage" using ok by (simp add: page_ok_def)
  with True assms(2,3) show ?thesis
    by (simp add: btreeParseCellPtr_def cell_varints_def GetVarint32_Put GetVarint_PutVarint unat_of_nat64
        unat_ucast32 add.assoc flip: drop_drop)
next
  case False
  then show ?thesis
    using assms(2-5)
    by (auto simp: btreeParseCellPtr_def cell_varints_def GetVarint32_Put GetVarint_PutVarint unat_ucast32 ucast_ucast32)
qed

lemma cell_varints_length:
  "page_ok pBt pPage \<Longrightarrow> childPtrSize pPage + length (cell_varints pPage n nKey) \<le> 18"
  using PutVarint_length [of nKey] PutVarint_length [of "of_nat n"]
  by (auto simp: cell_varints_def page_ok_def split: if_splits)

lemma access_cell:
  assumes ok: "page_ok pBt pPage" and cp: "length cp = childPtrSize pPage" and n: "n < 2 ^ 32" "length s = n"
    and k: "intKey pPage \<and> \<not> hasData pPage \<Longrightarrow> n = 0" "\<not> intKey pPage \<Longrightarrow> unat nKey = n"
    and info: "info = payload_split pBt pPage (length cp + length (cell_varints pPage n nKey)) n nKey nData"
    and loc: "rdn body 0 (ci_nLocal info) = Some (take (ci_nLocal info) s)"
    and chain: "ovfl_chain (usableSize pBt) bufs ps (drop (ci_nLocal info) s)"
    and link: "ps \<noteq> [] \<Longrightarrow> rdn body (ci_nLocal info) 4 = Some (sqlite3Put4byte (of_nat (hd ps)))"
    and range: "offset + amt \<le> n"
  shows "accessPayload pBt pPage (pager_of bufs) (cp @ cell_varints pPage n nKey @ body) offset amt
       = Some (SQLITE_OK, take amt (drop offset s))"
proof -
  let ?vs = "cell_varints pPage n nKey" and ?h = "length cp + length (cell_varints pPage n nKey)"
  let ?cell = "cp @ ?vs @ body"
  have h: "?h \<le> 18" using cell_varints_length [OF ok] cp by simp
  have us: "4 < usableSize pBt" using ok by (simp add: page_ok_def)
  define info' where "info' = payload_split pBt pPage ?h n nKey (if intKey pPage then n else 0)"
  have parse: "btreeParseCellPtr pBt pPage ?cell = Some info'"
    unfolding info'_def by (rule parse_header [OF ok cp n(1) k])
  have same: "ci_nLocal info' = ci_nLocal info" "ci_nHeader info' = ?h"
      "(if intKey pPage then 0 else unat (ci_nKey info')) + ci_nData info' = n"
    using k by (simp_all add: info'_def info) (simp add: payload_split_def Let_def)
  define l where "l = ci_nLocal info"
  have l: "l \<le> n" using cell_split_bounds(1) [OF ok parse] same(1) by (simp add: info'_def l_def)
  have lb: "l \<le> length body" using loc rdn_length l_def by fastforce
  have drop_h: "drop (?h + j) ?cell = drop j body" for j by simp
  define a where "a = (if offset < l then (if amt + offset > l then l - offset else amt) else 0)"
  define off where "off = (if offset < l then 0 else offset - l)"
  have bs: "(if offset < l then rdn ?cell (?h + offset) a else Some []) = Some (take a (drop offset s))"
  proof (cases "offset < l")
    case True
    have "rdn body (0 + offset) a = Some (take a (drop offset (take l s)))"
      by (rule rdn_sub [OF loc [folded l_def]]) (use True in \<open>auto simp: a_def\<close>)
    moreover have "rdn ?cell (?h + offset) a = rdn body offset a" by (simp add: rdn_def)
    moreover have "a \<le> l - offset" using True by (auto simp: a_def)
    ultimately show ?thesis using True by (simp add: drop_take)
  qed (simp add: a_def)
  have rest: "take a (drop offset s) @ take (amt - a) (drop off (drop l s)) = take amt (drop offset s)"
  proof (cases "offset < l \<and> amt + offset > l")
    case True
    then have "drop l s = drop a (drop offset s)" "off = 0" "a \<le> amt" by (auto simp: a_def off_def)
    then show ?thesis by (simp add: take_add [symmetric] del: drop_drop)
  qed (use l in \<open>auto simp: a_def off_def\<close>)
  have eq: "accessPayload pBt pPage (pager_of bufs) ?cell offset amt =
     (if amt - a > 0 then do {
        nextPage \<leftarrow> sqlite3Get4byte (drop (?h + l) ?cell);
        (rc, rest) \<leftarrow> access_loop (pager_of bufs) (usableSize pBt - 4) off (amt - a) (unat nextPage);
        Some (rc, take a (drop offset s) @ rest) }
      else Some (SQLITE_OK, take a (drop offset s)))"
    unfolding accessPayload_def parse bind.bind_lunit Let_def same l_def [symmetric] a_def [symmetric] off_def [symmetric] bs
    using range lb by simp
  show ?thesis
  proof (cases "amt - a > 0")
    case True
    have "off + (amt - a) \<le> length (drop l s)" using range n(2) l by (auto simp: a_def off_def)
    note acc = access_loop_chain [OF chain [folded l_def] this us]
    have "drop l s \<noteq> []" using True range n(2) by (auto simp: a_def split: if_splits)
    then have "ps \<noteq> []" using ovfl_chain_Nil_iff [OF chain] by (simp add: l_def)
    then have "sqlite3Get4byte (drop (?h + l) ?cell) = Some (of_nat (hd (ps @ [0])))"
      unfolding drop_h using Get4byte_rdn [OF link] by (simp add: l_def)
    then show ?thesis
      using True acc rest unat_link [OF chain] by (simp add: eq)
  next
    case False
    then show ?thesis using rest by (simp add: eq)
  qed
qed

lemma header_write:
  assumes "bufs 0 = Some b0" and "c + length v1 + length v2 \<le> length b0"
  shows "do { bufs \<leftarrow> bwrite bufs 0 c v1; bwrite bufs 0 (c + length v1) v2 } =
     Some (bufs(0 \<mapsto> take c b0 @ (v1 @ v2) @ drop (c + length v1 + length v2) b0))"
  using assms by (simp add: bwrite_def blit_def add.assoc) (simp add: ac_simps)

lemma sint_small:
  assumes "unat (k::u64) < 2 ^ 31"
  shows "sint k = int (unat k)" and "sint (ucast k :: u32) = int (unat k)"
proof -
  have "int (unat k) < int (2 ^ 31)" using assms by (simp only: of_nat_less_iff)
  then have u: "uint k < 2 ^ 31" by simp
  then have st: "signed_take_bit n (uint k) = uint k" if "31 \<le> n" for n
    using that uint_ge_0 [of k] power_increasing [of 31 n "2::int"]
    by (intro signed_take_bit_int_eq_self) linarith+
  then show "sint k = int (unat k)" by (simp add: sint_uint)
  have "unat (ucast k :: u32) = unat k" using unat_ucast32 [of k] assms by simp
  then have "uint (ucast k :: u32) = uint k" by (metis of_nat_unat)
  then show "sint (ucast k :: u32) = int (unat k)"
    by (simp add: sint_uint [of "ucast k :: u32"] st)
qed

lemma fillInCell_unfold:
  assumes ok: "page_ok pBt pPage" and b0: "bufs 0 = Some b0" "18 \<le> length b0"
    and s: "s = cell_payload pPage pKey pData nZero" "length s < 2 ^ 31"
    and k: "\<not> intKey pPage \<Longrightarrow> unat nKey = length pKey"
  defines "vs \<equiv> cell_varints pPage (length s) nKey" and "c \<equiv> childPtrSize pPage"
  defines "info \<equiv> payload_split pBt pPage (c + length vs) (length s) nKey (if intKey pPage then length s else 0)"
    and "src \<equiv> if hasData pPage then pData else if intKey pPage then [] else pKey"
  shows "fillInCell pBt pPage alloc bufs pKey nKey pData nZero = do {
      (rc, bufs) \<leftarrow> fill_loop (usableSize pBt) alloc [] 0 (length s) (ci_nLocal info) src 0 (c + length vs)
         (0, ci_iOverflow info) (bufs(0 \<mapsto> take c b0 @ vs @ drop (c + length vs) b0));
      Some (rc, ci_nSize info, bufs) }"
    and "payload_stream (length s) src = s" and "length src \<le> length s"
proof -
  show "payload_stream (length s) src = s" and "length src \<le> length s"
    by (simp_all add: s cell_payload_def src_def payload_stream_def)
  let ?v1 = "if hasData pPage then sqlite3PutVarint (of_nat (length s)) else []"
  have c: "c = (if leaf pPage then 0 else 4)" using ok by (simp add: page_ok_def c_def)
  have vs: "vs = ?v1 @ sqlite3PutVarint nKey" by (simp add: vs_def cell_varints_def)
  have len: "c + length vs \<le> length b0" using cell_varints_length [OF ok, of "length s" nKey] b0(2) by (simp add: c_def vs_def)
  have w: "do { bufs \<leftarrow> bwrite bufs 0 c ?v1; bwrite bufs 0 (c + length ?v1) (sqlite3PutVarint nKey) }
      = Some (bufs(0 \<mapsto> take c b0 @ vs @ drop (c + length vs) b0))"
    using header_write [of bufs b0 c ?v1 "sqlite3PutVarint nKey"] b0(1) len by (simp add: vs add.assoc)
  have parse: "btreeParseCellPtr pBt pPage (take c b0 @ vs @ drop (c + length vs) b0) = Some info"
  proof -
    have cp: "length (take c b0) = childPtrSize pPage" using len by (simp add: c_def)
    have "length s < 2 ^ 32" using s(2) by simp
    moreover have "length s = 0" if "intKey pPage \<and> \<not> hasData pPage" using that s(1) by (simp add: cell_payload_def)
    moreover have "unat nKey = length s" if "\<not> intKey pPage"
      using that s(1) k ok by (simp add: cell_payload_def page_ok_def)
    ultimately have "btreeParseCellPtr pBt pPage (take c b0 @ cell_varints pPage (length s) nKey @ drop (c + length vs) b0) =
       Some (payload_split pBt pPage (length (take c b0) + length (cell_varints pPage (length s) nKey)) (length s) nKey
          (if intKey pPage then length s else 0))"
      by (rule parse_header [OF ok cp])
    then show ?thesis unfolding cp unfolding vs_def [symmetric] info_def c_def .
  qed
  from w obtain bufs1 where w1: "bwrite bufs 0 c ?v1 = Some bufs1"
      "bwrite bufs1 0 (c + length ?v1) (sqlite3PutVarint nKey) = Some (bufs(0 \<mapsto> take c b0 @ vs @ drop (c + length vs) b0))"
    by (auto simp: bind_eq_Some_conv)
  have key: "sint nKey = int (length pKey)" "sint (ucast nKey :: u32) = int (length pKey)" "length pKey < 2 ^ 31"
    if "\<not> intKey pPage"
  proof -
    have "\<not> hasData pPage" using that ok by (simp add: page_ok_def)
    then show "length pKey < 2 ^ 31" using s that by (simp add: cell_payload_def)
    then show "sint nKey = int (length pKey)" "sint (ucast nKey :: u32) = int (length pKey)"
      using sint_small [of nKey] k [OF that] by simp_all
  qed
  have dl: "length s = length pData + nZero" if "hasData pPage" using s that by (simp add: cell_payload_def)
  show "fillInCell pBt pPage alloc bufs pKey nKey pData nZero = do {
      (rc, bufs) \<leftarrow> fill_loop (usableSize pBt) alloc [] 0 (length s) (ci_nLocal info) src 0 (c + length vs)
         (0, ci_iOverflow info) (bufs(0 \<mapsto> take c b0 @ vs @ drop (c + length vs) b0));
      Some (rc, ci_nSize info, bufs) }"
  proof (cases "hasData pPage")
    case True
    then have "intKey pPage" using ok by (simp add: page_ok_def)
    with True w1 parse dl show ?thesis
      unfolding fillInCell_def by (simp add: c [symmetric] src_def vs add.assoc) (simp add: Let_def)
  next
    case False
    then show ?thesis
      using w1 parse key s(1)
      by (cases "intKey pPage") (simp_all add: fillInCell_def c [symmetric] src_def vs cell_payload_def, simp_all add: Let_def)
  qed
qed

lemma take_drop_split:
  assumes "rdn b 0 m = Some xs" and "m \<le> sz" and "sz \<le> length b"
  shows "take sz b @ rest = xs @ take (sz - m) (drop m b) @ rest"
proof -
  have "xs = take m b" using assms(1) by (simp add: rdn_def split: if_splits)
  then show ?thesis using take_add [of m "sz - m" b] assms(2) by simp
qed

lemma rdn_after:
  assumes "rdn b (m + i) n = Some ys" and "m + i + n \<le> sz" and "sz \<le> length b"
  shows "rdn (take (sz - m) (drop m b) @ rest) i n = Some ys"
  using assms by (auto simp: rdn_def min_def take_drop add.commute split: if_splits)

lemma fillInCell_correct:
  assumes ok: "page_ok pBt pPage" and b0: "bufs 0 = Some b0" "usableSize pBt \<le> length b0"
    and s: "s = cell_payload pPage pKey pData nZero" "length s < 2 ^ 31"
    and k: "\<not> intKey pPage \<Longrightarrow> unat nKey = length pKey"
    and ga: "good_alloc (usableSize pBt) alloc bufs 0 0 N" and cnt: "length s \<le> N * (usableSize pBt - 4)"
  shows "\<exists>sz bufs' cell. fillInCell pBt pPage alloc bufs pKey nKey pData nZero = Some (SQLITE_OK, sz, bufs') \<and>
     bufs' 0 = Some cell \<and> sz \<le> length cell \<and>
     (\<forall>rest. cellSizePtr pBt pPage (take sz cell @ rest) = Some sz \<and>
       (\<forall>offset amt. offset + amt \<le> length s \<longrightarrow>
          accessPayload pBt pPage (pager_of bufs') (take sz cell @ rest) offset amt
            = Some (SQLITE_OK, take amt (drop offset s))))"
proof -
  define vs where "vs = cell_varints pPage (length s) nKey"
  define c where "c = childPtrSize pPage"
  define h where "h = c + length vs"
  define info where "info = payload_split pBt pPage h (length s) nKey (if intKey pPage then length s else 0)"
  define src where "src = (if hasData pPage then pData else if intKey pPage then [] else pKey)"
  define b where "b = take c b0 @ vs @ drop h b0"
  have us: "480 \<le> usableSize pBt \<or> 39 \<le> usableSize pBt" "4 < usableSize pBt" "35 \<le> usableSize pBt"
    using ok by (auto simp: page_ok_def)
  have h18: "h \<le> 18" using cell_varints_length [OF ok, of "length s" nKey] by (simp add: h_def c_def vs_def)
  then have hb: "h \<le> length b0" using us b0(2) by simp
  have "18 \<le> length b0" using us b0(2) by simp
  note unf = fillInCell_unfold [where bufs = bufs, OF ok b0(1) this s k, folded vs_def c_def, folded h_def, folded info_def src_def b_def]
  have st: "payload_stream (length s) src = s" using unf(2) by (simp add: src_def)
  have lb: "length b = length b0" using hb by (simp add: b_def h_def)
  have parse: "btreeParseCellPtr pBt pPage (take c b0 @ vs @ rest) = Some info" for rest
  proof -
    have "length (take c b0) = childPtrSize pPage" using hb by (simp add: c_def h_def)
    from parse_header [OF ok this, of "length s" nKey rest] s k ok hb show ?thesis
      by (auto simp: cell_payload_def page_ok_def vs_def info_def h_def c_def)
  qed
  have cs: "cellSizePtr pBt pPage (take c b0 @ vs @ rest) = Some (ci_nSize info)" for rest
    by (rule cell_size_agrees [OF ok parse])
  note bd = cell_split_bounds [OF ok parse, unfolded info_def payload_split_sel, folded info_def]
  define l where "l = ci_nLocal info"
  have l: "l \<le> length s" "l + h \<le> ci_nSize info" "ci_nSize info \<le> length b" "l < length s \<Longrightarrow> ci_iOverflow info = h + l \<and> h + l + 4 \<le> ci_nSize info"
    using bd b0(2) lb h18 payload_split_exact [OF ok h18, of "length s" nKey "if intKey pPage then length s else 0"]
    by (auto simp: l_def info_def Let_def split: if_splits)
  let ?B = "bufs(0 \<mapsto> b)"
  have "\<exists>bufs' ps b1. fill_loop (usableSize pBt) alloc [] 0 (length s) l src 0 h (0, ci_iOverflow info) ?B = Some (SQLITE_OK, bufs')
     \<and> fill_post (usableSize pBt) alloc 0 N (payload_stream (length s) src) l 0 h (ci_iOverflow info) ?B b bufs' ps b1"
    by (rule fill_loop_correct) (use us unf(3) l lb b0(2) good_alloc_upd_cur [OF ga] cnt in auto)
  then obtain bufs' ps b1 where run: "fill_loop (usableSize pBt) alloc [] 0 (length s) l src 0 h (0, ci_iOverflow info) ?B = Some (SQLITE_OK, bufs')"
      and post: "fill_post (usableSize pBt) alloc 0 N s l 0 h (ci_iOverflow info) ?B b bufs' ps b1"
    unfolding st by blast
  note post = post [unfolded fill_post_def]
  have "rdn b1 0 h = rdn b 0 h" using post l by auto
  then have hd: "rdn b1 0 h = Some (take c b0 @ vs)" using hb by (simp add: rdn_def b_def h_def)
  have cell: "take (ci_nSize info) b1 @ rest = take c b0 @ vs @ take (ci_nSize info - h) (drop h b1) @ rest" for rest
    using take_drop_split [OF hd, of "ci_nSize info" rest] l post by simp
  have "accessPayload pBt pPage (pager_of bufs') (take (ci_nSize info) b1 @ rest) offset amt
      = Some (SQLITE_OK, take amt (drop offset s))" if "offset + amt \<le> length s" for rest offset amt
    unfolding cell
  proof (subst vs_def, rule access_cell [OF ok _ _ refl _ _ _ _ _ _ that])
    show "length (take c b0) = childPtrSize pPage" using hb by (simp add: c_def h_def)
    then show "info = payload_split pBt pPage (length (take c b0) + length (cell_varints pPage (length s) nKey)) (length s) nKey
        (if intKey pPage then length s else 0)"
      by (simp add: info_def h_def c_def vs_def)
    show "length s < 2 ^ 32" using s(2) by simp
    show "length s = 0" if "intKey pPage \<and> \<not> hasData pPage" using that s(1) by (simp add: cell_payload_def)
    show "unat nKey = length s" if "\<not> intKey pPage"
      using that s(1) k ok by (simp add: cell_payload_def page_ok_def)
    show "rdn (take (ci_nSize info - h) (drop h b1) @ rest) 0 (ci_nLocal info) = Some (take (ci_nLocal info) s)"
      using rdn_after [of b1 h 0 l _ "ci_nSize info" rest] post l by (simp add: l_def min_def add.commute)
    show "ovfl_chain (usableSize pBt) bufs' ps (drop (ci_nLocal info) s)" using post by (simp add: l_def)
    show "rdn (take (ci_nSize info - h) (drop h b1) @ rest) (ci_nLocal info) 4 = Some (sqlite3Put4byte (of_nat (hd ps)))"
      if "ps \<noteq> []"
    proof -
      have "l < length s" using that post ovfl_chain_Nil_iff [of "usableSize pBt" bufs' ps "drop l s"] by auto
      then show ?thesis using rdn_after [of b1 h l 4 _ "ci_nSize info" rest] post l that by (simp add: l_def)
    qed
  qed
  moreover have "cellSizePtr pBt pPage (take (ci_nSize info) b1 @ rest) = Some (ci_nSize info)" for rest
    unfolding cell by (rule cs)
  ultimately show ?thesis
    using unf(1) [of alloc] run post l by (simp add: l_def)
qed

section \<open>Properties\<close>

text \<open>
  C12. Round trip of a cell. On every kind of page that \<open>decodeFlags\<close> accepts and for every usable size
  that \<open>lockBtree\<close> accepts, \<open>fillInCell\<close> succeeds whenever the page allocator supplies enough pages; the
  first \<open>sz\<close> bytes of the buffer, copied anywhere, are a cell of size \<open>sz\<close>, and \<open>accessPayload\<close> on that
  copy returns every part of the payload exactly, through the overflow chain if there is one.
\<close>

theorem cell_roundtrip:
  assumes "decodeFlags (bt_limits pgsz usable) fb = Some pPage" and "480 \<le> usable" and "usable \<le> 65536"
    and "bufs 0 = Some b0" and "usable \<le> length b0"
    and "length (cell_payload pPage pKey pData nZero) < 2 ^ 31"
    and "\<not> intKey pPage \<Longrightarrow> unat nKey = length pKey"
    and "good_alloc usable alloc bufs 0 0 N"
    and "length (cell_payload pPage pKey pData nZero) \<le> N * (usable - 4)"
  shows "\<exists>sz bufs' cell.
     fillInCell (bt_limits pgsz usable) pPage alloc bufs pKey nKey pData nZero = Some (SQLITE_OK, sz, bufs') \<and>
     bufs' 0 = Some cell \<and> sz \<le> length cell \<and>
     (\<forall>rest. cellSizePtr (bt_limits pgsz usable) pPage (take sz cell @ rest) = Some sz \<and>
       (\<forall>offset amt. offset + amt \<le> length (cell_payload pPage pKey pData nZero) \<longrightarrow>
          accessPayload (bt_limits pgsz usable) pPage (pager_of bufs') (take sz cell @ rest) offset amt
            = Some (SQLITE_OK, take amt (drop offset (cell_payload pPage pKey pData nZero)))))"
proof -
  have us: "usableSize (bt_limits pgsz usable) = usable" by (simp add: bt_limits_def)
  note ok = decodeFlags_page_ok [OF assms(1-3)]
  show ?thesis
    by (rule fillInCell_correct [where N = N and bufs = bufs and ?b0.0 = b0, OF ok _ _ refl])
      (use assms us in simp_all)
qed

theorem cell_roundtrip_witness:
  "\<exists>sz bufs' cell.
     fillInCell (bt_limits 512 512) (the (decodeFlags (bt_limits 512 512) 13)) (\<lambda>k. Inr (k + 3)) (\<lambda>p. Some (replicate 512 0))
       [] 7 [1, 2, 3] 500 = Some (SQLITE_OK, sz, bufs') \<and>
     bufs' 0 = Some cell \<and>
     accessPayload (bt_limits 512 512) (the (decodeFlags (bt_limits 512 512) 13)) (pager_of bufs') (take sz cell) 1 3
       = Some (SQLITE_OK, [2, 3, 0])"
proof -
  let ?pg = "the (decodeFlags (bt_limits 512 512) 13)"
  have pg: "decodeFlags (bt_limits 512 512) 13 = Some ?pg" "hasData ?pg" "intKey ?pg"
    by (simp_all add: decodeFlags_eqs)
  define z where "z = replicate 500 (0::u8)"
  define b where "b = replicate 512 (0::u8)"
  have lz: "length z = 500" "length b = 512" by (simp_all add: z_def b_def)
  have pl: "cell_payload ?pg [] [1, 2, 3] 500 = 1 # 2 # 3 # z" using pg by (simp add: cell_payload_def z_def)
  have "good_alloc 512 (\<lambda>k. Inr (k + 3)) (\<lambda>p. Some b) 0 0 1" using lz by (simp add: good_alloc_def)
  note rt = cell_roundtrip [where bufs = "\<lambda>p. Some b", OF pg(1) _ _ _ _ _ _ this]
  obtain sz bufs' cell where r: "fillInCell (bt_limits 512 512) ?pg (\<lambda>k. Inr (k + 3)) (\<lambda>p. Some b) [] 7 [1, 2, 3] 500 = Some (SQLITE_OK, sz, bufs')"
      "bufs' 0 = Some cell"
      "\<And>rest offset amt. offset + amt \<le> length (1 # 2 # 3 # z) \<Longrightarrow>
         accessPayload (bt_limits 512 512) ?pg (pager_of bufs') (take sz cell @ rest) offset amt
            = Some (SQLITE_OK, take amt (drop offset (1 # 2 # 3 # z)))"
    using rt [of b "[]" "[1, 2, 3]" 500 7] pg(3) lz unfolding pl by auto
  have "take 1 z = [0]" by (simp add: z_def)
  then have "take 3 (drop 1 (1 # 2 # 3 # z)) = [2, 3, 0]" by (simp add: numeral_eq_Suc)
  with r(3) [of 1 3 "[]"] lz have "accessPayload (bt_limits 512 512) ?pg (pager_of bufs') (take sz cell) 1 3 = Some (SQLITE_OK, [2, 3, 0])"
    by simp
  with r(1,2) show ?thesis unfolding b_def by blast
qed

text \<open>
  C13. The assertion of \<open>cellSizePtr\<close>: on a page that \<open>decodeFlags\<close> accepts, the quick size computation
  agrees with the full parse of the cell, and no 16-bit cast truncates.
\<close>

theorem cell_size_equals_parse:
  assumes "decodeFlags (bt_limits pgsz usable) fb = Some pPage" and "480 \<le> usable" and "usable \<le> 65536"
    and "btreeParseCellPtr (bt_limits pgsz usable) pPage pCell = Some info"
  shows "cellSizePtr (bt_limits pgsz usable) pPage pCell = Some (ci_nSize info)"
  by (rule cell_size_agrees [OF decodeFlags_page_ok [OF assms(1-3)] assms(4)])

theorem cell_size_equals_parse_witness:
  "cellSizePtr (bt_limits 1024 1000) (the (decodeFlags (bt_limits 1024 1000) 10)) [0x88, 0x00, 1, 2]
     = Some (ci_nSize (the (btreeParseCellPtr (bt_limits 1024 1000) (the (decodeFlags (bt_limits 1024 1000) 10)) [0x88, 0x00, 1, 2])))"
proof -
  let ?pg = "the (decodeFlags (bt_limits 1024 1000) 10)"
  have pg: "decodeFlags (bt_limits 1024 1000) 10 = Some ?pg" "\<not> intKey ?pg" "childPtrSize ?pg = 0"
    by (simp_all add: decodeFlags_eqs)
  have "sqlite3GetVarint32 [0x88, 0x00, 1, 2] \<noteq> None" by (simp add: GetVarint32_spec getVarint_spec bit_simps)
  then obtain info where "btreeParseCellPtr (bt_limits 1024 1000) ?pg [0x88, 0x00, 1, 2] = Some info"
    using pg by (auto simp: btreeParseCellPtr_def)
  then show ?thesis using cell_size_equals_parse [OF pg(1)] by simp
qed

text \<open>
  C14. How a payload is split. At most \<open>maxLocal\<close> bytes stay on the page and the cell leaves at least 13
  bytes of the usable size free; a cell that spills keeps at least \<open>minLocal\<close> bytes, stores the page
  number right after them, and unless it keeps exactly \<open>minLocal\<close> bytes it fills its overflow pages
  completely.
\<close>

theorem overflow_split:
  assumes "decodeFlags (bt_limits pgsz usable) fb = Some pPage" and "480 \<le> usable" and "usable \<le> 65536"
    and "btreeParseCellPtr (bt_limits pgsz usable) pPage pCell = Some info"
  shows "ci_nLocal info \<le> min (ci_nPayload info) (maxLocal pPage) \<and> 4 \<le> ci_nSize info \<and> ci_nSize info + 13 \<le> usable \<and>
     (ci_iOverflow info = 0 \<longleftrightarrow> ci_nLocal info = ci_nPayload info) \<and>
     (ci_nLocal info < ci_nPayload info \<longrightarrow>
        minLocal pPage \<le> ci_nLocal info \<and> ci_iOverflow info = ci_nHeader info + ci_nLocal info \<and>
        ci_nSize info = ci_iOverflow info + 4 \<and>
        (ci_nLocal info = minLocal pPage \<or> (usable - 4) dvd (ci_nPayload info - ci_nLocal info)))"
proof -
  have us: "usableSize (bt_limits pgsz usable) = usable" by (simp add: bt_limits_def)
  show ?thesis
    using cell_split_bounds [OF decodeFlags_page_ok [OF assms(1-3)] assms(4)] us by simp
qed

theorem overflow_split_witness:
  "ci_nLocal (the (btreeParseCellPtr (bt_limits 512 512) (the (decodeFlags (bt_limits 512 512) 10)) [0x88, 0x00, 1, 2])) = 39"
proof -
  let ?pg = "the (decodeFlags (bt_limits 512 512) 10)"
  have pg: "decodeFlags (bt_limits 512 512) 10 = Some ?pg" "?pg = \<lparr>leaf = True, intKey = False, hasData = False, childPtrSize = 0, maxLocal = 102, minLocal = 39\<rparr>"
    by (simp_all add: decodeFlags_eqs bt_limits_def u16cast_def)
  have v: "sqlite3GetVarint32 [0x88, 0x00, 1, 2] = Some (2, 1024)"
    by (simp add: GetVarint32_spec getVarint_spec bit_simps saturate32_def)
  let ?info = "payload_split (bt_limits 512 512) ?pg 2 1024 1024 0"
  have p: "btreeParseCellPtr (bt_limits 512 512) ?pg [0x88, 0x00, 1, 2] = Some ?info"
    using pg(2) v by (simp add: btreeParseCellPtr_def)
  from overflow_split [OF pg(1) _ _ p] have "ci_nLocal ?info \<le> 102" using pg(2) by simp
  then have "ci_nLocal ?info = 39" unfolding pg(2)
    by (simp add: payload_split_def spill_local_def bt_limits_def u16cast_def Let_def)
  with p show ?thesis by simp
qed

text \<open>
  C15. \<open>decodeFlags\<close> accepts exactly the four page types of the file format; any other flag byte is
  reported as corruption, and an accepted page has consistent fields.
\<close>

theorem decodeFlags_exact:
  "(\<exists>pPage. decodeFlags pBt fb = Some pPage) \<longleftrightarrow> fb \<in> {2, 5, 10, 13}"
  using decodeFlags_cases [of pBt fb] decodeFlags_eqs [of pBt] by auto

end
