(* ===== verification/Btree_Page.thy ===== *)
theory Btree_Page
  imports Btree_Cell "HOL-Library.Multiset"
begin

text \<open>
  btree.c, the layout of a b-tree page: the cell pointer array, the cell content area, the chain of
  free blocks and the fragmented bytes. Modelled are \<open>defragmentPage\<close>, \<open>allocateSpace\<close>,
  \<open>freeSpace\<close>, \<open>btreeInitPage\<close>, \<open>zeroPage\<close>, \<open>dropCell\<close> and \<open>insertCell\<close> on the bytes of the page.
  The contract they implement is that of a list of cells: \<open>insertCell\<close> inserts into the list,
  \<open>dropCell\<close> deletes from it, defragmentation leaves it alone, and the number of free bytes kept in
  the page object is always the one that \<open>btreeInitPage\<close> computes from the bytes.
\<close>

section \<open>The page\<close>

text \<open>The fields of \<open>MemPage\<close>; \<open>pg\<close> holds those that \<open>decodeFlags\<close> sets, \<open>aOvfl\<close> the pairs of
  \<open>aiOvfl\<close> and \<open>apOvfl\<close>.\<close>

record bt_page =
  aData :: "u8 list"
  isInit :: bool
  hdrOffset :: nat
  cellOffset :: nat
  nFree :: nat
  nCell :: nat
  pg :: mem_page
  aOvfl :: "(nat \<times> u8 list) list"

definition get2byte :: "u8 list \<Rightarrow> nat \<Rightarrow> nat option" where
  "get2byte d i = do { a \<leftarrow> rd d i; b \<leftarrow> rd d (i + 1); Some (unat a * 256 + unat b) }"

definition get2byteNotZero :: "u8 list \<Rightarrow> nat \<Rightarrow> nat option" where
  "get2byteNotZero d i = map_option (\<lambda>v. if v = 0 then 65536 else v) (get2byte d i)"

definition put2byte :: "u8 list \<Rightarrow> nat \<Rightarrow> nat \<Rightarrow> u8 list option" where
  "put2byte d i v = blit d i [of_nat (v div 256), of_nat v]"

definition MX_CELL :: "bt_shared \<Rightarrow> nat" where
  "MX_CELL pBt = (pageSize pBt - 8) div 6"

section \<open>Defragmentation\<close>

text \<open>The loop over the cell pointers; \<open>n\<close> cells are left, the next one is number \<open>i\<close>.\<close>

fun defrag_loop :: "bt_shared \<Rightarrow> mem_page \<Rightarrow> u8 list \<Rightarrow> nat \<Rightarrow> nat \<Rightarrow> nat \<Rightarrow> nat \<Rightarrow> nat \<Rightarrow> u8 list \<Rightarrow>
    (rc \<times> nat \<times> u8 list) option" where
  "defrag_loop pBt pPage temp cOff iCellFirst i 0 cbrk data = Some (SQLITE_OK, cbrk, data)"
| "defrag_loop pBt pPage temp cOff iCellFirst i (Suc n) cbrk data = do {
     pc \<leftarrow> get2byte data (cOff + i * 2);
     if pc < iCellFirst \<or> pc > usableSize pBt - 4 then Some (SQLITE_CORRUPT, cbrk, data)
     else do {
       size \<leftarrow> cellSizePtr pBt pPage (drop pc temp);
       if cbrk < iCellFirst + size \<or> pc + size > usableSize pBt then Some (SQLITE_CORRUPT, cbrk, data)
       else do {
         let cbrk = cbrk - size;
         c \<leftarrow> rdn temp pc size;
         data \<leftarrow> blit data cbrk c;
         data \<leftarrow> put2byte data (cOff + i * 2) cbrk;
         defrag_loop pBt pPage temp cOff iCellFirst (i + 1) n cbrk data } } }"

text \<open>\<open>temp\<close> is the content of the pager's temporary page before the call.\<close>

definition defragmentPage :: "bt_shared \<Rightarrow> u8 list \<Rightarrow> bt_page \<Rightarrow> (rc \<times> bt_page) option" where
  "defragmentPage pBt temp p = do {
     let data = aData p;
     let hdr = hdrOffset p;
     cbrk \<leftarrow> get2byte data (hdr + 5);
     c \<leftarrow> rdn data cbrk (usableSize pBt - cbrk);
     temp \<leftarrow> blit temp cbrk c;
     let iCellFirst = cellOffset p + 2 * nCell p;
     (rc, cbrk, data) \<leftarrow> defrag_loop pBt (pg p) temp (cellOffset p) iCellFirst 0 (nCell p) (usableSize pBt) data;
     if rc \<noteq> SQLITE_OK then Some (rc, p\<lparr>aData := data\<rparr>)
     else do {
       data \<leftarrow> put2byte data (hdr + 5) cbrk;
       data \<leftarrow> wr data (hdr + 1) 0;
       data \<leftarrow> wr data (hdr + 2) 0;
       data \<leftarrow> wr data (hdr + 7) 0;
       data \<leftarrow> blit data iCellFirst (replicate (cbrk - iCellFirst) 0);
       Some (if cbrk - iCellFirst \<noteq> nFree p then SQLITE_CORRUPT else SQLITE_OK, p\<lparr>aData := data\<rparr>) } }"

section \<open>Allocation\<close>

datatype free_slot = Slot_Corrupt | Slot_None | Slot nat "u8 list"

text \<open>The search of \<open>allocateSpace\<close> along the chain of free blocks.\<close>

function alloc_search :: "nat \<Rightarrow> nat \<Rightarrow> nat \<Rightarrow> nat \<Rightarrow> nat \<Rightarrow> u8 list \<Rightarrow> free_slot option" where
  "alloc_search usable hdr nByte nFrag addr data = do {
     pc \<leftarrow> get2byte data addr;
     if pc = 0 then Some Slot_None
     else if pc > usable - 4 \<or> pc < addr + 4 then Some Slot_Corrupt
     else do {
       size \<leftarrow> get2byte data (pc + 2);
       if size \<ge> nByte then do {
         let x = size - nByte;
         if x < 4 then do {
           b \<leftarrow> rdn data pc 2;
           data \<leftarrow> blit data addr b;
           data \<leftarrow> wr data (hdr + 7) (of_nat (nFrag + x));
           Some (Slot (pc + x) data) }
         else if size + pc > usable then Some Slot_Corrupt
         else do {
           data \<leftarrow> put2byte data (pc + 2) x;
           Some (Slot (pc + x) data) } }
       else alloc_search usable hdr nByte nFrag pc data } }"
  by pat_completeness auto
termination
  by (relation "measure (\<lambda>(usable, hdr, nByte, nFrag, addr, data). usable - addr)") auto

declare alloc_search.simps [simp del]

text \<open>The second half of \<open>allocateSpace\<close>: the allocation from the gap.\<close>

definition alloc_gap :: "bt_shared \<Rightarrow> u8 list \<Rightarrow> nat \<Rightarrow> nat \<Rightarrow> nat \<Rightarrow> bt_page \<Rightarrow> (rc \<times> nat \<times> bt_page) option" where
  "alloc_gap pBt temp nByte gap ctop p = do {
     (rc, ctop, p) \<leftarrow> (if gap + 2 + nByte > ctop then do {
          (rc, p) \<leftarrow> defragmentPage pBt temp p;
          ctop \<leftarrow> get2byteNotZero (aData p) (hdrOffset p + 5);
          Some (rc, ctop, p) }
        else Some (SQLITE_OK, ctop, p));
     if rc \<noteq> SQLITE_OK then Some (rc, 0, p)
     else if ctop < nByte then None
     else do {
       data \<leftarrow> put2byte (aData p) (hdrOffset p + 5) (ctop - nByte);
       Some (SQLITE_OK, ctop - nByte, p\<lparr>aData := data\<rparr>) } }"

definition allocateSpace :: "bt_shared \<Rightarrow> u8 list \<Rightarrow> bt_page \<Rightarrow> nat \<Rightarrow> (rc \<times> nat \<times> bt_page) option" where
  "allocateSpace pBt temp p nByte = do {
     let hdr = hdrOffset p;
     b \<leftarrow> rd (aData p) (hdr + 7);
     let nFrag = unat b;
     let gap = cellOffset p + 2 * nCell p;
     ctop \<leftarrow> get2byteNotZero (aData p) (hdr + 5);
     if gap > ctop then Some (SQLITE_CORRUPT, 0, p)
     else if nFrag \<ge> 60 then do {
       (rc, p) \<leftarrow> defragmentPage pBt temp p;
       if rc \<noteq> SQLITE_OK then Some (rc, 0, p)
       else do {
         ctop \<leftarrow> get2byteNotZero (aData p) (hdr + 5);
         alloc_gap pBt temp nByte gap ctop p } }
     else if gap + 2 \<le> ctop then do {
       r \<leftarrow> alloc_search (usableSize pBt) hdr nByte nFrag (hdr + 1) (aData p);
       (case r of
          Slot_Corrupt \<Rightarrow> Some (SQLITE_CORRUPT, 0, p)
        | Slot idx data \<Rightarrow> Some (SQLITE_OK, idx, p\<lparr>aData := data\<rparr>)
        | Slot_None \<Rightarrow> alloc_gap pBt temp nByte gap ctop p) }
     else alloc_gap pBt temp nByte gap ctop p }"

section \<open>Freeing\<close>

text \<open>The first loop of \<open>freeSpace\<close> finds the place in the ascending chain: the address of the pointer
  to be changed and its value, or \<open>Inl\<close> when the chain is found corrupt.\<close>

function free_find :: "nat \<Rightarrow> nat \<Rightarrow> u8 list \<Rightarrow> (unit + nat \<times> nat) option" where
  "free_find start addr data = do {
     pbegin \<leftarrow> get2byte data addr;
     if pbegin < start \<and> pbegin > 0 then
       (if pbegin < addr + 4 then Some (Inl ()) else free_find start pbegin data)
     else Some (Inr (addr, pbegin)) }"
  by pat_completeness auto
termination
  by (relation "measure (\<lambda>(start, addr, data). start - addr)") auto

declare free_find.simps [simp del]

text \<open>
  The second loop joins adjacent free blocks. On a corrupt page it can run forever (a free block of
  size 0 that points to itself), so it is a partial function.
\<close>

partial_function (option) coalesce :: "nat \<Rightarrow> nat \<Rightarrow> u8 list \<Rightarrow> (rc \<times> u8 list) option" where
  "coalesce hdr addr data = do {
     pbegin \<leftarrow> get2byte data addr;
     if pbegin > 0 then do {
       pnext \<leftarrow> get2byte data pbegin;
       psize \<leftarrow> get2byte data (pbegin + 2);
       if pbegin + psize + 3 \<ge> pnext \<and> pnext > 0 then do {
         b \<leftarrow> rd data (hdr + 7);
         if pnext < pbegin + psize \<or> pnext - (pbegin + psize) > unat b then Some (SQLITE_CORRUPT, data)
         else do {
           data \<leftarrow> wr data (hdr + 7) (b - of_nat (pnext - (pbegin + psize)));
           x \<leftarrow> get2byte data pnext;
           data \<leftarrow> put2byte data pbegin x;
           s \<leftarrow> get2byte data (pnext + 2);
           data \<leftarrow> put2byte data (pbegin + 2) (pnext + s - pbegin);
           coalesce hdr addr data } }
       else coalesce hdr pbegin data }
     else Some (SQLITE_OK, data) }"

declare coalesce.simps [code]

text \<open>The last step of \<open>freeSpace\<close>: a free block at the start of the content area joins the gap.\<close>

definition free_top :: "nat \<Rightarrow> u8 list \<Rightarrow> u8 list option" where
  "free_top hdr data = do {
     a \<leftarrow> rdn data (hdr + 1) 2;
     b \<leftarrow> rdn data (hdr + 5) 2;
     if a = b then do {
       pbegin \<leftarrow> get2byte data (hdr + 1);
       c \<leftarrow> rdn data pbegin 2;
       data \<leftarrow> blit data (hdr + 1) c;
       t \<leftarrow> get2byte data (hdr + 5);
       s \<leftarrow> get2byte data (pbegin + 2);
       put2byte data (hdr + 5) (t + s) }
     else Some data }"

definition freeSpace :: "bt_shared \<Rightarrow> bool \<Rightarrow> bt_page \<Rightarrow> nat \<Rightarrow> nat \<Rightarrow> (rc \<times> bt_page) option" where
  "freeSpace pBt secure_delete p start sz = do {
     let hdr = hdrOffset p;
     data \<leftarrow> (if secure_delete then blit (aData p) start (replicate sz 0) else Some (aData p));
     r \<leftarrow> free_find start (hdr + 1) data;
     (case r of
        Inl _ \<Rightarrow> Some (SQLITE_CORRUPT, p\<lparr>aData := data\<rparr>)
      | Inr (addr, pbegin) \<Rightarrow>
          if pbegin > usableSize pBt - 4 then Some (SQLITE_CORRUPT, p\<lparr>aData := data\<rparr>)
          else do {
            data \<leftarrow> put2byte data addr start;
            data \<leftarrow> put2byte data start pbegin;
            data \<leftarrow> put2byte data (start + 2) sz;
            let p = p\<lparr>nFree := u16cast (nFree p + sz)\<rparr>;
            (rc, data) \<leftarrow> coalesce hdr (hdr + 1) data;
            if rc \<noteq> SQLITE_OK then Some (rc, p\<lparr>aData := data\<rparr>)
            else do {
              data \<leftarrow> free_top hdr data;
              Some (SQLITE_OK, p\<lparr>aData := data\<rparr>) } }) }"

section \<open>Initialising a page object\<close>

text \<open>The loop of \<open>btreeInitPage\<close> over the free blocks; \<open>None\<close> inside is corruption.\<close>

function init_free_loop :: "nat \<Rightarrow> nat \<Rightarrow> nat \<Rightarrow> nat \<Rightarrow> u8 list \<Rightarrow> nat option option" where
  "init_free_loop usable iCellFirst nFree0 pc data =
     (if pc = 0 then Some (Some nFree0)
      else if pc < iCellFirst \<or> pc > usable - 4 then Some None
      else do {
        next \<leftarrow> get2byte data pc;
        size \<leftarrow> get2byte data (pc + 2);
        if (next > 0 \<and> next \<le> pc + size + 3) \<or> pc + size > usable then Some None
        else init_free_loop usable iCellFirst (nFree0 + size) next data })"
  by pat_completeness auto
termination
  by (relation "measure (\<lambda>(usable, iCellFirst, nFree0, pc, data). if pc = 0 then 0 else Suc usable - pc)") auto

declare init_free_loop.simps [simp del]

definition btreeInitPage :: "bt_shared \<Rightarrow> bt_page \<Rightarrow> (rc \<times> bt_page) option" where
  "btreeInitPage pBt p =
     (if isInit p then Some (SQLITE_OK, p)
      else do {
        let hdr = hdrOffset p;
        let data = aData p;
        fb \<leftarrow> rd data hdr;
        (case decodeFlags pBt fb of
           None \<Rightarrow> Some (SQLITE_CORRUPT, p)
         | Some m \<Rightarrow> do {
             let cOff = hdr + 12 - (if leaf m then 4 else 0);
             ctop \<leftarrow> get2byteNotZero data (hdr + 5);
             n \<leftarrow> get2byte data (hdr + 3);
             let p = p\<lparr>pg := m, aOvfl := [], cellOffset := cOff, nCell := n\<rparr>;
             if n > MX_CELL pBt then Some (SQLITE_CORRUPT, p)
             else do {
               let iCellFirst = cOff + 2 * n;
               pc \<leftarrow> get2byte data (hdr + 1);
               frag \<leftarrow> rd data (hdr + 7);
               r \<leftarrow> init_free_loop (usableSize pBt) iCellFirst (unat frag + ctop) pc data;
               (case r of
                  None \<Rightarrow> Some (SQLITE_CORRUPT, p)
                | Some nFree0 \<Rightarrow>
                    if nFree0 > usableSize pBt then Some (SQLITE_CORRUPT, p)
                    else Some (SQLITE_OK, p\<lparr>nFree := nat ((int nFree0 - int iCellFirst) mod 65536), isInit := True\<rparr>)) } }) })"

definition zeroPage :: "bt_shared \<Rightarrow> bool \<Rightarrow> u8 \<Rightarrow> bt_page \<Rightarrow> bt_page option" where
  "zeroPage pBt secure_delete flags p = do {
     let hdr = hdrOffset p;
     data \<leftarrow> (if secure_delete then blit (aData p) hdr (replicate (usableSize pBt - hdr) 0) else Some (aData p));
     data \<leftarrow> wr data hdr flags;
     let first = hdr + 8 + 4 * (if flags AND 8 = 0 then 1 else 0);
     data \<leftarrow> blit data (hdr + 1) (replicate 4 0);
     data \<leftarrow> wr data (hdr + 7) 0;
     data \<leftarrow> put2byte data (hdr + 5) (usableSize pBt);
     Some (p\<lparr>aData := data, nFree := u16cast (usableSize pBt - first),
       pg := (case decodeFlags pBt flags of None \<Rightarrow> pg p | Some m \<Rightarrow> m),
       cellOffset := first, aOvfl := [], nCell := 0, isInit := True\<rparr>) }"

section \<open>Removing and inserting a cell\<close>

text \<open>The two loops that move cell pointers by one position; \<open>n\<close> pointers are moved.\<close>

fun shift_down :: "nat \<Rightarrow> nat \<Rightarrow> u8 list \<Rightarrow> u8 list option" where
  "shift_down 0 ptr data = Some data"
| "shift_down (Suc n) ptr data = do {
     b \<leftarrow> rdn data (ptr + 2) 2;
     data \<leftarrow> blit data ptr b;
     shift_down n (ptr + 2) data }"

fun shift_up :: "nat \<Rightarrow> nat \<Rightarrow> u8 list \<Rightarrow> u8 list option" where
  "shift_up 0 ptr data = Some data"
| "shift_up (Suc n) ptr data = do {
     b \<leftarrow> rdn data (ptr - 2) 2;
     data \<leftarrow> blit data ptr b;
     shift_up n (ptr - 2) data }"

definition dropCell :: "bt_shared \<Rightarrow> bool \<Rightarrow> bt_page \<Rightarrow> nat \<Rightarrow> nat \<Rightarrow> rc \<Rightarrow> (rc \<times> bt_page) option" where
  "dropCell pBt secure_delete p idx sz rc =
     (if rc \<noteq> SQLITE_OK then Some (rc, p)
      else do {
        let ptr = cellOffset p + 2 * idx;
        pc \<leftarrow> get2byte (aData p) ptr;
        let hdr = hdrOffset p;
        ctop \<leftarrow> get2byte (aData p) (hdr + 5);
        if pc < ctop \<or> pc + sz > usableSize pBt then Some (SQLITE_CORRUPT, p)
        else do {
          (rc, p) \<leftarrow> freeSpace pBt secure_delete p pc sz;
          if rc \<noteq> SQLITE_OK then Some (rc, p)
          else do {
            data \<leftarrow> shift_down (nCell p - 1 - idx) ptr (aData p);
            data \<leftarrow> put2byte data (hdr + 3) (nCell p - 1);
            Some (SQLITE_OK, p\<lparr>aData := data, nCell := nCell p - 1, nFree := u16cast (nFree p + 2)\<rparr>) } } })"

text \<open>\<open>prc\<close> is the result of \<open>sqlite3PagerWrite\<close>. The content that is stored replaces the first four
  bytes by the child pointer if there is one.\<close>

definition cell_content :: "u8 list \<Rightarrow> nat \<Rightarrow> nat \<Rightarrow> u8 list" where
  "cell_content pCell sz iChild =
     (if iChild \<noteq> 0 then sqlite3Put4byte (of_nat iChild) @ take (sz - 4) (drop 4 pCell) else take sz pCell)"

definition insertCell :: "bt_shared \<Rightarrow> u8 list \<Rightarrow> rc \<Rightarrow> bt_page \<Rightarrow> nat \<Rightarrow> u8 list \<Rightarrow> nat \<Rightarrow> nat \<Rightarrow> rc \<Rightarrow> (rc \<times> bt_page) option" where
  "insertCell pBt temp prc p i pCell sz iChild rc =
     (if rc \<noteq> SQLITE_OK then Some (rc, p)
      else if aOvfl p \<noteq> [] \<or> sz + 2 > nFree p then
        Some (SQLITE_OK, p\<lparr>aOvfl := aOvfl p @ [(i, cell_content pCell sz iChild)]\<rparr>)
      else if prc \<noteq> SQLITE_OK then Some (prc, p)
      else do {
        let end = cellOffset p + 2 * nCell p;
        let ins = cellOffset p + 2 * i;
        (rc, idx, p) \<leftarrow> allocateSpace pBt temp p sz;
        if rc \<noteq> SQLITE_OK then Some (rc, p)
        else do {
          let p = p\<lparr>nCell := nCell p + 1, nFree := nFree p - (2 + sz)\<rparr>;
          data \<leftarrow> blit (aData p) idx (cell_content pCell sz iChild);
          data \<leftarrow> shift_up (nCell p - 1 - i) end data;
          data \<leftarrow> put2byte data ins idx;
          data \<leftarrow> put2byte data (hdrOffset p + 3) (nCell p);
          Some (SQLITE_OK, p\<lparr>aData := data\<rparr>) } })"

section \<open>Reasoning about bytes\<close>

text \<open>\<open>chg d d' S\<close>: the two buffers differ at most inside \<open>S\<close>.\<close>

definition chg :: "u8 list \<Rightarrow> u8 list \<Rightarrow> nat set \<Rightarrow> bool" where
  "chg d d' S \<longleftrightarrow> length d' = length d \<and> (\<forall>i<length d. i \<notin> S \<longrightarrow> d' ! i = d ! i)"

lemma chg_refl [simp]: "chg d d S"
  by (simp add: chg_def)

lemma chg_length: "chg d d' S \<Longrightarrow> length d' = length d"
  by (simp add: chg_def)

lemma chg_trans: "chg d d' S \<Longrightarrow> chg d' d'' T \<Longrightarrow> S \<union> T \<subseteq> U \<Longrightarrow> chg d d'' U"
  unfolding chg_def by (metis UnCI subset_iff)

lemma chg_mono: "chg d d' S \<Longrightarrow> S \<subseteq> T \<Longrightarrow> chg d d' T"
  by (auto simp: chg_def)

lemma rd_chg: "chg d d' S \<Longrightarrow> i \<notin> S \<Longrightarrow> rd d' i = rd d i"
  by (auto simp: chg_def rd_def)

lemma get2byte_chg: "chg d d' S \<Longrightarrow> i \<notin> S \<Longrightarrow> i + 1 \<notin> S \<Longrightarrow> get2byte d' i = get2byte d i"
  using rd_chg [of d d' S] by (simp add: get2byte_def)

lemma rdn_chg:
  assumes "chg d d' S" and "{i..<i + n} \<inter> S = {}"
  shows "rdn d' i n = rdn d i n"
proof -
  have "take n (drop i d') = take n (drop i d)" if "i + n \<le> length d"
  proof (rule nth_equalityI)
    show "length (take n (drop i d')) = length (take n (drop i d))" using assms by (simp add: chg_def)
    fix k assume "k < length (take n (drop i d'))"
    then have "k < n" "i + k < length d" using that assms by (auto simp: chg_def)
    moreover
    have "i + k \<in> {i..<i + n}" using \<open>k < n\<close> by simp
    then have "i + k \<notin> S" using assms(2) by blast
    ultimately show "take n (drop i d') ! k = take n (drop i d) ! k" using assms(1) that by (simp add: chg_def)
  qed
  then show ?thesis using assms(1) by (simp add: rdn_def chg_def)
qed

lemma blit_chg: "blit d i xs = Some d' \<Longrightarrow> chg d d' {i..<i + length xs}"
  using blit_length [of d i xs d'] blit_nth [of d i xs d'] by (auto simp: chg_def)

lemma wr_chg: "wr d i x = Some d' \<Longrightarrow> chg d d' {i}"
  by (auto simp: chg_def wr_def split: if_splits)

lemma wr_ex: "i < length d \<Longrightarrow> \<exists>d'. wr d i x = Some d' \<and> chg d d' {i} \<and> rd d' i = Some x"
  by (auto simp: chg_def wr_def rd_def)

lemma blit_ex:
  "i + length xs \<le> length d \<Longrightarrow>
   \<exists>d'. blit d i xs = Some d' \<and> chg d d' {i..<i + length xs} \<and> rdn d' i (length xs) = Some xs"
  using blit_in_range [of i xs d] blit_chg rdn_blit_same by blast

lemma get2byte_less: "get2byte d i = Some v \<Longrightarrow> v < 65536"
proof -
  assume "get2byte d i = Some v"
  then obtain a b :: u8 where "v = unat a * 256 + unat b" by (auto simp: get2byte_def bind_eq_Some_conv)
  with unat_u8_less [of a] unat_u8_less [of b] show ?thesis by linarith
qed

lemma get2byte_rdn: "get2byte d i = map_option (\<lambda>bs. unat (bs ! 0) * 256 + unat (bs ! 1)) (rdn d i 2)"
  by (auto simp: get2byte_def rd_def rdn_def)

lemma unat_of_nat_u8: "unat (of_nat n :: u8) = n mod 256"
  by (simp add: unsigned_of_nat take_bit_eq_mod)

lemma put2byte_ex:
  assumes "i + 2 \<le> length d"
  shows "\<exists>d'. put2byte d i v = Some d' \<and> chg d d' {i, i + 1} \<and> get2byte d' i = Some (v mod 65536)"
proof -
  obtain d' where d': "put2byte d i v = Some d'" "chg d d' {i..<i + 2}"
      "rdn d' i 2 = Some [of_nat (v div 256), of_nat v]"
    using blit_ex [of i "[of_nat (v div 256), of_nat v]" d] assms by (auto simp: put2byte_def numeral_2_eq_2)
  have "v div 256 mod 256 * 256 + v mod 256 = v mod 65536"
    using mod_mult2_eq [of v 256 256] by simp
  then have "get2byte d' i = Some (v mod 65536)"
    unfolding get2byte_rdn d'(3) by (simp add: unat_of_nat_u8)
  moreover have "{i..<i + 2} = {i, i + 1}" by auto
  ultimately show ?thesis using d' by auto
qed

lemma get2byte_in_range: "i + 2 \<le> length d \<Longrightarrow> \<exists>v. get2byte d i = Some v"
  by (simp add: get2byte_def rd_def)

lemma get2byte_bound: "get2byte d i = Some v \<Longrightarrow> i + 2 \<le> length d"
  by (auto simp: get2byte_def rd_def bind_eq_Some_conv split: if_splits)

lemma rdn2_put: "rdn d i 2 = Some b \<Longrightarrow> blit d' j b = Some d'' \<Longrightarrow> get2byte d'' j = get2byte d i"
  using rdn_blit_same [of d' j b d''] rdn_length [of d i 2 b] by (simp add: get2byte_rdn)

section \<open>Disjoint intervals\<close>

type_synonym ival = "nat \<times> nat"

definition apart :: "ival \<Rightarrow> ival \<Rightarrow> bool" where
  "apart a b \<longleftrightarrow> fst a + snd a \<le> fst b \<or> fst b + snd b \<le> fst a"

definition span :: "ival \<Rightarrow> nat set" where
  "span a = {fst a..<fst a + snd a}"

lemma apart_sym: "apart a b \<longleftrightarrow> apart b a"
  by (auto simp: apart_def)

definition disjs :: "ival list \<Rightarrow> bool" where
  "disjs is \<longleftrightarrow> sorted_wrt apart is"

lemma disjs_Cons [simp]: "disjs (a # is) \<longleftrightarrow> (\<forall>b\<in>set is. apart a b) \<and> disjs is"
  by (simp add: disjs_def)

lemma disjs_Nil [simp]: "disjs []"
  by (simp add: disjs_def)

lemma disjs_append: "disjs (is @ js) \<longleftrightarrow> disjs is \<and> disjs js \<and> (\<forall>a\<in>set is. \<forall>b\<in>set js. apart a b)"
  by (auto simp: disjs_def sorted_wrt_append)

lemma disjs_middle: "disjs (is @ a # js) \<longleftrightarrow> disjs (a # is @ js)"
  by (auto simp: disjs_append apart_sym)

lemma disjs_perm: "mset is = mset js \<Longrightarrow> disjs is \<Longrightarrow> disjs js"
proof (induction "is" arbitrary: js)
  case (Cons a "is")
  then obtain js1 js2 where js: "js = js1 @ a # js2" by (metis list.set_intros(1) mset_eq_setD split_list)
  with Cons.prems have "mset is = mset (js1 @ js2)" by simp
  with Cons.IH Cons.prems(2) have "disjs (js1 @ js2)" by auto
  moreover have "set is = set (js1 @ js2)" using \<open>mset is = mset (js1 @ js2)\<close> by (metis mset_eq_setD)
  ultimately show ?case using Cons.prems(2) by (simp add: js disjs_middle)
qed simp

text \<open>Disjoint intervals inside a range have at most the length of the range together.\<close>

lemma disjs_sum_le:
  assumes "disjs is" and "\<forall>a\<in>set is. lo \<le> fst a \<and> fst a + snd a \<le> hi"
  shows "sum_list (map snd is) \<le> hi - lo"
proof -
  have "card (\<Union>(span ` set is)) = sum_list (map snd is)" using assms(1)
  proof (induction "is")
    case (Cons a "is")
    have "span a \<inter> \<Union>(span ` set is) = {}" using Cons.prems by (force simp: span_def apart_def)
    then have "card (span a \<union> \<Union>(span ` set is)) = card (span a) + card (\<Union>(span ` set is))"
      by (intro card_Un_disjoint) (auto simp: span_def)
    with Cons show ?case by (simp add: span_def)
  qed simp
  moreover have "\<Union>(span ` set is) \<subseteq> {lo..<hi}" using assms(2) by (force simp: span_def)
  then have "card (\<Union>(span ` set is)) \<le> card {lo..<hi}" by (intro card_mono) auto
  ultimately show ?thesis by simp
qed

section \<open>The chain of free blocks\<close>

text \<open>\<open>flseg d a fl\<close>: starting from the two-byte pointer at \<open>a\<close>, the chain visits the blocks \<open>fl\<close>.\<close>

fun flseg :: "u8 list \<Rightarrow> nat \<Rightarrow> ival list \<Rightarrow> bool" where
  "flseg d a [] \<longleftrightarrow> True"
| "flseg d a ((b, s) # fl) \<longleftrightarrow> get2byte d a = Some b \<and> 0 < b \<and> get2byte d (b + 2) = Some s \<and> flseg d b fl"

definition last_addr :: "nat \<Rightarrow> ival list \<Rightarrow> nat" where
  "last_addr a fl = last (a # map fst fl)"

definition flist :: "u8 list \<Rightarrow> nat \<Rightarrow> ival list \<Rightarrow> bool" where
  "flist d a fl \<longleftrightarrow> flseg d a fl \<and> get2byte d (last_addr a fl) = Some 0"

lemma last_addr_simps [simp]: "last_addr a [] = a" "last_addr a ((b, s) # fl) = last_addr b fl"
  by (simp_all add: last_addr_def)

lemma last_addr_append [simp]: "last_addr a (fl @ gl) = last_addr (last_addr a fl) gl"
  by (induction fl arbitrary: a) auto

lemma flseg_append: "flseg d a (fl @ gl) \<longleftrightarrow> flseg d a fl \<and> flseg d (last_addr a fl) gl"
  by (induction fl arbitrary: a) auto

lemma flist_append: "flist d a (fl @ gl) \<longleftrightarrow> flseg d a fl \<and> flist d (last_addr a fl) gl"
  by (auto simp: flist_def flseg_append)

lemma flist_Nil [simp]: "flist d a [] \<longleftrightarrow> get2byte d a = Some 0"
  by (simp add: flist_def)

lemma flist_Cons [simp]:
  "flist d a ((b, s) # fl) \<longleftrightarrow> get2byte d a = Some b \<and> 0 < b \<and> get2byte d (b + 2) = Some s \<and> flist d b fl"
  by (auto simp: flist_def)

text \<open>The bytes that the chain occupies: its first pointer and four bytes of every block.\<close>

definition chain_bytes :: "nat \<Rightarrow> ival list \<Rightarrow> nat set" where
  "chain_bytes a fl = {a, a + 1} \<union> (\<Union>(b, s)\<in>set fl. {b..<b + 4})"

lemma flseg_chg:
  assumes "chg d d' S" and "flseg d a fl" and "fl \<noteq> [] \<Longrightarrow> a \<notin> S \<and> a + 1 \<notin> S"
    and "\<forall>(b, s)\<in>set (butlast fl). b \<notin> S \<and> b + 1 \<notin> S" and "\<forall>(b, s)\<in>set fl. b + 2 \<notin> S \<and> b + 3 \<notin> S"
  shows "flseg d' a fl"
  using assms(2-)
proof (induction fl arbitrary: a)
  case (Cons x fl)
  obtain b s where x: "x = (b, s)" by force
  have "get2byte d' a = get2byte d a" "get2byte d' (b + 2) = get2byte d (b + 2)"
    using Cons.prems get2byte_chg [OF assms(1)] by (auto simp: x eval_nat_numeral)
  moreover have "flseg d' b fl"
    using Cons by (cases fl) (auto simp: x)
  ultimately show ?case using Cons.prems by (simp add: x)
qed simp

lemma last_addr_in: "last_addr a fl = a \<or> (\<exists>s. (last_addr a fl, s) \<in> set fl)"
proof (induction fl arbitrary: a)
  case (Cons x fl)
  obtain b s where "x = (b, s)" by force
  with Cons [of b] show ?case by auto
qed simp

lemma flist_chg:
  assumes "chg d d' S" and "flist d a fl" and "a \<notin> S" and "a + 1 \<notin> S"
    and "\<forall>x\<in>set fl. {fst x..<fst x + 4} \<inter> S = {}"
  shows "flist d' a fl"
proof -
  have in4: "b \<notin> S \<and> b + 1 \<notin> S \<and> b + 2 \<notin> S \<and> b + 3 \<notin> S" if "(b, s) \<in> set fl" for b s
  proof -
    have "{b..<b + 4} \<inter> S = {}" using assms(5) that by force
    then have "i \<notin> S" if "b \<le> i" "i < b + 4" for i using that by (metis atLeastLessThan_iff disjoint_iff)
    then show ?thesis by simp
  qed
  have "flseg d' a fl"
    by (rule flseg_chg [OF assms(1)])
      (use assms(2-4) in4 in \<open>auto simp: flist_def dest!: in_set_butlastD\<close>)
  moreover have "get2byte d' (last_addr a fl) = get2byte d (last_addr a fl)"
    using get2byte_chg [OF assms(1)] last_addr_in [of a fl] assms(3,4) in4 by metis
  ultimately show ?thesis using assms(2) by (simp add: flist_def)
qed

text \<open>Ascending blocks, at least four bytes apart: what \<open>btreeInitPage\<close> checks.\<close>

fun spaced :: "nat \<Rightarrow> ival list \<Rightarrow> bool" where
  "spaced lo [] \<longleftrightarrow> True"
| "spaced lo ((b, s) # fl) \<longleftrightarrow> lo \<le> b \<and> 4 \<le> s \<and> spaced (b + s + 4) fl"

lemma spaced_mono: "spaced lo fl \<Longrightarrow> lo' \<le> lo \<Longrightarrow> spaced lo' fl"
  by (cases fl) auto

lemma spaced_lower: "spaced lo fl \<Longrightarrow> (b, s) \<in> set fl \<Longrightarrow> lo \<le> b \<and> 4 \<le> s"
  by (induction lo fl rule: spaced.induct) auto

lemma spaced_disjs: "spaced lo fl \<Longrightarrow> disjs fl"
proof (induction lo fl rule: spaced.induct)
  case (2 lo b s fl)
  have "apart (b, s) x" if "x \<in> set fl" for x
    using spaced_lower [of "b + s + 4" fl "fst x" "snd x"] 2 that by (auto simp: apart_def)
  with 2 show ?case by auto
qed simp

section \<open>Freeing, on the level of the chain\<close>

lemma free_find_chain:
  assumes "flist d a fl" and "spaced (a + 4) fl"
  shows "free_find start a d = Some (Inr (last_addr a (takeWhile (\<lambda>x. fst x < start) fl),
     case dropWhile (\<lambda>x. fst x < start) fl of [] \<Rightarrow> 0 | x # _ \<Rightarrow> fst x))"
  using assms
proof (induction fl arbitrary: a)
  case Nil
  then show ?case by (simp add: free_find.simps)
next
  case (Cons x fl)
  obtain b s where x: "x = (b, s)" by force
  have "spaced (b + 4) fl" using Cons.prems(2) by (auto simp: x intro: spaced_mono)
  with Cons.IH [of b] Cons.prems show ?case by (subst free_find.simps) (auto simp: x)
qed

text \<open>Joining blocks that are less than four bytes apart.\<close>

fun coal :: "ival list \<Rightarrow> ival list" where
  "coal [] = []"
| "coal [x] = [x]"
| "coal ((b, s) # (b', s') # fl) =
     (if b + s + 3 \<ge> b' then coal ((b, b' + s' - b) # fl) else (b, s) # coal ((b', s') # fl))"

fun asc :: "ival list \<Rightarrow> bool" where
  "asc [] \<longleftrightarrow> True"
| "asc ((b, s) # fl) \<longleftrightarrow> 4 \<le> s \<and> (case fl of [] \<Rightarrow> True | (b', s') # _ \<Rightarrow> b + s \<le> b') \<and> asc fl"

definition tot_len :: "ival list \<Rightarrow> nat" where
  "tot_len is = sum_list (map snd is)"

lemma tot_len_simps [simp]: "tot_len [] = 0" "tot_len (x # is) = snd x + tot_len is" "tot_len (is @ js) = tot_len is + tot_len js"
  by (simp_all add: tot_len_def)

lemma asc_lower: "asc ((b, s) # fl) \<Longrightarrow> x \<in> set fl \<Longrightarrow> b + s \<le> fst x \<and> 4 \<le> snd x"
proof (induction fl arbitrary: b s)
  case (Cons y fl)
  obtain b' s' where "y = (b', s')" by force
  with Cons.IH [of b' s'] Cons.prems show ?case by auto
qed simp

lemma coal_fst: "fl \<noteq> [] \<Longrightarrow> \<exists>s' gl. coal fl = (fst (hd fl), s') # gl"
  by (induction fl rule: coal.induct) auto

lemma coal_Nil [simp]: "coal fl = [] \<longleftrightarrow> fl = []"
  using coal_fst [of fl] by (cases "fl = []") auto

lemma asc_merge:
  "asc ((b, s) # (b', s') # fl) \<Longrightarrow> asc ((b, b' + s' - b) # fl)"
  by (auto split: list.splits)

lemma coal_spaced: "asc fl \<Longrightarrow> fl \<noteq> [] \<Longrightarrow> lo \<le> fst (hd fl) \<Longrightarrow> spaced lo (coal fl)"
proof (induction fl arbitrary: lo rule: coal.induct)
  case (3 b s b' s' fl)
  show ?case
  proof (cases "b' \<le> b + s + 3")
    case True
    with 3(1) [OF True asc_merge [OF 3(3)], of lo] 3(5) show ?thesis by simp
  next
    case False
    then have "spaced (b + s + 4) (coal ((b', s') # fl))" using 3(2) [OF False, of "b + s + 4"] 3(3) by simp
    then show ?thesis using False 3(3,5) by simp
  qed
qed auto

lemma coal_total: "asc fl \<Longrightarrow> tot_len fl \<le> tot_len (coal fl)"
proof (induction fl rule: coal.induct)
  case (3 b s b' s' fl)
  show ?case
  proof (cases "b' \<le> b + s + 3")
    case True
    have "tot_len ((b, s) # (b', s') # fl) \<le> tot_len ((b, b' + s' - b) # fl)" using 3(3) by auto
    with True 3(1) [OF True asc_merge [OF 3(3)]] show ?thesis by simp
  next
    case False
    then show ?thesis using 3(2) 3(3) by auto
  qed
qed auto

lemma coal_apart:
  "asc fl \<Longrightarrow> \<forall>y\<in>set fl. apart x y \<Longrightarrow> 4 \<le> snd x \<Longrightarrow> \<forall>y\<in>set (coal fl). apart x y"
proof (induction fl rule: coal.induct)
  case (3 b s b' s' fl)
  show ?case
  proof (cases "b' \<le> b + s + 3")
    case True
    have ap: "apart x (b, s)" "apart x (b', s')" "\<forall>y\<in>set fl. apart x y" using 3(4) by auto
    moreover have "b + s \<le> b'" using 3(3) by simp
    ultimately have "apart x (b, b' + s' - b)" using 3(5) True unfolding apart_def fst_conv snd_conv by linarith
    with ap have "\<forall>y\<in>set ((b, b' + s' - b) # fl). apart x y" by simp
    from 3(1) [OF True asc_merge [OF 3(3)] this 3(5)] True show ?thesis by simp
  next
    case False
    then show ?thesis using 3(2) [OF False] 3(3-5) by simp
  qed
qed auto

lemma coal_upper: "asc fl \<Longrightarrow> \<forall>x\<in>set fl. fst x + snd x \<le> hi \<Longrightarrow> \<forall>x\<in>set (coal fl). fst x + snd x \<le> hi"
proof (induction fl rule: coal.induct)
  case (3 b s b' s' fl)
  show ?case
  proof (cases "b' \<le> b + s + 3")
    case True
    have "b + (b' + s' - b) \<le> hi" using 3(3,4) by auto
    then show ?thesis using 3(1) [OF True asc_merge [OF 3(3)]] 3(4) True by simp
  next
    case False
    then show ?thesis using 3(2) [OF False] 3(3,4) by simp
  qed
qed auto

lemma flist_relink:
  assumes "chg d d' S" and "flist d a fl" and "get2byte d' a' = get2byte d a"
    and "\<forall>x\<in>set fl. {fst x..<fst x + 4} \<inter> S = {}"
  shows "flist d' a' fl"
proof (cases fl)
  case Nil
  then show ?thesis using assms by simp
next
  case (Cons x gl)
  obtain b s where x: "x = (b, s)" by force
  have "i \<notin> S" if "b \<le> i" "i < b + 4" for i using assms(4) that by (auto simp: Cons x disjoint_iff)
  then have b: "b \<notin> S" "b + 1 \<notin> S" "b + 2 \<notin> S" "b + 2 + 1 \<notin> S" by simp_all
  have "flist d' b gl" by (rule flist_chg [OF assms(1)]) (use assms b in \<open>auto simp: Cons x\<close>)
  then show ?thesis using assms(2,3) get2byte_chg [OF assms(1) b(3,4)] by (simp add: Cons x)
qed

definition block_heads :: "ival list \<Rightarrow> nat set" where
  "block_heads fl = (\<Union>x\<in>set fl. {fst x..<fst x + 4})"

lemma block_heads_simps [simp]:
  "block_heads [] = {}" "block_heads (x # fl) = {fst x..<fst x + 4} \<union> block_heads fl"
  by (auto simp: block_heads_def)

lemma u8_minus: "n \<le> unat (b::u8) \<Longrightarrow> unat (b - of_nat n) = unat b - n"
  using unat_u8_less [of b] unat_sub [of "of_nat n" b] by (simp add: word_le_nat_alt unat_of_nat_u8)

lemma coalesce_chain:
  assumes "flist d a fl" and "asc fl" and "\<forall>x\<in>set fl. fst x + snd x \<le> min 65536 (length d) \<and> h + 8 \<le> fst x \<and> a + 2 \<le> fst x"
    and "a \<noteq> h + 7" and "a + 1 \<noteq> h + 7" and "rd d (h + 7) = Some fr" and "tot_len (coal fl) \<le> tot_len fl + unat fr"
  shows "\<exists>d' fr'. coalesce h a d = Some (SQLITE_OK, d') \<and> flist d' a (coal fl) \<and> rd d' (h + 7) = Some fr' \<and>
     unat fr' + tot_len (coal fl) = unat fr + tot_len fl \<and> chg d d' ({h + 7} \<union> block_heads fl)"
  using assms
proof (induction fl arbitrary: a d fr rule: coal.induct)
  case 1
  then show ?case by (intro exI [of _ d]) (simp add: coalesce.simps [of h a])
next
  case (2 x)
  obtain b s where x: "x = (b, s)" by force
  have "coalesce h b d = Some (SQLITE_OK, d)" using 2 by (simp add: x coalesce.simps [of h b])
  then have "coalesce h a d = Some (SQLITE_OK, d)" using 2 by (simp add: x coalesce.simps [of h a])
  then show ?case using 2 by (intro exI [of _ d]) simp
next
  case (3 b s b' s' fl)
  note ih_merge = 3(1) and ih_skip = 3(2)
  note prems = 3(3-9)
  have g: "get2byte d a = Some b" "get2byte d b = Some b'" "get2byte d (b + 2) = Some s" "get2byte d (b' + 2) = Some s'"
      "0 < b" "0 < b'" "flist d b' fl"
    using prems(1) by auto
  have bd: "b + s \<le> b'" "4 \<le> s" "4 \<le> s'" "b' + s' \<le> 65536" "b' + s' \<le> length d" "h + 8 \<le> b" "a + 2 \<le> b"
    using prems(2,3) by auto
  have above: "b' + s' \<le> fst x \<and> h + 8 \<le> fst x \<and> a + 2 \<le> fst x \<and> b + 2 \<le> fst x \<and> fst x + snd x \<le> min 65536 (length d)" if "x \<in> set fl" for x
    using asc_lower [of b' s' fl x] prems(2,3) that by auto
  show ?case
  proof (cases "b' \<le> b + s + 3")
    case True
    define gap where "gap = b' - (b + s)"
    let ?fl = "(b, b' + s' - b) # fl"
    have tot: "tot_len ?fl = tot_len ((b, s) # (b', s') # fl) + gap" using bd by (simp add: gap_def)
    have asc': "asc ?fl" by (rule asc_merge [OF prems(2)])
    have gl: "gap \<le> unat fr" using coal_total [OF asc'] tot prems(7) True by simp
    have fl_heads: "{fst x..<fst x + 4} \<inter> {h + 7, b, b + 1, b + 2, b + 3} = {}" if "x \<in> set fl" for x
      using above [OF that] bd by auto
    obtain d1 where d1: "wr d (h + 7) (fr - of_nat gap) = Some d1" "chg d d1 {h + 7}" "rd d1 (h + 7) = Some (fr - of_nat gap)"
      using wr_ex [of "h + 7" d "fr - of_nat gap"] bd by auto
    have g1: "get2byte d1 i = get2byte d i" if "b \<le> i" for i
      by (rule get2byte_chg [OF d1(2)]) (use that bd in auto)
    obtain x where x: "get2byte d b' = Some x" using get2byte_in_range [of b' d] bd by auto
    have x': "get2byte d1 b' = Some x" using x g1 [of b'] bd by simp
    obtain d2 where d2: "put2byte d1 b x = Some d2" "chg d1 d2 {b, b + 1}" "get2byte d2 b = Some x"
      using put2byte_ex [of b d1 x] get2byte_less [OF x] chg_length [OF d1(2)] bd by auto
    have s2: "get2byte d2 (b' + 2) = Some s'"
      using get2byte_chg [OF d2(2), of "b' + 2"] g1 [of "b' + 2"] g(4) bd by auto
    obtain d3 where d3: "put2byte d2 (b + 2) (b' + s' - b) = Some d3" "chg d2 d3 {b + 2, b + 2 + 1}"
        "get2byte d3 (b + 2) = Some (b' + s' - b)"
      using put2byte_ex [of "b + 2" d2 "b' + s' - b"] chg_length [OF d1(2)] chg_length [OF d2(2)] bd g(5) by auto
    have c3: "chg d d3 {h + 7, b, b + 1, b + 2, b + 3}"
      by (rule chg_trans [OF chg_trans [OF d1(2) d2(2) order_refl] d3(2)]) auto
    have "get2byte d3 b = get2byte d2 b" by (rule get2byte_chg [OF d3(2)]) auto
    then have "flist d3 b fl"
      by (intro flist_relink [OF c3 g(7)]) (use d2(3) x fl_heads in auto)
    moreover have "get2byte d3 a = get2byte d a" by (rule get2byte_chg [OF c3]) (use bd prems(4,5) in auto)
    ultimately have fl3: "flist d3 a ?fl" using d3(3) g by simp
    have fr3: "rd d3 (h + 7) = Some (fr - of_nat gap)"
      using rd_chg [OF d3(2), of "h + 7"] rd_chg [OF d2(2), of "h + 7"] d1(3) bd by auto
    have "\<exists>d' fr'. coalesce h a d3 = Some (SQLITE_OK, d') \<and> flist d' a (coal ?fl) \<and> rd d' (h + 7) = Some fr' \<and>
        unat fr' + tot_len (coal ?fl) = unat (fr - of_nat gap) + tot_len ?fl \<and> chg d3 d' ({h + 7} \<union> block_heads ?fl)"
      by (rule ih_merge [OF True fl3 asc' _ prems(4,5) fr3])
        (use above bd tot prems(7) True gl chg_length [OF c3] in \<open>auto simp: u8_minus\<close>)
    then obtain d' fr' where r: "coalesce h a d3 = Some (SQLITE_OK, d')" "flist d' a (coal ?fl)" "rd d' (h + 7) = Some fr'"
        "unat fr' + tot_len (coal ?fl) = unat (fr - of_nat gap) + tot_len ?fl" "chg d3 d' ({h + 7} \<union> block_heads ?fl)"
      by blast
    have "coalesce h a d = coalesce h a d3"
      using g prems(6) True gl d1(1) x' d2(1) s2 d3(1) bd
      by (subst coalesce.simps) (simp add: gap_def)
    moreover have "chg d d' ({h + 7} \<union> block_heads ((b, s) # (b', s') # fl))"
      by (rule chg_trans [OF c3 r(5)]) auto
    ultimately show ?thesis using r gl tot True by (auto simp: u8_minus)
  next
    case False
    have "\<exists>d' fr'. coalesce h b d = Some (SQLITE_OK, d') \<and> flist d' b (coal ((b', s') # fl)) \<and> rd d' (h + 7) = Some fr' \<and>
        unat fr' + tot_len (coal ((b', s') # fl)) = unat fr + tot_len ((b', s') # fl) \<and> chg d d' ({h + 7} \<union> block_heads ((b', s') # fl))"
      by (rule ih_skip [OF False _ _ _ _ _ prems(6)])
        (use g bd above prems(2,7) False in auto)
    then obtain d' fr' where r: "coalesce h b d = Some (SQLITE_OK, d')" "flist d' b (coal ((b', s') # fl))" "rd d' (h + 7) = Some fr'"
        "unat fr' + tot_len (coal ((b', s') # fl)) = unat fr + tot_len ((b', s') # fl)"
        "chg d d' ({h + 7} \<union> block_heads ((b', s') # fl))"
      by blast
    have heads: "b' \<le> i" if "i \<in> block_heads ((b', s') # fl)" for i using that above by (force simp: block_heads_def)
    have out: "get2byte d' i = get2byte d i" if "i + 2 \<le> b'" "i \<noteq> h + 7" "i + 1 \<noteq> h + 7" for i
      by (rule get2byte_chg [OF r(5)]) (use heads that in \<open>force simp del: block_heads_simps\<close>)+
    have "get2byte d' a = get2byte d a" "get2byte d' (b + 2) = get2byte d (b + 2)"
      using out [of a] out [of "b + 2"] bd prems(4,5) by simp_all
    moreover have "coalesce h a d = coalesce h b d"
      using g False by (subst coalesce.simps) simp
    moreover have "chg d d' ({h + 7} \<union> block_heads ((b, s) # (b', s') # fl))" by (rule chg_mono [OF r(5)]) auto
    ultimately show ?thesis using r g False by auto
  qed
qed

lemma apart_span: "apart x y \<Longrightarrow> i \<in> span x \<Longrightarrow> i \<notin> span y"
  by (auto simp: apart_def span_def)

lemma apart_disjoint: "apart x y \<Longrightarrow> span x \<inter> span y = {}"
  by (auto simp: apart_def span_def)

lemma head_in_span: "4 \<le> snd x \<Longrightarrow> {fst x..<fst x + 4} \<subseteq> span x"
  by (auto simp: span_def)

lemma chain_insert:
  assumes fl: "flist d a (l1 @ l2)" and dj: "disjs ((st, sz) # l1 @ l2)"
    and bd: "\<forall>x\<in>set ((st, sz) # l1 @ l2). 4 \<le> snd x \<and> a + 4 \<le> fst x \<and> fst x + snd x \<le> min 65536 (length d)"
  defines "addr \<equiv> last_addr a l1" and "nx \<equiv> (case l2 of [] \<Rightarrow> 0 | x # _ \<Rightarrow> fst x)"
  shows "\<exists>d1 d2 d3. put2byte d addr st = Some d1 \<and> put2byte d1 st nx = Some d2 \<and> put2byte d2 (st + 2) sz = Some d3 \<and>
     flist d3 a (l1 @ (st, sz) # l2) \<and> chg d d3 ({a, a + 1} \<union> block_heads ((st, sz) # l1))"
proof -
  define S where "S = {addr, addr + 1, st, st + 1, st + 2, st + 3}"
  have bdp: "4 \<le> s \<and> a + 4 \<le> b" if "(b, s) \<in> set l1" for b s using bd that by force
  have seg: "flseg d a l1" and tl: "flist d addr l2" using fl by (simp_all add: flist_append addr_def)
  have nx: "get2byte d addr = Some nx" "nx < 65536"
    using tl get2byte_less [of d addr] by (auto simp: nx_def split: list.splits prod.splits)
  have addr: "addr = a \<and> l1 = [] \<or> (\<exists>s. l1 \<noteq> [] \<and> last l1 = (addr, s) \<and> (addr, s) \<in> set l1)"
    unfolding addr_def last_addr_def by (cases l1 rule: rev_cases) auto
  have ad: "addr + 2 \<le> length d" using get2byte_bound [OF nx(1)] .
  have st_addr: "addr + 1 < st \<or> st + 3 < addr" using addr dj bd by (force simp: apart_def)
  obtain d1 where d1: "put2byte d addr st = Some d1" "chg d d1 {addr, addr + 1}" "get2byte d1 addr = Some st"
    using put2byte_ex [OF ad, of st] bd by auto
  obtain d2 where d2: "put2byte d1 st nx = Some d2" "chg d1 d2 {st, st + 1}" "get2byte d2 st = Some nx"
    using put2byte_ex [of st d1 nx] bd chg_length [OF d1(2)] nx(2) by auto
  obtain d3 where d3: "put2byte d2 (st + 2) sz = Some d3" "chg d2 d3 {st + 2, st + 2 + 1}" "get2byte d3 (st + 2) = Some sz"
    using put2byte_ex [of "st + 2" d2 sz] bd chg_length [OF d1(2)] chg_length [OF d2(2)] by auto
  have c: "chg d d3 S" unfolding S_def by (rule chg_trans [OF chg_trans [OF d1(2) d2(2) order_refl] d3(2)]) auto
  have st_out: "i \<notin> {st, st + 1, st + 2, st + 3}" if "x \<in> set (l1 @ l2)" "fst x \<le> i" "i < fst x + 4" for x i
  proof -
    have "apart (st, sz) x" "4 \<le> snd x" "4 \<le> sz" using dj bd that(1) by auto
    with that show ?thesis unfolding apart_def by auto
  qed
  have addr_out: "i \<notin> {addr, addr + 1}" if "x \<in> set (butlast l1) \<or> x \<in> set l2" "fst x \<le> i" "i < fst x + 4" for x i
  proof (cases "l1 = []")
    case True
    then show ?thesis using addr bd that by auto
  next
    case False
    then obtain s where l: "last l1 = (addr, s)" using addr by auto
    have l1: "l1 = butlast l1 @ [(addr, s)]" using False l by (metis append_butlast_last_id)
    have "(addr, s) \<in> set l1" using False l by (metis last_in_set)
    then have x: "x \<in> set (l1 @ l2)" "4 \<le> s" using that(1) bd by (auto dest: in_set_butlastD) force+
    have "disjs (butlast l1 @ (addr, s) # l2)" using dj l1 by (metis append.assoc append_Cons append_Nil disjs_Cons)
    then have "apart (addr, s) x" using that(1) by (auto simp: disjs_append apart_sym)
    moreover have "4 \<le> snd x" using bd x by auto
    ultimately show ?thesis using that(2,3) x(2) by (auto simp: apart_def)
  qed
  have "flseg d3 a l1"
  proof (rule flseg_chg [OF c seg])
    show "a \<notin> S \<and> a + 1 \<notin> S" if "l1 \<noteq> []" using that addr bd by (auto simp: S_def dest: bdp)
    show "\<forall>(b, s)\<in>set (butlast l1). b \<notin> S \<and> b + 1 \<notin> S"
    proof clarify
      fix b s assume x: "(b, s) \<in> set (butlast l1)"
      then have "(b, s) \<in> set (l1 @ l2)" by (auto dest: in_set_butlastD)
      with x show "b \<notin> S \<and> b + 1 \<notin> S"
        using addr_out [of "(b, s)" b] addr_out [of "(b, s)" "b + 1"] st_out [of "(b, s)" b] st_out [of "(b, s)" "b + 1"]
        by (simp add: S_def)
    qed
    show "\<forall>(b, s)\<in>set l1. b + 2 \<notin> S \<and> b + 3 \<notin> S"
    proof clarify
      fix b s assume b: "(b, s) \<in> set l1"
      have "b + 2 \<notin> {st, st + 1, st + 2, st + 3}" "b + 3 \<notin> {st, st + 1, st + 2, st + 3}" using st_out [of "(b, s)"] b by auto
      moreover have "b + 2 \<notin> {addr, addr + 1} \<and> b + 3 \<notin> {addr, addr + 1}"
      proof (cases "(b, s) \<in> set (butlast l1)")
        case True
        then show ?thesis using addr_out [of "(b, s)"] by auto
      next
        case False
        moreover have "l1 = butlast l1 @ [last l1]" using b by (metis append_butlast_last_id empty_iff empty_set)
        then have "set l1 = insert (last l1) (set (butlast l1))" by (metis Un_insert_right append_Nil2 list.simps(15) set_append)
        ultimately have "(b, s) = last l1" using b by simp
        then show ?thesis using addr b by auto
      qed
      ultimately show "b + 2 \<notin> S \<and> b + 3 \<notin> S" by (auto simp: S_def)
    qed
  qed
  moreover have "flist d3 addr ((st, sz) # l2)"
  proof -
    have "get2byte d3 addr = get2byte d1 addr"
      using get2byte_chg [OF d3(2), of addr] get2byte_chg [OF d2(2), of addr] st_addr by auto
    moreover have "get2byte d3 st = get2byte d2 st" by (rule get2byte_chg [OF d3(2)]) auto
    then have "flist d3 st l2"
    proof (intro flist_relink [OF c tl])
      show "\<forall>x\<in>set l2. {fst x..<fst x + 4} \<inter> S = {}"
      proof (intro ballI equals0I, elim IntE)
        fix x i assume x: "x \<in> set l2" and i: "i \<in> {fst x..<fst x + 4}" "i \<in> S"
        then show False using addr_out [of x i] st_out [of x i] by (auto simp: S_def)
      qed
    qed (use nx d2(3) in auto)
    ultimately show ?thesis using d1(3) d3(3) bd by auto
  qed
  moreover have "chg d d3 ({a, a + 1} \<union> block_heads ((st, sz) # l1))"
  proof (rule chg_mono [OF c])
    have "{addr, addr + 1} \<subseteq> {a, a + 1} \<union> block_heads l1"
      using addr by (elim disjE exE) (force simp: block_heads_def)+
    then show "S \<subseteq> {a, a + 1} \<union> block_heads ((st, sz) # l1)" by (auto simp: S_def)
  qed
  ultimately show ?thesis using d1(1) d2(1) d3(1) by (auto simp: flist_append addr_def)
qed

section \<open>The layout of a page\<close>

text \<open>
  \<open>layout pBt m h gap d cs fl ex tp fr\<close>: the bytes \<open>d\<close> hold the cells \<open>cs\<close> (offset and content), the free
  blocks \<open>fl\<close>, \<open>fr\<close> fragmented bytes and the content area from \<open>tp\<close> on; \<open>gap\<close> is the end of the cell
  pointer array, \<open>ex\<close> are intervals of the content area that are in transit (allocated but not yet a
  cell, or no longer a cell and not yet free). All of them are disjoint and account for every byte.
\<close>

definition cell_ivs :: "(nat \<times> u8 list) list \<Rightarrow> ival list" where
  "cell_ivs cs = map (\<lambda>(pc, c). (pc, length c)) cs"

lemma cell_ivs_simps [simp]:
  "cell_ivs [] = []" "cell_ivs ((pc, c) # cs) = (pc, length c) # cell_ivs cs"
  "cell_ivs (cs @ cs') = cell_ivs cs @ cell_ivs cs'" "length (cell_ivs cs) = length cs"
  by (simp_all add: cell_ivs_def)

definition layout :: "bt_shared \<Rightarrow> mem_page \<Rightarrow> nat \<Rightarrow> nat \<Rightarrow> u8 list \<Rightarrow> (nat \<times> u8 list) list \<Rightarrow> ival list \<Rightarrow> ival list \<Rightarrow>
    nat \<Rightarrow> u8 \<Rightarrow> bool" where
  "layout pBt m h gap d cs fl ex tp fr \<longleftrightarrow>
     usableSize pBt \<le> 65536 \<and> usableSize pBt \<le> length d \<and> h + 8 \<le> gap \<and> gap \<le> tp \<and> tp \<le> usableSize pBt \<and>
     get2byteNotZero d (h + 5) = Some tp \<and> rd d (h + 7) = Some fr \<and>
     flist d (h + 1) fl \<and> spaced tp fl \<and>
     (\<forall>(pc, c)\<in>set cs. rdn d pc (length c) = Some c \<and> cellSizePtr pBt m c = Some (length c)) \<and>
     disjs (ex @ cell_ivs cs @ fl) \<and>
     (\<forall>x\<in>set (ex @ cell_ivs cs @ fl). tp \<le> fst x \<and> fst x + snd x \<le> usableSize pBt \<and> 4 \<le> snd x) \<and>
     tot_len (ex @ cell_ivs cs @ fl) + unat fr + tp = usableSize pBt"

lemma get2byteNotZero_chg: "chg d d' S \<Longrightarrow> i \<notin> S \<Longrightarrow> i + 1 \<notin> S \<Longrightarrow> get2byteNotZero d' i = get2byteNotZero d i"
  by (simp add: get2byteNotZero_def get2byte_chg)

lemma spans_avoid:
  assumes "4 \<le> snd x" and "span x \<inter> S = {}"
  shows "{fst x..<fst x + 4} \<inter> S = {}"
  using head_in_span [OF assms(1)] assms(2) by blast

text \<open>Writing where nothing is stored does not disturb the layout.\<close>

lemma layout_chg:
  assumes l: "layout pBt m h gap d cs fl ex tp fr" and c: "chg d d' S"
    and "S \<inter> {h + 1, h + 2, h + 5, h + 6, h + 7} = {}" and sp: "\<forall>x\<in>set (cell_ivs cs @ fl). span x \<inter> S = {}"
  shows "layout pBt m h gap d' cs fl ex tp fr"
proof -
  have "i \<notin> S" if "i \<in> {h + 1, h + 2, h + 5, h + 6, h + 7}" for i using assms(3) that by (metis disjoint_iff)
  then have hd: "h + 1 \<notin> S" "h + 1 + 1 \<notin> S" "h + 5 \<notin> S" "h + 5 + 1 \<notin> S" "h + 7 \<notin> S"
    by (simp_all add: eval_nat_numeral)
  have b: "4 \<le> snd x" if "x \<in> set fl" for x using l that by (simp add: layout_def)
  have "flist d' (h + 1) fl"
    by (rule flist_chg [OF c]) (use l hd sp b spans_avoid in \<open>auto simp: layout_def\<close>)
  moreover have "rdn d' pc (length x) = rdn d pc (length x)" if "(pc, x) \<in> set cs" for pc x
  proof (rule rdn_chg [OF c])
    have "(pc, length x) \<in> set (cell_ivs cs)" using that by (force simp: cell_ivs_def)
    then have "span (pc, length x) \<inter> S = {}" using sp by simp
    then show "{pc..<pc + length x} \<inter> S = {}" by (simp add: span_def)
  qed
  ultimately show ?thesis
    using l get2byteNotZero_chg [OF c hd(3,4)] rd_chg [OF c hd(5)] chg_length [OF c]
    unfolding layout_def by (auto simp del: set_append)
qed

lemma get2byte_eq_iff: "rdn d i 2 = Some a \<Longrightarrow> rdn d j 2 = Some b \<Longrightarrow> a = b \<longleftrightarrow> get2byte d i = get2byte d j"
proof -
  assume r: "rdn d i 2 = Some a" "rdn d j 2 = Some b"
  then obtain a0 a1 b0 b1 where "a = [a0, a1]" "b = [b0, b1]"
    using rdn_length [OF r(1)] rdn_length [OF r(2)] by (auto simp: numeral_2_eq_2 length_Suc_conv)
  moreover have "unat x * 256 + unat y = unat z * 256 + unat w \<longleftrightarrow> x = z \<and> y = w" for x y z w :: u8
  proof
    assume e: "unat x * 256 + unat y = unat z * 256 + unat w"
    have "unat x = unat z" using e unat_u8_less [of y] unat_u8_less [of w] by linarith
    moreover from this e have "unat y = unat w" by simp
    ultimately show "x = z \<and> y = w" by (simp add: word_unat_eq_iff)
  qed simp
  ultimately show ?thesis using r by (auto simp: get2byte_rdn)
qed

lemma free_top_layout:
  assumes l: "layout pBt m h gap d cs fl [] tp fr" and "fl \<noteq> []"
  shows "\<exists>d' fl' tp'. free_top h d = Some d' \<and> layout pBt m h gap d' cs fl' [] tp' fr \<and> tp \<le> tp' \<and>
     chg d d' {h + 1, h + 2, h + 5, h + 6}"
proof -
  obtain b s fl2 where fl: "fl = (b, s) # fl2" using assms(2) by (metis neq_Nil_conv prod.exhaust)
  have bs: "tp \<le> b" "b + s \<le> usableSize pBt" "4 \<le> s" "usableSize pBt \<le> 65536" "usableSize pBt \<le> length d" "h + 8 \<le> tp"
    using l by (auto simp: layout_def fl)
  have g: "get2byte d (h + 1) = Some b" "get2byte d (b + 2) = Some s" "flist d b fl2" "get2byteNotZero d (h + 5) = Some tp"
    using l by (auto simp: layout_def fl)
  have tp: "get2byte d (h + 5) = Some tp" using g(4) bs by (auto simp: get2byteNotZero_def split: if_splits)
  obtain a where a: "rdn d (h + 1) 2 = Some a" using bs by (simp add: rdn_def)
  obtain t where t: "rdn d (h + 5) 2 = Some t" using bs by (simp add: rdn_def)
  have eq: "a = t \<longleftrightarrow> b = tp" using get2byte_eq_iff [OF a t] g(1) tp by simp
  show ?thesis
  proof (cases "b = tp")
    case False
    then have "free_top h d = Some d" using a t eq by (simp add: free_top_def)
    then show ?thesis using l by auto
  next
    case True
    obtain nx where nx: "rdn d b 2 = Some nx" using bs by (simp add: rdn_def)
    have "length nx = 2" using rdn_length [OF nx] by simp
    then obtain d1 where d1: "blit d (h + 1) nx = Some d1" "chg d d1 {h + 1..<h + 1 + 2}"
      using blit_ex [of "h + 1" nx d] bs by auto
    have c1: "chg d d1 {h + 1, h + 2}" by (rule chg_mono [OF d1(2)]) auto
    have g1: "get2byte d1 (h + 1) = get2byte d b" by (rule rdn2_put [OF nx d1(1)])
    have g2: "get2byte d1 (h + 5) = Some tp" "get2byte d1 (b + 2) = Some s"
      using get2byte_chg [OF c1] tp g(2) bs by auto
    obtain d2 where d2: "put2byte d1 (h + 5) (tp + s) = Some d2" "chg d1 d2 {h + 5, h + 5 + 1}"
        "get2byte d2 (h + 5) = Some ((tp + s) mod 65536)"
      using put2byte_ex [of "h + 5" d1 "tp + s"] bs chg_length [OF c1] by auto
    have c: "chg d d2 {h + 1, h + 2, h + 5, h + 6}" by (rule chg_trans [OF c1 d2(2)]) auto
    have tp2: "get2byteNotZero d2 (h + 5) = Some (tp + s)"
      using d2(3) bs True by (cases "tp + s = 65536") (auto simp: get2byteNotZero_def)
    have up: "tp \<le> fst x" "4 \<le> snd x" if "x \<in> set (cell_ivs cs @ fl)" for x
      using l that unfolding layout_def by auto
    have out: "span x \<inter> {h + 1, h + 2, h + 5, h + 6} = {}" if "x \<in> set (cell_ivs cs @ fl)" for x
      using up [OF that] bs by (auto simp: span_def)
    have f2: "flist d2 (h + 1) fl2"
    proof (rule flist_relink [OF c g(3)])
      show "get2byte d2 (h + 1) = get2byte d b" using get2byte_chg [OF d2(2), of "h + 1"] g1 by simp
      show "\<forall>x\<in>set fl2. {fst x..<fst x + 4} \<inter> {h + 1, h + 2, h + 5, h + 6} = {}"
        using spans_avoid [OF up(2) out] by (simp add: fl)
    qed
    have cells: "rdn d2 pc (length x) = rdn d pc (length x)" if "(pc, x) \<in> set cs" for pc x
    proof (rule rdn_chg [OF c])
      have "(pc, length x) \<in> set (cell_ivs cs @ fl)" using that by (force simp: cell_ivs_def)
      from out [OF this] show "{pc..<pc + length x} \<inter> {h + 1, h + 2, h + 5, h + 6} = {}" by (simp add: span_def)
    qed
    have above: "tp + s \<le> fst x" if "x \<in> set (cell_ivs cs @ fl2)" for x
    proof -
      have "apart x (b, s)" "tp \<le> fst x" "4 \<le> snd x"
        using l that by (auto simp: layout_def fl disjs_append apart_sym)
      with True bs show ?thesis by (auto simp: apart_def)
    qed
    have "layout pBt m h gap d2 cs fl2 [] (tp + s) fr"
      unfolding layout_def
    proof (intro conjI)
      show "spaced (tp + s) fl2" using l True by (auto simp: layout_def fl intro: spaced_mono)
      show "rd d2 (h + 7) = Some fr" using rd_chg [OF c, of "h + 7"] l by (simp add: layout_def)
      show "\<forall>(pc, c)\<in>set cs. rdn d2 pc (length c) = Some c \<and> cellSizePtr pBt m c = Some (length c)"
        using cells l by (auto simp: layout_def)
      show "disjs ([] @ cell_ivs cs @ fl2)" using l by (auto simp: layout_def fl disjs_append)
      show "\<forall>x\<in>set ([] @ cell_ivs cs @ fl2). tp + s \<le> fst x \<and> fst x + snd x \<le> usableSize pBt \<and> 4 \<le> snd x"
        using above l by (auto simp: layout_def fl)
    qed (use l bs True tp2 f2 chg_length [OF c] in \<open>auto simp: layout_def fl\<close>)
    moreover have "free_top h d = Some d2"
      using a t eq True g(1) nx d1(1) g2 d2(1) by (simp add: free_top_def)
    ultimately show ?thesis using c by (intro exI [of _ d2] exI [of _ fl2] exI [of _ "tp + s"]) simp
  qed
qed

section \<open>\<open>freeSpace\<close> returns an interval to the chain\<close>

lemma asc_insert:
  assumes "spaced lo fl" and "\<forall>x\<in>set fl. apart (st, sz) x" and "4 \<le> sz"
  shows "asc (takeWhile (\<lambda>x. fst x < st) fl @ (st, sz) # dropWhile (\<lambda>x. fst x < st) fl)"
  using assms
proof (induction lo fl rule: spaced.induct)
  case (2 lo b s fl)
  have b: "b < st \<Longrightarrow> b + s \<le> st" "\<not> b < st \<Longrightarrow> st + sz \<le> b" using 2(2-4) by (auto simp: apart_def)
  have nx: "b + s \<le> fst x" if "x \<in> set fl" for x using spaced_lower [of "b + s + 4" fl "fst x" "snd x"] 2(2) that by auto
  show ?case
  proof (cases "b < st")
    case True
    have ih: "asc (takeWhile (\<lambda>x. fst x < st) fl @ (st, sz) # dropWhile (\<lambda>x. fst x < st) fl)"
      using 2 by auto
    have "b + s \<le> fst (hd (takeWhile (\<lambda>x. fst x < st) fl @ (st, sz) # dropWhile (\<lambda>x. fst x < st) fl))"
      using b(1) [OF True] nx by (cases fl) auto
    with ih True 2(2) show ?thesis by (auto split: list.splits)
  next
    case False
    have "asc fl" using 2(2)
    proof (induction fl arbitrary: b s lo)
      case (Cons y fl)
      obtain b' s' where "y = (b', s')" by force
      with Cons show ?case by (cases fl) (auto split: list.splits)
    qed simp
    with False b(2) 2(2,4) show ?thesis by (cases fl) auto
  qed
qed simp

lemma layout_sets:
  assumes "layout pBt m h gap d cs fl ex tp fr" and "x \<in> set (ex @ cell_ivs cs @ fl)"
  shows "tp \<le> fst x" "fst x + snd x \<le> usableSize pBt" "4 \<le> snd x" "h + 8 \<le> fst x" "fst x + snd x \<le> min 65536 (length d)"
proof -
  have "tp \<le> fst x \<and> fst x + snd x \<le> usableSize pBt \<and> 4 \<le> snd x" using assms unfolding layout_def by blast
  moreover have "h + 8 \<le> tp" "usableSize pBt \<le> min 65536 (length d)" using assms(1) by (simp_all add: layout_def)
  ultimately show "tp \<le> fst x" "fst x + snd x \<le> usableSize pBt" "4 \<le> snd x" "h + 8 \<le> fst x" "fst x + snd x \<le> min 65536 (length d)"
    by simp_all
qed

lemma block_heads_span: "\<forall>x\<in>set fl. 4 \<le> snd x \<Longrightarrow> i \<in> block_heads fl \<Longrightarrow> \<exists>x\<in>set fl. i \<in> span x"
  by (force simp: block_heads_def span_def)

lemma interval_avoids_heads:
  assumes "\<And>y. y \<in> set fl \<Longrightarrow> apart (pc, n) y \<and> 4 \<le> snd y" and "h + 8 \<le> pc" and "H \<subseteq> {..<h + 8}"
  shows "{pc..<pc + n} \<inter> (H \<union> block_heads fl) = {}"
proof -
  have "i \<notin> H \<union> block_heads fl" if "i \<in> {pc..<pc + n}" for i
  proof
    assume "i \<in> H \<union> block_heads fl"
    moreover have "i \<notin> H" using assms(2,3) that by auto
    ultimately obtain y where "y \<in> set fl" "i \<in> span y" using block_heads_span [of fl i] assms(1) by auto
    with assms(1) apart_span [of "(pc, n)" y i] that show False by (simp add: span_def)
  qed
  then show ?thesis by blast
qed

lemma freeSpace_layout:
  assumes l: "layout pBt m h gap (aData p) cs fl [(st, sz)] tp fr" and h: "hdrOffset p = h"
  shows "\<exists>d' fl' tp' fr'. freeSpace pBt sd p st sz = Some (SQLITE_OK, p\<lparr>aData := d', nFree := u16cast (nFree p + sz)\<rparr>) \<and>
     layout pBt m h gap d' cs fl' [] tp' fr' \<and> chg (aData p) d' ({h + 1, h + 2, h + 5, h + 6, h + 7} \<union> {tp..})"
proof -
  let ?d = "aData p"
  have ex: "tp \<le> st" "st + sz \<le> usableSize pBt" "4 \<le> sz" "h + 8 \<le> tp" "usableSize pBt \<le> min 65536 (length ?d)"
    using l by (auto simp: layout_def)
  have ap: "apart (st, sz) x" if "x \<in> set (cell_ivs cs @ fl)" for x using l that by (auto simp: layout_def)
  define d0 where "d0 = (if sd then the (blit ?d st (replicate sz 0)) else ?d)"
  have d0: "(if sd then blit ?d st (replicate sz 0) else Some ?d) = Some d0" "chg ?d d0 {st..<st + sz}"
    using blit_ex [of st "replicate sz 0" ?d] ex by (auto simp: d0_def)
  have l0: "layout pBt m h gap d0 cs fl [(st, sz)] tp fr"
  proof (rule layout_chg [OF l d0(2)])
    show "{st..<st + sz} \<inter> {h + 1, h + 2, h + 5, h + 6, h + 7} = {}" using ex by auto
    have "span (st, sz) = {st..<st + sz}" by (simp add: span_def)
    then show "\<forall>x\<in>set (cell_ivs cs @ fl). span x \<inter> {st..<st + sz} = {}"
      using ap apart_disjoint by (metis inf_commute)
  qed
  define l1 where "l1 = takeWhile (\<lambda>x. fst x < st) fl"
  define l2 where "l2 = dropWhile (\<lambda>x. fst x < st) fl"
  define nx where "nx = (case l2 of [] \<Rightarrow> 0 | x # _ \<Rightarrow> fst x)"
  have fl: "fl = l1 @ l2" by (simp add: l1_def l2_def)
  have sp: "spaced (h + 1 + 4) fl" using l ex by (auto simp: layout_def intro: spaced_mono)
  have find: "free_find st (h + 1) d0 = Some (Inr (last_addr (h + 1) l1, nx))"
    using free_find_chain [OF _ sp, of d0 st] l0 by (simp add: layout_def l1_def l2_def nx_def)
  let ?nl = "l1 @ (st, sz) # l2"
  have bdl: "4 \<le> snd x \<and> h + 1 + 4 \<le> fst x \<and> fst x + snd x \<le> min 65536 (length d0)" if "x \<in> set ((st, sz) # l1 @ l2)" for x
  proof -
    have "x \<in> set ([(st, sz)] @ cell_ivs cs @ fl)" using that by (auto simp: fl)
    from layout_sets [OF l0 this] show ?thesis by simp
  qed
  have nxb: "nx \<le> usableSize pBt - 4"
  proof (cases l2)
    case (Cons x l3)
    then have "x \<in> set ([(st, sz)] @ cell_ivs cs @ fl)" by (simp add: fl)
    from layout_sets(2,3) [OF l0 this] show ?thesis by (simp add: nx_def Cons)
  qed (simp add: nx_def)
  have "flist d0 (h + 1) (l1 @ l2)" "disjs ((st, sz) # l1 @ l2)"
    using l0 by (auto simp: layout_def fl disjs_append)
  from chain_insert [OF this] bdl obtain d1 d2 d3 where
    pt: "put2byte d0 (last_addr (h + 1) l1) st = Some d1" "put2byte d1 st nx = Some d2" "put2byte d2 (st + 2) sz = Some d3"
      and f3: "flist d3 (h + 1) ?nl" and c3: "chg d0 d3 ({h + 1, h + 1 + 1} \<union> block_heads ((st, sz) # l1))"
    unfolding nx_def by blast
  have as: "asc ?nl" using asc_insert [OF sp, of st sz] ap ex by (simp add: l1_def l2_def fl [symmetric])
  have nl_bd: "fst x + snd x \<le> min 65536 (length d3) \<and> h + 8 \<le> fst x \<and> h + 1 + 2 \<le> fst x \<and> tp \<le> fst x \<and> fst x + snd x \<le> usableSize pBt \<and> 4 \<le> snd x"
    if "x \<in> set ?nl" for x
  proof -
    have "x \<in> set ([(st, sz)] @ cell_ivs cs @ fl)" using that by (auto simp: fl)
    from layout_sets [OF l0 this] chg_length [OF c3] ex show ?thesis by simp
  qed
  have heads1: "i \<notin> block_heads ((st, sz) # l1)" if "i < tp" for i
    using block_heads_span [of "(st, sz) # l1" i] nl_bd that by (force simp: span_def)
  have fr3: "rd d3 (h + 7) = Some fr"
    using rd_chg [OF c3, of "h + 7"] heads1 [of "h + 7"] l0 ex by (simp add: layout_def)
  define cl where "cl = coal ?nl"
  have hd: "tp \<le> fst (hd ?nl)" using nl_bd [of "hd ?nl"] by (metis append_is_Nil_conv hd_in_set list.distinct(1))
  have cl_sp: "spaced tp cl" unfolding cl_def by (rule coal_spaced [OF as _ hd]) simp
  have cl_up: "\<forall>x\<in>set cl. fst x + snd x \<le> usableSize pBt" unfolding cl_def by (rule coal_upper [OF as]) (use nl_bd in auto)
  have cell_nl: "apart x y" if "x \<in> set (cell_ivs cs)" "y \<in> set ?nl" for x y
  proof (cases "y = (st, sz)")
    case True
    then show ?thesis using ap [of x] that(1) apart_sym [of x y] by simp
  next
    case False
    then have "y \<in> set fl" using that(2) by (simp add: fl)
    then show ?thesis using l that(1) by (simp add: layout_def disjs_append)
  qed
  have cell_ap: "\<forall>y\<in>set cl. apart x y" if "x \<in> set (cell_ivs cs)" for x
    unfolding cl_def
  proof (rule coal_apart [OF as])
    show "\<forall>y\<in>set ?nl. apart x y" using cell_nl that by blast
    show "4 \<le> snd x" using layout_sets(3) [OF l] that by auto
  qed
  have cl_lo: "tp \<le> fst x \<and> 4 \<le> snd x" if "x \<in> set cl" for x using spaced_lower [OF cl_sp, of "fst x" "snd x"] that by simp
  have dj: "disjs (cell_ivs cs @ cl)"
    using l cell_ap spaced_disjs [OF cl_sp] by (auto simp: layout_def disjs_append)
  have bd: "\<forall>x\<in>set (cell_ivs cs @ cl). tp \<le> fst x \<and> fst x + snd x \<le> usableSize pBt \<and> 4 \<le> snd x"
    using l cl_lo cl_up by (auto simp: layout_def)
  have "tot_len (cell_ivs cs @ cl) \<le> usableSize pBt - tp"
    unfolding tot_len_def by (rule disjs_sum_le [OF dj]) (use bd in auto)
  moreover have tl: "tot_len (cell_ivs cs) + tot_len ?nl + unat fr + tp = usableSize pBt"
    using l by (simp add: layout_def fl)
  ultimately have fit: "tot_len (coal ?nl) \<le> tot_len ?nl + unat fr" by (simp add: cl_def)
  have "\<forall>x\<in>set ?nl. fst x + snd x \<le> min 65536 (length d3) \<and> h + 8 \<le> fst x \<and> h + 1 + 2 \<le> fst x" using nl_bd by blast
  from coalesce_chain [OF f3 as this _ _ fr3 fit] obtain d4 fr' where
    run: "coalesce h (h + 1) d3 = Some (SQLITE_OK, d4)" and f4: "flist d4 (h + 1) cl" and fr4: "rd d4 (h + 7) = Some fr'"
      and tot: "unat fr' + tot_len cl = unat fr + tot_len ?nl" and c4: "chg d3 d4 ({h + 7} \<union> block_heads ?nl)"
    unfolding cl_def by auto
  define S where "S = {h + 1, h + 2, h + 7} \<union> {st..<st + sz} \<union> block_heads ?nl"
  have cS: "chg ?d d4 S"
    by (rule chg_trans [OF chg_trans [OF d0(2) c3 order_refl] c4]) (auto simp: S_def block_heads_def)
  have S: "i = h + 1 \<or> i = h + 2 \<or> i = h + 7 \<or> (\<exists>x\<in>set ?nl. i \<in> span x)" if "i \<in> S" for i
    using that block_heads_span [of ?nl i] nl_bd by (auto simp: S_def span_def)
  have S_lo: "i = h + 1 \<or> i = h + 2 \<or> i = h + 7 \<or> tp \<le> i" if "i \<in> S" for i
    using S [OF that] nl_bd by (force simp: span_def)
  have "layout pBt m h gap d4 cs cl [] tp fr'"
    unfolding layout_def
  proof (intro conjI)
    have "get2byteNotZero d4 (h + 5) = get2byteNotZero ?d (h + 5)"
      using S_lo [of "h + 5"] S_lo [of "h + 5 + 1"] ex by (intro get2byteNotZero_chg [OF cS]) auto
    then show "get2byteNotZero d4 (h + 5) = Some tp" using l by (simp add: layout_def)
    show "\<forall>(pc, c)\<in>set cs. rdn d4 pc (length c) = Some c \<and> cellSizePtr pBt m c = Some (length c)"
    proof clarify
      fix pc c assume c: "(pc, c) \<in> set cs"
      then have x: "(pc, length c) \<in> set (cell_ivs cs)" by (force simp: cell_ivs_def)
      have ap': "apart (pc, length c) y" if "y \<in> set ?nl" for y using cell_nl x that by blast
      have h8: "h + 8 \<le> pc" using layout_sets(4) [OF l, of "(pc, length c)"] x by simp
      have "i \<notin> S" if "i \<in> {pc..<pc + length c}" for i
      proof -
        have "i \<in> span (pc, length c)" using that by (simp add: span_def)
        then have "\<not> (\<exists>y\<in>set ?nl. i \<in> span y)" using ap' apart_span by blast
        moreover have "h + 8 \<le> i" using that h8 by simp
        ultimately show ?thesis using S [of i] by auto
      qed
      then have "{pc..<pc + length c} \<inter> S = {}" by blast
      then have "rdn d4 pc (length c) = rdn ?d pc (length c)" by (rule rdn_chg [OF cS])
      then show "rdn d4 pc (length c) = Some c \<and> cellSizePtr pBt m c = Some (length c)" using l c by (auto simp: layout_def)
    qed
  qed (use ex l [unfolded layout_def] f4 fr4 cl_sp dj bd tot tl chg_length [OF cS] in simp_all)
  moreover have "cl \<noteq> []" by (simp add: cl_def)
  ultimately obtain d5 fl' tp' where top: "free_top h d4 = Some d5" and l5: "layout pBt m h gap d5 cs fl' [] tp' fr'"
      and c5: "chg d4 d5 {h + 1, h + 2, h + 5, h + 6}"
    using free_top_layout by blast
  have "chg ?d d5 ({h + 1, h + 2, h + 5, h + 6, h + 7} \<union> {tp..})"
    by (rule chg_trans [OF cS c5]) (use S_lo in blast)
  moreover have "freeSpace pBt sd p st sz = Some (SQLITE_OK, p\<lparr>aData := d5, nFree := u16cast (nFree p + sz)\<rparr>)"
    using d0(1) find nxb pt run top h by (simp add: freeSpace_def)
  ultimately show ?thesis using l5 by blast
qed

section \<open>\<open>alloc_search\<close> takes an interval out of the chain\<close>

lemma alloc_search_chain:
  assumes "flist d a fl" and "spaced (a + 4) fl" and "\<forall>x\<in>set fl. fst x + snd x \<le> u \<and> h + 8 \<le> fst x"
    and "u \<le> length d" and "u \<le> 65536" and "a \<noteq> h + 7" and "a + 1 \<noteq> h + 7" and "a + 2 \<le> length d" and "h + 7 < length d"
    and "0 < nByte"
  shows "alloc_search u h nByte nFrag a d = Some Slot_None \<or>
     (\<exists>l1 b s l2 d'. fl = l1 @ (b, s) # l2 \<and> nByte \<le> s \<and> alloc_search u h nByte nFrag a d = Some (Slot (b + (s - nByte)) d') \<and>
        chg d d' ({h + 7, a, a + 1} \<union> block_heads fl) \<and>
        (if s - nByte < 4 then flist d' a (l1 @ l2) \<and> rd d' (h + 7) = Some (of_nat (nFrag + (s - nByte)))
         else flist d' a (l1 @ (b, s - nByte) # l2) \<and> rd d' (h + 7) = rd d (h + 7)))"
  using assms
proof (induction fl arbitrary: a)
  case Nil
  then show ?case by (simp add: alloc_search.simps)
next
  case (Cons y fl)
  obtain b s where y: "y = (b, s)" by force
  have g: "get2byte d a = Some b" "0 < b" "get2byte d (b + 2) = Some s" "flist d b fl" using Cons.prems(1) by (simp_all add: y)
  have bd: "a + 4 \<le> b" "4 \<le> s" "b + s \<le> u" "h + 8 \<le> b" using Cons.prems(2,3) by (auto simp: y)
  have nx: "b + s + 4 \<le> fst x" if "x \<in> set fl" for x
    using spaced_lower [of "b + s + 4" fl "fst x" "snd x"] Cons.prems(2) that by (auto simp: y)
  show ?case
  proof (cases "nByte \<le> s")
    case True
    show ?thesis
    proof (cases "s - nByte < 4")
      case x: True
      obtain n where n: "rdn d b 2 = Some n" using bd Cons.prems(4) by (simp add: rdn_def)
      obtain d1 where d1: "blit d a n = Some d1" "chg d d1 {a..<a + 2}"
        using blit_ex [of a n d] rdn_length [OF n] Cons.prems(8) by auto
      obtain d2 where d2: "wr d1 (h + 7) (of_nat (nFrag + (s - nByte))) = Some d2" "chg d1 d2 {h + 7}"
          "rd d2 (h + 7) = Some (of_nat (nFrag + (s - nByte)))"
        using wr_ex [of "h + 7" d1] Cons.prems(9) chg_length [OF d1(2)] by auto
      have c: "chg d d2 {a, a + 1, h + 7}" by (rule chg_trans [OF d1(2) d2(2)]) auto
      have "get2byte d2 a = get2byte d b"
        using rdn2_put [OF n d1(1)] get2byte_chg [OF d2(2), of a] Cons.prems(6,7) by simp
      then have "flist d2 a fl"
        by (intro flist_relink [OF c g(4)]) (use nx bd in force)+
      moreover have "alloc_search u h nByte nFrag a d = Some (Slot (b + (s - nByte)) d2)"
        using g bd True x n d1(1) d2(1) by (subst alloc_search.simps) simp
      moreover have "chg d d2 ({h + 7, a, a + 1} \<union> block_heads (y # fl))" by (rule chg_mono [OF c]) auto
      ultimately show ?thesis using x True d2(3)
        by (intro disjI2 exI [of _ "[]"] exI [of _ b] exI [of _ s] exI [of _ fl] exI [of _ d2]) (simp add: y)
    next
      case x: False
      obtain d1 where d1: "put2byte d (b + 2) (s - nByte) = Some d1" "chg d d1 {b + 2, b + 2 + 1}"
          "get2byte d1 (b + 2) = Some ((s - nByte) mod 65536)"
        using put2byte_ex [of "b + 2" d "s - nByte"] bd Cons.prems(4) by auto
      have "(s - nByte) mod 65536 = s - nByte" using get2byte_less [OF g(3)] by simp
      moreover have "get2byte d1 a = get2byte d a" by (rule get2byte_chg [OF d1(2)]) (use bd in auto)
      moreover have "flist d1 b fl" by (rule flist_chg [OF d1(2) g(4)]) (use nx bd in force)+
      ultimately have "flist d1 a ((b, s - nByte) # fl)" using g d1(3) by simp
      moreover have "rd d1 (h + 7) = rd d (h + 7)" by (rule rd_chg [OF d1(2)]) (use bd in auto)
      moreover have "alloc_search u h nByte nFrag a d = Some (Slot (b + (s - nByte)) d1)"
        using g bd True x d1(1) by (subst alloc_search.simps) simp
      moreover have "chg d d1 ({h + 7, a, a + 1} \<union> block_heads (y # fl))" by (rule chg_mono [OF d1(2)]) (auto simp: y)
      ultimately show ?thesis using x True
        by (intro disjI2 exI [of _ "[]"] exI [of _ b] exI [of _ s] exI [of _ fl] exI [of _ d1]) (simp add: y)
    qed
  next
    case False
    have "\<not> u - 4 < b" using bd by simp
    then have step: "alloc_search u h nByte nFrag a d = alloc_search u h nByte nFrag b d"
      using g bd False by (subst alloc_search.simps) simp
    have "spaced (b + 4) fl" using Cons.prems(2) by (auto simp: y intro: spaced_mono)
    from Cons.IH [OF g(4) this] Cons.prems(3-10) bd
    consider "alloc_search u h nByte nFrag b d = Some Slot_None"
      | l1 b' s' l2 d' where "fl = l1 @ (b', s') # l2" "nByte \<le> s'" "alloc_search u h nByte nFrag b d = Some (Slot (b' + (s' - nByte)) d')"
        "chg d d' ({h + 7, b, b + 1} \<union> block_heads fl)"
        "if s' - nByte < 4 then flist d' b (l1 @ l2) \<and> rd d' (h + 7) = Some (of_nat (nFrag + (s' - nByte)))
         else flist d' b (l1 @ (b', s' - nByte) # l2) \<and> rd d' (h + 7) = rd d (h + 7)"
      by (auto simp: y)
    then show ?thesis
    proof cases
      case 1
      then show ?thesis by (simp add: step)
    next
      case 2
      have out: "i \<notin> {h + 7, b, b + 1} \<union> block_heads fl" if "i < b \<and> i \<noteq> h + 7 \<or> b + 2 \<le> i \<and> i < b + s" for i
        using that bd nx by (force simp: block_heads_def)
      have "get2byte d' a = get2byte d a" "get2byte d' (b + 2) = get2byte d (b + 2)"
        using out bd Cons.prems(6,7) by (intro get2byte_chg [OF 2(4)]; simp)+
      moreover have "chg d d' ({h + 7, a, a + 1} \<union> block_heads (y # fl))" by (rule chg_mono [OF 2(4)]) (auto simp: y)
      ultimately show ?thesis using 2 g
        by (intro disjI2 exI [of _ "y # l1"] exI [of _ b'] exI [of _ s'] exI [of _ l2] exI [of _ d']) (auto simp: y step)
    qed
  qed
qed

section \<open>\<open>defragmentPage\<close> moves the cells together\<close>

text \<open>The size of a cell depends on the bytes of the cell only.\<close>

lemma skip_key_local: "skip_key n p = Some k \<Longrightarrow> skip_key n (p @ q) = Some k"
  by (induction n p arbitrary: k rule: skip_key.induct) (auto split: if_splits)

lemma GetVarint_append: "sqlite3GetVarint p = Some (n, v) \<Longrightarrow> sqlite3GetVarint (p @ q) = Some (n, v)"
  using varint64.get_local [of p n v "drop n p @ q"] by (simp flip: append_assoc)

lemma GetVarint32_append: "sqlite3GetVarint32 p = Some (n, v) \<Longrightarrow> sqlite3GetVarint32 (p @ q) = Some (n, v)"
  using varint32.get_local [of p n v "drop n p @ q"] by (simp flip: append_assoc)

lemma skip_key_length: "skip_key n p = Some k \<Longrightarrow> k \<le> length p"
  by (induction n p arbitrary: k rule: skip_key.induct) (auto split: if_splits)

lemma cellSizePtr_local:
  assumes "cellSizePtr pBt m c = Some n"
  shows "cellSizePtr pBt m (c @ rest) = Some n"
proof -
  have nil: "sqlite3GetVarint32 [] = None" by (simp add: sqlite3GetVarint32_def)
  have "childPtrSize m \<le> length c"
  proof (rule ccontr)
    assume "\<not> childPtrSize m \<le> length c"
    then have "drop (childPtrSize m) c = []" by simp
    then have "cellSizePtr pBt m c = None" using nil by (simp add: cellSizePtr_def Let_def)
    with assms show False by simp
  qed
  then have dr: "drop (childPtrSize m) (c @ rest) = drop (childPtrSize m) c @ rest" by simp
  consider "intKey m" "hasData m" | "intKey m" "\<not> hasData m" | "\<not> intKey m" by blast
  then show ?thesis
  proof cases
    case 1
    then obtain a v where r: "sqlite3GetVarint32 (drop (childPtrSize m) c) = Some (a, v)"
      using assms by (cases "sqlite3GetVarint32 (drop (childPtrSize m) c)") (auto simp: cellSizePtr_def Let_def)
    then obtain k where k: "skip_key 9 (drop (childPtrSize m + a) c) = Some k"
      using assms 1 by (cases "skip_key 9 (drop (childPtrSize m + a) c)") (auto simp: cellSizePtr_def Let_def)
    have "a \<le> length (drop (childPtrSize m) c)" using varint32.get_bounds [OF r] by simp
    then have "drop (childPtrSize m + a) (c @ rest) = drop (childPtrSize m + a) c @ rest"
      using \<open>childPtrSize m \<le> length c\<close> by simp
    then show ?thesis
      using assms 1 r k GetVarint32_append [OF r, of rest] skip_key_local [OF k, of rest]
      unfolding cellSizePtr_def Let_def dr by simp
  next
    case 2
    then obtain k where k: "skip_key 9 (drop (childPtrSize m) c) = Some k"
      using assms by (cases "skip_key 9 (drop (childPtrSize m) c)") (auto simp: cellSizePtr_def Let_def)
    then show ?thesis
      using assms 2 \<open>childPtrSize m \<le> length c\<close> skip_key_local [OF k, of rest] unfolding cellSizePtr_def Let_def dr by simp
  next
    case 3
    then obtain a v where r: "sqlite3GetVarint32 (drop (childPtrSize m) c) = Some (a, v)"
      using assms by (cases "sqlite3GetVarint32 (drop (childPtrSize m) c)") (auto simp: cellSizePtr_def Let_def)
    then show ?thesis
      using assms 3 \<open>childPtrSize m \<le> length c\<close> GetVarint32_append [OF r, of rest] unfolding cellSizePtr_def Let_def dr by simp
  qed
qed

lemma rdn_split: "rdn d i n = Some xs \<Longrightarrow> drop i d = xs @ drop (i + n) d"
  by (auto simp: rdn_def split: if_splits) (metis append_take_drop_id drop_drop add.commute)

lemma defrag_loop_ok:
  assumes "gap = co + 2 * (i + length cs)" and "\<forall>j<length cs. get2byte data (co + 2 * (i + j)) = Some (fst (cs ! j))"
    and "\<forall>(pc, c)\<in>set cs. rdn temp pc (length c) = Some c \<and> cellSizePtr pBt m c = Some (length c) \<and>
      gap \<le> pc \<and> pc + length c \<le> usableSize pBt \<and> 4 \<le> length c"
    and "gap + tot_len (cell_ivs cs) \<le> cbrk" and "cbrk \<le> usableSize pBt" and "usableSize pBt \<le> min 65536 (length data)"
  shows "\<exists>data' cs'. defrag_loop pBt m temp co gap i (length cs) cbrk data = Some (SQLITE_OK, cbrk - tot_len (cell_ivs cs), data') \<and>
     map snd cs' = map snd cs \<and> (\<forall>j<length cs. get2byte data' (co + 2 * (i + j)) = Some (fst (cs' ! j))) \<and>
     (\<forall>(pc, c)\<in>set cs'. rdn data' pc (length c) = Some c \<and> cbrk - tot_len (cell_ivs cs) \<le> pc \<and> pc + length c \<le> cbrk) \<and>
     disjs (cell_ivs cs') \<and> chg data data' ({co + 2 * i..<gap} \<union> {cbrk - tot_len (cell_ivs cs)..<cbrk})"
  using assms
proof (induction cs arbitrary: i cbrk data)
  case Nil
  then show ?case by (intro exI [of _ data] exI [of _ "[]"]) simp
next
  case (Cons y cs)
  obtain pc c where y: "y = (pc, c)" by force
  have g: "get2byte data (co + 2 * i) = Some pc" using Cons.prems(2) by (force simp: y)
  have c: "rdn temp pc (length c) = Some c" "cellSizePtr pBt m c = Some (length c)" "gap \<le> pc"
      "pc + length c \<le> usableSize pBt" "4 \<le> length c"
    using Cons.prems(3) by (auto simp: y)
  have sz: "cellSizePtr pBt m (drop pc temp) = Some (length c)"
    using cellSizePtr_local [OF c(2)] rdn_split [OF c(1)] by simp
  let ?b = "cbrk - length c" and ?t = "tot_len (cell_ivs cs)"
  have len: "gap + length c + ?t \<le> cbrk" using Cons.prems(4) by (simp add: y)
  obtain d1 where d1: "blit data ?b c = Some d1" "chg data d1 {?b..<cbrk}" "rdn d1 ?b (length c) = Some c"
    using blit_ex [of ?b c data] len Cons.prems(5,6) by auto
  have gapi: "co + 2 * i + 2 \<le> gap" using Cons.prems(1) by simp
  obtain d2 where d2: "put2byte d1 (co + 2 * i) ?b = Some d2" "chg d1 d2 {co + 2 * i, co + 2 * i + 1}"
      "get2byte d2 (co + 2 * i) = Some (?b mod 65536)"
    using put2byte_ex [of "co + 2 * i" d1 ?b] gapi len Cons.prems(5,6) chg_length [OF d1(2)] by auto
  have "?b < 65536" using Cons.prems(5,6) c(5) len by linarith
  then have b16: "?b mod 65536 = ?b" by simp
  have c2: "chg data d2 ({co + 2 * i, co + 2 * i + 1} \<union> {?b..<cbrk})" by (rule chg_trans [OF d1(2) d2(2)]) auto
  have in_range: "\<not> usableSize pBt - 4 < pc" "\<not> cbrk < gap + length c" using c len by auto
  have step: "defrag_loop pBt m temp co gap i (length (y # cs)) cbrk data = defrag_loop pBt m temp co gap (i + 1) (length cs) ?b d2"
    using g c sz in_range d1(1) d2(1) by (simp add: mult.commute [of i])
  have "\<exists>data' cs'. defrag_loop pBt m temp co gap (i + 1) (length cs) ?b d2 = Some (SQLITE_OK, ?b - ?t, data') \<and>
     map snd cs' = map snd cs \<and> (\<forall>j<length cs. get2byte data' (co + 2 * (i + 1 + j)) = Some (fst (cs' ! j))) \<and>
     (\<forall>(pc, c)\<in>set cs'. rdn data' pc (length c) = Some c \<and> ?b - ?t \<le> pc \<and> pc + length c \<le> ?b) \<and>
     disjs (cell_ivs cs') \<and> chg d2 data' ({co + 2 * (i + 1)..<gap} \<union> {?b - ?t..<?b})"
  proof (rule Cons.IH)
    show "gap = co + 2 * (i + 1 + length cs)" using Cons.prems(1) by simp
    show "\<forall>j<length cs. get2byte d2 (co + 2 * (i + 1 + j)) = Some (fst (cs ! j))"
    proof (intro allI impI)
      fix j assume j: "j < length cs"
      have "get2byte d2 (co + 2 * (i + 1 + j)) = get2byte data (co + 2 * (i + 1 + j))"
        by (rule get2byte_chg [OF c2]) (use j len Cons.prems(1) in auto)
      then show "get2byte d2 (co + 2 * (i + 1 + j)) = Some (fst (cs ! j))"
        using Cons.prems(2) [rule_format, of "Suc j"] j by simp
    qed
  qed (use Cons.prems len chg_length [OF c2] in auto)
  then obtain data' cs' where r: "defrag_loop pBt m temp co gap (i + 1) (length cs) ?b d2 = Some (SQLITE_OK, ?b - ?t, data')"
     "map snd cs' = map snd cs" "\<forall>j<length cs. get2byte data' (co + 2 * (i + 1 + j)) = Some (fst (cs' ! j))"
     "\<forall>(pc, c)\<in>set cs'. rdn data' pc (length c) = Some c \<and> ?b - ?t \<le> pc \<and> pc + length c \<le> ?b"
     "disjs (cell_ivs cs')" "chg d2 data' ({co + 2 * (i + 1)..<gap} \<union> {?b - ?t..<?b})"
    by blast
  have p0: "get2byte data' (co + 2 * i) = Some ?b"
    using get2byte_chg [OF r(6), of "co + 2 * i"] d2(3) b16 len gapi by auto
  have "rdn data' ?b (length c) = rdn d2 ?b (length c)" by (rule rdn_chg [OF r(6)]) (use len in auto)
  moreover have "rdn d2 ?b (length c) = rdn d1 ?b (length c)" by (rule rdn_chg [OF d2(2)]) (use len gapi in auto)
  ultimately have c0: "rdn data' ?b (length c) = Some c" using d1(3) by simp
  have ptrs: "\<forall>j<length (y # cs). get2byte data' (co + 2 * (i + j)) = Some (fst (((?b, c) # cs') ! j))"
  proof (intro allI impI)
    fix j assume "j < length (y # cs)"
    then show "get2byte data' (co + 2 * (i + j)) = Some (fst (((?b, c) # cs') ! j))"
      using p0 r(3) by (cases j) auto
  qed
  have ap: "\<forall>x\<in>set (cell_ivs cs'). apart (?b, length c) x" using r(4) by (force simp: cell_ivs_def apart_def)
  have "chg data data' ({co + 2 * i..<gap} \<union> {?b - ?t..<cbrk})"
    by (rule chg_trans [OF c2 r(6)]) (use gapi in auto)
  moreover have "cbrk - tot_len (cell_ivs (y # cs)) = ?b - ?t" by (simp add: y)
  moreover have "\<forall>(pc, c)\<in>set ((?b, c) # cs'). rdn data' pc (length c) = Some c \<and> ?b - ?t \<le> pc \<and> pc + length c \<le> cbrk"
    using r(4) c0 len by auto
  ultimately show ?case
    using r(1,2,5) step ptrs ap y by (intro exI [of _ data'] exI [of _ "(?b, c) # cs'"]) simp
qed

definition ptrs :: "u8 list \<Rightarrow> nat \<Rightarrow> (nat \<times> u8 list) list \<Rightarrow> bool" where
  "ptrs d co cs \<longleftrightarrow> (\<forall>j<length cs. get2byte d (co + 2 * j) = Some (fst (cs ! j)))"

text \<open>The invariant of a page object without overflow cells.\<close>

definition page_layout :: "bt_shared \<Rightarrow> bt_page \<Rightarrow> (nat \<times> u8 list) list \<Rightarrow> ival list \<Rightarrow> nat \<Rightarrow> u8 \<Rightarrow> bool" where
  "page_layout pBt p cs fl tp fr \<longleftrightarrow>
     page_ok pBt (pg p) \<and> cellOffset p = hdrOffset p + (if leaf (pg p) then 8 else 12) \<and> aOvfl p = [] \<and>
     Option.bind (rd (aData p) (hdrOffset p)) (decodeFlags pBt) = Some (pg p) \<and>
     nCell p = length cs \<and> get2byte (aData p) (hdrOffset p + 3) = Some (length cs) \<and> ptrs (aData p) (cellOffset p) cs \<and>
     layout pBt (pg p) (hdrOffset p) (cellOffset p + 2 * nCell p) (aData p) cs fl [] tp fr \<and>
     nFree p + cellOffset p + 2 * nCell p = unat fr + tp + tot_len fl"

lemma rdn_eq_sub:
  assumes "rdn a i n = Some xs" and "rdn b i n = Some xs" and "i \<le> j" and "j + m \<le> i + n"
  shows "rdn a j m = rdn b j m"
  using rdn_sub [OF assms(1), of "j - i" m] rdn_sub [OF assms(2), of "j - i" m] assms(3,4) by simp

lemma map_snd_ivs: "map snd cs' = map snd cs \<Longrightarrow> map snd (cell_ivs cs') = map snd (cell_ivs cs)"
proof -
  have "map snd (cell_ivs xs) = map length (map snd xs)" for xs :: "(nat \<times> u8 list) list"
    by (induction xs) (auto simp: cell_ivs_def)
  then show "map snd cs' = map snd cs \<Longrightarrow> map snd (cell_ivs cs') = map snd (cell_ivs cs)" by (simp only:)
qed

lemma cell_mem_ivs: "(pc, c) \<in> set cs \<Longrightarrow> (pc, length c) \<in> set (cell_ivs cs)"
  by (force simp: cell_ivs_def)

lemma defragmentPage_ok:
  assumes pl: "page_layout pBt p cs fl tp fr" and tmp: "usableSize pBt \<le> length temp"
  shows "\<exists>d' cs'. defragmentPage pBt temp p = Some (SQLITE_OK, p\<lparr>aData := d'\<rparr>) \<and> map snd cs' = map snd cs \<and>
     page_layout pBt (p\<lparr>aData := d'\<rparr>) cs' [] (cellOffset p + 2 * nCell p + nFree p) 0"
proof -
  define h where "h = hdrOffset p"
  define co where "co = cellOffset p"
  define gap where "gap = co + 2 * nCell p"
  define u where "u = usableSize pBt"
  let ?d = "aData p"
  have l: "layout pBt (pg p) h gap ?d cs fl [] tp fr" using pl unfolding page_layout_def h_def gap_def co_def by blast
  have n: "nCell p = length cs" "ptrs ?d co cs" "nFree p + gap = unat fr + tp + tot_len fl" "h + 8 \<le> co"
    using pl by (auto simp: page_layout_def co_def gap_def h_def)
  have b: "u \<le> 65536" "u \<le> length ?d" "gap \<le> tp" "tp \<le> u" "h + 8 \<le> gap" "get2byteNotZero ?d (h + 5) = Some tp"
      "tot_len (cell_ivs cs) + tot_len fl + unat fr + tp = u"
    using l by (simp_all add: layout_def u_def)
  define t where "t = tot_len (cell_ivs cs)"
  define cb where "cb = u - t"
  have cb: "cb = gap + nFree p" "gap \<le> cb" "cb \<le> u" "gap + t \<le> u" using b n by (simp_all add: cb_def t_def)
  obtain c0 where c0: "get2byte ?d (h + 5) = Some c0" "c0 \<le> tp" "tp = 65536 \<and> c0 = 0 \<or> c0 = tp"
    using b(6) by (auto simp: get2byteNotZero_def split: if_splits)
  obtain x where x: "rdn ?d c0 (u - c0) = Some x" using b c0 by (simp add: rdn_def)
  obtain temp' where t': "blit temp c0 x = Some temp'" "rdn temp' c0 (u - c0) = Some x"
    using blit_ex [of c0 x temp] rdn_length [OF x] tmp c0(2) b by (auto simp: u_def)
  have cells: "rdn temp' pc (length c) = Some c \<and> cellSizePtr pBt (pg p) c = Some (length c) \<and> gap \<le> pc \<and> pc + length c \<le> u \<and> 4 \<le> length c"
    if "(pc, c) \<in> set cs" for pc c
  proof -
    have i: "tp \<le> pc" "pc + length c \<le> u" "4 \<le> length c"
      using layout_sets [OF l, of "(pc, length c)"] cell_mem_ivs [OF that] by (auto simp: u_def)
    have "rdn temp' pc (length c) = rdn ?d pc (length c)"
      by (rule rdn_eq_sub [OF t'(2) x]) (use i c0 b in auto)
    moreover have "rdn ?d pc (length c) = Some c" "cellSizePtr pBt (pg p) c = Some (length c)"
      using l that by (auto simp: layout_def)
    ultimately show ?thesis using i b by simp
  qed
  have "\<exists>data' cs'. defrag_loop pBt (pg p) temp' co gap 0 (length cs) u ?d = Some (SQLITE_OK, u - tot_len (cell_ivs cs), data') \<and>
     map snd cs' = map snd cs \<and> (\<forall>j<length cs. get2byte data' (co + 2 * (0 + j)) = Some (fst (cs' ! j))) \<and>
     (\<forall>(pc, c)\<in>set cs'. rdn data' pc (length c) = Some c \<and> u - tot_len (cell_ivs cs) \<le> pc \<and> pc + length c \<le> u) \<and>
     disjs (cell_ivs cs') \<and> chg ?d data' ({co + 2 * 0..<gap} \<union> {u - tot_len (cell_ivs cs)..<u})"
    by (rule defrag_loop_ok)
      (use n cells cb b in \<open>auto simp: gap_def ptrs_def u_def t_def\<close>)
  then obtain d1 cs' where run: "defrag_loop pBt (pg p) temp' co gap 0 (length cs) u ?d = Some (SQLITE_OK, cb, d1)"
     and cs': "map snd cs' = map snd cs" "\<forall>j<length cs. get2byte d1 (co + 2 * j) = Some (fst (cs' ! j))"
       "\<forall>(pc, c)\<in>set cs'. rdn d1 pc (length c) = Some c \<and> cb \<le> pc \<and> pc + length c \<le> u"
       "disjs (cell_ivs cs')" and c1: "chg ?d d1 ({co..<gap} \<union> {cb..<u})"
    by (auto simp: cb_def t_def)
  have len: "h + 8 \<le> length d1" using b chg_length [OF c1] by simp
  obtain d2 where d2: "put2byte d1 (h + 5) cb = Some d2" "chg d1 d2 {h + 5, h + 5 + 1}" "get2byte d2 (h + 5) = Some (cb mod 65536)"
    using put2byte_ex [of "h + 5" d1 cb] len by auto
  obtain d3 where d3: "wr d2 (h + 1) 0 = Some d3" "chg d2 d3 {h + 1}" "rd d3 (h + 1) = Some 0"
    using wr_ex [of "h + 1" d2] len chg_length [OF d2(2)] by auto
  obtain d4 where d4: "wr d3 (h + 2) 0 = Some d4" "chg d3 d4 {h + 2}" "rd d4 (h + 2) = Some 0"
    using wr_ex [of "h + 2" d3] len chg_length [OF d2(2)] chg_length [OF d3(2)] by auto
  obtain d5 where d5: "wr d4 (h + 7) 0 = Some d5" "chg d4 d5 {h + 7}" "rd d5 (h + 7) = Some 0"
    using wr_ex [of "h + 7" d4] len chg_length [OF d2(2)] chg_length [OF d3(2)] chg_length [OF d4(2)] by auto
  have len5: "length d5 = length ?d"
    using chg_length [OF c1] chg_length [OF d2(2)] chg_length [OF d3(2)] chg_length [OF d4(2)] chg_length [OF d5(2)] by simp
  obtain d6 where d6: "blit d5 gap (replicate (cb - gap) 0) = Some d6" "chg d5 d6 {gap..<cb}"
    using blit_ex [of gap "replicate (cb - gap) 0" d5] cb b len5 by auto
  have c16: "chg d1 d6 ({h + 1, h + 2, h + 5, h + 6, h + 7} \<union> {gap..<cb})"
    by (rule chg_trans [OF chg_trans [OF chg_trans [OF chg_trans [OF d2(2) d3(2) order_refl] d4(2) order_refl] d5(2) order_refl] d6(2)]) auto
  have c06: "chg ?d d6 ({h + 1, h + 2, h + 5, h + 6, h + 7} \<union> {co..<u})"
    by (rule chg_trans [OF c1 c16]) (use cb b n gap_def in auto)
  have hd: "get2byte d6 (h + 3) = get2byte ?d (h + 3)" "rd d6 h = rd ?d h"
    using get2byte_chg [OF c06, of "h + 3"] rd_chg [OF c06, of h] n(4) by auto
  have r5: "rd d5 (h + 1) = Some 0" "rd d5 (h + 2) = Some 0"
    using rd_chg [OF d5(2)] rd_chg [OF d4(2)] d3(3) d4(3) by auto
  have g5: "get2byte d5 (h + 5) = Some (cb mod 65536)"
    using get2byte_chg [OF d5(2), of "h + 5"] get2byte_chg [OF d4(2), of "h + 5"] get2byte_chg [OF d3(2), of "h + 5"] d2(3) by auto
  have r6: "rd d6 i = rd d5 i" if "i < gap" for i by (rule rd_chg [OF d6(2)]) (use that in auto)
  have z: "get2byte d6 (h + 1) = Some 0"
    using r6 [of "h + 1"] r6 [of "h + 2"] r5 b by (simp add: get2byte_def)
  have fr6: "rd d6 (h + 7) = Some 0" using r6 [of "h + 7"] d5(3) b by simp
  have "get2byte d6 (h + 5) = Some (cb mod 65536)"
    using get2byte_chg [OF d6(2), of "h + 5"] g5 b by simp
  moreover have "0 < cb" using b cb by simp
  ultimately have tp6: "get2byteNotZero d6 (h + 5) = Some cb"
    using cb b by (cases "cb = 65536") (auto simp: get2byteNotZero_def)
  have cells6: "rdn d6 pc (length c) = Some c \<and> cellSizePtr pBt (pg p) c = Some (length c) \<and> cb \<le> pc \<and> pc + length c \<le> u \<and> 4 \<le> length c"
    if "(pc, c) \<in> set cs'" for pc c
  proof -
    have i: "rdn d1 pc (length c) = Some c" "cb \<le> pc" "pc + length c \<le> u" using cs'(3) that by auto
    have "rdn d6 pc (length c) = rdn d1 pc (length c)" by (rule rdn_chg [OF c16]) (use i cb b in auto)
    moreover have "c \<in> snd ` set cs" using that cs'(1) by (metis list.set_map snd_conv image_eqI)
    then obtain q where "(q, c) \<in> set cs" by force
    ultimately show ?thesis using i cells by auto
  qed
  have tot: "tot_len (cell_ivs cs') = t" using map_snd_ivs [OF cs'(1)] by (simp add: t_def tot_len_def)
  have pt: "ptrs d6 co cs'"
    unfolding ptrs_def
  proof (intro allI impI)
    fix j assume "j < length cs'"
    then have j: "j < length cs" using cs'(1) by (metis length_map)
    have "get2byte d6 (co + 2 * j) = get2byte d1 (co + 2 * j)"
      by (rule get2byte_chg [OF c16]) (use j n(1,4) gap_def in auto)
    then show "get2byte d6 (co + 2 * j) = Some (fst (cs' ! j))" using cs'(2) j by simp
  qed
  have "layout pBt (pg p) h gap d6 cs' [] [] cb 0"
    unfolding layout_def
    using b cb tp6 fr6 z cells6 cs'(4) tot chg_length [OF c06] n(4)
    by (auto simp: u_def cb_def cell_ivs_def)
  moreover have "length cs' = length cs" using cs'(1) by (metis length_map)
  ultimately have "page_layout pBt (p\<lparr>aData := d6\<rparr>) cs' [] cb 0"
    using pl hd pt n cb by (auto simp: page_layout_def h_def co_def gap_def)
  moreover have "defragmentPage pBt temp p = Some (SQLITE_OK, p\<lparr>aData := d6\<rparr>)"
    using c0(1) x t'(1) run n(1) d2(1) d3(1) d4(1) d5(1) d6(1) cb(1)
    unfolding defragmentPage_def Let_def by (simp add: h_def co_def gap_def u_def)
  ultimately show ?thesis using cs'(1) cb(1) by (auto simp: co_def gap_def)
qed

section \<open>\<open>allocateSpace\<close>\<close>

lemma spaced_remove: "spaced lo (l1 @ (b, s) # l2) \<Longrightarrow> spaced lo (l1 @ l2)"
  by (induction l1 arbitrary: lo) (auto intro: spaced_mono)

lemma spaced_shrink: "spaced lo (l1 @ (b, s) # l2) \<Longrightarrow> 4 \<le> x \<Longrightarrow> x \<le> s \<Longrightarrow> spaced lo (l1 @ (b, x) # l2)"
  by (induction l1 arbitrary: lo) (auto intro: spaced_mono)

lemma apart_inside: "apart (b, s) y \<Longrightarrow> b \<le> b' \<Longrightarrow> b' + s' \<le> b + s \<Longrightarrow> apart (b', s') y"
  by (auto simp: apart_def)

lemma alloc_search_layout:
  assumes l: "layout pBt m h gap d cs fl [] tp fr" and "unat fr < 60" and nb: "4 \<le> nByte"
  shows "alloc_search (usableSize pBt) h nByte (unat fr) (h + 1) d = Some Slot_None \<or>
     (\<exists>idx d' fl' fr'. alloc_search (usableSize pBt) h nByte (unat fr) (h + 1) d = Some (Slot idx d') \<and>
        layout pBt m h gap d' cs fl' [(idx, nByte)] tp fr' \<and> chg d d' ({h + 1, h + 2, h + 7} \<union> {tp..}))"
proof -
  have b: "h + 8 \<le> tp" "usableSize pBt \<le> 65536" "usableSize pBt \<le> length d" "tp \<le> usableSize pBt"
    using l by (simp_all add: layout_def)
  have fl: "flist d (h + 1) fl" "spaced tp fl" using l by (simp_all add: layout_def)
  have sp: "spaced (h + 1 + 4) fl" using fl(2) b by (auto intro: spaced_mono)
  have bd: "\<forall>x\<in>set fl. fst x + snd x \<le> usableSize pBt \<and> h + 8 \<le> fst x"
    using layout_sets(2,4) [OF l] by auto
  have pre: "h + 1 \<noteq> h + 7" "h + 1 + 1 \<noteq> h + 7" "h + 1 + 2 \<le> length d" "h + 7 < length d" "0 < nByte" using b nb by simp_all
  from alloc_search_chain [OF fl(1) sp bd b(3,2) pre, of "unat fr"]
  consider "alloc_search (usableSize pBt) h nByte (unat fr) (h + 1) d = Some Slot_None"
    | l1 bb s l2 d' where "fl = l1 @ (bb, s) # l2" "nByte \<le> s"
      "alloc_search (usableSize pBt) h nByte (unat fr) (h + 1) d = Some (Slot (bb + (s - nByte)) d')"
      "chg d d' ({h + 7, h + 1, h + 1 + 1} \<union> block_heads fl)"
      "if s - nByte < 4 then flist d' (h + 1) (l1 @ l2) \<and> rd d' (h + 7) = Some (of_nat (unat fr + (s - nByte)))
       else flist d' (h + 1) (l1 @ (bb, s - nByte) # l2) \<and> rd d' (h + 7) = rd d (h + 7)"
    by blast
  then show ?thesis
  proof cases
    case 1
    then show ?thesis by simp
  next
    case 2
    define x where "x = s - nByte"
    have s: "s = nByte + x" using 2(2) by (simp add: x_def)
    define fl' where "fl' = (if x < 4 then l1 @ l2 else l1 @ (bb, x) # l2)"
    define fr' :: u8 where "fr' = (if x < 4 then of_nat (unat fr + x) else fr)"
    have ufr: "unat fr' = unat fr + (if x < 4 then x else 0)" using assms(2) unat_of_nat_u8 [of "unat fr + x"] by (simp add: fr'_def del: of_nat_add)
    have heads: "\<exists>y\<in>set fl. i \<in> span y" if "i \<in> block_heads fl" for i
      by (rule block_heads_span [OF _ that]) (use layout_sets(3) [OF l] in auto)
    have hi: "tp \<le> i" if "i \<in> block_heads fl" for i
    proof -
      from heads [OF that] obtain y where y: "y \<in> set fl" "i \<in> span y" by blast
      then have "tp \<le> fst y" using layout_sets(1) [OF l, of y] by simp
      with y show ?thesis by (simp add: span_def)
    qed
    have cells: "rdn d' pc (length c) = rdn d pc (length c)" if "(pc, c) \<in> set cs" for pc c
    proof (rule rdn_chg [OF 2(4)], rule interval_avoids_heads)
      note i = cell_mem_ivs [OF that]
      show "apart (pc, length c) y \<and> 4 \<le> snd y" if "y \<in> set fl" for y
        using l i that layout_sets(3) [OF l, of y] by (simp add: layout_def disjs_append)
      show "h + 8 \<le> pc" using layout_sets(4) [OF l, of "(pc, length c)"] i by simp
    qed auto
    have dj: "disjs ((bb, s) # cell_ivs cs @ l1 @ l2)"
      using l disjs_middle [of "cell_ivs cs @ l1" "(bb, s)" l2] by (simp add: layout_def 2(1))
    have in_b: "tp \<le> bb" "bb + s \<le> usableSize pBt" using layout_sets(1,2) [OF l, of "(bb, s)"] by (simp_all add: 2(1))
    have ap: "apart (b', s') y" if "y \<in> set (cell_ivs cs @ l1 @ l2)" "bb \<le> b'" "b' + s' \<le> bb + s" for b' s' y
      using dj that apart_inside by (meson disjs_Cons)
    have dj': "disjs ([(bb + x, nByte)] @ cell_ivs cs @ fl')"
    proof (cases "x < 4")
      case True
      then show ?thesis using dj ap s by (simp add: fl'_def)
    next
      case False
      have "disjs ((bb, x) # cell_ivs cs @ l1 @ l2)" using dj ap s by simp
      then have "disjs (cell_ivs cs @ l1 @ (bb, x) # l2)" using disjs_middle [of "cell_ivs cs @ l1"] by simp
      moreover have "apart (bb + x, nByte) (bb, x)" by (simp add: apart_def)
      ultimately show ?thesis using ap s False by (simp add: fl'_def)
    qed
    have "layout pBt m h gap d' cs fl' [(bb + x, nByte)] tp fr'"
      unfolding layout_def
    proof (intro conjI)
      have "get2byteNotZero d' (h + 5) = get2byteNotZero d (h + 5)"
        using hi [of "h + 5"] hi [of "h + 5 + 1"] b by (intro get2byteNotZero_chg [OF 2(4)]) auto
      then show "get2byteNotZero d' (h + 5) = Some tp" using l by (simp add: layout_def)
      have "rd d (h + 7) = Some fr" using l by (simp add: layout_def)
      then show "rd d' (h + 7) = Some fr'" using 2(5) unfolding fr'_def x_def [symmetric] by (cases "x < 4") simp_all
      show "flist d' (h + 1) fl'" using 2(5) unfolding fl'_def x_def [symmetric] by (cases "x < 4") simp_all
      show "spaced tp fl'" using spaced_remove [of tp l1 bb s l2] spaced_shrink [of tp l1 bb s l2 x] fl(2) s by (simp add: fl'_def 2(1))
      show "\<forall>(pc, c)\<in>set cs. rdn d' pc (length c) = Some c \<and> cellSizePtr pBt m c = Some (length c)"
        using l cells by (auto simp: layout_def)
      have "tp \<le> fst y \<and> fst y + snd y \<le> usableSize pBt \<and> 4 \<le> snd y" if "y \<in> set (cell_ivs cs @ l1 @ l2)" for y
        using layout_sets(1-3) [OF l, of y] that by (simp add: 2(1))
      then show "\<forall>x\<in>set ([(bb + x, nByte)] @ cell_ivs cs @ fl'). tp \<le> fst x \<and> fst x + snd x \<le> usableSize pBt \<and> 4 \<le> snd x"
        using in_b s nb by (simp add: fl'_def)
      show "tot_len ([(bb + x, nByte)] @ cell_ivs cs @ fl') + unat fr' + tp = usableSize pBt"
        using l s by (simp add: layout_def 2(1) fl'_def ufr)
    qed (use l dj' chg_length [OF 2(4)] in \<open>simp_all add: layout_def\<close>)
    moreover have "chg d d' ({h + 1, h + 2, h + 7} \<union> {tp..})" by (rule chg_mono [OF 2(4)]) (use hi in auto)
    ultimately show ?thesis using 2(3) by (auto simp: x_def)
  qed
qed

text \<open>What \<open>allocateSpace\<close> leaves behind: the same cells, possibly moved, and the new interval in transit;
  there is room for one more cell pointer.\<close>

definition alloc_post :: "bt_shared \<Rightarrow> bt_page \<Rightarrow> nat \<Rightarrow> (nat \<times> u8 list) list \<Rightarrow> nat \<Rightarrow> bt_page \<Rightarrow> bool" where
  "alloc_post pBt p nByte cs idx p' \<longleftrightarrow>
     (\<exists>d' cs' fl' tp' fr'. p' = p\<lparr>aData := d'\<rparr> \<and> map snd cs' = map snd cs \<and>
        layout pBt (pg p) (hdrOffset p) (cellOffset p + 2 * nCell p + 2) d' cs' fl' [(idx, nByte)] tp' fr' \<and>
        ptrs d' (cellOffset p) cs' \<and> get2byte d' (hdrOffset p + 3) = Some (length cs) \<and>
        Option.bind (rd d' (hdrOffset p)) (decodeFlags pBt) = Some (pg p))"

lemma page_layout_layout:
  "page_layout pBt p cs fl tp fr \<Longrightarrow>
   layout pBt (pg p) (hdrOffset p) (cellOffset p + 2 * nCell p) (aData p) cs fl [] tp fr"
  unfolding page_layout_def by blast

lemma page_layout_co: "page_layout pBt p cs fl tp fr \<Longrightarrow> hdrOffset p + 8 \<le> cellOffset p \<and> nCell p = length cs"
  by (simp add: page_layout_def)

lemma ptrs_chg:
  assumes "chg d d' S" and "ptrs d co cs" and "S \<inter> {co..<co + 2 * length cs} = {}"
  shows "ptrs d' co cs"
  unfolding ptrs_def
proof (intro allI impI)
  fix j assume j: "j < length cs"
  have "i \<notin> S" if "co \<le> i" "i < co + 2 * length cs" for i using assms(3) that by (auto simp: disjoint_iff)
  then have "get2byte d' (co + 2 * j) = get2byte d (co + 2 * j)"
    using j by (intro get2byte_chg [OF assms(1)]) auto
  then show "get2byte d' (co + 2 * j) = Some (fst (cs ! j))" using assms(2) j by (simp add: ptrs_def)
qed

lemma layout_gap: "layout pBt m h gap d cs fl ex tp fr \<Longrightarrow> gap \<le> gap' \<Longrightarrow> gap' \<le> tp \<Longrightarrow> layout pBt m h gap' d cs fl ex tp fr"
  by (simp add: layout_def)

lemma gap_alloc_layout:
  assumes l: "layout pBt m h gap d cs fl [] tp fr" and fit: "gap + 2 + nByte \<le> tp" and nb: "4 \<le> nByte"
  shows "\<exists>d'. put2byte d (h + 5) (tp - nByte) = Some d' \<and> chg d d' {h + 5, h + 6} \<and>
     layout pBt m h (gap + 2) d' cs fl [(tp - nByte, nByte)] (tp - nByte) fr"
proof -
  have b: "h + 8 \<le> gap" "usableSize pBt \<le> 65536" "usableSize pBt \<le> length d" "tp \<le> usableSize pBt"
    using l by (simp_all add: layout_def)
  have "h + 5 + 2 \<le> length d" using b fit by simp
  from put2byte_ex [OF this, of "tp - nByte"] obtain d' where d': "put2byte d (h + 5) (tp - nByte) = Some d'"
      "chg d d' {h + 5, h + 5 + 1}" "get2byte d' (h + 5) = Some ((tp - nByte) mod 65536)" by blast
  have c: "chg d d' {h + 5, h + 6}" by (rule chg_mono [OF d'(2)]) auto
  have "(tp - nByte) mod 65536 = tp - nByte" "0 < tp - nByte" using fit nb b by auto
  then have tp': "get2byteNotZero d' (h + 5) = Some (tp - nByte)" using d'(3) by (simp add: get2byteNotZero_def)
  have up: "tp \<le> fst x" "fst x + snd x \<le> usableSize pBt" "4 \<le> snd x" if "x \<in> set (cell_ivs cs @ fl)" for x
    using layout_sets(1-3) [OF l, of x] that by simp_all
  have "layout pBt m h (gap + 2) d' cs fl [(tp - nByte, nByte)] (tp - nByte) fr"
    unfolding layout_def
  proof (intro conjI)
    show "rd d' (h + 7) = Some fr" using rd_chg [OF c, of "h + 7"] l by (simp add: layout_def)
    have "flist d (h + 1) fl" using l by (simp add: layout_def)
    then show "flist d' (h + 1) fl"
      by (rule flist_chg [OF c]) (use up b fit in \<open>force+\<close>)
    show "spaced (tp - nByte) fl" using l by (auto simp: layout_def intro: spaced_mono)
    show "\<forall>(pc, c)\<in>set cs. rdn d' pc (length c) = Some c \<and> cellSizePtr pBt m c = Some (length c)"
    proof clarify
      fix pc c' assume c': "(pc, c') \<in> set cs"
      have "tp \<le> pc" using up(1) [of "(pc, length c')"] cell_mem_ivs [OF c'] by simp
      then have "rdn d' pc (length c') = rdn d pc (length c')" by (intro rdn_chg [OF c]) (use b fit in auto)
      then show "rdn d' pc (length c') = Some c' \<and> cellSizePtr pBt m c' = Some (length c')"
        using l c' by (auto simp: layout_def)
    qed
    have "apart (tp - nByte, nByte) x" if "x \<in> set (cell_ivs cs @ fl)" for x
      using up(1) [OF that] fit by (simp add: apart_def)
    then show "disjs ([(tp - nByte, nByte)] @ cell_ivs cs @ fl)" using l by (simp add: layout_def)
    show "\<forall>x\<in>set ([(tp - nByte, nByte)] @ cell_ivs cs @ fl). tp - nByte \<le> fst x \<and> fst x + snd x \<le> usableSize pBt \<and> 4 \<le> snd x"
      using up nb fit b by (fastforce intro: le_trans)
    show "tp - nByte \<le> usableSize pBt" using b(4) by simp
  qed (use l tp' fit b chg_length [OF c] in \<open>simp_all add: layout_def\<close>)
  with d'(1) c show ?thesis by blast
qed

lemma alloc_gap_ok:
  assumes pl: "page_layout pBt p cs fl tp fr" and tmp: "usableSize pBt \<le> length temp"
    and nb: "4 \<le> nByte" and fit: "nByte + 2 \<le> nFree p"
  shows "\<exists>idx p'. alloc_gap pBt temp nByte (cellOffset p + 2 * nCell p) tp p = Some (SQLITE_OK, idx, p') \<and>
     alloc_post pBt p nByte cs idx p'"
proof -
  define gap where "gap = cellOffset p + 2 * nCell p"
  have "\<exists>d1 cs1 fl1 tp1 fr1. page_layout pBt (p\<lparr>aData := d1\<rparr>) cs1 fl1 tp1 fr1 \<and> map snd cs1 = map snd cs \<and> gap + 2 + nByte \<le> tp1 \<and>
     (if gap + 2 + nByte > tp then do {
          (rc, p) \<leftarrow> defragmentPage pBt temp p;
          tp \<leftarrow> get2byteNotZero (aData p) (hdrOffset p + 5);
          Some (rc, tp, p) }
        else Some (SQLITE_OK, tp, p)) = Some (SQLITE_OK, tp1, p\<lparr>aData := d1\<rparr>)"
  proof (cases "gap + 2 + nByte > tp")
    case True
    from defragmentPage_ok [OF pl tmp] obtain d1 cs1 where d: "defragmentPage pBt temp p = Some (SQLITE_OK, p\<lparr>aData := d1\<rparr>)"
      "map snd cs1 = map snd cs" "page_layout pBt (p\<lparr>aData := d1\<rparr>) cs1 [] (cellOffset p + 2 * nCell p + nFree p) 0" by blast
    have "get2byteNotZero d1 (hdrOffset p + 5) = Some (gap + nFree p)"
      using page_layout_layout [OF d(3)] by (simp add: layout_def gap_def)
    then show ?thesis using d fit True
      by (intro exI [of _ d1] exI [of _ cs1] exI [of _ "[]"] exI [of _ "gap + nFree p"] exI [of _ 0]) (simp add: gap_def)
  next
    case False
    then show ?thesis using pl
      by (intro exI [of _ "aData p"] exI [of _ cs] exI [of _ fl] exI [of _ tp] exI [of _ fr]) simp
  qed
  then obtain d1 cs1 fl1 tp1 fr1 where pl1: "page_layout pBt (p\<lparr>aData := d1\<rparr>) cs1 fl1 tp1 fr1" and cs1: "map snd cs1 = map snd cs"
      and fit1: "gap + 2 + nByte \<le> tp1"
      and run: "(if gap + 2 + nByte > tp then do {
          (rc, p) \<leftarrow> defragmentPage pBt temp p;
          tp \<leftarrow> get2byteNotZero (aData p) (hdrOffset p + 5);
          Some (rc, tp, p) }
        else Some (SQLITE_OK, tp, p)) = Some (SQLITE_OK, tp1, p\<lparr>aData := d1\<rparr>)" by blast
  have l1: "layout pBt (pg p) (hdrOffset p) gap d1 cs1 fl1 [] tp1 fr1"
    using page_layout_layout [OF pl1] by (simp add: gap_def)
  from gap_alloc_layout [OF l1 fit1 nb] obtain d' where d': "put2byte d1 (hdrOffset p + 5) (tp1 - nByte) = Some d'"
      "chg d1 d' {hdrOffset p + 5, hdrOffset p + 6}"
      "layout pBt (pg p) (hdrOffset p) (gap + 2) d' cs1 fl1 [(tp1 - nByte, nByte)] (tp1 - nByte) fr1" by blast
  have co: "hdrOffset p + 8 \<le> cellOffset p" using page_layout_co [OF pl] by simp
  have "ptrs d' (cellOffset p) cs1"
    by (rule ptrs_chg [OF d'(2)]) (use pl1 co in \<open>auto simp: page_layout_def\<close>)
  moreover have "get2byte d' (hdrOffset p + 3) = Some (length cs)"
    using get2byte_chg [OF d'(2), of "hdrOffset p + 3"] pl1 cs1 by (auto simp: page_layout_def dest: map_eq_imp_length_eq)
  moreover have "Option.bind (rd d' (hdrOffset p)) (decodeFlags pBt) = Some (pg p)"
    using rd_chg [OF d'(2), of "hdrOffset p"] pl1 by (simp add: page_layout_def)
  ultimately have "alloc_post pBt p nByte cs (tp1 - nByte) (p\<lparr>aData := d'\<rparr>)"
    unfolding alloc_post_def using d'(3) cs1 unfolding gap_def by blast
  moreover have "alloc_gap pBt temp nByte gap tp p = Some (SQLITE_OK, tp1 - nByte, p\<lparr>aData := d'\<rparr>)"
    unfolding alloc_gap_def run using d'(1) fit1 by simp
  ultimately show ?thesis unfolding gap_def by blast
qed

lemma alloc_post_moved:
  "alloc_post pBt (p\<lparr>aData := d1\<rparr>) nByte cs1 idx p' \<Longrightarrow> map snd cs1 = map snd cs \<Longrightarrow> alloc_post pBt p nByte cs idx p'"
  using map_eq_imp_length_eq [of snd cs1 snd cs] by (simp add: alloc_post_def)

lemma allocateSpace_ok:
  assumes pl: "page_layout pBt p cs fl tp fr" and tmp: "usableSize pBt \<le> length temp"
    and nb: "4 \<le> nByte" and fit: "nByte + 2 \<le> nFree p"
  shows "\<exists>idx p'. allocateSpace pBt temp p nByte = Some (SQLITE_OK, idx, p') \<and> alloc_post pBt p nByte cs idx p'"
proof -
  define gap where "gap = cellOffset p + 2 * nCell p"
  define h where "h = hdrOffset p"
  have l: "layout pBt (pg p) h gap (aData p) cs fl [] tp fr" using page_layout_layout [OF pl] by (simp add: gap_def h_def)
  have rds: "rd (aData p) (h + 7) = Some fr" "get2byteNotZero (aData p) (h + 5) = Some tp" "gap \<le> tp"
    using l by (simp_all add: layout_def)
  note ag = alloc_gap_ok [OF pl tmp nb fit, folded gap_def]
  consider "unat fr \<ge> 60" | "unat fr < 60" "gap + 2 \<le> tp" | "unat fr < 60" "tp < gap + 2" by linarith
  then show ?thesis
  proof cases
    case 1
    from defragmentPage_ok [OF pl tmp] obtain d1 cs1 where d: "defragmentPage pBt temp p = Some (SQLITE_OK, p\<lparr>aData := d1\<rparr>)"
      "map snd cs1 = map snd cs" "page_layout pBt (p\<lparr>aData := d1\<rparr>) cs1 [] (gap + nFree p) 0" unfolding gap_def by blast
    have top1: "get2byteNotZero d1 (h + 5) = Some (gap + nFree p)"
      using page_layout_layout [OF d(3)] by (simp add: layout_def h_def)
    obtain idx p' where r: "alloc_gap pBt temp nByte gap (gap + nFree p) (p\<lparr>aData := d1\<rparr>) = Some (SQLITE_OK, idx, p')"
        "alloc_post pBt (p\<lparr>aData := d1\<rparr>) nByte cs1 idx p'"
      using alloc_gap_ok [OF d(3) tmp nb] fit by (auto simp: gap_def)
    have "allocateSpace pBt temp p nByte = Some (SQLITE_OK, idx, p')"
      unfolding allocateSpace_def Let_def gap_def [symmetric] h_def [symmetric] using rds 1 d(1) top1 r(1) by simp
    then show ?thesis using alloc_post_moved [OF r(2) d(2)] by blast
  next
    case 2
    from alloc_search_layout [OF l 2(1) nb]
    consider (none) "alloc_search (usableSize pBt) h nByte (unat fr) (h + 1) (aData p) = Some Slot_None"
      | (slot) idx d' fl' fr' where "alloc_search (usableSize pBt) h nByte (unat fr) (h + 1) (aData p) = Some (Slot idx d')"
        "layout pBt (pg p) h gap d' cs fl' [(idx, nByte)] tp fr'" "chg (aData p) d' ({h + 1, h + 2, h + 7} \<union> {tp..})" by blast
    then show ?thesis
    proof cases
      case none
      then show ?thesis using ag rds 2
        unfolding allocateSpace_def Let_def gap_def [symmetric] h_def [symmetric] by simp
    next
      case slot
      have co: "h + 8 \<le> cellOffset p" "nCell p = length cs" using page_layout_co [OF pl] by (simp_all add: h_def)
      have "ptrs d' (cellOffset p) cs"
        by (rule ptrs_chg [OF slot(3)]) (use pl co rds(3) in \<open>auto simp: page_layout_def gap_def\<close>)
      moreover have "get2byte d' (h + 3) = Some (length cs)"
        using get2byte_chg [OF slot(3), of "h + 3"] pl co rds(3) by (auto simp: page_layout_def gap_def h_def)
      moreover have "Option.bind (rd d' h) (decodeFlags pBt) = Some (pg p)"
        using rd_chg [OF slot(3), of h] pl co rds(3) by (simp add: page_layout_def gap_def h_def)
      moreover have "layout pBt (pg p) h (gap + 2) d' cs fl' [(idx, nByte)] tp fr'" using layout_gap [OF slot(2)] 2(2) by simp
      ultimately have "alloc_post pBt p nByte cs idx (p\<lparr>aData := d'\<rparr>)"
        unfolding alloc_post_def gap_def h_def by blast
      moreover have "allocateSpace pBt temp p nByte = Some (SQLITE_OK, idx, p\<lparr>aData := d'\<rparr>)"
        unfolding allocateSpace_def Let_def gap_def [symmetric] h_def [symmetric] using rds 2 slot(1) by simp
      ultimately show ?thesis by blast
    qed
  next
    case 3
    then show ?thesis using ag rds
      unfolding allocateSpace_def Let_def gap_def [symmetric] h_def [symmetric] by simp
  qed
qed

section \<open>\<open>insertCell\<close> and \<open>dropCell\<close>\<close>

lemma shift_up_ok:
  assumes "2 * n \<le> ptr" and "ptr + 2 \<le> length d"
  shows "\<exists>d'. shift_up n ptr d = Some d' \<and> chg d d' {ptr + 2 - 2 * n..<ptr + 2} \<and>
     (\<forall>k<n. get2byte d' (ptr - 2 * k) = get2byte d (ptr - 2 * k - 2))"
  using assms
proof (induction n arbitrary: ptr d)
  case (Suc n)
  have pt: "2 \<le> ptr" "2 * n \<le> ptr - 2" "ptr - 2 + 2 \<le> length d" "ptr = ptr - 2 + 2" using Suc.prems by auto
  obtain b where b: "rdn d (ptr - 2) 2 = Some b" using pt by (simp add: rdn_def)
  obtain d1 where d1: "blit d ptr b = Some d1" "chg d d1 {ptr..<ptr + 2}"
    using blit_ex [of ptr b d] rdn_length [OF b] Suc.prems(2) by auto
  have g1: "get2byte d1 ptr = get2byte d (ptr - 2)" by (rule rdn2_put [OF b d1(1)])
  obtain d' where d': "shift_up n (ptr - 2) d1 = Some d'" "chg d1 d' {ptr - 2 + 2 - 2 * n..<ptr - 2 + 2}"
      "\<forall>k<n. get2byte d' (ptr - 2 - 2 * k) = get2byte d1 (ptr - 2 - 2 * k - 2)"
    using Suc.IH [of "ptr - 2" d1] pt chg_length [OF d1(2)] by auto
  have "chg d d' {ptr + 2 - 2 * Suc n..<ptr + 2}"
    by (rule chg_trans [OF d1(2) d'(2)]) (use Suc.prems in auto)
  moreover have "\<forall>k<Suc n. get2byte d' (ptr - 2 * k) = get2byte d (ptr - 2 * k - 2)"
  proof (intro allI impI)
    fix k assume k: "k < Suc n"
    show "get2byte d' (ptr - 2 * k) = get2byte d (ptr - 2 * k - 2)"
    proof (cases k)
      case 0
      have "get2byte d' ptr = get2byte d1 ptr" by (rule get2byte_chg [OF d'(2)]) (use pt in auto)
      then show ?thesis using 0 g1 by simp
    next
      case (Suc k')
      have "get2byte d1 (ptr - 2 * k - 2) = get2byte d (ptr - 2 * k - 2)"
        by (rule get2byte_chg [OF d1(2)]) (use Suc Suc.prems k in auto)
      then show ?thesis using d'(3) [rule_format, of k'] Suc k by simp
    qed
  qed
  ultimately show ?case using b d1(1) d'(1) by auto
qed simp

lemma shift_down_ok:
  assumes "ptr + 2 * n + 2 \<le> length d"
  shows "\<exists>d'. shift_down n ptr d = Some d' \<and> chg d d' {ptr..<ptr + 2 * n} \<and>
     (\<forall>k<n. get2byte d' (ptr + 2 * k) = get2byte d (ptr + 2 * k + 2))"
  using assms
proof (induction n arbitrary: ptr d)
  case (Suc n)
  obtain b where b: "rdn d (ptr + 2) 2 = Some b" using Suc.prems by (simp add: rdn_def)
  obtain d1 where d1: "blit d ptr b = Some d1" "chg d d1 {ptr..<ptr + 2}"
    using blit_ex [of ptr b d] rdn_length [OF b] Suc.prems by auto
  have g1: "get2byte d1 ptr = get2byte d (ptr + 2)" by (rule rdn2_put [OF b d1(1)])
  obtain d' where d': "shift_down n (ptr + 2) d1 = Some d'" "chg d1 d' {ptr + 2..<ptr + 2 + 2 * n}"
      "\<forall>k<n. get2byte d' (ptr + 2 + 2 * k) = get2byte d1 (ptr + 2 + 2 * k + 2)"
    using Suc.IH [of "ptr + 2" d1] Suc.prems chg_length [OF d1(2)] by auto
  have "chg d d' {ptr..<ptr + 2 * Suc n}"
    by (rule chg_trans [OF d1(2) d'(2)]) auto
  moreover have "\<forall>k<Suc n. get2byte d' (ptr + 2 * k) = get2byte d (ptr + 2 * k + 2)"
  proof (intro allI impI)
    fix k assume k: "k < Suc n"
    show "get2byte d' (ptr + 2 * k) = get2byte d (ptr + 2 * k + 2)"
    proof (cases k)
      case 0
      have "get2byte d' ptr = get2byte d1 ptr" by (rule get2byte_chg [OF d'(2)]) auto
      then show ?thesis using 0 g1 by simp
    next
      case (Suc k')
      have "get2byte d1 (ptr + 2 * k + 2) = get2byte d (ptr + 2 * k + 2)"
        by (rule get2byte_chg [OF d1(2)]) auto
      then show ?thesis using d'(3) [rule_format, of k'] Suc k by simp
    qed
  qed
  ultimately show ?case using b d1(1) d'(1) by auto
qed simp

text \<open>An interval in transit that holds the bytes of a cell is a cell, and the other way round.\<close>

lemma layout_add_cell:
  assumes l: "layout pBt m h gap d (cs1 @ cs2) fl [(idx, length c)] tp fr"
    and "rdn d idx (length c) = Some c" and "cellSizePtr pBt m c = Some (length c)"
  shows "layout pBt m h gap d (cs1 @ (idx, c) # cs2) fl [] tp fr"
proof -
  have "disjs (cell_ivs cs1 @ (idx, length c) # cell_ivs cs2 @ fl)"
    using l disjs_middle [of "cell_ivs cs1" "(idx, length c)"] by (simp add: layout_def)
  then show ?thesis using l assms(2,3) by (auto simp: layout_def)
qed

lemma layout_remove_cell:
  assumes l: "layout pBt m h gap d (cs1 @ (idx, c) # cs2) fl [] tp fr"
  shows "layout pBt m h gap d (cs1 @ cs2) fl [(idx, length c)] tp fr"
proof -
  have "disjs ((idx, length c) # cell_ivs cs1 @ cell_ivs cs2 @ fl)"
    using l disjs_middle [of "cell_ivs cs1" "(idx, length c)"] by (simp add: layout_def)
  then show ?thesis using l by (auto simp: layout_def)
qed

lemma layout_free_sum:
  "layout pBt m h gap d cs fl ex tp fr \<Longrightarrow> tot_len ex + tot_len (cell_ivs cs) + tot_len fl + unat fr + tp = usableSize pBt"
  by (simp add: layout_def add.assoc)

lemma tot_len_cells: "map snd cs' = map snd cs \<Longrightarrow> tot_len (cell_ivs cs') = tot_len (cell_ivs cs)"
  using map_snd_ivs [of cs' cs] by (simp add: tot_len_def)

lemma insertCell_ok:
  assumes pl: "page_layout pBt p cs fl tp fr" and tmp: "usableSize pBt \<le> length temp" and i: "i \<le> length cs"
    and c: "c = cell_content pCell sz iChild" "length c = sz" "cellSizePtr pBt (pg p) c = Some sz" "4 \<le> sz"
    and fit: "sz + 2 \<le> nFree p"
  shows "\<exists>p' cs' fl' tp' fr'. insertCell pBt temp SQLITE_OK p i pCell sz iChild SQLITE_OK = Some (SQLITE_OK, p') \<and>
     page_layout pBt p' cs' fl' tp' fr' \<and> map snd cs' = take i (map snd cs) @ c # drop i (map snd cs) \<and>
     pg p' = pg p \<and> hdrOffset p' = hdrOffset p"
proof -
  define h where "h = hdrOffset p"
  define co where "co = cellOffset p"
  define n where "n = nCell p"
  from allocateSpace_ok [OF pl tmp c(4) fit] obtain idx p1 where
    al: "allocateSpace pBt temp p sz = Some (SQLITE_OK, idx, p1)" and post: "alloc_post pBt p sz cs idx p1" by blast
  from post obtain d1 cs1 fl1 tp1 fr1 where p1: "p1 = p\<lparr>aData := d1\<rparr>" and cs1: "map snd cs1 = map snd cs"
      and l1: "layout pBt (pg p) h (co + 2 * n + 2) d1 cs1 fl1 [(idx, sz)] tp1 fr1" and pt1: "ptrs d1 co cs1"
      and fb1: "Option.bind (rd d1 h) (decodeFlags pBt) = Some (pg p)"
    unfolding alloc_post_def h_def co_def n_def by blast
  have n: "n = length cs1" "h + 8 \<le> co" using page_layout_co [OF pl] map_eq_imp_length_eq [OF cs1] by (simp_all add: n_def h_def co_def)
  have b: "co + 2 * n + 2 \<le> tp1" "tp1 \<le> idx" "idx + sz \<le> usableSize pBt" "usableSize pBt \<le> length d1" "usableSize pBt \<le> 65536"
    using l1 by (simp_all add: layout_def)
  obtain d2 where d2: "blit d1 idx c = Some d2" "chg d1 d2 {idx..<idx + sz}" "rdn d2 idx sz = Some c"
    using blit_ex [of idx c d1] b c(2) by auto
  have l2: "layout pBt (pg p) h (co + 2 * n + 2) d2 cs1 fl1 [(idx, sz)] tp1 fr1"
  proof (rule layout_chg [OF l1 d2(2)])
    show "{idx..<idx + sz} \<inter> {h + 1, h + 2, h + 5, h + 6, h + 7} = {}" using b n by auto
    have "apart (idx, sz) x" if "x \<in> set (cell_ivs cs1 @ fl1)" for x using l1 that by (simp add: layout_def)
    moreover have "span (idx, sz) = {idx..<idx + sz}" by (simp add: span_def)
    ultimately show "\<forall>x\<in>set (cell_ivs cs1 @ fl1). span x \<inter> {idx..<idx + sz} = {}" using apart_disjoint by (metis inf_commute)
  qed
  define cs2 where "cs2 = take i cs1 @ (idx, c) # drop i cs1"
  have l2': "layout pBt (pg p) h (co + 2 * n + 2) d2 cs2 fl1 [] tp1 fr1"
    unfolding cs2_def by (rule layout_add_cell) (use l2 d2(3) c in auto)
  have len2: "length cs2 = n + 1" using n by (simp add: cs2_def)
  have in_n: "i \<le> n" using i map_eq_imp_length_eq [OF cs1] n by simp
  have ld: "length d2 = length d1" using chg_length [OF d2(2)] .
  have "2 * (n - i) \<le> co + 2 * n" "co + 2 * n + 2 \<le> length d2" using b ld by auto
  from shift_up_ok [OF this] obtain d3 where d3: "shift_up (n - i) (co + 2 * n) d2 = Some d3"
      "chg d2 d3 {co + 2 * n + 2 - 2 * (n - i)..<co + 2 * n + 2}"
      "\<forall>k<n - i. get2byte d3 (co + 2 * n - 2 * k) = get2byte d2 (co + 2 * n - 2 * k - 2)"
    by blast
  have ld3: "length d3 = length d1" using ld chg_length [OF d3(2)] by simp
  obtain d4 where d4: "put2byte d3 (co + 2 * i) idx = Some d4" "chg d3 d4 {co + 2 * i, co + 2 * i + 1}"
      "get2byte d4 (co + 2 * i) = Some (idx mod 65536)"
    using put2byte_ex [of "co + 2 * i" d3 idx] b ld3 in_n by auto
  obtain d5 where d5: "put2byte d4 (h + 3) (n + 1) = Some d5" "chg d4 d5 {h + 3, h + 3 + 1}"
      "get2byte d5 (h + 3) = Some ((n + 1) mod 65536)"
    using put2byte_ex [of "h + 3" d4 "n + 1"] b n(2) ld3 chg_length [OF d4(2)] by auto
  have c25: "chg d2 d5 ({co..<co + 2 * n + 2} \<union> {h + 3, h + 4})"
    by (rule chg_trans [OF chg_trans [OF d3(2) d4(2) order_refl] d5(2)]) (use in_n in auto)
  have l5: "layout pBt (pg p) h (co + 2 * n + 2) d5 cs2 fl1 [] tp1 fr1"
  proof (rule layout_chg [OF l2' c25])
    show "({co..<co + 2 * n + 2} \<union> {h + 3, h + 4}) \<inter> {h + 1, h + 2, h + 5, h + 6, h + 7} = {}" using n(2) by auto
    show "\<forall>x\<in>set (cell_ivs cs2 @ fl1). span x \<inter> ({co..<co + 2 * n + 2} \<union> {h + 3, h + 4}) = {}"
    proof
      fix x assume "x \<in> set (cell_ivs cs2 @ fl1)"
      then have "tp1 \<le> fst x" using layout_sets(1) [OF l2', of x] by simp
      then show "span x \<inter> ({co..<co + 2 * n + 2} \<union> {h + 3, h + 4}) = {}" using b n(2) by (auto simp: span_def)
    qed
  qed
  have ptr2: "get2byte d2 (co + 2 * j) = Some (fst (cs1 ! j))" if "j < n" for j
    using ptrs_chg [OF d2(2) pt1] b n that by (auto simp: ptrs_def)
  have "ptrs d5 co cs2"
    unfolding ptrs_def
  proof (intro allI impI)
    fix j assume j: "j < length cs2"
    have e54: "get2byte d5 (co + 2 * j) = get2byte d4 (co + 2 * j)" by (rule get2byte_chg [OF d5(2)]) (use n(2) in auto)
    consider "j < i" | "j = i" | "i < j" "j \<le> n" using j len2 by linarith
    then show "get2byte d5 (co + 2 * j) = Some (fst (cs2 ! j))"
    proof cases
      case 1
      have "get2byte d4 (co + 2 * j) = get2byte d3 (co + 2 * j)" by (rule get2byte_chg [OF d4(2)]) (use 1 in auto)
      moreover have "get2byte d3 (co + 2 * j) = get2byte d2 (co + 2 * j)"
        by (rule get2byte_chg [OF d3(2)]) (use 1 in_n in auto)
      ultimately show ?thesis using e54 ptr2 [of j] 1 in_n n by (simp add: cs2_def nth_append)
    next
      case 2
      then show ?thesis using e54 d4(3) b c(4) in_n n by (simp add: cs2_def nth_append)
    next
      case 3
      have "get2byte d4 (co + 2 * j) = get2byte d3 (co + 2 * j)" by (rule get2byte_chg [OF d4(2)]) (use 3 in auto)
      moreover have "get2byte d3 (co + 2 * n - 2 * (n - j)) = get2byte d2 (co + 2 * n - 2 * (n - j) - 2)"
        by (rule d3(3) [rule_format]) (use 3 in auto)
      moreover have "co + 2 * n - 2 * (n - j) = co + 2 * j" "co + 2 * n - 2 * (n - j) - 2 = co + 2 * (j - 1)" using 3 by auto
      ultimately have "get2byte d5 (co + 2 * j) = Some (fst (cs1 ! (j - 1)))" using e54 ptr2 [of "j - 1"] 3 by simp
      moreover have "cs2 ! j = cs1 ! (j - 1)" using 3 n in_n by (simp add: cs2_def nth_append nth_Cons')
      ultimately show ?thesis by simp
    qed
  qed
  moreover have "Option.bind (rd d5 h) (decodeFlags pBt) = Some (pg p)"
    using fb1 rd_chg [OF c25, of h] rd_chg [OF d2(2), of h] n(2) b by simp
  moreover have "(n + 1) mod 65536 = n + 1" using b by simp
  moreover have "nFree p - (2 + sz) + co + 2 * (n + 1) = unat fr1 + tp1 + tot_len fl1"
  proof -
    have "nFree p + co + 2 * n + tot_len (cell_ivs cs) = usableSize pBt"
      using pl layout_free_sum [OF page_layout_layout [OF pl]] by (simp add: page_layout_def co_def n_def)
    then show ?thesis using layout_free_sum [OF l1] tot_len_cells [OF cs1] fit by simp
  qed
  ultimately have pl': "page_layout pBt (p\<lparr>aData := d5, nCell := n + 1, nFree := nFree p - (2 + sz)\<rparr>) cs2 fl1 tp1 fr1"
    using pl l5 d5(3) len2 unfolding page_layout_def h_def co_def n_def by simp
  have "insertCell pBt temp SQLITE_OK p i pCell sz iChild SQLITE_OK
      = Some (SQLITE_OK, p\<lparr>aData := d5, nCell := n + 1, nFree := nFree p - (2 + sz)\<rparr>)"
    using pl fit al d2(1) d3(1) d4(1) d5(1)
    by (simp add: insertCell_def Let_def page_layout_def p1 c(1) [symmetric] h_def co_def n_def)
  moreover have "map snd cs2 = take i (map snd cs) @ c # drop i (map snd cs)"
    using cs1 by (simp add: cs2_def take_map [symmetric] drop_map [symmetric])
  ultimately show ?thesis using pl' by fastforce
qed

lemma layout_gap_down:
  "layout pBt m h gap d cs fl ex tp fr \<Longrightarrow> h + 8 \<le> gap' \<Longrightarrow> gap' \<le> gap \<Longrightarrow> layout pBt m h gap' d cs fl ex tp fr"
  by (simp add: layout_def)

lemma dropCell_ok:
  assumes pl: "page_layout pBt p cs fl tp fr" and i: "i < length cs" and sz: "sz = length (snd (cs ! i))"
  shows "\<exists>p' cs' fl' tp' fr'. dropCell pBt sd p i sz SQLITE_OK = Some (SQLITE_OK, p') \<and>
     page_layout pBt p' cs' fl' tp' fr' \<and> map snd cs' = take i (map snd cs) @ drop (Suc i) (map snd cs) \<and>
     pg p' = pg p \<and> hdrOffset p' = hdrOffset p"
proof -
  define h where "h = hdrOffset p"
  define co where "co = cellOffset p"
  define n where "n = nCell p"
  obtain pc c where pc: "cs ! i = (pc, c)" by force
  define cs0 where "cs0 = take i cs @ drop (Suc i) cs"
  have cs: "cs = take i cs @ (pc, c) # drop (Suc i) cs" using id_take_nth_drop [OF i] pc by simp
  have c: "length c = sz" by (simp add: sz pc)
  have l: "layout pBt (pg p) h (co + 2 * n) (aData p) cs fl [] tp fr" using page_layout_layout [OF pl] by (simp add: h_def co_def n_def)
  have n: "n = length cs" "h + 8 \<le> co" using page_layout_co [OF pl] by (simp_all add: n_def h_def co_def)
  have l0: "layout pBt (pg p) h (co + 2 * n) (aData p) cs0 fl [(pc, sz)] tp fr"
    using layout_remove_cell [of pBt "pg p" h "co + 2 * n" "aData p" "take i cs" pc c "drop (Suc i) cs" fl tp fr] l cs c
    by (simp add: cs0_def)
  have b: "co + 2 * n \<le> tp" "tp \<le> pc" "pc + sz \<le> usableSize pBt" "4 \<le> sz" "usableSize pBt \<le> length (aData p)" "usableSize pBt \<le> 65536"
      "get2byteNotZero (aData p) (h + 5) = Some tp"
    using l0 by (simp_all add: layout_def)
  have top: "get2byte (aData p) (h + 5) = Some tp" using b by (auto simp: get2byteNotZero_def split: if_splits)
  have ptr: "get2byte (aData p) (co + 2 * j) = Some (fst (cs ! j))" if "j < length cs" for j
    using pl that unfolding page_layout_def ptrs_def co_def by blast
  from freeSpace_layout [OF l0, of sd] obtain d1 fl1 tp1 fr1 where
    fs: "freeSpace pBt sd p pc sz = Some (SQLITE_OK, p\<lparr>aData := d1, nFree := u16cast (nFree p + sz)\<rparr>)"
      and l1: "layout pBt (pg p) h (co + 2 * n) d1 cs0 fl1 [] tp1 fr1"
      and c1: "chg (aData p) d1 ({h + 1, h + 2, h + 5, h + 6, h + 7} \<union> {tp..})"
    using h_def by auto
  have ptr1: "get2byte d1 (co + 2 * j) = Some (fst (cs ! j))" if "j < length cs" for j
    using get2byte_chg [OF c1, of "co + 2 * j"] ptr [OF that] b n that by auto
  have sum: "nFree p + co + 2 * n + sz + tot_len (cell_ivs cs0) = usableSize pBt"
    using pl layout_free_sum [OF l0] by (simp add: page_layout_def co_def n_def)
  define m where "m = n - 1 - i"
  have m: "co + 2 * i + 2 * m + 2 = co + 2 * n" "n - 1 = i + m" using i n by (simp_all add: m_def)
  have "co + 2 * i + 2 * m + 2 \<le> length d1" using m b chg_length [OF c1] by linarith
  from shift_down_ok [OF this] obtain d2 where d2: "shift_down m (co + 2 * i) d1 = Some d2"
      "chg d1 d2 {co + 2 * i..<co + 2 * i + 2 * m}"
      "\<forall>k<m. get2byte d2 (co + 2 * i + 2 * k) = get2byte d1 (co + 2 * i + 2 * k + 2)" by blast
  obtain d3 where d3: "put2byte d2 (h + 3) (n - 1) = Some d3" "chg d2 d3 {h + 3, h + 3 + 1}"
      "get2byte d3 (h + 3) = Some ((n - 1) mod 65536)"
    using put2byte_ex [of "h + 3" d2 "n - 1"] b n(2) chg_length [OF c1] chg_length [OF d2(2)] by auto
  have c13: "chg d1 d3 ({co..<co + 2 * n} \<union> {h + 3, h + 4})"
    by (rule chg_trans [OF d2(2) d3(2)]) (use m in auto)
  have l3: "layout pBt (pg p) h (co + 2 * n) d3 cs0 fl1 [] tp1 fr1"
  proof (rule layout_chg [OF l1 c13])
    show "({co..<co + 2 * n} \<union> {h + 3, h + 4}) \<inter> {h + 1, h + 2, h + 5, h + 6, h + 7} = {}" using n(2) by auto
    show "\<forall>x\<in>set (cell_ivs cs0 @ fl1). span x \<inter> ({co..<co + 2 * n} \<union> {h + 3, h + 4}) = {}"
    proof
      fix x assume "x \<in> set (cell_ivs cs0 @ fl1)"
      then have "tp1 \<le> fst x" using layout_sets(1) [OF l1, of x] by simp
      moreover have "co + 2 * n \<le> tp1" using l1 by (simp add: layout_def)
      ultimately show "span x \<inter> ({co..<co + 2 * n} \<union> {h + 3, h + 4}) = {}" using n(2) by (auto simp: span_def)
    qed
  qed
  have len0: "length cs0 = n - 1" using i n by (simp add: cs0_def)
  have "ptrs d3 co cs0"
    unfolding ptrs_def
  proof (intro allI impI)
    fix j assume j: "j < length cs0"
    have e: "get2byte d3 (co + 2 * j) = get2byte d2 (co + 2 * j)" by (rule get2byte_chg [OF d3(2)]) (use n(2) in auto)
    show "get2byte d3 (co + 2 * j) = Some (fst (cs0 ! j))"
    proof (cases "j < i")
      case True
      have "get2byte d2 (co + 2 * j) = get2byte d1 (co + 2 * j)" by (rule get2byte_chg [OF d2(2)]) (use True in auto)
      then show ?thesis using e ptr1 [of j] True i by (simp add: cs0_def nth_append)
    next
      case False
      then obtain k where k: "j = i + k" "k < m" using j len0 m by (metis le_add_diff_inverse nat_add_left_cancel_less not_less)
      have "get2byte d2 (co + 2 * j) = get2byte d1 (co + 2 * (j + 1))" using d2(3) k by (simp add: distrib_left add.assoc)
      moreover have "cs0 ! j = cs ! (j + 1)" using i False by (simp add: cs0_def nth_append)
      ultimately show ?thesis using e ptr1 [of "j + 1"] j len0 n by simp
    qed
  qed
  moreover have "Option.bind (rd d3 h) (decodeFlags pBt) = Some (pg p)"
    using rd_chg [OF c13, of h] rd_chg [OF c1, of h] n(2) b pl by (simp add: page_layout_def h_def)
  moreover have "(n - 1) mod 65536 = n - 1" using b by simp
  moreover have u: "u16cast (nFree p + sz) = nFree p + sz" "u16cast (nFree p + sz + 2) = nFree p + sz + 2"
    using sum b i n by (simp_all add: u16cast_def)
  moreover have "nFree p + sz + 2 + co + 2 * (n - 1) = unat fr1 + tp1 + tot_len fl1"
    using sum layout_free_sum [OF l1] i n by simp
  moreover have "layout pBt (pg p) h (co + 2 * (n - 1)) d3 cs0 fl1 [] tp1 fr1"
    by (rule layout_gap_down [OF l3]) (use n in auto)
  ultimately have pl': "page_layout pBt (p\<lparr>aData := d3, nCell := n - 1, nFree := nFree p + sz + 2\<rparr>) cs0 fl1 tp1 fr1"
    using pl d3(3) len0 unfolding page_layout_def h_def co_def n_def by simp
  have "dropCell pBt sd p i sz SQLITE_OK = Some (SQLITE_OK, p\<lparr>aData := d3, nCell := n - 1, nFree := nFree p + sz + 2\<rparr>)"
    using ptr [OF i] pc top b fs d2(1) d3(1) u
    by (simp add: dropCell_def Let_def h_def co_def n_def m_def)
  moreover have "map snd cs0 = take i (map snd cs) @ drop (Suc i) (map snd cs)"
    by (simp add: cs0_def take_map drop_map)
  ultimately show ?thesis using pl' by fastforce
qed

section \<open>\<open>btreeInitPage\<close> and \<open>zeroPage\<close>\<close>

lemma init_free_loop_chain:
  assumes "flist d a fl" and "spaced first fl" and "\<forall>x\<in>set fl. fst x + snd x \<le> u" and "get2byte d a = Some pc"
  shows "init_free_loop u first acc pc d = Some (Some (acc + tot_len fl))"
  using assms
proof (induction fl arbitrary: a acc first pc)
  case Nil
  then show ?case by (simp add: init_free_loop.simps)
next
  case (Cons y fl)
  obtain b s where y: "y = (b, s)" by force
  have g: "pc = b" "0 < b" "get2byte d (b + 2) = Some s" "flist d b fl" using Cons.prems(1,4) by (auto simp: y)
  obtain nx where nx: "get2byte d b = Some nx" using g(4) by (cases fl) auto
  have bd: "first \<le> b" "4 \<le> s" "b + s \<le> u" "spaced (b + s + 4) fl" using Cons.prems(2,3) by (auto simp: y)
  have "\<not> (0 < nx \<and> nx \<le> b + s + 3)"
    using g(4) nx bd(4) by (cases fl) auto
  moreover have "init_free_loop u first (acc + s) nx d = Some (Some (acc + s + tot_len fl))"
    by (rule Cons.IH [OF g(4) _ _ nx]) (use bd Cons.prems(3) in \<open>auto intro: spaced_mono\<close>)
  moreover have "\<not> u - 4 < b" using bd by simp
  ultimately show ?case using g nx bd by (subst init_free_loop.simps) (simp add: y)
qed

lemma tot_len_ge: "\<forall>x\<in>set is. 4 \<le> snd x \<Longrightarrow> 4 * length is \<le> tot_len is"
  by (induction "is") auto

lemma cells_count:
  assumes "page_layout pBt p cs fl tp fr" and "usableSize pBt \<le> pageSize pBt"
  shows "length cs \<le> MX_CELL pBt"
proof -
  have "4 * length cs \<le> tot_len (cell_ivs cs)"
    using tot_len_ge [of "cell_ivs cs"] layout_sets(3) [OF page_layout_layout [OF assms(1)]] by simp
  moreover have "nFree p + cellOffset p + 2 * length cs + tot_len (cell_ivs cs) = usableSize pBt" "8 \<le> cellOffset p"
    using layout_free_sum [OF page_layout_layout [OF assms(1)]] assms(1) by (auto simp: page_layout_def)
  ultimately have "6 * length cs \<le> pageSize pBt - 8" using assms(2) by linarith
  then show ?thesis by (simp add: MX_CELL_def)
qed

lemma btreeInitPage_ok:
  assumes pl: "page_layout pBt p cs fl tp fr" and us: "usableSize pBt \<le> pageSize pBt"
  shows "btreeInitPage pBt (p\<lparr>isInit := False, nFree := x, nCell := y, pg := z, cellOffset := w, aOvfl := v\<rparr>)
     = Some (SQLITE_OK, p\<lparr>isInit := True\<rparr>)"
proof -
  define h where "h = hdrOffset p"
  have l: "layout pBt (pg p) h (cellOffset p + 2 * nCell p) (aData p) cs fl [] tp fr"
    using page_layout_layout [OF pl] by (simp add: h_def)
  have f: "nFree p + cellOffset p + 2 * nCell p = unat fr + tp + tot_len fl" "nCell p = length cs"
      "get2byte (aData p) (h + 3) = Some (length cs)" "aOvfl p = []"
      "cellOffset p = h + (if leaf (pg p) then 8 else 12)"
    using pl by (auto simp: page_layout_def h_def)
  have b: "rd (aData p) (h + 7) = Some fr" "get2byteNotZero (aData p) (h + 5) = Some tp" "flist (aData p) (h + 1) fl" "spaced tp fl"
      "cellOffset p + 2 * nCell p \<le> tp" "usableSize pBt \<le> 65536" "h + 8 \<le> cellOffset p + 2 * nCell p"
    using l by (simp_all add: layout_def)
  obtain pc where pc: "get2byte (aData p) (h + 1) = Some pc" using b(3) by (cases fl) auto
  have "spaced (cellOffset p + 2 * nCell p) fl" using b(4,5) by (rule spaced_mono)
  then have loop: "init_free_loop (usableSize pBt) (cellOffset p + 2 * nCell p) (unat fr + tp) pc (aData p) = Some (Some (unat fr + tp + tot_len fl))"
    by (intro init_free_loop_chain [OF b(3)]) (use layout_sets(2) [OF l] pc in auto)
  obtain fb where fb: "rd (aData p) h = Some fb" "decodeFlags pBt fb = Some (pg p)"
    using pl by (auto simp: page_layout_def h_def bind_eq_Some_conv)
  have sum: "unat fr + tp + tot_len fl \<le> usableSize pBt" using layout_free_sum [OF l] by simp
  have "nat ((int (unat fr + tp + tot_len fl) - int (cellOffset p + 2 * nCell p)) mod 65536) = nFree p"
    using f(1) sum b by (simp flip: f(1)) 
  moreover have co: "h + 12 - (if leaf (pg p) then 4 else 0) = cellOffset p" using f(5) by simp
  moreover have "length cs \<le> MX_CELL pBt" by (rule cells_count [OF pl us])
  ultimately show ?thesis
    using fb pc b f loop sum unfolding btreeInitPage_def Let_def by (simp add: h_def [symmetric])
qed

lemma zeroPage_ok:
  assumes m: "decodeFlags pBt flags = Some m" "page_ok pBt m" and len: "usableSize pBt \<le> length (aData p)"
    and h: "hdrOffset p + 12 \<le> usableSize pBt"
  shows "\<exists>p'. zeroPage pBt sd flags p = Some p' \<and> page_layout pBt p' [] [] (usableSize pBt) 0 \<and>
     pg p' = m \<and> hdrOffset p' = hdrOffset p \<and> isInit p'"
proof -
  define hd where "hd = hdrOffset p"
  let ?u = "usableSize pBt"
  define d0 where "d0 = (if sd then the (blit (aData p) hd (replicate (?u - hd) 0)) else aData p)"
  have d0: "(if sd then blit (aData p) hd (replicate (?u - hd) 0) else Some (aData p)) = Some d0" "length d0 = length (aData p)"
    using blit_ex [of hd "replicate (?u - hd) 0" "aData p"] len h chg_length by (auto simp: d0_def hd_def)
  obtain d1 where d1: "wr d0 hd flags = Some d1" "chg d0 d1 {hd}" "rd d1 hd = Some flags"
    using wr_ex [of hd d0] d0(2) len h by (auto simp: hd_def)
  have l1: "length d1 = length (aData p)" using d0(2) chg_length [OF d1(2)] by simp
  obtain d2 where d2: "blit d1 (hd + 1) (replicate 4 0) = Some d2" "chg d1 d2 {hd + 1..<hd + 1 + 4}" "rdn d2 (hd + 1) 4 = Some (replicate 4 0)"
    using blit_ex [of "hd + 1" "replicate 4 0" d1] l1 len h by (auto simp: hd_def)
  have l2: "length d2 = length (aData p)" using l1 chg_length [OF d2(2)] by simp
  obtain d3 where d3: "wr d2 (hd + 7) 0 = Some d3" "chg d2 d3 {hd + 7}" "rd d3 (hd + 7) = Some 0"
    using wr_ex [of "hd + 7" d2] l2 len h by (auto simp: hd_def)
  obtain d4 where d4: "put2byte d3 (hd + 5) ?u = Some d4" "chg d3 d4 {hd + 5, hd + 5 + 1}" "get2byte d4 (hd + 5) = Some (?u mod 65536)"
    using put2byte_ex [of "hd + 5" d3 ?u] l2 chg_length [OF d3(2)] len h by (auto simp: hd_def)
  have c24: "chg d2 d4 {hd + 5, hd + 6, hd + 7}" by (rule chg_trans [OF d3(2) d4(2)]) auto
  have z: "get2byte d4 (hd + 1) = Some 0" "get2byte d4 (hd + 3) = Some 0"
  proof -
    have "rdn d2 (hd + 1) 2 = Some [0, 0]" "rdn d2 (hd + 3) 2 = Some [0, 0]"
      using rdn_sub [OF d2(3), of 0 2] rdn_sub [OF d2(3), of 2 2] by (simp_all add: numeral_eq_Suc)
    then show "get2byte d4 (hd + 1) = Some 0" "get2byte d4 (hd + 3) = Some 0"
      using get2byte_chg [OF c24, of "hd + 1"] get2byte_chg [OF c24, of "hd + 3"] by (simp_all add: get2byte_rdn)
  qed
  have fb: "rd d4 hd = Some flags" using rd_chg [OF c24, of hd] rd_chg [OF d2(2), of hd] d1(3) by simp
  have fr: "rd d4 (hd + 7) = Some 0" using rd_chg [OF d4(2), of "hd + 7"] d3(3) by simp
  have u: "?u \<le> 65536" "0 < ?u" using m(2) h by (auto simp: page_ok_def)
  have top: "get2byteNotZero d4 (hd + 5) = Some ?u"
    using d4(3) u by (cases "?u = 65536") (auto simp: get2byteNotZero_def)
  define first where "first = hd + 8 + 4 * (if flags AND 8 = 0 then 1 else 0)"
  have first: "first = hd + (if leaf m then 8 else 12)"
    using decodeFlags_cases [OF m(1)] m(1) decodeFlags_eqs [of pBt] by (auto simp: first_def)
  have fst_u: "hd + 8 \<le> first" "first \<le> ?u" using first h by (auto simp: hd_def)
  have lay: "layout pBt m hd first d4 [] [] [] ?u 0"
    using u fst_u top fr z l2 chg_length [OF c24] len by (simp add: layout_def)
  have nf: "u16cast (?u - first) + first = ?u" using u fst_u by (simp add: u16cast_def)
  have "zeroPage pBt sd flags p = Some (p\<lparr>aData := d4, nFree := u16cast (?u - first), pg := m, cellOffset := first,
      aOvfl := [], nCell := 0, isInit := True\<rparr>)"
    using d0(1) d1(1) d2(1) d3(1) d4(1) m(1) by (simp add: zeroPage_def Let_def hd_def [symmetric] first_def [symmetric])
  moreover have "page_layout pBt (p\<lparr>aData := d4, nFree := u16cast (?u - first), pg := m, cellOffset := first,
      aOvfl := [], nCell := 0, isInit := True\<rparr>) [] [] ?u 0"
    using m fb z first lay nf by (simp add: page_layout_def hd_def [symmetric] ptrs_def)
  ultimately show ?thesis by simp
qed

section \<open>A page is a list of cells\<close>

text \<open>The abstraction: which cells a page holds, in order.\<close>

definition page_cells :: "bt_shared \<Rightarrow> bt_page \<Rightarrow> u8 list list \<Rightarrow> bool" where
  "page_cells pBt p cells \<longleftrightarrow> (\<exists>cs fl tp fr. page_layout pBt p cs fl tp fr \<and> map snd cs = cells)"

text \<open>Space accounting: free bytes plus cells plus cell pointers fill the page after its header.\<close>

lemma page_cells_room:
  assumes "page_cells pBt p cells"
  shows "nFree p + sum_list (map (\<lambda>c. length c + 2) cells) = usableSize pBt - cellOffset p"
proof -
  obtain cs fl tp fr where pl: "page_layout pBt p cs fl tp fr" "map snd cs = cells" using assms by (auto simp: page_cells_def)
  have "sum_list (map (\<lambda>c. length c + 2) (map snd cs)) = tot_len (cell_ivs cs) + 2 * length cs"
    by (induction cs) auto
  with pl layout_free_sum [OF page_layout_layout [OF pl(1)]] show ?thesis by (auto simp: page_layout_def)
qed

text \<open>The interface that the balancing and cursor code relies on: a bounded array of cells.\<close>

datatype 'c edit = Ins nat 'c | Del nat

fun edit_list :: "'c edit \<Rightarrow> 'c list \<Rightarrow> 'c list" where
  "edit_list (Ins i c) xs = take i xs @ c # drop i xs"
| "edit_list (Del i) xs = take i xs @ drop (Suc i) xs"

locale cell_array =
  fixes holds :: "'p \<Rightarrow> 'c list \<Rightarrow> bool" and ok :: "'c \<Rightarrow> bool" and weight :: "'c \<Rightarrow> nat" and cap :: nat
    and ins :: "'p \<Rightarrow> nat \<Rightarrow> 'c \<Rightarrow> 'p option" and del :: "'p \<Rightarrow> nat \<Rightarrow> nat \<Rightarrow> 'p option"
    and cell_size :: "'c \<Rightarrow> nat"
  assumes ins_law: "holds p xs \<Longrightarrow> i \<le> length xs \<Longrightarrow> ok c \<Longrightarrow> sum_list (map weight (c # xs)) \<le> cap \<Longrightarrow>
      \<exists>p'. ins p i c = Some p' \<and> holds p' (take i xs @ c # drop i xs)"
    and del_law: "holds p xs \<Longrightarrow> i < length xs \<Longrightarrow>
      \<exists>p'. del p i (cell_size (xs ! i)) = Some p' \<and> holds p' (take i xs @ drop (Suc i) xs)"
begin

text \<open>One edit; a deletion is told the size of the cell it deletes.\<close>

fun edit_page :: "'c edit \<Rightarrow> 'c list \<Rightarrow> 'p \<Rightarrow> 'p option" where
  "edit_page (Ins i c) xs p = ins p i c"
| "edit_page (Del i) xs p = del p i (cell_size (xs ! i))"

fun legal :: "'c edit \<Rightarrow> 'c list \<Rightarrow> bool" where
  "legal (Ins i c) xs \<longleftrightarrow> i \<le> length xs \<and> ok c \<and> sum_list (map weight (c # xs)) \<le> cap"
| "legal (Del i) xs \<longleftrightarrow> i < length xs"

lemma edit_step: "holds p xs \<Longrightarrow> legal e xs \<Longrightarrow> \<exists>p'. edit_page e xs p = Some p' \<and> holds p' (edit_list e xs)"
  by (cases e) (auto simp: ins_law del_law)

lemma ins_del: "holds p xs \<Longrightarrow> legal (Ins i c) xs \<Longrightarrow>
    \<exists>p1 p2. ins p i c = Some p1 \<and> del p1 i (cell_size c) = Some p2 \<and> holds p2 xs"
proof -
  assume a: "holds p xs" "legal (Ins i c) xs"
  then obtain p1 where p1: "ins p i c = Some p1" "holds p1 (take i xs @ c # drop i xs)" using edit_step by fastforce
  from a have "i < length (take i xs @ c # drop i xs)" "(take i xs @ c # drop i xs) ! i = c" by (auto simp: nth_append)
  with del_law [OF p1(2), of i] a(2) obtain p2 where "del p1 i (cell_size c) = Some p2" "holds p2 xs" by auto
  with p1 show ?thesis by blast
qed

end

text \<open>The page operations as partial functions: success or nothing.\<close>

definition page_ins :: "bt_shared \<Rightarrow> u8 list \<Rightarrow> bt_page \<Rightarrow> nat \<Rightarrow> u8 list \<Rightarrow> bt_page option" where
  "page_ins pBt temp p i c = (case insertCell pBt temp SQLITE_OK p i c (length c) 0 SQLITE_OK of
     Some (SQLITE_OK, p') \<Rightarrow> Some p' | _ \<Rightarrow> None)"

definition page_del :: "bt_shared \<Rightarrow> bool \<Rightarrow> bt_page \<Rightarrow> nat \<Rightarrow> nat \<Rightarrow> bt_page option" where
  "page_del pBt sd p i sz = (case dropCell pBt sd p i sz SQLITE_OK of
     Some (SQLITE_OK, p') \<Rightarrow> Some p' | _ \<Rightarrow> None)"

interpretation page: cell_array
  "\<lambda>p xs. usableSize pBt \<le> length temp \<and> page_cells pBt p xs \<and> pg p = m \<and> hdrOffset p = h"
  "\<lambda>c. cellSizePtr pBt m c = Some (length c) \<and> 4 \<le> length c" "\<lambda>c. length c + 2"
  "usableSize pBt - (h + (if leaf m then 8 else 12))" "page_ins pBt temp" "page_del pBt sd" length
proof
  fix p xs i c
  assume p: "usableSize pBt \<le> length temp \<and> page_cells pBt p xs \<and> pg p = m \<and> hdrOffset p = h" and i: "i \<le> length xs"
    and c: "cellSizePtr pBt m c = Some (length c) \<and> 4 \<le> length c"
    and fit: "sum_list (map (\<lambda>c. length c + 2) (c # xs)) \<le> usableSize pBt - (h + (if leaf m then 8 else 12))"
  from p obtain cs fl tp fr where pl: "page_layout pBt p cs fl tp fr" "map snd cs = xs" by (auto simp: page_cells_def)
  have "cellOffset p = h + (if leaf m then 8 else 12)" using pl(1) p by (simp add: page_layout_def)
  with page_cells_room [of pBt p xs] p fit have "length c + 2 \<le> nFree p" by simp
  moreover have "i \<le> length cs" "c = cell_content c (length c) 0" using i pl(2) by (auto simp: cell_content_def)
  ultimately obtain p' cs' fl' tp' fr' where r: "insertCell pBt temp SQLITE_OK p i c (length c) 0 SQLITE_OK = Some (SQLITE_OK, p')"
      "page_layout pBt p' cs' fl' tp' fr'" "map snd cs' = take i (map snd cs) @ c # drop i (map snd cs)" "pg p' = pg p" "hdrOffset p' = hdrOffset p"
    using insertCell_ok [OF pl(1), of temp i c c "length c" 0] p c by blast
  then have "page_cells pBt p' (take i xs @ c # drop i xs)" using pl(2) unfolding page_cells_def by blast
  with r(1,4,5) p show "\<exists>p'. page_ins pBt temp p i c = Some p' \<and>
      usableSize pBt \<le> length temp \<and> page_cells pBt p' (take i xs @ c # drop i xs) \<and> pg p' = m \<and> hdrOffset p' = h"
    by (simp add: page_ins_def)
next
  fix p xs i
  assume p: "usableSize pBt \<le> length temp \<and> page_cells pBt p xs \<and> pg p = m \<and> hdrOffset p = h" and i: "i < length xs"
  from p obtain cs fl tp fr where pl: "page_layout pBt p cs fl tp fr" "map snd cs = xs" by (auto simp: page_cells_def)
  have "i < length cs" "length (xs ! i) = length (snd (cs ! i))" using i pl(2) by auto
  from dropCell_ok [OF pl(1) this, of sd] obtain p' cs' fl' tp' fr' where
    r: "dropCell pBt sd p i (length (xs ! i)) SQLITE_OK = Some (SQLITE_OK, p')"
      "page_layout pBt p' cs' fl' tp' fr'" "map snd cs' = take i (map snd cs) @ drop (Suc i) (map snd cs)" "pg p' = pg p" "hdrOffset p' = hdrOffset p"
    by blast
  then have "page_cells pBt p' (take i xs @ drop (Suc i) xs)" using pl(2) unfolding page_cells_def by blast
  with r(1,4,5) p show "\<exists>p'. page_del pBt sd p i (length (xs ! i)) = Some p' \<and>
      usableSize pBt \<le> length temp \<and> page_cells pBt p' (take i xs @ drop (Suc i) xs) \<and> pg p' = m \<and> hdrOffset p' = h"
    by (simp add: page_del_def)
qed

text \<open>A history of edits on a page, and when it is legal: indexes in range, well-formed cells, enough room.\<close>

fun page_run :: "bt_shared \<Rightarrow> u8 list \<Rightarrow> bool \<Rightarrow> u8 list edit list \<Rightarrow> bt_page \<Rightarrow> u8 list list \<Rightarrow> bt_page option" where
  "page_run pBt temp sd [] p xs = Some p"
| "page_run pBt temp sd (Ins i c # es) p xs = Option.bind (page_ins pBt temp p i c) (\<lambda>p. page_run pBt temp sd es p (edit_list (Ins i c) xs))"
| "page_run pBt temp sd (Del i # es) p xs = Option.bind (page_del pBt sd p i (length (xs ! i))) (\<lambda>p. page_run pBt temp sd es p (edit_list (Del i) xs))"

fun page_legal :: "bt_shared \<Rightarrow> mem_page \<Rightarrow> nat \<Rightarrow> u8 list edit list \<Rightarrow> u8 list list \<Rightarrow> bool" where
  "page_legal pBt m cap [] xs \<longleftrightarrow> True"
| "page_legal pBt m cap (Ins i c # es) xs \<longleftrightarrow>
     i \<le> length xs \<and> cellSizePtr pBt m c = Some (length c) \<and> 4 \<le> length c \<and> sum_list (map (\<lambda>c. length c + 2) (c # xs)) \<le> cap \<and>
     page_legal pBt m cap es (edit_list (Ins i c) xs)"
| "page_legal pBt m cap (Del i # es) xs \<longleftrightarrow> i < length xs \<and> page_legal pBt m cap es (edit_list (Del i) xs)"

lemma page_run_holds:
  assumes "page_cells pBt p xs" and "pg p = m" and "hdrOffset p = h" and "usableSize pBt \<le> length temp"
    and "page_legal pBt m (usableSize pBt - (h + (if leaf m then 8 else 12))) es xs"
  shows "\<exists>p'. page_run pBt temp sd es p xs = Some p' \<and> page_cells pBt p' (fold edit_list es xs) \<and> pg p' = m \<and> hdrOffset p' = h"
  using assms
proof (induction es arbitrary: p xs)
  case (Cons e es)
  let ?cap = "usableSize pBt - (h + (if leaf m then 8 else 12))"
  show ?case
  proof (cases e)
    case (Ins i c)
    with Cons.prems page.ins_law [of pBt temp p xs m h i c] obtain p1 where
      "page_ins pBt temp p i c = Some p1" "page_cells pBt p1 (edit_list e xs)" "pg p1 = m" "hdrOffset p1 = h" by auto
    with Cons Ins show ?thesis by auto
  next
    case (Del i)
    with Cons.prems page.del_law [of pBt temp p xs m h i sd] obtain p1 where
      "page_del pBt sd p i (length (xs ! i)) = Some p1" "page_cells pBt p1 (edit_list e xs)" "pg p1 = m" "hdrOffset p1 = h" by auto
    with Cons Del show ?thesis by auto
  qed
qed simp

lemma page_cells_room_change:
  assumes "page_cells pBt p xs" and "page_cells pBt p' ys" and "pg p' = pg p" and "hdrOffset p' = hdrOffset p"
  shows "nFree p' + sum_list (map (\<lambda>c. length c + 2) ys) = nFree p + sum_list (map (\<lambda>c. length c + 2) xs)"
proof -
  have "cellOffset p' = cellOffset p" using assms by (auto simp: page_cells_def page_layout_def)
  with page_cells_room [OF assms(1)] page_cells_room [OF assms(2)] show ?thesis by simp
qed

lemma sum_insert: "sum_list (map f (take i xs @ c # drop i xs)) = f c + sum_list (map f xs)" for f :: "'a \<Rightarrow> nat"
proof -
  have "sum_list (map f xs) = sum_list (map f (take i xs)) + sum_list (map f (drop i xs))"
    by (metis append_take_drop_id map_append sum_list_append)
  then show ?thesis by simp
qed

lemma sum_delete: "i < length xs \<Longrightarrow> f (xs ! i) + sum_list (map f (take i xs @ drop (Suc i) xs)) = sum_list (map f xs)" for f :: "'a \<Rightarrow> nat"
  using sum_insert [of f i "take i xs @ drop (Suc i) xs" "xs ! i"] id_take_nth_drop [of i xs] by simp

text \<open>An empty index leaf of 512 bytes, for the concrete instances below.\<close>

definition blank_page :: bt_page where
  "blank_page = \<lparr>aData = replicate 512 0, isInit = False, hdrOffset = 0, cellOffset = 0, nFree = 0, nCell = 0,
     pg = \<lparr>leaf = False, intKey = False, hasData = False, childPtrSize = 0, maxLocal = 0, minLocal = 0\<rparr>, aOvfl = []\<rparr>"

definition leaf_512 :: mem_page where
  "leaf_512 = \<lparr>leaf = True, intKey = False, hasData = False, childPtrSize = 0, maxLocal = 102, minLocal = 39\<rparr>"

lemma leaf_512: "decodeFlags (bt_limits 512 512) 10 = Some leaf_512" "page_ok (bt_limits 512 512) leaf_512"
  "usableSize (bt_limits 512 512) = 512" "pageSize (bt_limits 512 512) = 512"
  by (simp_all add: decodeFlags_eqs bt_limits_def u16cast_def leaf_512_def page_ok_def)

lemma blank_zeroed:
  "\<exists>p. zeroPage (bt_limits 512 512) sd 10 blank_page = Some p \<and> page_cells (bt_limits 512 512) p [] \<and>
     pg p = leaf_512 \<and> hdrOffset p = 0 \<and> nFree p = 504"
proof -
  obtain p where p: "zeroPage (bt_limits 512 512) sd 10 blank_page = Some p"
      "page_layout (bt_limits 512 512) p [] [] 512 0" "pg p = leaf_512" "hdrOffset p = 0"
    using zeroPage_ok [OF leaf_512(1,2), of blank_page sd] by (auto simp: leaf_512(3) blank_page_def)
  then have "page_cells (bt_limits 512 512) p []" by (auto simp: page_cells_def)
  moreover have "nFree p = 504" using p by (simp add: page_layout_def leaf_512_def)
  ultimately show ?thesis using p by blast
qed

lemma cell_3777: "cellSizePtr (bt_limits 512 512) leaf_512 [3, 7, 7, 7] = Some 4"
  by (simp add: cellSizePtr_def leaf_512_def GetVarint32_spec getVarint_spec saturate32_def bit_simps u16cast_def)

lemma page_with_cell:
  "\<exists>p. page_cells (bt_limits 512 512) p [[3, 7, 7, 7]] \<and> pg p = leaf_512 \<and> hdrOffset p = 0"
proof -
  obtain p where p: "page_cells (bt_limits 512 512) p []" "pg p = leaf_512" "hdrOffset p = 0" using blank_zeroed by blast
  have "page_legal (bt_limits 512 512) leaf_512 (512 - (0 + (if leaf leaf_512 then 8 else 12))) [Ins 0 [3, 7, 7, 7]] []"
    using cell_3777 by (simp add: leaf_512_def)
  with page_run_holds [OF p, of "replicate 512 0" "[Ins 0 [3, 7, 7, 7]]" False] show ?thesis
    by (auto simp: leaf_512(3))
qed

section \<open>Properties\<close>

text \<open>
  C9. \<open>insertCell\<close> implements insertion into the list of cells of a page: if the cell and its pointer fit
  into the free bytes, the call succeeds without an access outside the page (allocating from a free block,
  from the gap, or after defragmentation), the page then holds the same cells with the new one at index
  \<open>i\<close>, and exactly the space of the cell and its pointer has been used.
\<close>

theorem page_insert_refines:
  assumes "page_cells pBt p cells" and "usableSize pBt \<le> length temp" and "i \<le> length cells"
    and "length (cell_content pCell sz iChild) = sz" and "cellSizePtr pBt (pg p) (cell_content pCell sz iChild) = Some sz"
    and "4 \<le> sz" and "sz + 2 \<le> nFree p"
  shows "\<exists>p'. insertCell pBt temp SQLITE_OK p i pCell sz iChild SQLITE_OK = Some (SQLITE_OK, p') \<and>
     page_cells pBt p' (take i cells @ cell_content pCell sz iChild # drop i cells) \<and> nFree p' + sz + 2 = nFree p"
proof -
  from assms(1) obtain cs fl tp fr where pl: "page_layout pBt p cs fl tp fr" "map snd cs = cells" by (auto simp: page_cells_def)
  have "i \<le> length cs" using assms(3) pl(2) by auto
  from insertCell_ok [OF pl(1) assms(2) this refl assms(4-7)] obtain p' cs' fl' tp' fr' where
    r: "insertCell pBt temp SQLITE_OK p i pCell sz iChild SQLITE_OK = Some (SQLITE_OK, p')" "page_layout pBt p' cs' fl' tp' fr'"
      "map snd cs' = take i (map snd cs) @ cell_content pCell sz iChild # drop i (map snd cs)" "pg p' = pg p" "hdrOffset p' = hdrOffset p"
    by blast
  then have pc: "page_cells pBt p' (take i cells @ cell_content pCell sz iChild # drop i cells)"
    using pl(2) unfolding page_cells_def by blast
  show ?thesis
    using r(1) pc page_cells_room_change [OF assms(1) pc r(4,5)] assms(4)
      sum_insert [of "\<lambda>c. length c + 2" i cells "cell_content pCell sz iChild"] by simp
qed

theorem page_insert_refines_witness:
  "\<exists>p p'. zeroPage (bt_limits 512 512) False 10 blank_page = Some p \<and>
     insertCell (bt_limits 512 512) (replicate 512 0) SQLITE_OK p 0 [3, 7, 7, 7] 4 0 SQLITE_OK = Some (SQLITE_OK, p') \<and>
     page_cells (bt_limits 512 512) p' [[3, 7, 7, 7]] \<and> nFree p' = 498"
proof -
  obtain p where p: "zeroPage (bt_limits 512 512) False 10 blank_page = Some p" "page_cells (bt_limits 512 512) p []"
    "pg p = leaf_512" "nFree p = 504" using blank_zeroed by blast
  have "cell_content [3, 7, 7, 7] 4 0 = [3, 7, 7, 7 :: u8]" by (simp add: cell_content_def)
  with page_insert_refines [OF p(2), of "replicate 512 0" 0 "[3, 7, 7, 7]" 4 0] p cell_3777
  show ?thesis by (auto simp: leaf_512(3))
qed

text \<open>
  C10. \<open>dropCell\<close> implements deletion from the list of cells: given the size of cell \<open>i\<close> it succeeds, joins
  the freed bytes with adjacent free blocks and fragments (the joining loop ends), and the page then holds
  the other cells unchanged, with the space of the cell and its pointer back in the free bytes.
\<close>

theorem page_drop_refines:
  assumes "page_cells pBt p cells" and "i < length cells"
  shows "\<exists>p'. dropCell pBt secure_delete p i (length (cells ! i)) SQLITE_OK = Some (SQLITE_OK, p') \<and>
     page_cells pBt p' (take i cells @ drop (Suc i) cells) \<and> nFree p' = nFree p + length (cells ! i) + 2"
proof -
  from assms(1) obtain cs fl tp fr where pl: "page_layout pBt p cs fl tp fr" "map snd cs = cells" by (auto simp: page_cells_def)
  have "i < length cs" "length (cells ! i) = length (snd (cs ! i))" using assms(2) pl(2) by auto
  from dropCell_ok [OF pl(1) this] obtain p' cs' fl' tp' fr' where
    r: "dropCell pBt secure_delete p i (length (cells ! i)) SQLITE_OK = Some (SQLITE_OK, p')" "page_layout pBt p' cs' fl' tp' fr'"
      "map snd cs' = take i (map snd cs) @ drop (Suc i) (map snd cs)" "pg p' = pg p" "hdrOffset p' = hdrOffset p"
    by blast
  then have pc: "page_cells pBt p' (take i cells @ drop (Suc i) cells)" using pl(2) unfolding page_cells_def by blast
  show ?thesis
    using r(1) pc page_cells_room_change [OF assms(1) pc r(4,5)] sum_delete [OF assms(2), of "\<lambda>c. length c + 2"] by simp
qed

theorem page_drop_refines_witness:
  "\<exists>p p'. page_cells (bt_limits 512 512) p [[3, 7, 7, 7]] \<and>
     dropCell (bt_limits 512 512) True p 0 4 SQLITE_OK = Some (SQLITE_OK, p') \<and> page_cells (bt_limits 512 512) p' []"
proof -
  obtain p where p: "page_cells (bt_limits 512 512) p [[3, 7, 7, 7]]" using page_with_cell by blast
  have "length ([[3, 7, 7, 7 :: u8]] ! 0) = 4" by simp
  with page_drop_refines [OF p, of 0 True] p show ?thesis by (metis append_Nil drop0 drop_Suc_Cons length_Cons take_0 zero_less_Suc)
qed

text \<open>
  C8. The invariant of a page over its whole life. A page that has been set up by \<open>zeroPage\<close> and then gone
  through any legal history of insertions and deletions holds the cells that the history says, in order;
  and \<open>btreeInitPage\<close>, run on its bytes alone with all other fields forgotten, accepts the page and
  restores every field, in particular the number of free bytes that the operations had kept up to date.
\<close>

theorem page_session:
  assumes "decodeFlags pBt flags = Some m" and "page_ok pBt m" and "usableSize pBt \<le> pageSize pBt"
    and "usableSize pBt \<le> length (aData p0)" and "hdrOffset p0 + 12 \<le> usableSize pBt" and "usableSize pBt \<le> length temp"
    and "page_legal pBt m (usableSize pBt - (hdrOffset p0 + (if leaf m then 8 else 12))) es []"
  shows "\<exists>p p'. zeroPage pBt sd flags p0 = Some p \<and> page_run pBt temp sd es p [] = Some p' \<and>
     page_cells pBt p' (fold edit_list es []) \<and>
     (\<forall>x y z w v. btreeInitPage pBt (p'\<lparr>isInit := False, nFree := x, nCell := y, pg := z, cellOffset := w, aOvfl := v\<rparr>)
        = Some (SQLITE_OK, p'\<lparr>isInit := True\<rparr>))"
proof -
  obtain p where p: "zeroPage pBt sd flags p0 = Some p" "page_layout pBt p [] [] (usableSize pBt) 0" "pg p = m" "hdrOffset p = hdrOffset p0"
    using zeroPage_ok [OF assms(1,2,4,5)] by blast
  then have "page_cells pBt p []" by (auto simp: page_cells_def)
  from page_run_holds [OF this p(3,4) assms(6,7)] obtain p' where
    p': "page_run pBt temp sd es p [] = Some p'" "page_cells pBt p' (fold edit_list es [])" by blast
  then obtain cs fl tp fr where "page_layout pBt p' cs fl tp fr" by (auto simp: page_cells_def)
  from btreeInitPage_ok [OF this assms(3)] p p' show ?thesis by blast
qed

theorem page_session_witness:
  "\<exists>p p'. zeroPage (bt_limits 512 512) True 10 blank_page = Some p \<and>
     page_run (bt_limits 512 512) (replicate 512 0) True [Ins 0 [3, 7, 7, 7], Ins 1 [3, 7, 7, 7], Del 0] p [] = Some p' \<and>
     page_cells (bt_limits 512 512) p' [[3, 7, 7, 7]]"
proof -
  have "page_legal (bt_limits 512 512) leaf_512 504 [Ins 0 [3, 7, 7, 7], Ins 1 [3, 7, 7, 7], Del 0] []"
    using cell_3777 by simp
  with page_session [OF leaf_512(1,2), of blank_page "replicate 512 0" "[Ins 0 [3, 7, 7, 7], Ins 1 [3, 7, 7, 7], Del 0]" True]
  show ?thesis by (auto simp: leaf_512(3,4) blank_page_def leaf_512_def)
qed

text \<open>
  C11. \<open>defragmentPage\<close> keeps the cells of a page and their order, and gathers all free bytes in the gap:
  afterwards there is no free block and no fragment, and the content area starts exactly \<open>nFree\<close> bytes after
  the cell pointers.
\<close>

theorem page_defragment:
  assumes "page_cells pBt p cells" and "usableSize pBt \<le> length temp"
  shows "\<exists>p'. defragmentPage pBt temp p = Some (SQLITE_OK, p') \<and> page_cells pBt p' cells \<and>
     get2byte (aData p') (hdrOffset p + 1) = Some 0 \<and> rd (aData p') (hdrOffset p + 7) = Some 0 \<and>
     get2byteNotZero (aData p') (hdrOffset p + 5) = Some (cellOffset p + 2 * nCell p + nFree p)"
proof -
  from assms(1) obtain cs fl tp fr where pl: "page_layout pBt p cs fl tp fr" "map snd cs = cells" by (auto simp: page_cells_def)
  from defragmentPage_ok [OF pl(1) assms(2)] obtain d' cs' where
    r: "defragmentPage pBt temp p = Some (SQLITE_OK, p\<lparr>aData := d'\<rparr>)" "map snd cs' = map snd cs"
      "page_layout pBt (p\<lparr>aData := d'\<rparr>) cs' [] (cellOffset p + 2 * nCell p + nFree p) 0" by blast
  then have "page_cells pBt (p\<lparr>aData := d'\<rparr>) cells" using pl(2) unfolding page_cells_def by metis
  with r(1) page_layout_layout [OF r(3)] show ?thesis by (auto simp: layout_def)
qed

theorem page_defragment_witness:
  "\<exists>p p'. defragmentPage (bt_limits 512 512) (replicate 512 0) p = Some (SQLITE_OK, p') \<and>
     page_cells (bt_limits 512 512) p' [[3, 7, 7, 7]]"
proof -
  obtain p where p: "page_cells (bt_limits 512 512) p [[3, 7, 7, 7]]" using page_with_cell by blast
  with page_defragment [OF p, of "replicate 512 0"] show ?thesis by (auto simp: leaf_512(3))
qed

end
