(* ===== verification/Record_Format.thy ===== *)
theory Record_Format
  imports Varint
begin

text \<open>
  The record format: vdbeaux.c (serial types, writing and reading a value, unpacking a record,
  comparing a record with an unpacked key, reading the rowid of an index entry), vdbemem.c
  (\<open>sqlite3MemCompare\<close>) and the opcode \<open>OP_MakeRecord\<close> of vdbe.c. A record is a header (its size
  and the serial type of every field, as varints) followed by the data of the fields.
\<close>

section \<open>Values\<close>

text \<open>
  The content of a \<open>Mem\<close>: NULL, a 64-bit integer, a double given by its 64 bits, text, or a blob with
  \<open>u.nZero\<close> zero bytes after its \<open>n\<close> bytes (0 when \<open>MEM_Zero\<close> is not set).
\<close>

datatype mem = MNull | MInt i64 | MReal u64 | MStr "u8 list" | MBlob "u8 list" nat

text \<open>IEEE-754 doubles by their bits: the test of \<open>sqlite3IsNaN\<close>, the order, and the conversion of a
  64-bit integer, rounding to nearest, ties to even.\<close>

definition sqlite3IsNaN :: "u64 \<Rightarrow> bool" where
  "sqlite3IsNaN x \<longleftrightarrow> take_bit 63 x > 0x7ff0000000000000"

definition real_key :: "u64 \<Rightarrow> int" where
  "real_key x = (if bit x 63 then - uint (take_bit 63 x) else uint (take_bit 63 x))"

definition real_less :: "u64 \<Rightarrow> u64 \<Rightarrow> bool" where
  "real_less x y \<longleftrightarrow> \<not> sqlite3IsNaN x \<and> \<not> sqlite3IsNaN y \<and> real_key x < real_key y"

fun ilog2 :: "nat \<Rightarrow> nat" where
  "ilog2 n = (if n < 2 then 0 else Suc (ilog2 (n div 2)))"

declare ilog2.simps [simp del]

definition real_of_i64 :: "i64 \<Rightarrow> u64" where
  "real_of_i64 i =
     (let n = nat \<bar>sint i\<bar>; e = ilog2 n;
          m = (if e \<le> 52 then n * 2 ^ (52 - e)
               else (let q = n div 2 ^ (e - 52); r = n mod 2 ^ (e - 52)
                     in q + (if 2 * r > 2 ^ (e - 52) \<or> 2 * r = 2 ^ (e - 52) \<and> odd q then 1 else 0)))
      in if n = 0 then 0
         else of_nat ((e + 1022) * 2 ^ 52 + m) OR (if sint i < 0 then push_bit 63 1 else 0))"

section \<open>Serial types\<close>

definition MAX_6BYTE :: int where
  "MAX_6BYTE = 0x8000 * 2 ^ 32 - 1"

definition sqlite3VdbeSerialType :: "mem \<Rightarrow> nat \<Rightarrow> nat" where
  "sqlite3VdbeSerialType pMem file_format = (case pMem of
     MNull \<Rightarrow> 0
   | MInt w \<Rightarrow>
       (let i = sint w in
        if i < 0 \<and> i < - MAX_6BYTE then 6
        else let u = (if i < 0 then - i else i) in
          if u \<le> 127 then (if w AND 1 = w \<and> file_format \<ge> 4 then 8 + nat u else 1)
          else if u \<le> 32767 then 2
          else if u \<le> 8388607 then 3
          else if u \<le> 2147483647 then 4
          else if u \<le> MAX_6BYTE then 5
          else 6)
   | MReal r \<Rightarrow> 7
   | MStr z \<Rightarrow> length z * 2 + 12 + 1
   | MBlob z nZero \<Rightarrow> (length z + nZero) * 2 + 12)"

definition aSize :: "nat list" where
  "aSize = [0, 1, 2, 3, 4, 6, 8, 8, 0, 0, 0, 0]"

definition sqlite3VdbeSerialTypeLen :: "nat \<Rightarrow> nat" where
  "sqlite3VdbeSerialTypeLen serial_type =
     (if serial_type \<ge> 12 then (serial_type - 12) div 2 else aSize ! serial_type)"

section \<open>Writing and reading one value\<close>

text \<open>The loop that stores a number from its last byte to its first.\<close>

fun put_be :: "nat \<Rightarrow> u64 \<Rightarrow> u8 list \<Rightarrow> u8 list" where
  "put_be 0 v acc = acc"
| "put_be (Suc i) v acc = put_be i (drop_bit 8 v) (ucast (v AND 0xff) # acc)"

text \<open>The bytes written into a buffer of \<open>nBuf\<close> bytes; \<open>None\<close> if the buffer is too small for them.\<close>

definition sqlite3VdbeSerialPut :: "nat \<Rightarrow> mem \<Rightarrow> nat \<Rightarrow> u8 list option" where
  "sqlite3VdbeSerialPut nBuf pMem file_format =
     (let serial_type = sqlite3VdbeSerialType pMem file_format in
      if serial_type \<le> 7 \<and> serial_type > 0 then
        (let len = sqlite3VdbeSerialTypeLen serial_type in
         if len > nBuf then None
         else Some (put_be len (case pMem of MReal r \<Rightarrow> r | MInt i \<Rightarrow> i | _ \<Rightarrow> 0) []))
      else if serial_type \<ge> 12 then
        (case pMem of
           MStr z \<Rightarrow> if length z > nBuf then None else Some z
         | MBlob z nZero \<Rightarrow>
             if length z > nBuf then None
             else (let len = length z + nZero; len = (if len > nBuf then nBuf else len)
                   in Some (z @ replicate (len - length z) 0))
         | _ \<Rightarrow> Some [])
      else Some [])"

text \<open>The result is the value and the number of bytes it occupies; \<open>None\<close> if it is not inside the buffer.\<close>

definition be32 :: "u8 \<Rightarrow> u8 \<Rightarrow> u8 \<Rightarrow> u8 \<Rightarrow> u32" where
  "be32 a b c d = push_bit 24 (ucast a) OR push_bit 16 (ucast b) OR push_bit 8 (ucast c) OR ucast d"

definition sqlite3VdbeSerialGet :: "u8 list \<Rightarrow> nat \<Rightarrow> (mem \<times> nat) option" where
  "sqlite3VdbeSerialGet buf serial_type =
     (if serial_type = 0 \<or> serial_type = 10 \<or> serial_type = 11 then Some (MNull, 0)
      else if serial_type = 1 then do { a \<leftarrow> rd buf 0; Some (MInt (scast a), 1) }
      else if serial_type = 2 then do {
        a \<leftarrow> rd buf 0; b \<leftarrow> rd buf 1;
        Some (MInt (scast (push_bit 8 (scast a) OR ucast b :: u32)), 2) }
      else if serial_type = 3 then do {
        a \<leftarrow> rd buf 0; b \<leftarrow> rd buf 1; c \<leftarrow> rd buf 2;
        Some (MInt (scast (push_bit 16 (scast a) OR push_bit 8 (ucast b) OR ucast c :: u32)), 3) }
      else if serial_type = 4 then do {
        a \<leftarrow> rd buf 0; b \<leftarrow> rd buf 1; c \<leftarrow> rd buf 2; d \<leftarrow> rd buf 3;
        Some (MInt (scast (be32 a b c d)), 4) }
      else if serial_type = 5 then do {
        a \<leftarrow> rd buf 0; b \<leftarrow> rd buf 1; c \<leftarrow> rd buf 2; d \<leftarrow> rd buf 3; e \<leftarrow> rd buf 4; f \<leftarrow> rd buf 5;
        let x = (scast (push_bit 8 (scast a) OR ucast b :: u32) :: u64);
        Some (MInt (push_bit 32 x OR ucast (be32 c d e f)), 6) }
      else if serial_type = 6 \<or> serial_type = 7 then do {
        a \<leftarrow> rd buf 0; b \<leftarrow> rd buf 1; c \<leftarrow> rd buf 2; d \<leftarrow> rd buf 3;
        e \<leftarrow> rd buf 4; f \<leftarrow> rd buf 5; g \<leftarrow> rd buf 6; h \<leftarrow> rd buf 7;
        let x = (push_bit 32 (scast (be32 a b c d)) OR ucast (be32 e f g h) :: u64);
        Some (if serial_type = 6 then MInt x else if sqlite3IsNaN x then MNull else MReal x, 8) }
      else if serial_type = 8 \<or> serial_type = 9 then Some (MInt (of_nat (serial_type - 8)), 0)
      else do {
        let len = (serial_type - 12) div 2;
        z \<leftarrow> rdn buf 0 len;
        Some (if odd serial_type then MStr z else MBlob z 0, len) })"

section \<open>Records\<close>

datatype make_result = Record "u8 list" nat | Too_Big | No_Mem

text \<open>\<open>sqlite3VdbeMemExpandBlob\<close> as \<open>OP_MakeRecord\<close> applies it, to blobs with a non-empty prefix.\<close>

definition expand_prefixed :: "mem \<Rightarrow> mem" where
  "expand_prefixed pRec = (case pRec of
     MBlob z nZero \<Rightarrow> if nZero > 0 \<and> z \<noteq> [] then MBlob (z @ replicate nZero 0) 0 else pRec
   | _ \<Rightarrow> pRec)"

text \<open>The first loop of \<open>OP_MakeRecord\<close>: the sizes of data and header and the zero bytes at the end.\<close>

fun make_sizes :: "nat \<Rightarrow> mem list \<Rightarrow> nat \<times> nat \<times> nat \<Rightarrow> nat \<times> nat \<times> nat" where
  "make_sizes file_format [] acc = acc"
| "make_sizes file_format (pRec # rest) (nData, nHdr, nZero) =
     (let serial_type = sqlite3VdbeSerialType pRec file_format; len = sqlite3VdbeSerialTypeLen serial_type
      in make_sizes file_format rest
           (nData + len, nHdr + sqlite3VarintLen (of_nat serial_type),
            (case pRec of
               MBlob z (Suc n) \<Rightarrow> nZero + Suc n
             | _ \<Rightarrow> if len \<noteq> 0 then 0 else nZero)))"

text \<open>The loops that write the header and the data; \<open>nByte - length acc\<close> is the space left.\<close>

fun make_header :: "nat \<Rightarrow> mem list \<Rightarrow> u8 list" where
  "make_header file_format [] = []"
| "make_header file_format (pRec # rest) =
     sqlite3PutVarint32 (of_nat (sqlite3VdbeSerialType pRec file_format)) @ make_header file_format rest"

fun make_data :: "nat \<Rightarrow> nat \<Rightarrow> mem list \<Rightarrow> u8 list option" where
  "make_data file_format nBuf [] = Some []"
| "make_data file_format nBuf (pRec # rest) = do {
     b \<leftarrow> sqlite3VdbeSerialPut nBuf pRec file_format;
     bs \<leftarrow> make_data file_format (nBuf - length b) rest;
     Some (b @ bs) }"

text \<open>\<open>limit\<close> is \<open>aLimit[SQLITE_LIMIT_LENGTH]\<close>, \<open>mem_ok\<close> whether the output register can be enlarged. The
  fields have no affinity string.\<close>

definition OP_MakeRecord :: "nat \<Rightarrow> nat \<Rightarrow> bool \<Rightarrow> mem list \<Rightarrow> make_result option" where
  "OP_MakeRecord file_format limit mem_ok fields =
     (let fields = map expand_prefixed fields;
          (nData, nHdr, nZero) = make_sizes file_format fields (0, 0, 0);
          nVarint = sqlite3VarintLen (of_nat nHdr);
          nHdr = nHdr + nVarint;
          nHdr = (if nVarint < sqlite3VarintLen (of_nat nHdr) then nHdr + 1 else nHdr);
          nByte = nHdr + nData - nZero
      in if nByte > limit then Some Too_Big
         else if \<not> mem_ok then Some No_Mem
         else do {
           let h = sqlite3PutVarint32 (of_nat nHdr) @ make_header file_format fields;
           b \<leftarrow> make_data file_format (nByte - length h) fields;
           Some (Record (h @ b) nZero) })"

text \<open>The address \<open>&aKey[d]\<close> for a signed 32-bit offset: nothing can be read at a negative one.\<close>

definition key_at :: "u8 list \<Rightarrow> u32 \<Rightarrow> u8 list" where
  "key_at aKey d = (if sint d < 0 then [] else drop (nat (sint d)) aKey)"

text \<open>\<open>sqlite3VdbeRecordUnpack\<close>: \<open>n\<close> fields may still be stored; \<open>d\<close> is the \<open>int\<close> of the code.\<close>

fun unpack_loop :: "u8 list \<Rightarrow> nat \<Rightarrow> nat \<Rightarrow> nat \<Rightarrow> u32 \<Rightarrow> mem list option" where
  "unpack_loop aKey szHdr 0 idx d = Some []"
| "unpack_loop aKey szHdr (Suc n) idx d =
     (if idx < szHdr \<and> sint d \<le> int (length aKey) then do {
        (k, serial_type) \<leftarrow> sqlite3GetVarint32 (drop idx aKey);
        (m, len) \<leftarrow> sqlite3VdbeSerialGet (key_at aKey d) (unat serial_type);
        ms \<leftarrow> unpack_loop aKey szHdr n (idx + k) (d + of_nat len);
        Some (m # ms) }
      else Some [])"

definition sqlite3VdbeRecordUnpack :: "nat \<Rightarrow> u8 list \<Rightarrow> mem list option" where
  "sqlite3VdbeRecordUnpack nField aKey = do {
     (idx, szHdr) \<leftarrow> sqlite3GetVarint32 aKey;
     unpack_loop aKey (unat szHdr) nField idx szHdr }"

section \<open>Comparison\<close>

text \<open>\<open>memcmp\<close>, of which only the sign is used.\<close>

fun memcmp :: "u8 list \<Rightarrow> u8 list \<Rightarrow> int" where
  "memcmp (a # as) (b # bs) = (if a < b then -1 else if b < a then 1 else memcmp as bs)"
| "memcmp _ _ = 0"

text \<open>A blob reaches the comparison without pending zero bytes. \<open>coll\<close> is the collating function, applied
  to text that is already in its encoding, if there is one.\<close>

type_synonym collseq = "(u8 list \<Rightarrow> u8 list \<Rightarrow> int) option"

definition blob_compare :: "u8 list \<Rightarrow> u8 list \<Rightarrow> int" where
  "blob_compare z1 z2 =
     (let rc = memcmp z1 z2 in if rc = 0 then int (length z1) - int (length z2) else rc)"

fun sqlite3MemCompare :: "mem \<Rightarrow> mem \<Rightarrow> collseq \<Rightarrow> int" where
  "sqlite3MemCompare MNull MNull coll = 0"
| "sqlite3MemCompare MNull _ coll = -1"
| "sqlite3MemCompare _ MNull coll = 1"
| "sqlite3MemCompare (MInt i) (MInt j) coll = (if sint i < sint j then -1 else if sint i > sint j then 1 else 0)"
| "sqlite3MemCompare (MInt i) (MReal r) coll =
     (let r1 = real_of_i64 i in if real_less r1 r then -1 else if real_less r r1 then 1 else 0)"
| "sqlite3MemCompare (MReal r) (MInt j) coll =
     (let r2 = real_of_i64 j in if real_less r r2 then -1 else if real_less r2 r then 1 else 0)"
| "sqlite3MemCompare (MReal r) (MReal s) coll = (if real_less r s then -1 else if real_less s r then 1 else 0)"
| "sqlite3MemCompare (MInt i) _ coll = -1"
| "sqlite3MemCompare (MReal r) _ coll = -1"
| "sqlite3MemCompare _ (MInt j) coll = 1"
| "sqlite3MemCompare _ (MReal s) coll = 1"
| "sqlite3MemCompare (MStr x) (MStr y) coll = (case coll of Some xCmp \<Rightarrow> xCmp x y | None \<Rightarrow> blob_compare x y)"
| "sqlite3MemCompare (MStr x) (MBlob y n) coll = -1"
| "sqlite3MemCompare (MBlob x n) (MStr y) coll = 1"
| "sqlite3MemCompare (MBlob x n) (MBlob y n') coll = blob_compare x y"

text \<open>The description of an index (collations and sort order of the first fields) and the unpacked key.\<close>

record key_info =
  aColl :: "collseq list"
  aSortOrder :: "bool list"

record unpacked_record =
  ur_aMem :: "mem list"
  ur_incrkey :: bool
  ur_prefix_match :: bool
  ur_prefix_search :: bool
  ur_rowid :: i64

definition field_compare :: "key_info \<Rightarrow> nat \<Rightarrow> mem \<Rightarrow> mem \<Rightarrow> int" where
  "field_compare ki i a b =
     (let rc = sqlite3MemCompare a b (if i < length (aColl ki) then aColl ki ! i else None)
      in if rc \<noteq> 0 \<and> i < length (aColl ki) \<and> aSortOrder ki ! i then - rc else rc)"

text \<open>The loop of \<open>sqlite3VdbeRecordCompare\<close>: \<open>Inl\<close> when the keys differ in field \<open>i\<close>, with the result and
  the value of that field, \<open>Inr\<close> with the header offset when one of them ran out of fields.\<close>

fun compare_loop :: "key_info \<Rightarrow> u8 list \<Rightarrow> nat \<Rightarrow> mem list \<Rightarrow> nat \<Rightarrow> nat \<Rightarrow> u32 \<Rightarrow> ((int \<times> nat \<times> mem) + nat) option" where
  "compare_loop ki aKey szHdr [] i idx d = Some (Inr idx)"
| "compare_loop ki aKey szHdr (m2 # ms) i idx d =
     (if idx < szHdr then do {
        (k, serial_type) \<leftarrow> sqlite3GetVarint32 (drop idx aKey);
        if sint d \<ge> int (length aKey) \<and> sqlite3VdbeSerialTypeLen (unat serial_type) > 0 then Some (Inr (idx + k))
        else do {
          (m1, len) \<leftarrow> sqlite3VdbeSerialGet (key_at aKey d) (unat serial_type);
          let rc = field_compare ki i m1 m2;
          if rc \<noteq> 0 then Some (Inl (rc, i, m1))
          else compare_loop ki aKey szHdr ms (i + 1) (idx + k) (d + of_nat len) } }
      else Some (Inr idx))"

definition sqlite3VdbeRecordCompare :: "key_info \<Rightarrow> u8 list \<Rightarrow> unpacked_record \<Rightarrow> (int \<times> unpacked_record) option" where
  "sqlite3VdbeRecordCompare ki aKey1 pPKey2 = do {
     (idx1, szHdr1) \<leftarrow> sqlite3GetVarint32 aKey1;
     r \<leftarrow> compare_loop ki aKey1 (unat szHdr1) (ur_aMem pPKey2) 0 idx1 szHdr1;
     (case r of
        Inl (rc, i, m1) \<Rightarrow>
          Some (rc,
            if ur_prefix_search pPKey2 \<and> i = length (ur_aMem pPKey2) - 1
            then pPKey2\<lparr>ur_prefix_search := False, ur_rowid := (case m1 of MInt v \<Rightarrow> v | _ \<Rightarrow> ur_rowid pPKey2)\<rparr>
            else pPKey2)
      | Inr idx \<Rightarrow>
          Some (if ur_incrkey pPKey2 then -1 else if ur_prefix_match pPKey2 then 0
                else if idx < unat szHdr1 then 1 else 0, pPKey2)) }"

text \<open>\<open>sqlite3VdbeIdxRowid\<close>, after the content \<open>m\<close> of the index entry has been read.\<close>

definition sqlite3VdbeIdxRowid :: "u8 list \<Rightarrow> (rc + i64) option" where
  "sqlite3VdbeIdxRowid m = do {
     (_, szHdr) \<leftarrow> sqlite3GetVarint32 m;
     if unat szHdr < 3 \<or> sint szHdr > int (length m) then Some (Inl SQLITE_CORRUPT)
     else do {
       (_, typeRowid) \<leftarrow> sqlite3GetVarint32 (drop (unat szHdr - 1) m);
       let t = unat typeRowid;
       if t < 1 \<or> t > 9 \<or> t = 7 then Some (Inl SQLITE_CORRUPT)
       else do {
         let lenRowid = sqlite3VdbeSerialTypeLen t;
         if of_nat (length m) < szHdr + of_nat lenRowid then Some (Inl SQLITE_CORRUPT)
         else do {
           (v, _) \<leftarrow> sqlite3VdbeSerialGet (drop (length m - lenRowid) m) t;
           (case v of MInt i \<Rightarrow> Some (Inr i) | _ \<Rightarrow> None) } } } }"

section \<open>One value written and read back\<close>

text \<open>A stored value: a blob has its zero bytes, and a NaN has become NULL.\<close>

definition stored :: "mem \<Rightarrow> mem" where
  "stored v = (case v of
     MReal r \<Rightarrow> if sqlite3IsNaN r then MNull else v
   | MBlob z nZero \<Rightarrow> MBlob (z @ replicate nZero 0) 0
   | _ \<Rightarrow> v)"

definition field_len :: "nat \<Rightarrow> mem \<Rightarrow> nat" where
  "field_len file_format v = sqlite3VdbeSerialTypeLen (sqlite3VdbeSerialType v file_format)"

lemma sign_bits:
  assumes "- (2 ^ m) \<le> sint (w::u64)" and "sint w < 2 ^ m" and "m < n" and "n < 64"
  shows "bit w n = bit w m"
proof -
  have "signed_take_bit m (sint w) = sint w"
    using assms(1,2) by (rule signed_take_bit_int_eq_self)
  then have "bit (sint w) n = bit (sint w) (min m n)"
    by (metis bit_signed_take_bit_iff bit_imp_possible_bit possible_bit_def order.strict_implies_order possible_bit_int)
  then show ?thesis
    using assms(3,4) by (simp add: bit_sint_iff min_def)
qed

lemma put_be_length [simp]: "length (put_be n v acc) = n + length acc"
  by (induction n arbitrary: v acc) auto

lemma put_be_numeral: "put_be (numeral k) v acc =
    put_be (pred_numeral k) (drop_bit 8 v) (ucast (v AND 0xff) # acc)"
  by (simp add: numeral_eq_Suc)

lemma put_be_1: "put_be 1 v acc = ucast (v AND 0xff) # acc"
  by (subst One_nat_def) (simp only: put_be.simps)

lemmas serial_unfold = put_be_numeral put_be_1 sqlite3VdbeSerialGet_def be32_def

lemma get_put_1:
  assumes "- (2 ^ 7) \<le> sint w" and "sint w < 2 ^ 7"
  shows "sqlite3VdbeSerialGet (put_be 1 w [] @ rest) 1 = Some (MInt w, 1)"
proof -
  note s = sign_bits [OF assms]
  have "scast (ucast (w AND 0xff) :: u8) = w"
    by (rule u64_eqI) (simp add: s bit_simps bitblast)
  then show ?thesis by (simp add: serial_unfold)
qed

lemma get_put_2:
  assumes "- (2 ^ 15) \<le> sint w" and "sint w < 2 ^ 15"
  shows "sqlite3VdbeSerialGet (put_be 2 w [] @ rest) 2 = Some (MInt w, 2)"
proof -
  note s = sign_bits [OF assms]
  have "scast (push_bit 8 (scast (ucast (drop_bit 8 w AND 0xff) :: u8)) OR ucast (ucast (w AND 0xff) :: u8) :: u32) = w"
    by (rule u64_eqI) (simp add: s bit_simps bitblast)
  then show ?thesis by (simp add: serial_unfold)
qed

lemma get_put_3:
  assumes "- (2 ^ 23) \<le> sint w" and "sint w < 2 ^ 23"
  shows "sqlite3VdbeSerialGet (put_be 3 w [] @ rest) 3 = Some (MInt w, 3)"
proof -
  note s = sign_bits [OF assms]
  have "scast (push_bit 16 (scast (ucast (drop_bit 16 w AND 0xff) :: u8)) OR
      push_bit 8 (ucast (ucast (drop_bit 8 w AND 0xff) :: u8)) OR ucast (ucast (w AND 0xff) :: u8) :: u32) = w"
    by (rule u64_eqI) (simp add: s bit_simps bitblast)
  then show ?thesis by (simp add: serial_unfold)
qed

lemma be32_bytes:
  "be32 (ucast (drop_bit 24 w AND 0xff)) (ucast (drop_bit 16 w AND 0xff))
     (ucast (drop_bit 8 w AND 0xff)) (ucast (w AND 0xff)) = ucast (w::u64)"
  by (rule u32_eqI) (simp add: be32_def bit_simps bitblast)

lemma get_put_4:
  assumes "- (2 ^ 31) \<le> sint w" and "sint w < 2 ^ 31"
  shows "sqlite3VdbeSerialGet (put_be 4 w [] @ rest) 4 = Some (MInt w, 4)"
proof -
  note s = sign_bits [OF assms]
  have "scast (ucast w :: u32) = w"
    by (rule u64_eqI) (simp add: s bit_simps bitblast)
  then show ?thesis
    by (simp add: put_be_numeral put_be_1 sqlite3VdbeSerialGet_def be32_bytes)
qed

lemma get_put_6byte:
  assumes "- (2 ^ 47) \<le> sint w" and "sint w < 2 ^ 47"
  shows "sqlite3VdbeSerialGet (put_be 6 w [] @ rest) 5 = Some (MInt w, 6)"
proof -
  note s = sign_bits [OF assms]
  have "push_bit 32 (scast (push_bit 8 (scast (ucast (drop_bit 40 w AND 0xff) :: u8)) OR
      ucast (ucast (drop_bit 32 w AND 0xff) :: u8) :: u32)) OR ucast (ucast w :: u32) = w"
    by (rule u64_eqI) (simp add: s bit_simps bitblast)
  then show ?thesis
    by (simp add: put_be_numeral put_be_1 sqlite3VdbeSerialGet_def be32_bytes)
qed

lemma get_put_8byte:
  "sqlite3VdbeSerialGet (put_be 8 w [] @ rest) 6 = Some (MInt w, 8)"
  "sqlite3VdbeSerialGet (put_be 8 w [] @ rest) 7 = Some (if sqlite3IsNaN w then MNull else MReal w, 8)"
proof -
  have "push_bit 32 (scast (ucast (drop_bit 32 w) :: u32)) OR ucast (ucast w :: u32) = w"
    by (rule u64_eqI) (simp add: bit_simps bitblast)
  moreover have "be32 (ucast (drop_bit 56 w AND 0xff)) (ucast (drop_bit 48 w AND 0xff))
      (ucast (drop_bit 40 w AND 0xff)) (ucast (drop_bit 32 w AND 0xff)) = ucast (drop_bit 32 w)"
    using be32_bytes [of "drop_bit 32 w"] by simp
  ultimately show "sqlite3VdbeSerialGet (put_be 8 w [] @ rest) 6 = Some (MInt w, 8)"
    and "sqlite3VdbeSerialGet (put_be 8 w [] @ rest) 7 = Some (if sqlite3IsNaN w then MNull else MReal w, 8)"
    by (simp_all add: put_be_numeral put_be_1 sqlite3VdbeSerialGet_def be32_bytes)
qed

lemma and_1_eq: "(w::u64) AND 1 = w \<longleftrightarrow> w = 0 \<or> w = 1"
proof
  assume "w AND 1 = w"
  then show "w = 0 \<or> w = 1"
    by (cases "odd w") (simp_all add: and_one_eq mod_2_eq_odd)
qed auto

lemma integer_serial_type:
  assumes "sqlite3VdbeSerialType (MInt w) ff = t"
  shows "t = 8 \<and> w = 0 \<or> t = 9 \<and> w = 1
    \<or> t = 1 \<and> - (2 ^ 7) \<le> sint w \<and> sint w < 2 ^ 7
    \<or> t = 2 \<and> - (2 ^ 15) \<le> sint w \<and> sint w < 2 ^ 15
    \<or> t = 3 \<and> - (2 ^ 23) \<le> sint w \<and> sint w < 2 ^ 23
    \<or> t = 4 \<and> - (2 ^ 31) \<le> sint w \<and> sint w < 2 ^ 31
    \<or> t = 5 \<and> - (2 ^ 47) \<le> sint w \<and> sint w < 2 ^ 47
    \<or> t = 6"
proof -
  define i where "i = sint w"
  have t: "t = (if i < - (2 ^ 47 - 1) then 6
      else if \<bar>i\<bar> \<le> 127 then (if (w = 0 \<or> w = 1) \<and> ff \<ge> 4 then 8 + nat \<bar>i\<bar> else 1)
      else if \<bar>i\<bar> \<le> 32767 then 2 else if \<bar>i\<bar> \<le> 8388607 then 3 else if \<bar>i\<bar> \<le> 2147483647 then 4
      else if \<bar>i\<bar> \<le> 2 ^ 47 - 1 then 5 else 6)"
    unfolding assms [symmetric] sqlite3VdbeSerialType_def mem.case Let_def and_1_eq i_def [symmetric]
    by (simp add: MAX_6BYTE_def abs_if)
  consider "t = 6" | "(w = 0 \<or> w = 1) \<and> t = 8 + nat \<bar>i\<bar>" | "\<bar>i\<bar> \<le> 127 \<and> t = 1" | "\<bar>i\<bar> \<le> 32767 \<and> t = 2"
    | "\<bar>i\<bar> \<le> 8388607 \<and> t = 3" | "\<bar>i\<bar> \<le> 2147483647 \<and> t = 4" | "\<bar>i\<bar> \<le> 2 ^ 47 - 1 \<and> t = 5"
    using t by presburger
  then show ?thesis
    by cases (auto simp: i_def)
qed

lemmas TypeLen_defs = sqlite3VdbeSerialTypeLen_def aSize_def

lemma TypeLen_simps [simp]:
  "sqlite3VdbeSerialTypeLen 0 = 0" "sqlite3VdbeSerialTypeLen 1 = 1" "sqlite3VdbeSerialTypeLen (Suc 0) = 1"
  "sqlite3VdbeSerialTypeLen 2 = 2" "sqlite3VdbeSerialTypeLen 3 = 3" "sqlite3VdbeSerialTypeLen 4 = 4"
  "sqlite3VdbeSerialTypeLen 5 = 6" "sqlite3VdbeSerialTypeLen 6 = 8" "sqlite3VdbeSerialTypeLen 7 = 8"
  "sqlite3VdbeSerialTypeLen 8 = 0" "sqlite3VdbeSerialTypeLen 9 = 0"
  "sqlite3VdbeSerialTypeLen (n * 2 + 12) = n" "sqlite3VdbeSerialTypeLen (Suc (n * 2 + 12)) = n"
  by (simp_all add: TypeLen_defs nth_Cons' )

lemma Put_integer:
  assumes "sqlite3VdbeSerialType (MInt w) ff = t" and "sqlite3VdbeSerialTypeLen t \<le> n"
  shows "sqlite3VdbeSerialPut n (MInt w) ff = Some (if t \<le> 7 then put_be (sqlite3VdbeSerialTypeLen t) w [] else [])"
proof -
  have "1 \<le> t \<and> t \<le> 9" using integer_serial_type [OF assms(1)] by auto
  then show ?thesis using assms by (auto simp: sqlite3VdbeSerialPut_def Let_def)
qed

lemma Get_constant: "sqlite3VdbeSerialGet buf 8 = Some (MInt 0, 0)" "sqlite3VdbeSerialGet buf 9 = Some (MInt 1, 0)"
  by (simp_all add: sqlite3VdbeSerialGet_def)

lemma get_put_integer:
  assumes "sqlite3VdbeSerialType (MInt w) ff = t"
  shows "sqlite3VdbeSerialGet ((if t \<le> 7 then put_be (sqlite3VdbeSerialTypeLen t) w [] else []) @ rest) t
    = Some (MInt w, sqlite3VdbeSerialTypeLen t)"
  using integer_serial_type [OF assms]
  by (elim disjE conjE)
    (simp_all add: Get_constant get_put_1 get_put_2 get_put_3 get_put_4 get_put_6byte get_put_8byte
      del: One_nat_def append.simps put_be.simps)

lemma serial_value:
  assumes "field_len ff v \<le> n"
  shows "\<exists>b. sqlite3VdbeSerialPut n v ff = Some b \<and> length b = field_len ff v \<and>
    (\<forall>rest. sqlite3VdbeSerialGet (b @ rest) (sqlite3VdbeSerialType v ff) = Some (stored v, field_len ff v))"
proof (cases v)
  case (MInt w)
  define t where "t = sqlite3VdbeSerialType (MInt w) ff"
  have 1: "sqlite3VdbeSerialPut n (MInt w) ff = Some (if t \<le> 7 then put_be (sqlite3VdbeSerialTypeLen t) w [] else [])"
    using assms MInt by (intro Put_integer) (simp_all add: t_def field_len_def)
  have 2: "length (if t \<le> 7 then put_be (sqlite3VdbeSerialTypeLen t) w [] else []) = sqlite3VdbeSerialTypeLen t"
    using integer_serial_type [OF t_def [symmetric]] by auto
  show ?thesis
    using 1 2 get_put_integer [OF t_def [symmetric]]
    by (simp add: MInt field_len_def t_def [symmetric] stored_def)
next
  case (MReal r)
  then show ?thesis
    using assms get_put_8byte(2) [of r]
    by (simp add: field_len_def sqlite3VdbeSerialPut_def sqlite3VdbeSerialType_def stored_def Let_def)
next
  case (MStr z)
  have "sqlite3VdbeSerialType v ff = Suc (length z * 2 + 12)"
    by (simp add: MStr sqlite3VdbeSerialType_def)
  moreover from this have "field_len ff v = length z"
    by (simp only: field_len_def TypeLen_simps)
  ultimately show ?thesis using assms
    by (simp add: MStr sqlite3VdbeSerialPut_def stored_def sqlite3VdbeSerialGet_def rdn_def Let_def)
next
  case (MBlob z nZero)
  have "sqlite3VdbeSerialType v ff = (length z + nZero) * 2 + 12"
    by (simp add: MBlob sqlite3VdbeSerialType_def)
  moreover from this have "field_len ff v = length z + nZero"
    by (simp only: field_len_def TypeLen_simps)
  ultimately show ?thesis using assms
    by (simp add: MBlob sqlite3VdbeSerialPut_def stored_def sqlite3VdbeSerialGet_def rdn_def Let_def)
qed (simp add: field_len_def sqlite3VdbeSerialPut_def sqlite3VdbeSerialType_def stored_def
      sqlite3VdbeSerialGet_def)

section \<open>Making a record\<close>

definition content :: "nat \<Rightarrow> mem \<Rightarrow> u8 list" where
  "content ff v = the (sqlite3VdbeSerialPut (field_len ff v) v ff)"

definition pure_zero :: "mem \<Rightarrow> bool" where
  "pure_zero v = (case v of MBlob z nZero \<Rightarrow> nZero > 0 \<and> z = [] | _ \<Rightarrow> False)"

definition no_prefix :: "mem \<Rightarrow> bool" where
  "no_prefix v = (case v of MBlob z nZero \<Rightarrow> nZero = 0 \<or> z = [] | _ \<Rightarrow> True)"

lemma expand_prefixed_same [simp]:
  "stored (expand_prefixed v) = stored v"
  "sqlite3VdbeSerialType (expand_prefixed v) ff = sqlite3VdbeSerialType v ff"
  "field_len ff (expand_prefixed v) = field_len ff v"
  "no_prefix (expand_prefixed v)"
  by (auto simp: expand_prefixed_def stored_def field_len_def sqlite3VdbeSerialType_def no_prefix_def split: mem.splits)

lemma content_len [simp]: "length (content ff v) = field_len ff v"
  using serial_value [of ff v "field_len ff v"] by (auto simp: content_def)

lemma Get_content:
  "sqlite3VdbeSerialGet (content ff v @ rest) (sqlite3VdbeSerialType v ff) = Some (stored v, field_len ff v)"
  using serial_value [of ff v "field_len ff v"] by (auto simp: content_def)

lemma pure_zero_content: "pure_zero v \<Longrightarrow> content ff v = replicate (field_len ff v) 0"
  by (auto simp: pure_zero_def content_def sqlite3VdbeSerialPut_def sqlite3VdbeSerialType_def field_len_def
      sqlite3VdbeSerialTypeLen_def Let_def split: mem.splits)

lemma Put_content: "field_len ff v \<le> n \<Longrightarrow> sqlite3VdbeSerialPut n v ff = Some (content ff v)"
proof (cases v)
  case (MInt w)
  assume "field_len ff v \<le> n"
  then show ?thesis
    unfolding MInt content_def field_len_def
    using Put_integer [OF refl, of w ff n] Put_integer [OF refl, of w ff] by simp
next
  case (MStr z)
  assume "field_len ff v \<le> n"
  moreover have "sqlite3VdbeSerialType v ff = Suc (length z * 2 + 12)"
    by (simp add: MStr sqlite3VdbeSerialType_def)
  moreover from this have "field_len ff v = length z" by (simp only: field_len_def TypeLen_simps)
  ultimately show ?thesis by (simp add: content_def MStr sqlite3VdbeSerialPut_def Let_def)
next
  case (MBlob z nZero)
  assume "field_len ff v \<le> n"
  moreover have "sqlite3VdbeSerialType v ff = (length z + nZero) * 2 + 12"
    by (simp add: MBlob sqlite3VdbeSerialType_def)
  moreover from this have "field_len ff v = length z + nZero" by (simp only: field_len_def TypeLen_simps)
  ultimately show ?thesis by (simp add: content_def MBlob sqlite3VdbeSerialPut_def Let_def)
qed (simp_all add: content_def field_len_def sqlite3VdbeSerialPut_def sqlite3VdbeSerialType_def Let_def)

lemma Put_pure_zero_0: "pure_zero v \<Longrightarrow> sqlite3VdbeSerialPut 0 v ff = Some []"
  by (auto simp: pure_zero_def sqlite3VdbeSerialPut_def sqlite3VdbeSerialType_def split: mem.splits)

text \<open>The zero bytes at the end of the record, and the fields that may be in them.\<close>

fun tail_zero :: "nat \<Rightarrow> nat \<Rightarrow> mem list \<Rightarrow> nat" where
  "tail_zero ff z [] = z"
| "tail_zero ff z (v # vs) =
     tail_zero ff (if pure_zero v then z + field_len ff v else if field_len ff v \<noteq> 0 then 0 else z) vs"

definition skippable :: "nat \<Rightarrow> mem \<Rightarrow> bool" where
  "skippable ff v \<longleftrightarrow> pure_zero v \<or> field_len ff v = 0"

definition data_len :: "nat \<Rightarrow> mem list \<Rightarrow> nat" where
  "data_len ff vs = sum_list (map (field_len ff) vs)"

definition type_word :: "nat \<Rightarrow> mem \<Rightarrow> u32" where
  "type_word ff v = of_nat (sqlite3VdbeSerialType v ff)"

definition types_len :: "nat \<Rightarrow> mem list \<Rightarrow> nat" where
  "types_len ff vs = sum_list (map (\<lambda>v. sqlite3VarintLen (of_nat (sqlite3VdbeSerialType v ff))) vs)"

lemma data_len_simps [simp]:
  "data_len ff [] = 0" "data_len ff (v # vs) = field_len ff v + data_len ff vs"
  by (simp_all add: data_len_def)

lemma types_len_simps [simp]:
  "types_len ff [] = 0"
  "types_len ff (v # vs) = sqlite3VarintLen (of_nat (sqlite3VdbeSerialType v ff)) + types_len ff vs"
  by (simp_all add: types_len_def)

lemma make_sizes_eq:
  assumes "\<forall>v\<in>set vs. no_prefix v"
  shows "make_sizes ff vs (d, h, z) = (d + data_len ff vs, h + types_len ff vs, tail_zero ff z vs)"
  using assms
proof (induction vs arbitrary: d h z)
  case (Cons v vs)
  have "(case v of MBlob x (Suc n) \<Rightarrow> z + Suc n | _ \<Rightarrow> if field_len ff v \<noteq> 0 then 0 else z)
      = (if pure_zero v then z + field_len ff v else if field_len ff v \<noteq> 0 then 0 else z)"
    using Cons.prems
    by (auto simp: pure_zero_def no_prefix_def field_len_def sqlite3VdbeSerialType_def sqlite3VdbeSerialTypeLen_def
        split: mem.splits nat.splits)
  then show ?case
    using Cons by (simp only: make_sizes.simps Let_def field_len_def [symmetric]) (simp add: tail_zero.simps)
qed simp

lemma contents_len: "length (concat (map (content ff) vs)) = data_len ff vs"
  by (induction vs) auto

lemma tail_zero_skippable: "\<forall>v\<in>set vs. skippable ff v \<Longrightarrow> tail_zero ff z vs = z + data_len ff vs"
  by (induction vs arbitrary: z) (auto simp: skippable_def)

lemma tail_zero_reset: "\<exists>v\<in>set vs. \<not> skippable ff v \<Longrightarrow> tail_zero ff z vs = tail_zero ff 0 vs"
proof (induction vs arbitrary: z)
  case (Cons v vs)
  show ?case
  proof (cases "\<exists>v\<in>set vs. \<not> skippable ff v")
    case True
    then show ?thesis using Cons.IH by (metis tail_zero.simps(2))
  next
    case False
    then show ?thesis using Cons.prems by (auto simp: skippable_def)
  qed
qed simp

lemma tail_zero_bound: "tail_zero ff z vs \<le> z + data_len ff vs"
proof (induction vs arbitrary: z)
  case (Cons v vs)
  show ?case using Cons [of "z + field_len ff v"] Cons [of 0] Cons [of z] by auto
qed simp

lemma make_data_content:
  assumes "\<forall>v\<in>set vs. no_prefix v"
  shows "\<exists>b. make_data ff (data_len ff vs - tail_zero ff 0 vs) vs = Some b \<and>
    b @ replicate (tail_zero ff 0 vs) 0 = concat (map (content ff) vs)"
  using assms
proof (induction vs)
  case (Cons v vs)
  then obtain b where b: "make_data ff (data_len ff vs - tail_zero ff 0 vs) vs = Some b"
    "b @ replicate (tail_zero ff 0 vs) 0 = concat (map (content ff) vs)" by auto
  show ?case
  proof (cases "\<forall>w\<in>set vs. skippable ff w")
    case True
    note tz = tail_zero_skippable [OF True]
    have "length b + data_len ff vs = data_len ff vs"
      using arg_cong [OF b(2), of length] tz [of 0] unfolding contents_len by simp
    with b tz have b0: "make_data ff 0 vs = Some b" "b = []" by simp_all
    show ?thesis
    proof (cases "pure_zero v")
      case pz: True
      then show ?thesis using b b0 tz
        by (simp add: Put_pure_zero_0 pure_zero_content replicate_add)
    next
      case False
      then have "tail_zero ff 0 (v # vs) = data_len ff vs" using tz by simp
      then show ?thesis using b b0 tz by (simp add: Put_content)
    qed
  next
    case False
    then have "tail_zero ff 0 (v # vs) = tail_zero ff 0 vs"
      using tail_zero_reset [of vs ff] by (metis tail_zero.simps(2))
    moreover have "tail_zero ff 0 vs \<le> data_len ff vs" using tail_zero_bound [of ff 0 vs] by simp
    ultimately show ?thesis using b by (simp add: Put_content)
  qed
qed simp

lemma varint_len_loop_gt: "varint_len_loop i v > i"
proof (induction i v rule: varint_len_loop.induct)
  case (1 i v)
  show ?case using 1 [OF refl refl] by (subst varint_len_loop.simps) (auto simp: Let_def)
qed

lemma varint_len_loop_le:
  "i < k \<Longrightarrow> k \<le> 8 \<Longrightarrow> varint_len_loop i v \<le> k \<longleftrightarrow> drop_bit (7 * (k - i)) v = 0"
proof (induction i v rule: varint_len_loop.induct)
  case (1 i v)
  have d: "drop_bit (7 * (k - i)) v = drop_bit (7 * (k - Suc i)) (drop_bit 7 v)"
    using 1(2) by (simp add: drop_bit_drop_bit Suc_diff_Suc [symmetric] add.commute)
  have g: "varint_len_loop (Suc i) (drop_bit 7 v) > Suc i" by (rule varint_len_loop_gt)
  show ?case
  proof (cases "drop_bit 7 v \<noteq> 0 \<and> Suc i < 9")
    case True
    show ?thesis
    proof (cases "Suc i < k")
      case sk: True
      show ?thesis using 1(1) [OF refl refl True sk 1(3)] True d
        by (subst varint_len_loop.simps) (simp add: Let_def)
    next
      case False
      then have "k = Suc i" using 1(2) by simp
      then show ?thesis using True d g
        by (subst varint_len_loop.simps) (simp add: Let_def)
    qed
  next
    case False
    then show ?thesis using 1(2,3) d
      by (subst varint_len_loop.simps) (simp add: Let_def)
  qed
qed


lemma VarintLen_le:
  assumes "1 \<le> k" and "k \<le> 8" and "n < 2 ^ 64"
  shows "sqlite3VarintLen (of_nat n) \<le> k \<longleftrightarrow> n < 2 ^ (7 * k)"
proof -
  have "drop_bit (7 * k) (of_nat n :: u64) = 0 \<longleftrightarrow> unat (drop_bit (7 * k) (of_nat n :: u64)) = 0"
    by (simp only: unat_eq_0)
  also have "\<dots> \<longleftrightarrow> n div 2 ^ (7 * k) = 0"
    using assms(3) unfolding unat_drop_bit_eq by (simp add: drop_bit_eq_div unat_of_nat)
  finally show ?thesis
    using varint_len_loop_le [of 0 k "of_nat n"] assms by (simp add: sqlite3VarintLen_def div_eq_0_iff)
qed

lemma VarintLen_bounds: "1 \<le> sqlite3VarintLen v" "sqlite3VarintLen v \<le> 9"
  using PutVarint_length [of v] by (simp_all add: VarintLen_PutVarint)

text \<open>The size of the header includes the varint that states it, which the code gets right in two steps.\<close>

lemma header_size:
  assumes "h + 10 < 2 ^ 32"
  defines "n \<equiv> sqlite3VarintLen (of_nat h)"
  defines "N \<equiv> (if n < sqlite3VarintLen (of_nat (h + n)) then h + n + 1 else h + n)"
  shows "N = h + sqlite3VarintLen (of_nat N)" and "N < 2 ^ 32"
proof -
  have n: "1 \<le> n" using VarintLen_bounds by (simp add: n_def)
  have n5: "n \<le> 5" using assms(1) VarintLen_le [of 5 h] by (simp add: n_def)
  have hn: "h < 2 ^ (7 * n)" using VarintLen_le [of n h] n n5 assms(1) by (simp add: n_def)
  have mono: "n \<le> sqlite3VarintLen (of_nat (h + n))"
  proof (cases "n = 1")
    case False
    with n n5 have k: "1 \<le> n - 1" "n - 1 \<le> 8" "\<not> n \<le> n - 1" by linarith+
    have "\<not> h < 2 ^ (7 * (n - 1))"
      using VarintLen_le [of "n - 1" h] k assms(1) by (simp add: n_def [symmetric])
    then have "\<not> sqlite3VarintLen (of_nat (h + n)) \<le> n - 1"
      using VarintLen_le [of "n - 1" "h + n"] k n5 assms(1) by simp
    then show ?thesis by linarith
  qed (use VarintLen_bounds(1) [of "of_nat (h + n)"] in linarith)
  show "N < 2 ^ 32" using assms(1) n5 by (simp add: N_def)
  have le: "h + n + 1 < 2 ^ (7 * Suc n)"
  proof -
    have "n + 1 < 2 ^ (7 * n) * 127" using n5 n less_exp [of "7 * n"] by linarith
    then show ?thesis using hn by (simp add: power_add)
  qed
  show "N = h + sqlite3VarintLen (of_nat N)"
  proof (cases "n < sqlite3VarintLen (of_nat (h + n))")
    case True
    then have "\<not> h + n < 2 ^ (7 * n)" using VarintLen_le [of n "h + n"] n n5 assms(1) by simp
    then have "\<not> sqlite3VarintLen (of_nat (h + n + 1)) \<le> n"
      using VarintLen_le [of n "h + n + 1"] n n5 assms(1) by simp
    moreover have "sqlite3VarintLen (of_nat (h + n + 1)) \<le> Suc n"
      using VarintLen_le [of "Suc n" "h + n + 1"] le n5 assms(1) by simp
    ultimately show ?thesis using True by (simp add: N_def)
  next
    case False
    then show ?thesis using mono by (simp add: N_def)
  qed
qed

section \<open>The bytes of a record\<close>

definition header_len :: "nat \<Rightarrow> mem list \<Rightarrow> nat" where
  "header_len ff vs =
     (let h = types_len ff vs; n = sqlite3VarintLen (of_nat h)
      in if n < sqlite3VarintLen (of_nat (h + n)) then h + n + 1 else h + n)"

definition types_bytes :: "nat \<Rightarrow> mem list \<Rightarrow> u8 list" where
  "types_bytes ff vs = concat (map (\<lambda>v. sqlite3PutVarint32 (of_nat (sqlite3VdbeSerialType v ff))) vs)"

definition data_bytes :: "nat \<Rightarrow> mem list \<Rightarrow> u8 list" where
  "data_bytes ff vs = concat (map (content ff) vs)"

definition record_bytes :: "nat \<Rightarrow> mem list \<Rightarrow> u8 list" where
  "record_bytes ff vs =
     sqlite3PutVarint32 (of_nat (header_len ff vs)) @ types_bytes ff vs @ data_bytes ff vs"

text \<open>Fields and numbers of fields within the limits of SQLite (a length is at most \<open>2^30\<close>, there are at most
  32767 columns).\<close>

definition fields_ok :: "nat \<Rightarrow> mem list \<Rightarrow> bool" where
  "fields_ok ff vs \<longleftrightarrow> (\<forall>v\<in>set vs. field_len ff v < 2 ^ 30) \<and> length vs < 2 ^ 16"

lemma sint_of_nat_u32: "n < 2 ^ 31 \<Longrightarrow> sint (of_nat n :: u32) = int n"
  by (simp add: sint_uint signed_take_bit_int_eq_self uint_nat unat_of_nat)

lemma unat_of_nat32: "n < 2 ^ 32 \<Longrightarrow> unat (of_nat n :: u32) = n"
  by (simp add: unat_of_nat)

lemma ucast_of_nat_u32: "n < 2 ^ 32 \<Longrightarrow> ucast (of_nat n :: u32) = (of_nat n :: u64)"
  by (simp add: word_unat_eq_iff unsigned_ucast_eq unat_of_nat take_bit_nat_eq_self)

lemma Put32_len: "n < 2 ^ 32 \<Longrightarrow> length (sqlite3PutVarint32 (of_nat n)) = sqlite3VarintLen (of_nat n)"
  by (simp add: PutVarint32_eq ucast_of_nat_u32 VarintLen_PutVarint)

lemma Get32_Put32:
  "sqlite3GetVarint32 (sqlite3PutVarint32 v @ rest) = Some (length (sqlite3PutVarint32 v), v)"
  by (rule varint32.get_put)

lemma serial_type_bound: "field_len ff v < 2 ^ 30 \<Longrightarrow> sqlite3VdbeSerialType v ff < 2 ^ 32"
proof (cases v)
  case (MInt w)
  then show ?thesis using integer_serial_type [OF refl, of w ff] by auto
qed (auto simp: field_len_def sqlite3VdbeSerialType_def sqlite3VdbeSerialTypeLen_def)

lemma expand_content: "content ff (expand_prefixed v) = content ff v"
proof (cases v)
  case (MBlob z nZero)
  have "sqlite3VdbeSerialType v ff = (length z + nZero) * 2 + 12" by (simp add: MBlob sqlite3VdbeSerialType_def)
  moreover from this have "field_len ff v = length z + nZero" by (simp only: field_len_def TypeLen_simps)
  ultimately show ?thesis
    unfolding content_def expand_prefixed_same sqlite3VdbeSerialPut_def
    by (simp add: MBlob expand_prefixed_def Let_def)
qed (simp_all add: expand_prefixed_def)

lemma map_expand [simp]:
  "types_len ff (map expand_prefixed vs) = types_len ff vs"
  "data_len ff (map expand_prefixed vs) = data_len ff vs"
  "types_bytes ff (map expand_prefixed vs) = types_bytes ff vs"
  "data_bytes ff (map expand_prefixed vs) = data_bytes ff vs"
  "header_len ff (map expand_prefixed vs) = header_len ff vs"
proof -
  show "types_len ff (map expand_prefixed vs) = types_len ff vs" by (simp add: types_len_def comp_def)
  then show "header_len ff (map expand_prefixed vs) = header_len ff vs" by (simp add: header_len_def)
  show "data_len ff (map expand_prefixed vs) = data_len ff vs" by (simp add: data_len_def comp_def)
  show "types_bytes ff (map expand_prefixed vs) = types_bytes ff vs" by (simp add: types_bytes_def comp_def)
  show "data_bytes ff (map expand_prefixed vs) = data_bytes ff vs" by (simp add: data_bytes_def comp_def expand_content)
qed

lemma types_bytes_len:
  "\<forall>v\<in>set vs. field_len ff v < 2 ^ 30 \<Longrightarrow> length (types_bytes ff vs) = types_len ff vs"
  by (induction vs) (auto simp: types_bytes_def Put32_len serial_type_bound simp del: power_numeral)

lemma types_len_bound: "types_len ff vs \<le> 9 * length vs"
  using VarintLen_bounds(2) by (induction vs) (auto intro: add_mono)

lemma header_len_eq:
  assumes "fields_ok ff vs"
  shows "header_len ff vs = types_len ff vs + sqlite3VarintLen (of_nat (header_len ff vs))"
    and "header_len ff vs < 2 ^ 20"
proof -
  have h: "types_len ff vs \<le> 9 * 2 ^ 16"
    using types_len_bound [of ff vs] assms by (simp add: fields_ok_def)
  then have "types_len ff vs + 10 < 2 ^ 32" by simp
  from header_size [OF this]
  show eq: "header_len ff vs = types_len ff vs + sqlite3VarintLen (of_nat (header_len ff vs))"
    by (simp add: header_len_def Let_def)
  show "header_len ff vs < 2 ^ 20"
    using h VarintLen_bounds(2) [of "of_nat (header_len ff vs)"] eq by simp
qed

lemma header_bytes_len:
  assumes "fields_ok ff vs"
  shows "length (sqlite3PutVarint32 (of_nat (header_len ff vs)) @ types_bytes ff vs) = header_len ff vs"
proof -
  have "length (sqlite3PutVarint32 (of_nat (header_len ff vs))) = sqlite3VarintLen (of_nat (header_len ff vs))"
    using header_len_eq(2) [OF assms] by (intro Put32_len) simp
  then show ?thesis
    using types_bytes_len [of vs ff] header_len_eq(1) [OF assms] assms by (simp add: fields_ok_def)
qed

lemma make_header_bytes: "make_header ff vs = types_bytes ff vs"
  by (induction vs) (simp_all add: types_bytes_def)

definition zero_tail :: "nat \<Rightarrow> mem list \<Rightarrow> nat" where
  "zero_tail ff vs = tail_zero ff 0 (map expand_prefixed vs)"

lemma make_record:
  assumes "fields_ok ff vs"
  shows "\<exists>b. b @ replicate (zero_tail ff vs) 0 = record_bytes ff vs \<and>
    OP_MakeRecord ff limit mem_ok vs =
      Some (if length b > limit then Too_Big else if \<not> mem_ok then No_Mem else Record b (zero_tail ff vs))"
proof -
  define h where "h = sqlite3PutVarint32 (of_nat (header_len ff vs)) @ types_bytes ff vs"
  have h: "length h = header_len ff vs" using header_bytes_len [OF assms] by (simp add: h_def)
  obtain b where b: "make_data ff (data_len ff vs - zero_tail ff vs) (map expand_prefixed vs) = Some b"
    "b @ replicate (zero_tail ff vs) 0 = data_bytes ff vs"
    using make_data_content [of "map expand_prefixed vs" ff]
    unfolding zero_tail_def map_expand data_bytes_def [symmetric] by auto
  have "zero_tail ff vs \<le> data_len ff vs"
    using tail_zero_bound [of ff 0 "map expand_prefixed vs"] by (simp add: zero_tail_def)
  moreover have "length b + zero_tail ff vs = data_len ff vs"
    using arg_cong [OF b(2), of length] by (simp add: data_bytes_def contents_len del: length_concat)
  ultimately have n: "header_len ff vs + data_len ff vs - zero_tail ff vs = length (h @ b)"
    "length (h @ b) - length h = data_len ff vs - zero_tail ff vs"
    using h by simp_all
  have sizes: "make_sizes ff (map expand_prefixed vs) (0, 0, 0) = (data_len ff vs, types_len ff vs, zero_tail ff vs)"
    by (simp add: make_sizes_eq zero_tail_def)
  have "OP_MakeRecord ff limit mem_ok vs =
    (if header_len ff vs + data_len ff vs - zero_tail ff vs > limit then Some Too_Big
     else if \<not> mem_ok then Some No_Mem
     else do {
       b \<leftarrow> make_data ff (header_len ff vs + data_len ff vs - zero_tail ff vs - length h) (map expand_prefixed vs);
       Some (Record (h @ b) (zero_tail ff vs)) })"
    unfolding OP_MakeRecord_def Let_def sizes prod.case make_header_bytes map_expand h_def header_len_def
    by (simp only: )
  also have "\<dots> = Some (if length (h @ b) > limit then Too_Big else if \<not> mem_ok then No_Mem
      else Record (h @ b) (zero_tail ff vs))"
    unfolding n(1) unfolding n(2) b(1) by simp
  finally show ?thesis
    using b(2) by (intro exI [of _ "h @ b"]) (simp add: record_bytes_def h_def)
qed

lemma unpack_suffix:
  assumes "drop idx aKey = types_bytes ff vs @ rest" and "szHdr = idx + length (types_bytes ff vs)"
    and "drop d aKey = data_bytes ff vs" and "d \<le> length aKey" and "length aKey < 2 ^ 31"
    and "\<forall>v\<in>set vs. field_len ff v < 2 ^ 30"
  shows "unpack_loop aKey szHdr n idx (of_nat d) = Some (map stored (take n vs))"
  using assms(1-4,6)
proof (induction vs arbitrary: n idx d)
  case Nil
  then show ?case by (cases n) (simp_all add: types_bytes_def)
next
  case (Cons v vs)
  let ?t = "sqlite3VdbeSerialType v ff" and ?p = "sqlite3PutVarint32 (of_nat (sqlite3VdbeSerialType v ff))"
  show ?case
  proof (cases n)
    case (Suc n')
    have t: "unat (of_nat ?t :: u32) = ?t"
      using serial_type_bound Cons.prems(5) by (intro unat_of_nat32) simp
    have hd: "drop idx aKey = ?p @ types_bytes ff vs @ rest"
      and dd: "drop d aKey = content ff v @ data_bytes ff vs"
      using Cons.prems(1,3) by (simp_all add: types_bytes_def data_bytes_def)
    have lt: "idx < szHdr"
      using Cons.prems(2) varint32.put_length [of "of_nat ?t"] by (auto simp: types_bytes_def)
    have dl: "d + field_len ff v \<le> length aKey"
      using arg_cong [OF dd, of length] Cons.prems(4) by simp
    have dn: "sint (of_nat d :: u32) = int d"
      using Cons.prems(4) assms(5) by (intro sint_of_nat_u32) simp
    have IH: "unpack_loop aKey szHdr n' (idx + length ?p) (of_nat (d + field_len ff v)) = Some (map stored (take n' vs))"
    proof (rule Cons.IH)
      show "drop (idx + length ?p) aKey = types_bytes ff vs @ rest"
        unfolding drop_drop [symmetric, of "length ?p" idx] add.commute [of idx] hd by simp
      show "drop (d + field_len ff v) aKey = data_bytes ff vs"
        unfolding drop_drop [symmetric, of "field_len ff v" d] add.commute [of d] dd by simp
    qed (use Cons.prems(2,5) dl in \<open>simp_all add: types_bytes_def\<close>)
    show ?thesis
      using lt Cons.prems(4) IH
      by (simp add: Suc key_at_def dn hd dd Get32_Put32 t Get_content)
  qed simp
qed

lemma record_bytes_drop:
  assumes "fields_ok ff vs"
  shows "drop (length (sqlite3PutVarint32 (of_nat (header_len ff vs)))) (record_bytes ff vs)
      = types_bytes ff vs @ data_bytes ff vs"
    and "drop (header_len ff vs) (record_bytes ff vs) = data_bytes ff vs"
    and "header_len ff vs = length (sqlite3PutVarint32 (of_nat (header_len ff vs))) + length (types_bytes ff vs)"
    and "header_len ff vs \<le> length (record_bytes ff vs)"
    and "sqlite3GetVarint32 (record_bytes ff vs)
      = Some (length (sqlite3PutVarint32 (of_nat (header_len ff vs))), of_nat (header_len ff vs))"
    and "unat (of_nat (header_len ff vs) :: u32) = header_len ff vs"
proof -
  note h = header_bytes_len [OF assms]
  show "drop (length (sqlite3PutVarint32 (of_nat (header_len ff vs)))) (record_bytes ff vs)
      = types_bytes ff vs @ data_bytes ff vs"
    by (simp add: record_bytes_def)
  show "drop (header_len ff vs) (record_bytes ff vs) = data_bytes ff vs"
    using h unfolding record_bytes_def append_assoc [symmetric] by (metis append_eq_conv_conj)
  show "header_len ff vs = length (sqlite3PutVarint32 (of_nat (header_len ff vs))) + length (types_bytes ff vs)"
    using h by simp
  then show "header_len ff vs \<le> length (record_bytes ff vs)"
    by (simp add: record_bytes_def)
  show "sqlite3GetVarint32 (record_bytes ff vs)
      = Some (length (sqlite3PutVarint32 (of_nat (header_len ff vs))), of_nat (header_len ff vs))"
    unfolding record_bytes_def by (rule Get32_Put32)
  show "unat (of_nat (header_len ff vs) :: u32) = header_len ff vs"
    using header_len_eq(2) [OF assms] by (intro unat_of_nat32) simp
qed

lemma unpack_record:
  assumes "fields_ok ff vs" and "length (record_bytes ff vs) < 2 ^ 31"
  shows "sqlite3VdbeRecordUnpack n (record_bytes ff vs) = Some (map stored (take n vs))"
proof -
  note r = record_bytes_drop [OF assms(1)]
  have "unpack_loop (record_bytes ff vs) (header_len ff vs) n (length (sqlite3PutVarint32 (of_nat (header_len ff vs))))
      (of_nat (header_len ff vs)) = Some (map stored (take n vs))"
    using assms by (intro unpack_suffix [OF r(1) r(3) r(2) r(4)]) (auto simp: fields_ok_def)
  then show ?thesis
    by (simp add: sqlite3VdbeRecordUnpack_def r(5,6))
qed

section \<open>Comparing a record with a key\<close>

text \<open>The abstract comparison: field by field, the first difference decides. The result of a complete tie is
  \<open>None\<close>, with whether the first key has fields left.\<close>

fun fields_compare :: "key_info \<Rightarrow> nat \<Rightarrow> mem list \<Rightarrow> mem list \<Rightarrow> (int \<times> nat \<times> mem) option" where
  "fields_compare ki i (a # as) (b # bs) =
     (let rc = field_compare ki i a b in if rc \<noteq> 0 then Some (rc, i, a) else fields_compare ki (i + 1) as bs)"
| "fields_compare ki i _ _ = None"

lemma fields_compare_Nil [simp]: "fields_compare ki i as [] = None"
  by (cases as) auto

lemma compare_suffix:
  assumes "drop idx aKey = types_bytes ff vs @ rest" and "szHdr = idx + length (types_bytes ff vs)"
    and "drop d aKey = data_bytes ff vs" and "d \<le> length aKey" and "length aKey < 2 ^ 31"
    and "\<forall>v\<in>set vs. field_len ff v < 2 ^ 30"
  shows "\<exists>idx'. compare_loop ki aKey szHdr ms i idx (of_nat d) =
      Some (case fields_compare ki i (map stored vs) ms of Some r \<Rightarrow> Inl r | None \<Rightarrow> Inr idx') \<and>
    (idx' < szHdr \<longleftrightarrow> length ms < length vs)"
  using assms(1-4,6)
proof (induction vs arbitrary: ms i idx d)
  case Nil
  then show ?case by (cases ms) (simp_all add: types_bytes_def)
next
  case (Cons v vs)
  let ?t = "sqlite3VdbeSerialType v ff" and ?p = "sqlite3PutVarint32 (of_nat (sqlite3VdbeSerialType v ff))"
  have lt: "idx < szHdr"
    using Cons.prems(2) varint32.put_length [of "of_nat ?t"] by (auto simp: types_bytes_def)
  show ?case
  proof (cases ms)
    case (Cons m ms')
    have t: "unat (of_nat ?t :: u32) = ?t"
      using serial_type_bound Cons.prems(5) by (intro unat_of_nat32) simp
    have hd: "drop idx aKey = ?p @ types_bytes ff vs @ rest"
      and dd: "drop d aKey = content ff v @ data_bytes ff vs"
      using Cons.prems(1,3) by (simp_all add: types_bytes_def data_bytes_def)
    have dl: "d + field_len ff v \<le> length aKey"
      using arg_cong [OF dd, of length] Cons.prems(4) by simp
    then have nb: "\<not> (int (length aKey) \<le> int d \<and> sqlite3VdbeSerialTypeLen ?t > 0)"
      by (simp add: field_len_def)
    have dn: "sint (of_nat d :: u32) = int d"
      using Cons.prems(4) assms(5) by (intro sint_of_nat_u32) simp
    obtain idx' where IH: "compare_loop ki aKey szHdr ms' (i + 1) (idx + length ?p) (of_nat (d + field_len ff v)) =
        Some (case fields_compare ki (i + 1) (map stored vs) ms' of Some r \<Rightarrow> Inl r | None \<Rightarrow> Inr idx')"
      "idx' < szHdr \<longleftrightarrow> length ms' < length vs"
    proof (atomize_elim, rule Cons.IH)
      show "drop (idx + length ?p) aKey = types_bytes ff vs @ rest"
        unfolding drop_drop [symmetric, of "length ?p" idx] add.commute [of idx] hd by simp
      show "drop (d + field_len ff v) aKey = data_bytes ff vs"
        unfolding drop_drop [symmetric, of "field_len ff v" d] add.commute [of d] dd by simp
    qed (use Cons.prems(2,5) dl in \<open>simp_all add: types_bytes_def\<close>)
    show ?thesis
      using lt IH nb
      by (intro exI [of _ idx'])
        (auto simp: \<open>ms = m # ms'\<close> key_at_def dn hd dd Get32_Put32 t Get_content Let_def)
  qed (use lt in auto)
qed

text \<open>
  What \<open>sqlite3VdbeRecordCompare\<close> promises of two lists of values, independently of the code: \<open>column_order\<close> is the order of
  one column, reversed for DESC, and \<open>first_difference\<close> the first position at which both lists have a value and the values
  differ in it.
\<close>

definition column_order :: "key_info \<Rightarrow> nat \<Rightarrow> mem \<Rightarrow> mem \<Rightarrow> int" where
  "column_order ki i a b =
     (if i < length (aColl ki) then (if aSortOrder ki ! i then -1 else 1) * sqlite3MemCompare a b (aColl ki ! i)
      else sqlite3MemCompare a b None)"

definition first_difference :: "key_info \<Rightarrow> mem list \<Rightarrow> mem list \<Rightarrow> nat option" where
  "first_difference ki as bs = find (\<lambda>i. column_order ki i (as ! i) (bs ! i) \<noteq> 0) [0..<min (length as) (length bs)]"

definition compare_keys :: "key_info \<Rightarrow> mem list \<Rightarrow> unpacked_record \<Rightarrow> int \<times> unpacked_record" where
  "compare_keys ki vs p =
     (case first_difference ki vs (ur_aMem p) of
        Some i \<Rightarrow>
          (column_order ki i (vs ! i) (ur_aMem p ! i), if ur_prefix_search p \<and> Suc i = length (ur_aMem p)
             then p\<lparr>ur_prefix_search := False, ur_rowid := (case vs ! i of MInt v \<Rightarrow> v | _ \<Rightarrow> ur_rowid p)\<rparr> else p)
      | None \<Rightarrow> (if ur_incrkey p then -1 else if ur_prefix_match p then 0
                 else if length (ur_aMem p) < length vs then 1 else 0, p))"

lemma field_compare_order: "field_compare ki i a b = column_order ki i a b"
  by (simp add: field_compare_def column_order_def Let_def)

lemma find_map_Suc: "find P (map Suc xs) = map_option Suc (find (\<lambda>i. P (Suc i)) xs)"
  by (induction xs) auto

lemma fields_compare_find:
  "fields_compare ki i as bs =
     map_option (\<lambda>j. (column_order ki (i + j) (as ! j) (bs ! j), i + j, as ! j))
       (find (\<lambda>j. column_order ki (i + j) (as ! j) (bs ! j) \<noteq> 0) [0..<min (length as) (length bs)])"
proof (induction ki i as bs rule: fields_compare.induct)
  case (1 ki i a as b bs)
  have u: "[0..<Suc n] = 0 # map Suc [0..<n]" for n by (simp add: upt_conv_Cons map_Suc_upt del: upt_Suc)
  show ?case using 1
    by (simp add: u Let_def field_compare_order find_map_Suc option.map_comp comp_def del: upt_Suc)
qed auto

lemma first_difference_fields:
  "fields_compare ki 0 as bs = map_option (\<lambda>j. (column_order ki j (as ! j) (bs ! j), j, as ! j)) (first_difference ki as bs)"
  using fields_compare_find [of ki 0 as bs] by (simp add: first_difference_def)

lemma fields_compare_index: "fields_compare ki i as bs = Some (rc, j, m) \<Longrightarrow> i \<le> j \<and> j < i + length bs"
  by (induction ki i as bs rule: fields_compare.induct) (fastforce simp: Let_def split: if_splits)+

lemma compare_record:
  assumes "fields_ok ff vs" and "length (record_bytes ff vs) < 2 ^ 31"
  shows "sqlite3VdbeRecordCompare ki (record_bytes ff vs) p = Some (compare_keys ki (map stored vs) p)"
proof -
  note r = record_bytes_drop [OF assms(1)]
  obtain idx' where c: "compare_loop ki (record_bytes ff vs) (header_len ff vs) (ur_aMem p) 0
      (length (sqlite3PutVarint32 (of_nat (header_len ff vs)))) (of_nat (header_len ff vs)) =
      Some (case fields_compare ki 0 (map stored vs) (ur_aMem p) of Some r \<Rightarrow> Inl r | None \<Rightarrow> Inr idx')"
    "idx' < header_len ff vs \<longleftrightarrow> length (ur_aMem p) < length vs"
    using compare_suffix [OF r(1) r(3) r(2) r(4), of ki "ur_aMem p" 0] assms by (auto simp: fields_ok_def)
  show ?thesis
  proof (cases "first_difference ki (map stored vs) (ur_aMem p)")
    case None
    then show ?thesis
      using c(2) by (simp add: sqlite3VdbeRecordCompare_def compare_keys_def r(5,6) c(1) first_difference_fields)
  next
    case (Some i)
    then have f: "fields_compare ki 0 (map stored vs) (ur_aMem p) =
        Some (column_order ki i (map stored vs ! i) (ur_aMem p ! i), i, map stored vs ! i)" by (simp add: first_difference_fields)
    have "i = length (ur_aMem p) - 1 \<longleftrightarrow> Suc i = length (ur_aMem p)" using fields_compare_index [OF f] by auto
    with Some f show ?thesis
      by (simp add: sqlite3VdbeRecordCompare_def compare_keys_def r(5,6) c(1))
  qed
qed

section \<open>The rowid of an index entry\<close>

lemma small_varint: "t \<le> 127 \<Longrightarrow> sqlite3PutVarint32 (of_nat t) = [of_nat t]"
proof -
  assume "t \<le> 127"
  then have u: "unat (of_nat t :: u32) = t" by (intro unat_of_nat32) simp
  have "unat (drop_bit 7 (of_nat t :: u32)) = t div 128"
    unfolding unat_drop_bit_eq u by (simp add: drop_bit_eq_div)
  with \<open>t \<le> 127\<close> have "drop_bit 7 (of_nat t :: u32) = 0" by (simp only: unat_eq_0 [symmetric])
  moreover have "ucast (of_nat t :: u32) = (of_nat t :: u8)"
    by (simp add: word_unat_eq_iff unsigned_ucast_eq u unat_of_nat take_bit_eq_mod mod_mod_cancel)
  ultimately show ?thesis
    unfolding sqlite3PutVarint32_def and_not_7f by simp
qed

lemma idx_rowid_record:
  assumes ok: "fields_ok ff (vs @ [MInt r])" and "vs \<noteq> []"
    and len: "length (record_bytes ff (vs @ [MInt r])) < 2 ^ 31"
  shows "sqlite3VdbeIdxRowid (record_bytes ff (vs @ [MInt r])) = Some (Inr r)"
proof -
  define R where "R = record_bytes ff (vs @ [MInt r])"
  define N where "N = header_len ff (vs @ [MInt r])"
  define t where "t = sqlite3VdbeSerialType (MInt r) ff"
  define P where "P = sqlite3PutVarint32 (of_nat N :: u32)"
  note rb = record_bytes_drop [OF ok, folded R_def N_def P_def]
  have t: "1 \<le> t" "t \<le> 9" "t \<noteq> 7"
    using integer_serial_type [OF t_def [symmetric]] by auto
  have tb: "types_bytes ff (vs @ [MInt r]) = types_bytes ff vs @ [of_nat t]"
    using t(2) by (simp add: types_bytes_def t_def small_varint)
  have db: "data_bytes ff (vs @ [MInt r]) = data_bytes ff vs @ content ff (MInt r)"
    by (simp add: data_bytes_def)
  have "1 \<le> length P" using varint32.put_length by (simp add: P_def)
  moreover have "1 \<le> length (types_bytes ff vs)"
  proof -
    obtain v ws where "vs = v # ws" using \<open>vs \<noteq> []\<close> by (cases vs) auto
    then show ?thesis
      using varint32.put_length [of "of_nat (sqlite3VdbeSerialType v ff)"] by (simp add: types_bytes_def)
  qed
  ultimately have N3: "3 \<le> N" and N1: "N - 1 = length (P @ types_bytes ff vs)"
    using rb(3) by (simp_all add: tb)
  have R: "R = (P @ types_bytes ff vs) @ [of_nat t] @ data_bytes ff vs @ content ff (MInt r)"
    by (simp add: R_def record_bytes_def tb db P_def N_def)
  have d1: "drop (N - 1) R = sqlite3PutVarint32 (of_nat t) @ data_bytes ff vs @ content ff (MInt r)"
    using t(2) by (simp only: R N1 small_varint [OF le_trans] drop_append) (simp add: small_varint)
  have fl: "sqlite3VdbeSerialTypeLen t = field_len ff (MInt r)" by (simp add: field_len_def t_def)
  have lR: "length R = N + length (data_bytes ff vs) + field_len ff (MInt r)"
    using N1 N3 by (simp add: R)
  have d2: "drop (length R - field_len ff (MInt r)) R = content ff (MInt r)"
    by (simp add: R)
  have NR: "N < 2 ^ 31" "sint (of_nat N :: u32) = int N"
    using len lR by (simp_all add: R_def [symmetric] sint_of_nat_u32)
  have NR_le: "\<not> int (length R) < int N" using lR by simp
  have gv: "sqlite3GetVarint32 (drop (N - 1) R) = Some (length (sqlite3PutVarint32 (of_nat t)), of_nat t)"
    unfolding d1 by (rule Get32_Put32)
  have "(of_nat N :: u32) + of_nat (field_len ff (MInt r)) = of_nat (N + field_len ff (MInt r))" by simp
  then have cmp: "\<not> (of_nat (length R) :: u32) < of_nat N + of_nat (field_len ff (MInt r))"
    using len lR by (simp add: R_def [symmetric] word_less_nat_alt unat_of_nat32 del: of_nat_add)
  have ut: "unat (of_nat t :: u32) = t" using t(2) by (intro unat_of_nat32) simp
  have g: "sqlite3VdbeSerialGet (content ff (MInt r)) t = Some (MInt r, field_len ff (MInt r))"
    using Get_content [of ff "MInt r" "[]"] by (simp add: t_def stored_def)
  show ?thesis
    unfolding R_def [symmetric] sqlite3VdbeIdxRowid_def
    using N3 NR(2) NR_le t cmp
    by (simp add: rb(5,6) gv ut fl d2 g Let_def del: One_nat_def)
qed

section \<open>The order of values\<close>

lemma blob_compare_simps [simp]:
  "blob_compare [] [] = 0"
  "blob_compare (a # as) [] = 1 + int (length as)"
  "blob_compare [] (b # bs) = - 1 - int (length bs)"
  "blob_compare (a # as) (b # bs) = (if a < b then -1 else if b < a then 1 else blob_compare as bs)"
  by (simp_all add: blob_compare_def Let_def)

lemma blob_compare_antisym: "blob_compare y x = - blob_compare x y"
proof (induction x arbitrary: y)
  case Nil
  show ?case by (cases y) simp_all
next
  case (Cons a x)
  show ?case
  proof (cases y)
    case (Cons b z)
    then show ?thesis using Cons.IH [of z] by (simp add: less_not_sym)
  qed simp
qed

lemma blob_compare_trans: "blob_compare x y \<le> 0 \<Longrightarrow> blob_compare y z \<le> 0 \<Longrightarrow> blob_compare x z \<le> 0"
proof (induction x arbitrary: y z)
  case Nil
  show ?case by (cases z) simp_all
next
  case (Cons a x)
  from Cons.prems(1) obtain b y' where y: "y = b # y'" by (cases y) auto
  from Cons.prems(2) y obtain c z' where z: "z = c # z'" by (cases z) auto
  consider "a < b \<or> b < c" | "a = b" "b = c"
    using Cons.prems by (auto simp: y z not_less split: if_splits)
  then show ?case
  proof cases
    case 1
    moreover have "\<not> b < a" "\<not> c < b" using Cons.prems by (auto simp: y z split: if_splits)
    ultimately have "a < c" by (auto simp: not_less)
    then show ?thesis by (simp add: z)
  next
    case 2
    then show ?thesis using Cons.IH [of y' z'] Cons.prems by (simp add: y z)
  qed
qed

lemma real_less_iff: "\<not> sqlite3IsNaN r \<Longrightarrow> \<not> sqlite3IsNaN s \<Longrightarrow> real_less r s \<longleftrightarrow> real_key r < real_key s"
  by (simp add: real_less_def)

text \<open>The four rules that sqlite3.h sets for collating functions, and values whose numbers all have one representation.\<close>

definition coll_ok :: "collseq \<Rightarrow> bool" where
  "coll_ok coll \<longleftrightarrow> (case coll of None \<Rightarrow> True | Some c \<Rightarrow>
     (\<forall>x y. c x y = 0 \<longrightarrow> c y x = 0) \<and> (\<forall>x y z. c x y = 0 \<longrightarrow> c y z = 0 \<longrightarrow> c x z = 0) \<and>
     (\<forall>x y. c x y < 0 \<longleftrightarrow> c y x > 0) \<and> (\<forall>x y z. c x y < 0 \<longrightarrow> c y z < 0 \<longrightarrow> c x z < 0))"

definition is_integer :: "mem \<Rightarrow> bool" where
  "is_integer v = (case v of MInt _ \<Rightarrow> True | _ \<Rightarrow> False)"

definition is_real :: "mem \<Rightarrow> bool" where
  "is_real v = (case v of MReal _ \<Rightarrow> True | _ \<Rightarrow> False)"

definition one_number_type :: "mem list \<Rightarrow> bool" where
  "one_number_type vs \<longleftrightarrow> list_all (\<lambda>v. case v of MReal r \<Rightarrow> \<not> sqlite3IsNaN r | _ \<Rightarrow> True) vs \<and>
     \<not> (list_ex is_integer vs \<and> list_ex is_real vs)"

lemma coll_antisym:
  assumes "coll_ok coll"
  shows "sgn (case coll of None \<Rightarrow> blob_compare y x | Some c \<Rightarrow> c y x) =
    - sgn (case coll of None \<Rightarrow> blob_compare x y | Some c \<Rightarrow> c x y)"
proof (cases coll)
  case None
  then show ?thesis using blob_compare_antisym [of y x] by simp
next
  case (Some c)
  have r: "c x y = 0 \<Longrightarrow> c y x = 0" "c x y < 0 \<longleftrightarrow> c y x > 0" "c y x < 0 \<longleftrightarrow> c x y > 0"
    using assms unfolding coll_ok_def Some option.case by blast+
  show ?thesis unfolding Some option.case using r by (cases "c x y" "0 :: int" rule: linorder_cases) (simp_all add: sgn_if)
qed

text \<open>The rules do not mention a tie on one side: that \<open>A==B\<close> and \<open>B<C\<close> give \<open>A<C\<close> follows from them.\<close>

lemma coll_trans:
  assumes "coll_ok coll" and "(case coll of None \<Rightarrow> blob_compare x y | Some c \<Rightarrow> c x y) \<le> 0"
    and "(case coll of None \<Rightarrow> blob_compare y z | Some c \<Rightarrow> c y z) \<le> 0"
  shows "(case coll of None \<Rightarrow> blob_compare x z | Some c \<Rightarrow> c x z) \<le> 0"
proof (cases coll)
  case None
  then show ?thesis using assms(2,3) blob_compare_trans [of x y z] by simp
next
  case (Some c)
  have r: "\<And>x y. c x y = 0 \<Longrightarrow> c y x = 0" "\<And>x y z. c x y = 0 \<Longrightarrow> c y z = 0 \<Longrightarrow> c x z = 0"
    "\<And>x y. c x y < 0 \<longleftrightarrow> c y x > 0" "\<And>x y z. c x y < 0 \<Longrightarrow> c y z < 0 \<Longrightarrow> c x z < 0"
    using assms(1) unfolding coll_ok_def Some option.case by blast+
  have le: "c x y \<le> 0" "c y z \<le> 0" using assms(2,3) by (simp_all add: Some)
  have "\<not> c z x < 0"
  proof
    assume zx: "c z x < 0"
    have "c x y = 0" using le(1) r(4) [OF zx, of y] r(3) [of z y] le(2) by linarith
    moreover have "c y z = 0" using le(2) r(4) [of y z x] zx r(3) [of y x] r(1) [OF \<open>c x y = 0\<close>] by linarith
    ultimately show False using r(2) [of x y z] r(1) [of x z] zx by linarith
  qed
  then show ?thesis using r(3) [of z x] by (simp add: Some)
qed

lemma mem_compare_antisym:
  assumes "coll_ok coll"
  shows "sgn (sqlite3MemCompare b a coll) = - sgn (sqlite3MemCompare a b coll)"
proof -
  have b: "sgn (blob_compare y x) = - sgn (blob_compare x y)" for x y using blob_compare_antisym [of y x] by simp
  show ?thesis
    by (cases a; cases b) (simp_all add: real_less_def Let_def, (rule coll_antisym [OF assms] b)+)
qed

lemma mem_compare_trans:
  assumes "coll_ok coll" and "one_number_type [a, b, c]"
    and "sqlite3MemCompare a b coll \<le> 0" and "sqlite3MemCompare b c coll \<le> 0"
  shows "sqlite3MemCompare a c coll \<le> 0"
  using assms(2-4)
  by (cases a; cases b; cases c)
    (simp_all add: one_number_type_def is_integer_def is_real_def real_less_iff split: if_splits,
      (erule (1) coll_trans [OF assms(1)] blob_compare_trans)+)

section \<open>Properties\<close>

definition storable :: "nat \<Rightarrow> mem list \<Rightarrow> bool" where
  "storable ff vs \<longleftrightarrow> length vs < 2 ^ 16 \<and> data_len ff vs < 2 ^ 30"

lemma storable_ok:
  assumes "storable ff vs"
  shows "fields_ok ff vs" and "length (record_bytes ff vs) < 2 ^ 31"
proof -
  have "field_len ff v \<le> data_len ff vs" if "v \<in> set vs" for v
    using that by (simp add: data_len_def member_le_sum_list)
  then show ok: "fields_ok ff vs"
    using assms le_less_trans by (fastforce simp: storable_def fields_ok_def)
  have "length (record_bytes ff vs) = header_len ff vs + data_len ff vs"
    using record_bytes_drop(3) [OF ok] by (simp add: record_bytes_def data_bytes_def contents_len del: length_concat)
  then show "length (record_bytes ff vs) < 2 ^ 31"
    using header_len_eq(2) [OF ok] assms by (simp add: storable_def)
qed

text \<open>
  C18. A value that is serialised into a large enough buffer occupies as many bytes as its serial type says, and
  reading it back with that serial type, whatever follows it, gives the value: an integer of any size, a double
  with the same bits (a NaN comes back as NULL), a text, a blob with its zero bytes written out.
\<close>

theorem serial_roundtrip:
  assumes "sqlite3VdbeSerialTypeLen (sqlite3VdbeSerialType v ff) \<le> n"
  shows "\<exists>b. sqlite3VdbeSerialPut n v ff = Some b \<and>
    length b = sqlite3VdbeSerialTypeLen (sqlite3VdbeSerialType v ff) \<and>
    sqlite3VdbeSerialGet (b @ rest) (sqlite3VdbeSerialType v ff) = Some (stored v, length b)"
  using serial_value [of ff v n] assms by (auto simp: field_len_def)

lemma witness_type: "sqlite3VdbeSerialTypeLen (sqlite3VdbeSerialType (MInt 300) 4) = 2"
  by (simp add: sqlite3VdbeSerialType_def Let_def and_1_eq)

theorem serial_roundtrip_witness:
  "\<exists>b. sqlite3VdbeSerialPut 2 (MInt 300) 4 = Some b \<and> length b = 2 \<and>
    sqlite3VdbeSerialGet (b @ [7]) (sqlite3VdbeSerialType (MInt 300) 4) = Some (MInt 300, length b)"
  using serial_roundtrip [of "MInt 300" 4 2 "[7]"] by (simp add: witness_type stored_def)

text \<open>
  C16. \<open>OP_MakeRecord\<close> never writes outside the buffer it asked for. It gives up only if the record is longer
  than the limit or the memory is not there, and otherwise \<open>sqlite3VdbeRecordUnpack\<close> reads from the record (with
  the zero bytes that \<open>MEM_Zero\<close> stands for) the values the record was made of, up to the number it is asked for.
\<close>

theorem record_roundtrip:
  assumes "storable ff vs"
  shows "case OP_MakeRecord ff limit mem_ok vs of
      None \<Rightarrow> False
    | Some Too_Big \<Rightarrow> limit + zero_tail ff vs < length (record_bytes ff vs)
    | Some No_Mem \<Rightarrow> \<not> mem_ok
    | Some (Record b nZero) \<Rightarrow> length b \<le> limit \<and>
        sqlite3VdbeRecordUnpack n (b @ replicate nZero 0) = Some (map stored (take n vs))"
proof -
  note ok = storable_ok [OF assms]
  obtain b where b: "b @ replicate (zero_tail ff vs) 0 = record_bytes ff vs"
    "OP_MakeRecord ff limit mem_ok vs =
      Some (if length b > limit then Too_Big else if \<not> mem_ok then No_Mem else Record b (zero_tail ff vs))"
    using make_record [OF ok(1)] by blast
  have "length (record_bytes ff vs) = length b + zero_tail ff vs" unfolding b(1) [symmetric] by simp
  with b show ?thesis using unpack_record [OF ok, of n] by simp
qed

definition sample_fields :: "mem list" where
  "sample_fields = [MInt 300, MStr [104, 105], MNull, MBlob [] 3]"

lemma sample_storable: "storable 4 sample_fields"
  by (simp add: storable_def sample_fields_def data_len_def field_len_def sqlite3VdbeSerialType_def
      sqlite3VdbeSerialTypeLen_def aSize_def and_1_eq Let_def)

theorem record_roundtrip_witness:
  "case OP_MakeRecord 4 1000 True sample_fields of
      None \<Rightarrow> False
    | Some Too_Big \<Rightarrow> 1000 + zero_tail 4 sample_fields < length (record_bytes 4 sample_fields)
    | Some No_Mem \<Rightarrow> \<not> True
    | Some (Record b nZero) \<Rightarrow> length b \<le> 1000 \<and>
        sqlite3VdbeRecordUnpack 3 (b @ replicate nZero 0) = Some [MInt 300, MStr [104, 105], MNull]"
proof -
  have "map stored (take 3 sample_fields) = [MInt 300, MStr [104, 105], MNull]"
    by (simp add: sample_fields_def stored_def)
  with record_roundtrip [OF sample_storable, where limit = 1000 and mem_ok = True and n = 3]
  show ?thesis by (simp only:)
qed

text \<open>
  C17. Comparing a record that \<open>OP_MakeRecord\<close> made with an unpacked key compares the values: field by field with
  the collation and the sort order of the index, the first difference deciding; a tie of the common fields is
  broken by the flags of the key (INCRKEY, PREFIX_MATCH), and without them the record is larger if it has more fields than
  the key and equal otherwise, also when the key has more fields (the comments call the longer key the larger one in
  either case). The rowid of a unique-index search is returned when only the last field differs.
\<close>

theorem record_compare_refines:
  assumes "storable ff vs" and "OP_MakeRecord ff limit mem_ok vs = Some (Record b nZero)"
  shows "sqlite3VdbeRecordCompare ki (b @ replicate nZero 0) p = Some (compare_keys ki (map stored vs) p)"
proof -
  note ok = storable_ok [OF assms(1)]
  have "b @ replicate nZero 0 = record_bytes ff vs"
    using make_record [OF ok(1), of limit mem_ok] assms(2) by (auto split: if_splits)
  then show ?thesis using compare_record [OF ok] by simp
qed

lemma sample_record: "\<exists>b z. OP_MakeRecord 4 1000 True sample_fields = Some (Record b z)"
proof -
  note ok = storable_ok [OF sample_storable]
  have "header_len 4 sample_fields \<le> 9 * 4 + 9"
    using header_len_eq(1) [OF ok(1)] types_len_bound [of 4 sample_fields]
      VarintLen_bounds(2) [of "of_nat (header_len 4 sample_fields)"] by (simp add: sample_fields_def)
  moreover have "length (record_bytes 4 sample_fields) = header_len 4 sample_fields + data_len 4 sample_fields"
    using record_bytes_drop(3) [OF ok(1)]
    by (simp add: record_bytes_def data_bytes_def contents_len del: length_concat)
  moreover have "data_len 4 sample_fields = 7"
    by (simp add: sample_fields_def data_len_def field_len_def sqlite3VdbeSerialType_def
        sqlite3VdbeSerialTypeLen_def aSize_def and_1_eq Let_def)
  ultimately have "length (record_bytes 4 sample_fields) \<le> 1000" by simp
  moreover obtain b where b: "b @ replicate (zero_tail 4 sample_fields) 0 = record_bytes 4 sample_fields"
    "OP_MakeRecord 4 1000 True sample_fields = Some (if length b > 1000 then Too_Big
      else if \<not> True then No_Mem else Record b (zero_tail 4 sample_fields))"
    using make_record [OF ok(1), where limit = 1000 and mem_ok = True] by blast
  moreover have "length b \<le> length (record_bytes 4 sample_fields)" unfolding b(1) [symmetric] by simp
  ultimately show ?thesis by simp
qed

theorem record_compare_witness:
  "\<exists>b z. OP_MakeRecord 4 1000 True sample_fields = Some (Record b z) \<and>
     sqlite3VdbeRecordCompare \<lparr>aColl = [None, None], aSortOrder = [True, False]\<rparr> (b @ replicate z 0)
       \<lparr>ur_aMem = [MInt 301], ur_incrkey = False, ur_prefix_match = False, ur_prefix_search = False, ur_rowid = 0\<rparr>
     = Some (1, \<lparr>ur_aMem = [MInt 301], ur_incrkey = False, ur_prefix_match = False, ur_prefix_search = False, ur_rowid = 0\<rparr>)"
proof -
  obtain b z where m: "OP_MakeRecord 4 1000 True sample_fields = Some (Record b z)" using sample_record by blast
  from m record_compare_refines [OF sample_storable m]
  show ?thesis
    by (intro exI [of _ b] exI [of _ z])
      (simp add: compare_keys_def first_difference_def column_order_def sample_fields_def stored_def)
qed

text \<open>
  C19. The rowid that ends an index entry is the rowid \<open>sqlite3VdbeIdxRowid\<close> reads from it: an entry made by
  \<open>OP_MakeRecord\<close> of at least one column and a rowid is never reported as corrupt.
\<close>

theorem index_rowid:
  assumes "storable ff (vs @ [MInt rowid])" and "vs \<noteq> []"
    and "OP_MakeRecord ff limit mem_ok (vs @ [MInt rowid]) = Some (Record b nZero)"
  shows "sqlite3VdbeIdxRowid (b @ replicate nZero 0) = Some (Inr rowid)"
proof -
  note ok = storable_ok [OF assms(1)]
  have "b @ replicate nZero 0 = record_bytes ff (vs @ [MInt rowid])"
    using make_record [OF ok(1), of limit mem_ok] assms(3) by (auto split: if_splits)
  then show ?thesis using idx_rowid_record [OF ok(1) assms(2) ok(2)] by simp
qed

definition sample_entry :: "u8 list" where
  "sample_entry = [3, 13, 1, 42]"

lemma sample_entry_made: "OP_MakeRecord 4 1000 True ([MStr []] @ [MInt 42]) = Some (Record sample_entry 0)"
proof -
  have v: "sqlite3VarintLen 13 = 1" "sqlite3VarintLen 1 = 1" "sqlite3VarintLen 2 = 1" "sqlite3VarintLen 3 = 1"
    by (simp_all add: sqlite3VarintLen_def varint_len_loop.simps Let_def)
  have t: "sqlite3VdbeSerialType (MStr []) 4 = 13" "sqlite3VdbeSerialType (MInt 42) 4 = 1"
    by (simp_all add: sqlite3VdbeSerialType_def Let_def and_1_eq)
  have p: "sqlite3PutVarint32 3 = [3]" "sqlite3PutVarint32 13 = [13]" "sqlite3PutVarint32 1 = [1]"
    using small_varint [of 3] small_varint [of 13] small_varint [of 1] by simp_all
  have s: "sqlite3VdbeSerialTypeLen 13 = 0" by (simp add: sqlite3VdbeSerialTypeLen_def)
  show ?thesis
    by (simp add: OP_MakeRecord_def expand_prefixed_def t v p s sqlite3VdbeSerialPut_def put_be_1 sample_entry_def
        del: One_nat_def)
qed

theorem index_rowid_witness: "sqlite3VdbeIdxRowid [3, 13, 1, 42] = Some (Inr 42)"
proof -
  have "storable 4 ([MStr []] @ [MInt 42])"
    by (simp add: storable_def data_len_def field_len_def sqlite3VdbeSerialType_def
        sqlite3VdbeSerialTypeLen_def aSize_def and_1_eq Let_def)
  from index_rowid [OF this _ sample_entry_made] show ?thesis
    by (simp add: sample_entry_def)
qed

text \<open>
  C20. With a collating function that obeys the rules of sqlite3.h, \<open>sqlite3MemCompare\<close> gives answers of opposite sign
  when its arguments are exchanged, for all values; and on values whose numbers are all integers or all doubles it is
  transitive, so that the order of an index over such a column (NULL, then numbers, then texts, then blobs) is a total
  preorder.
\<close>

theorem mem_compare_order:
  assumes "coll_ok coll"
  shows "sgn (sqlite3MemCompare b a coll) = - sgn (sqlite3MemCompare a b coll) \<and>
    (one_number_type [a, b, c] \<and> sqlite3MemCompare a b coll \<le> 0 \<and> sqlite3MemCompare b c coll \<le> 0 \<longrightarrow> sqlite3MemCompare a c coll \<le> 0)"
  using mem_compare_antisym [OF assms] mem_compare_trans [OF assms] by blast

text \<open>A collation that compares the lengths of two texts, whose answers are not just -1, 0 and 1.\<close>

definition by_length :: "u8 list \<Rightarrow> u8 list \<Rightarrow> int" where
  "by_length x y = (if length x \<le> length y then 3 * (int (length x) - int (length y)) else 1)"

theorem mem_compare_order_witness:
  "sgn (sqlite3MemCompare (MStr [1, 2]) (MStr [9]) (Some by_length)) = - sgn (sqlite3MemCompare (MStr [9]) (MStr [1, 2]) (Some by_length)) \<and>
   sqlite3MemCompare (MInt 3) (MStr [1, 2]) (Some by_length) \<le> 0"
proof -
  have ok: "coll_ok (Some by_length)" by (auto simp: coll_ok_def by_length_def)
  show ?thesis
    using mem_compare_order [OF ok, of "MStr [1, 2]" "MStr [9]" "MInt 3"] mem_compare_order [OF ok, of "MStr [9]" "MInt 3" "MStr [1, 2]"]
    by (simp add: one_number_type_def is_integer_def is_real_def by_length_def)
qed

text \<open>
  C21. A header size of \<open>2^31\<close> or more is negative as an \<open>int\<close> and passes the test of \<open>sqlite3VdbeIdxRowid\<close> that
  should stop a corrupt entry: the serial type is then read far behind the entry.
\<close>

theorem idx_rowid_reads_outside:
  assumes "sqlite3GetVarint32 m = Some (k, szHdr)" and "sint szHdr < 0" and "length m < 2 ^ 31"
  shows "sqlite3VdbeIdxRowid m = None"
proof -
  have "2 ^ 31 \<le> unat szHdr"
  proof (rule ccontr)
    assume "\<not> 2 ^ 31 \<le> unat szHdr"
    then have "sint (of_nat (unat szHdr) :: u32) = int (unat szHdr)" by (intro sint_of_nat_u32) simp
    then show False using assms(2) by simp
  qed
  moreover from this assms(3) have "drop (unat szHdr - 1) m = []" by simp
  moreover have "sqlite3GetVarint32 [] = None" by (simp add: sqlite3GetVarint32_def)
  ultimately show ?thesis
    using assms(1,2) by (simp add: sqlite3VdbeIdxRowid_def)
qed

theorem idx_rowid_reads_outside_witness: "sqlite3VdbeIdxRowid (sqlite3PutVarint32 0xffffffff) = None"
proof (rule idx_rowid_reads_outside)
  show "sqlite3GetVarint32 (sqlite3PutVarint32 0xffffffff) = Some (length (sqlite3PutVarint32 0xffffffff), 0xffffffff)"
    using Get32_Put32 [of "0xffffffff" "[]"] by simp
  show "length (sqlite3PutVarint32 0xffffffff) < 2 ^ 31"
    using varint32.put_length [of "0xffffffff"] by simp
qed simp

end
