(* ===== verification/Unix_Lock.thy ===== *)
theory Unix_Lock
  imports Sqlite_Prelude
begin

text \<open>
  The locking protocol of os_unix.c: \<open>unixLock\<close>, \<open>posixUnlock\<close>, \<open>unixCheckReservedLock\<close> and \<open>unixClose\<close> over
  POSIX advisory locks on three ranges of bytes of the database file. Several handles of one process share a
  \<open>unixInodeInfo\<close>, because POSIX locks belong to the process. An operation of one process runs under the mutex
  of the process, but the operations of different processes interleave between any two system calls: an
  operation is therefore a tree of system calls, and the processes run in a step relation.
\<close>

section \<open>Constants and system calls\<close>


lemmas lock_levels = NO_LOCK_def SHARED_LOCK_def RESERVED_LOCK_def PENDING_LOCK_def EXCLUSIVE_LOCK_def

definition RESERVED_BYTE :: nat where "RESERVED_BYTE = PENDING_BYTE + 1"
definition SHARED_FIRST :: nat where "SHARED_FIRST = PENDING_BYTE + 2"
definition SHARED_SIZE :: nat where "SHARED_SIZE = 510"

datatype l_type = F_RDLCK | F_WRLCK | F_UNLCK

text \<open>\<open>struct flock\<close> with \<open>l_whence = SEEK_SET\<close>; a length of 0 reaches to the end of the file.\<close>

datatype flock = Flock (l_type: l_type) (l_start: nat) (l_len: nat)

datatype errno =
    EAGAIN | ETIMEDOUT | EBUSY | EINTR | ENOLCK | EACCES | EPERM | EIO | EBADF | EINVAL | ENODEV | ENOENT | EOTHER

text \<open>
  A tree of the system calls of an operation: \<open>fcntl(F_SETLK)\<close>, whose outcome is an error number or success,
  \<open>fcntl(F_GETLK)\<close>, whose outcome is an error number or the type of a conflicting lock, and the closing of a file
  descriptor.
\<close>

datatype 'a io =
    Done 'a
  | Setlk flock "errno option \<Rightarrow> 'a io"
  | Getlk flock "errno + l_type \<Rightarrow> 'a io"
  | Close_Fd "'a io"

section \<open>The operations\<close>

record unix_file =
  f_eFileLock :: nat
  f_excl :: bool
  f_rdonly :: bool
  f_open :: bool
  f_lastErrno :: "errno option"

record unix_inode =
  i_nShared :: nat
  i_eFileLock :: nat
  i_bProcessLock :: bool
  i_nRef :: nat
  i_nLock :: nat
  i_nUnused :: nat

definition sqliteErrorFromPosixError :: "errno \<Rightarrow> rc \<Rightarrow> rc" where
  "sqliteErrorFromPosixError posixError sqliteIOErr =
     (if posixError \<in> {EAGAIN, ETIMEDOUT, EBUSY, EINTR, ENOLCK} then SQLITE_BUSY
      else if posixError = EACCES then
        (if sqliteIOErr \<in> {SQLITE_IOERR_LOCK, SQLITE_IOERR_UNLOCK, SQLITE_IOERR_RDLOCK, SQLITE_IOERR_CHECKRESERVEDLOCK}
         then SQLITE_BUSY else SQLITE_PERM)
      else if posixError = EPERM then SQLITE_PERM
      else sqliteIOErr)"

text \<open>The handles of \<open>unix-excl\<close> take one exclusive lock for the whole process, once.\<close>

definition unixFileLock :: "unix_file \<Rightarrow> unix_inode \<Rightarrow> flock \<Rightarrow> (errno option \<Rightarrow> unix_inode \<Rightarrow> 'a io) \<Rightarrow> 'a io" where
  "unixFileLock pFile pInode lk cont =
     (if (f_excl pFile \<or> i_bProcessLock pInode) \<and> \<not> f_rdonly pFile then
        (if \<not> i_bProcessLock pInode then
           Setlk (Flock F_WRLCK SHARED_FIRST SHARED_SIZE) (\<lambda>e. case e of
             Some _ \<Rightarrow> cont e pInode
           | None \<Rightarrow> cont None (pInode\<lparr>i_bProcessLock := True, i_nLock := i_nLock pInode + 1\<rparr>))
         else cont None pInode)
      else Setlk lk (\<lambda>e. cont e pInode))"

definition set_errno :: "rc \<Rightarrow> errno \<Rightarrow> unix_file \<Rightarrow> unix_file" where
  "set_errno rc e pFile = (if rc \<noteq> SQLITE_BUSY then pFile\<lparr>f_lastErrno := Some e\<rparr> else pFile)"

text \<open>The levels recorded when the request was for RESERVED or EXCLUSIVE, and the end of a request for SHARED.\<close>

definition lock_result :: "nat \<Rightarrow> rc \<Rightarrow> unix_file \<Rightarrow> unix_inode \<Rightarrow> rc \<times> unix_file \<times> unix_inode" where
  "lock_result eFileLock rc pFile pInode =
     (if rc = SQLITE_OK then (rc, pFile\<lparr>f_eFileLock := eFileLock\<rparr>, pInode\<lparr>i_eFileLock := eFileLock\<rparr>)
      else if eFileLock = EXCLUSIVE_LOCK then
        (rc, pFile\<lparr>f_eFileLock := PENDING_LOCK\<rparr>, pInode\<lparr>i_eFileLock := PENDING_LOCK\<rparr>)
      else (rc, pFile, pInode))"

definition lock_shared :: "unix_file \<Rightarrow> unix_inode \<Rightarrow> (rc \<times> unix_file \<times> unix_inode) io" where
  "lock_shared pFile pInode =
     unixFileLock pFile pInode (Flock F_RDLCK SHARED_FIRST SHARED_SIZE) (\<lambda>e1 pInode.
       unixFileLock pFile pInode (Flock F_UNLCK PENDING_BYTE 1) (\<lambda>e2 pInode.
         (let (rc, tErrno) =
            (case e1 of
               Some e \<Rightarrow> (sqliteErrorFromPosixError e SQLITE_IOERR_LOCK, e)
             | None \<Rightarrow> (case e2 of Some e \<Rightarrow> (SQLITE_IOERR_UNLOCK, e) | None \<Rightarrow> (SQLITE_OK, EOTHER)))
          in if rc \<noteq> SQLITE_OK then Done (rc, set_errno rc tErrno pFile, pInode)
             else Done (lock_result SHARED_LOCK SQLITE_OK (pFile\<lparr>f_eFileLock := SHARED_LOCK\<rparr>)
                    (pInode\<lparr>i_nLock := i_nLock pInode + 1, i_nShared := 1\<rparr>)))))"

definition lock_write :: "nat \<Rightarrow> unix_file \<Rightarrow> unix_inode \<Rightarrow> (rc \<times> unix_file \<times> unix_inode) io" where
  "lock_write eFileLock pFile pInode =
     (if eFileLock = EXCLUSIVE_LOCK \<and> i_nShared pInode > 1
      then Done (lock_result eFileLock SQLITE_BUSY pFile pInode)
      else unixFileLock pFile pInode
        (if eFileLock = RESERVED_LOCK then Flock F_WRLCK RESERVED_BYTE 1 else Flock F_WRLCK SHARED_FIRST SHARED_SIZE)
        (\<lambda>e pInode. case e of
           None \<Rightarrow> Done (lock_result eFileLock SQLITE_OK pFile pInode)
         | Some e \<Rightarrow> (let rc = sqliteErrorFromPosixError e SQLITE_IOERR_LOCK
                      in Done (lock_result eFileLock rc (set_errno rc e pFile) pInode))))"

definition unixLock :: "nat \<Rightarrow> unix_file \<Rightarrow> unix_inode \<Rightarrow> (rc \<times> unix_file \<times> unix_inode) io" where
  "unixLock eFileLock pFile pInode =
     (if f_eFileLock pFile \<ge> eFileLock then Done (SQLITE_OK, pFile, pInode)
      else if f_eFileLock pFile \<noteq> i_eFileLock pInode \<and> (i_eFileLock pInode \<ge> PENDING_LOCK \<or> eFileLock > SHARED_LOCK)
      then Done (SQLITE_BUSY, pFile, pInode)
      else if eFileLock = SHARED_LOCK \<and> (i_eFileLock pInode = SHARED_LOCK \<or> i_eFileLock pInode = RESERVED_LOCK) then
        Done (SQLITE_OK, pFile\<lparr>f_eFileLock := SHARED_LOCK\<rparr>,
          pInode\<lparr>i_nShared := i_nShared pInode + 1, i_nLock := i_nLock pInode + 1\<rparr>)
      else if eFileLock = SHARED_LOCK \<or> eFileLock = EXCLUSIVE_LOCK \<and> f_eFileLock pFile < PENDING_LOCK then
        unixFileLock pFile pInode
          (Flock (if eFileLock = SHARED_LOCK then F_RDLCK else F_WRLCK) PENDING_BYTE 1) (\<lambda>e pInode. case e of
            Some e \<Rightarrow> (let rc = sqliteErrorFromPosixError e SQLITE_IOERR_LOCK
                       in Done (rc, set_errno rc e pFile, pInode))
          | None \<Rightarrow> if eFileLock = SHARED_LOCK then lock_shared pFile pInode else lock_write eFileLock pFile pInode)
      else lock_write eFileLock pFile pInode)"

text \<open>The closing of the file descriptors whose closing was deferred.\<close>

primrec close_fds :: "nat \<Rightarrow> 'a io \<Rightarrow> 'a io" where
  "close_fds 0 cont = cont"
| "close_fds (Suc n) cont = Close_Fd (close_fds n cont)"

definition closePendingFds :: "unix_inode \<Rightarrow> (unix_inode \<Rightarrow> 'a io) \<Rightarrow> 'a io" where
  "closePendingFds pInode cont = close_fds (i_nUnused pInode) (cont (pInode\<lparr>i_nUnused := 0\<rparr>))"

definition unlock_end :: "nat \<Rightarrow> rc \<Rightarrow> unix_file \<Rightarrow> unix_inode \<Rightarrow> (rc \<Rightarrow> unix_file \<Rightarrow> unix_inode \<Rightarrow> 'a io) \<Rightarrow> 'a io" where
  "unlock_end eFileLock rc pFile pInode cont =
     cont rc (if rc = SQLITE_OK then pFile\<lparr>f_eFileLock := eFileLock\<rparr> else pFile) pInode"

text \<open>The part of \<open>posixUnlock\<close> that releases the last level.\<close>

definition unlock_none :: "unix_file \<Rightarrow> unix_inode \<Rightarrow> (rc \<Rightarrow> unix_file \<Rightarrow> unix_inode \<Rightarrow> 'a io) \<Rightarrow> 'a io" where
  "unlock_none pFile pInode cont =
     (let pInode = pInode\<lparr>i_nShared := i_nShared pInode - 1\<rparr>;
          rest = (\<lambda>rc pFile pInode.
            (let pInode = pInode\<lparr>i_nLock := i_nLock pInode - 1\<rparr>
             in if i_nLock pInode = 0
                then closePendingFds pInode (\<lambda>pInode. unlock_end NO_LOCK rc pFile pInode cont)
                else unlock_end NO_LOCK rc pFile pInode cont))
      in if i_nShared pInode = 0 then
           unixFileLock pFile pInode (Flock F_UNLCK 0 0) (\<lambda>e pInode. case e of
             None \<Rightarrow> rest SQLITE_OK pFile (pInode\<lparr>i_eFileLock := NO_LOCK\<rparr>)
           | Some e \<Rightarrow> rest SQLITE_IOERR_UNLOCK (pFile\<lparr>f_lastErrno := Some e, f_eFileLock := NO_LOCK\<rparr>)
                        (pInode\<lparr>i_eFileLock := NO_LOCK\<rparr>))
         else rest SQLITE_OK pFile pInode)"

definition unlock_pending :: "nat \<Rightarrow> unix_file \<Rightarrow> unix_inode \<Rightarrow> (rc \<Rightarrow> unix_file \<Rightarrow> unix_inode \<Rightarrow> 'a io) \<Rightarrow> 'a io" where
  "unlock_pending eFileLock pFile pInode cont =
     unixFileLock pFile pInode (Flock F_UNLCK PENDING_BYTE 2) (\<lambda>e pInode. case e of
       Some e \<Rightarrow> unlock_end eFileLock SQLITE_IOERR_UNLOCK (pFile\<lparr>f_lastErrno := Some e\<rparr>) pInode cont
     | None \<Rightarrow> (let pInode = pInode\<lparr>i_eFileLock := SHARED_LOCK\<rparr>
                in if eFileLock = NO_LOCK then unlock_none pFile pInode cont
                   else unlock_end eFileLock SQLITE_OK pFile pInode cont))"

definition posixUnlock :: "nat \<Rightarrow> unix_file \<Rightarrow> unix_inode \<Rightarrow> (rc \<Rightarrow> unix_file \<Rightarrow> unix_inode \<Rightarrow> 'a io) \<Rightarrow> 'a io" where
  "posixUnlock eFileLock pFile pInode cont =
     (if f_eFileLock pFile \<le> eFileLock then cont SQLITE_OK pFile pInode
      else if f_eFileLock pFile > SHARED_LOCK then
        (if eFileLock = SHARED_LOCK then
           unixFileLock pFile pInode (Flock F_RDLCK SHARED_FIRST SHARED_SIZE) (\<lambda>e pInode. case e of
             Some e \<Rightarrow> unlock_end eFileLock SQLITE_IOERR_RDLOCK (pFile\<lparr>f_lastErrno := Some e\<rparr>) pInode cont
           | None \<Rightarrow> unlock_pending eFileLock pFile pInode cont)
         else unlock_pending eFileLock pFile pInode cont)
      else if eFileLock = NO_LOCK then unlock_none pFile pInode cont
      else unlock_end eFileLock SQLITE_OK pFile pInode cont)"

definition unixUnlock :: "nat \<Rightarrow> unix_file \<Rightarrow> unix_inode \<Rightarrow> (rc \<times> unix_file \<times> unix_inode) io" where
  "unixUnlock eFileLock pFile pInode = posixUnlock eFileLock pFile pInode (\<lambda>rc f i. Done (rc, f, i))"

definition unixCheckReservedLock :: "unix_file \<Rightarrow> unix_inode \<Rightarrow> (rc \<times> bool) io" where
  "unixCheckReservedLock pFile pInode =
     (if i_eFileLock pInode > SHARED_LOCK then Done (SQLITE_OK, True)
      else if \<not> i_bProcessLock pInode then
        Getlk (Flock F_WRLCK RESERVED_BYTE 1) (\<lambda>r. case r of
          Inl e \<Rightarrow> Done (SQLITE_IOERR_CHECKRESERVEDLOCK, False)
        | Inr t \<Rightarrow> Done (SQLITE_OK, t \<noteq> F_UNLCK))
      else Done (SQLITE_OK, False))"

text \<open>The inode object of the process, created by the first handle and freed by the last.\<close>

definition new_inode :: unix_inode where
  "new_inode = \<lparr>i_nShared = 0, i_eFileLock = 0, i_bProcessLock = False, i_nRef = 1, i_nLock = 0, i_nUnused = 0\<rparr>"

definition findInodeInfo :: "unix_inode option \<Rightarrow> unix_inode" where
  "findInodeInfo pInode = (case pInode of None \<Rightarrow> new_inode | Some i \<Rightarrow> i\<lparr>i_nRef := i_nRef i + 1\<rparr>)"

definition releaseInodeInfo :: "unix_inode \<Rightarrow> (unix_inode option \<Rightarrow> 'a io) \<Rightarrow> 'a io" where
  "releaseInodeInfo pInode cont =
     (let pInode = pInode\<lparr>i_nRef := i_nRef pInode - 1\<rparr>
      in if i_nRef pInode = 0 then closePendingFds pInode (\<lambda>_. cont None) else cont (Some pInode))"

definition closed_file :: unix_file where
  "closed_file = \<lparr>f_eFileLock = 0, f_excl = False, f_rdonly = False, f_open = False, f_lastErrno = None\<rparr>"

definition unixClose :: "unix_file \<Rightarrow> unix_inode \<Rightarrow> (rc \<times> unix_file \<times> unix_inode option) io" where
  "unixClose pFile pInode =
     posixUnlock NO_LOCK pFile pInode (\<lambda>_ pFile pInode.
       if i_nLock pInode \<noteq> 0
       then releaseInodeInfo (pInode\<lparr>i_nUnused := i_nUnused pInode + 1\<rparr>) (\<lambda>pInode. Done (SQLITE_OK, closed_file, pInode))
       else releaseInodeInfo pInode (\<lambda>pInode. Close_Fd (Done (SQLITE_OK, closed_file, pInode))))"

section \<open>Processes\<close>

text \<open>The locks of one process on the bytes of the file, and what \<open>F_SETLK\<close> does with them.\<close>

type_synonym locks = "nat \<Rightarrow> l_type"

definition covers :: "flock \<Rightarrow> nat \<Rightarrow> bool" where
  "covers lk b \<longleftrightarrow> l_start lk \<le> b \<and> (l_len lk = 0 \<or> b < l_start lk + l_len lk)"

definition apply_lock :: "flock \<Rightarrow> locks \<Rightarrow> locks" where
  "apply_lock lk L = (\<lambda>b. if covers lk b then l_type lk else L b)"

definition conflicts :: "l_type \<Rightarrow> l_type \<Rightarrow> bool" where
  "conflicts t t' \<longleftrightarrow> t = F_WRLCK \<and> t' \<noteq> F_UNLCK \<or> t = F_RDLCK \<and> t' = F_WRLCK"

definition blocked :: "(nat \<Rightarrow> locks) \<Rightarrow> nat \<Rightarrow> flock \<Rightarrow> bool" where
  "blocked os p lk \<longleftrightarrow> (\<exists>q b. q \<noteq> p \<and> covers lk b \<and> conflicts (l_type lk) (os q b))"

text \<open>
  A process: its inode object, its handles, and the operation in progress, if there is one: the handle, the
  level the operation may leave the handle at (an unlock gives up the higher levels when it starts), and the
  rest of its system calls.
\<close>

type_synonym op_result = "rc \<times> unix_file \<times> unix_inode option"

record process =
  p_inode :: "unix_inode option"
  p_file :: "nat \<Rightarrow> unix_file"
  p_op :: "(nat \<times> nat \<times> op_result io) option"

record world =
  w_os :: "nat \<Rightarrow> locks"
  w_proc :: "nat \<Rightarrow> process"

definition keep_inode :: "rc \<times> unix_file \<times> unix_inode \<Rightarrow> op_result" where
  "keep_inode = (\<lambda>(rc, f, i). (rc, f, Some i))"

text \<open>The assertions of \<open>unixLock\<close> on its caller.\<close>

definition request_ok :: "nat \<Rightarrow> nat \<Rightarrow> bool" where
  "request_ok cur eFileLock \<longleftrightarrow> eFileLock \<in> {SHARED_LOCK, RESERVED_LOCK, EXCLUSIVE_LOCK} \<and>
     (cur \<ge> eFileLock \<or> (cur \<noteq> NO_LOCK \<or> eFileLock = SHARED_LOCK) \<and> (eFileLock = RESERVED_LOCK \<longrightarrow> cur = SHARED_LOCK))"

definition set_proc :: "world \<Rightarrow> nat \<Rightarrow> process \<Rightarrow> world" where
  "set_proc w p q = w\<lparr>w_proc := (w_proc w)(p := q)\<rparr>"

inductive world_step :: "world \<Rightarrow> world \<Rightarrow> bool" where
  open_file: "p_op P = None \<Longrightarrow> P = w_proc w p \<Longrightarrow> \<not> f_open (p_file P h) \<Longrightarrow>
    world_step w (set_proc w p (P\<lparr>p_inode := Some (findInodeInfo (p_inode P)),
      p_file := (p_file P)(h := closed_file\<lparr>f_open := True, f_rdonly := r\<rparr>)\<rparr>))"
| lock: "p_op P = None \<Longrightarrow> P = w_proc w p \<Longrightarrow> p_inode P = Some i \<Longrightarrow> f_open (p_file P h) \<Longrightarrow>
    request_ok (f_eFileLock (p_file P h)) e \<Longrightarrow>
    world_step w (set_proc w p (P\<lparr>p_op := Some (h, EXCLUSIVE_LOCK, map_io keep_inode (unixLock e (p_file P h) i))\<rparr>))"
| unlock: "p_op P = None \<Longrightarrow> P = w_proc w p \<Longrightarrow> p_inode P = Some i \<Longrightarrow> f_open (p_file P h) \<Longrightarrow> e \<le> SHARED_LOCK \<Longrightarrow>
    world_step w (set_proc w p (P\<lparr>p_op := Some (h, e, map_io keep_inode (unixUnlock e (p_file P h) i))\<rparr>))"
| close: "p_op P = None \<Longrightarrow> P = w_proc w p \<Longrightarrow> p_inode P = Some i \<Longrightarrow> f_open (p_file P h) \<Longrightarrow>
    world_step w (set_proc w p (P\<lparr>p_op := Some (h, NO_LOCK, unixClose (p_file P h) i)\<rparr>))"
| setlk_ok: "p_op P = Some (h, c, Setlk lk k) \<Longrightarrow> P = w_proc w p \<Longrightarrow> \<not> blocked (w_os w) p lk \<Longrightarrow>
    world_step w ((set_proc w p (P\<lparr>p_op := Some (h, c, k None)\<rparr>))\<lparr>w_os := (w_os w)(p := apply_lock lk (w_os w p))\<rparr>)"
| setlk_error: "p_op P = Some (h, c, Setlk lk k) \<Longrightarrow> P = w_proc w p \<Longrightarrow>
    world_step w (set_proc w p (P\<lparr>p_op := Some (h, c, k (Some e))\<rparr>))"
| close_fd: "p_op P = Some (h, c, Close_Fd k) \<Longrightarrow> P = w_proc w p \<Longrightarrow>
    world_step w ((set_proc w p (P\<lparr>p_op := Some (h, c, k)\<rparr>))\<lparr>w_os := (w_os w)(p := (\<lambda>_. F_UNLCK))\<rparr>)"
| finish: "p_op P = Some (h, c, Done (rc, f, i)) \<Longrightarrow> P = w_proc w p \<Longrightarrow>
    world_step w (set_proc w p (P\<lparr>p_op := None, p_file := (p_file P)(h := f), p_inode := i\<rparr>))"

definition world0 :: world where
  "world0 = \<lparr>w_os = (\<lambda>_ _. F_UNLCK), w_proc = (\<lambda>_. \<lparr>p_inode = None, p_file = (\<lambda>_. closed_file), p_op = None\<rparr>)\<rparr>"

inductive reachable :: "world \<Rightarrow> bool" where
  init: "reachable world0"
| step: "reachable w \<Longrightarrow> world_step w w' \<Longrightarrow> reachable w'"

text \<open>The level a handle counts on: while it is being unlocked, the level that is asked for.\<close>

definition claim :: "process \<Rightarrow> nat \<Rightarrow> nat" where
  "claim P h = (case p_op P of
     Some (h', c, _) \<Rightarrow> if h' = h then min (f_eFileLock (p_file P h)) c else f_eFileLock (p_file P h)
   | None \<Rightarrow> f_eFileLock (p_file P h))"

section \<open>What an operation relies on and guarantees\<close>

definition shared_range :: "nat set" where
  "shared_range = {SHARED_FIRST..<SHARED_FIRST + SHARED_SIZE}"

lemmas byte_defs = PENDING_BYTE_def RESERVED_BYTE_def SHARED_FIRST_def SHARED_SIZE_def shared_range_def

lemma apply_lock_bytes [simp]:
  "apply_lock (Flock t PENDING_BYTE 1) L PENDING_BYTE = t"
  "apply_lock (Flock t PENDING_BYTE 1) L RESERVED_BYTE = L RESERVED_BYTE"
  "b \<in> shared_range \<Longrightarrow> apply_lock (Flock t PENDING_BYTE 1) L b = L b"
  "apply_lock (Flock t PENDING_BYTE (Suc 0)) L PENDING_BYTE = t"
  "apply_lock (Flock t PENDING_BYTE (Suc 0)) L RESERVED_BYTE = L RESERVED_BYTE"
  "b \<in> shared_range \<Longrightarrow> apply_lock (Flock t PENDING_BYTE (Suc 0)) L b = L b"
  "apply_lock (Flock t PENDING_BYTE 2) L PENDING_BYTE = t"
  "apply_lock (Flock t PENDING_BYTE 2) L RESERVED_BYTE = t"
  "b \<in> shared_range \<Longrightarrow> apply_lock (Flock t PENDING_BYTE 2) L b = L b"
  "apply_lock (Flock t RESERVED_BYTE 1) L PENDING_BYTE = L PENDING_BYTE"
  "apply_lock (Flock t RESERVED_BYTE 1) L RESERVED_BYTE = t"
  "b \<in> shared_range \<Longrightarrow> apply_lock (Flock t RESERVED_BYTE 1) L b = L b"
  "apply_lock (Flock t RESERVED_BYTE (Suc 0)) L PENDING_BYTE = L PENDING_BYTE"
  "apply_lock (Flock t RESERVED_BYTE (Suc 0)) L RESERVED_BYTE = t"
  "b \<in> shared_range \<Longrightarrow> apply_lock (Flock t RESERVED_BYTE (Suc 0)) L b = L b"
  "apply_lock (Flock t SHARED_FIRST SHARED_SIZE) L PENDING_BYTE = L PENDING_BYTE"
  "apply_lock (Flock t SHARED_FIRST SHARED_SIZE) L RESERVED_BYTE = L RESERVED_BYTE"
  "b \<in> shared_range \<Longrightarrow> apply_lock (Flock t SHARED_FIRST SHARED_SIZE) L b = t"
  "apply_lock (Flock t 0 0) L b = t"
  by (auto simp: apply_lock_def covers_def byte_defs)

text \<open>
  The guarantee of a process: it takes a new lock in the shared range only while it holds a lock on the pending
  byte, and while its inode is at EXCLUSIVE it does not take the pending byte anew.
\<close>

definition guar :: "bool \<Rightarrow> flock \<Rightarrow> locks \<Rightarrow> bool" where
  "guar ex lk L \<longleftrightarrow>
     (\<forall>b\<in>shared_range. covers lk b \<and> l_type lk \<noteq> F_UNLCK \<and> L b = F_UNLCK \<longrightarrow> L PENDING_BYTE \<noteq> F_UNLCK) \<and>
     (ex \<and> L PENDING_BYTE \<noteq> F_WRLCK \<longrightarrow> \<not> (covers lk PENDING_BYTE \<and> l_type lk = F_WRLCK))"

text \<open>\<open>I\<close> holds before every system call, the guarantee at every lock request, and \<open>Q\<close> at the end.\<close>

primrec io_safe :: "'a io \<Rightarrow> locks \<Rightarrow> (locks \<Rightarrow> bool) \<Rightarrow> bool \<Rightarrow> (locks \<Rightarrow> 'a \<Rightarrow> bool) \<Rightarrow> bool" where
  "io_safe (Done x) L I ex Q \<longleftrightarrow> I L \<and> Q L x"
| "io_safe (Setlk lk k) L I ex Q \<longleftrightarrow> I L \<and> guar ex lk L \<and>
     io_safe (k None) (apply_lock lk L) I ex Q \<and> (\<forall>e. io_safe (k (Some e)) L I ex Q)"
| "io_safe (Getlk lk k) L I ex Q \<longleftrightarrow> I L \<and> (\<forall>r. io_safe (k r) L I ex Q)"
| "io_safe (Close_Fd k) L I ex Q \<longleftrightarrow> I L \<and> io_safe k (\<lambda>_. F_UNLCK) I ex Q"

lemma io_safe_map [simp]: "io_safe (map_io g m) L I ex Q = io_safe m L I ex (\<lambda>L x. Q L (g x))"
  by (induction m arbitrary: L) auto

lemma io_safe_inv: "io_safe m L I ex Q \<Longrightarrow> I L"
  by (cases m) auto

lemma guar_simps [simp]:
  "guar ex (Flock F_RDLCK PENDING_BYTE 1) L" "guar ex (Flock F_RDLCK PENDING_BYTE (Suc 0)) L"
  "guar ex (Flock F_UNLCK s l) L"
  "guar ex (Flock F_WRLCK RESERVED_BYTE 1) L" "guar ex (Flock F_WRLCK RESERVED_BYTE (Suc 0)) L"
  "\<not> ex \<Longrightarrow> guar ex (Flock F_WRLCK PENDING_BYTE 1) L" "\<not> ex \<Longrightarrow> guar ex (Flock F_WRLCK PENDING_BYTE (Suc 0)) L"
  by (auto simp: guar_def covers_def byte_defs)

lemma guar_shared [simp]:
  "L PENDING_BYTE \<noteq> F_UNLCK \<or> (\<forall>b\<in>shared_range. L b \<noteq> F_UNLCK) \<Longrightarrow> guar ex (Flock t SHARED_FIRST SHARED_SIZE) L"
  by (auto simp: guar_def covers_def byte_defs)

text \<open>The system locks that a level stands for.\<close>

definition backed :: "nat \<Rightarrow> locks \<Rightarrow> bool" where
  "backed c L \<longleftrightarrow> (c \<ge> SHARED_LOCK \<longrightarrow> (\<forall>b\<in>shared_range. L b \<noteq> F_UNLCK)) \<and>
     (c = RESERVED_LOCK \<longrightarrow> L RESERVED_BYTE = F_WRLCK) \<and> (c \<ge> PENDING_LOCK \<longrightarrow> L PENDING_BYTE = F_WRLCK)"

lemma backed_0 [simp]: "backed 0 L"
  by (simp add: backed_def lock_levels)

section \<open>The bookkeeping of a process\<close>

abbreviation lvl :: "(nat \<Rightarrow> unix_file) \<Rightarrow> nat \<Rightarrow> nat" where
  "lvl fs h \<equiv> f_eFileLock (fs h)"

text \<open>
  \<open>nShared\<close> may count more handles than there are: a handle that is closed when the system refuses to unlock
  stays counted.
\<close>

definition inode_ok :: "unix_inode \<Rightarrow> (nat \<Rightarrow> unix_file) \<Rightarrow> bool" where
  "inode_ok i fs \<longleftrightarrow> \<not> i_bProcessLock i \<and> finite {h. f_open (fs h)} \<and> i_nRef i = card {h. f_open (fs h)} \<and>
     i_nRef i > 0 \<and> (\<forall>h. lvl fs h > 0 \<longrightarrow> f_open (fs h)) \<and> card {h. lvl fs h > 0} \<le> i_nShared i \<and>
     i_nLock i = i_nShared i \<and> (i_eFileLock i = 0 \<longleftrightarrow> i_nShared i = 0) \<and> i_eFileLock i \<le> 4 \<and>
     (\<forall>h. lvl fs h > 1 \<longrightarrow> lvl fs h = i_eFileLock i) \<and>
     (\<forall>h h'. lvl fs h > 1 \<and> lvl fs h' > 1 \<longrightarrow> h = h') \<and> (i_eFileLock i = 4 \<longrightarrow> i_nShared i = 1)"

definition static_ok :: "unix_inode option \<Rightarrow> (nat \<Rightarrow> unix_file) \<Rightarrow> bool" where
  "static_ok oi fs \<longleftrightarrow> (\<forall>h. \<not> f_excl (fs h)) \<and>
     (case oi of None \<Rightarrow> \<forall>h. \<not> f_open (fs h) \<and> lvl fs h = 0 | Some i \<Rightarrow> inode_ok i fs)"

definition level :: "unix_inode option \<Rightarrow> nat" where
  "level oi = (case oi of None \<Rightarrow> 0 | Some i \<Rightarrow> i_eFileLock i)"

lemma level_simps [simp]: "level None = 0" "level (Some i) = i_eFileLock i"
  by (simp_all add: level_def)

text \<open>What an operation on handle \<open>h\<close> with the cap \<open>c\<close> keeps, and what it leaves.\<close>

definition op_inv :: "(nat \<Rightarrow> unix_file) \<Rightarrow> nat \<Rightarrow> nat \<Rightarrow> locks \<Rightarrow> bool" where
  "op_inv fs h c L \<longleftrightarrow> (\<forall>h'. backed (if h' = h then min (lvl fs h) c else lvl fs h') L)"

definition op_post :: "unix_inode option \<Rightarrow> (nat \<Rightarrow> unix_file) \<Rightarrow> nat \<Rightarrow> locks \<Rightarrow> op_result \<Rightarrow> bool" where
  "op_post oi fs h L r \<longleftrightarrow> (case r of (rc, f, oi') \<Rightarrow> static_ok oi' (fs(h := f)) \<and> backed (level oi') L \<and>
     (level oi' = 4 \<and> level oi \<noteq> 4 \<longrightarrow> (\<forall>b\<in>shared_range. L b = F_WRLCK)))"

lemma inode_okD:
  assumes "inode_ok i fs"
  shows "finite {h. lvl fs h > 0}" and "lvl fs h > 0 \<Longrightarrow> i_eFileLock i > 0 \<and> i_nShared i > 0"
    and "lvl fs h \<le> i_eFileLock i" and "lvl fs h > 0 \<Longrightarrow> h' \<noteq> h \<Longrightarrow> lvl fs h' > 0 \<Longrightarrow> i_nShared i \<ge> 2"
proof -
  have sub: "{h. lvl fs h > 0} \<subseteq> {h. f_open (fs h)}" using assms by (auto simp: inode_ok_def)
  then show fin: "finite {h. lvl fs h > 0}" using assms finite_subset by (auto simp: inode_ok_def)
  show pos: "i_eFileLock i > 0 \<and> i_nShared i > 0" if "lvl fs h > 0" for h
  proof -
    have "card {h. lvl fs h > 0} > 0" using that fin by (auto simp: card_gt_0_iff)
    then show ?thesis using assms by (auto simp: inode_ok_def)
  qed
  show "lvl fs h \<le> i_eFileLock i"
  proof (cases "lvl fs h > 1")
    case True
    then show ?thesis using assms by (simp add: inode_ok_def)
  next
    case False
    then show ?thesis using pos [of h] by (cases "lvl fs h > 0") auto
  qed
  show "i_nShared i \<ge> 2" if "lvl fs h > 0" "h' \<noteq> h" "lvl fs h' > 0"
  proof -
    have "card {h, h'} \<le> card {h. lvl fs h > 0}" using that fin by (intro card_mono) auto
    then show ?thesis using that(2) assms by (simp add: inode_ok_def)
  qed
qed

lemma inode_ok_basic:
  assumes "inode_ok i fs"
  shows "\<not> i_bProcessLock i" and "i_nLock i = i_nShared i" and "i_eFileLock i = 0 \<longleftrightarrow> i_nShared i = 0"
    and "i_eFileLock i \<le> 4" and "i_eFileLock i = 4 \<longrightarrow> i_nShared i = 1"
  using assms unfolding inode_ok_def by blast+

lemma op_inv_start:
  assumes "inode_ok i fs" and "backed (i_eFileLock i) L" and "c \<le> 1 \<or> c = 4"
  shows "op_inv fs h c L"
proof -
  have "backed (lvl fs h') L" "backed (min (lvl fs h') c) L" for h'
  proof -
    have le: "lvl fs h' \<le> i_eFileLock i" and d: "lvl fs h' > 1 \<Longrightarrow> lvl fs h' = i_eFileLock i"
      using inode_okD(3) [OF assms(1)] assms(1) by (auto simp: inode_ok_def)
    then show b: "backed (lvl fs h') L"
      using assms(2) by (cases "lvl fs h' > 1") (auto simp: backed_def lock_levels)
    have "lvl fs h' \<le> 4" using le assms(1) by (simp add: inode_ok_def)
    then show "backed (min (lvl fs h') c) L"
      using assms(3) b by (cases "lvl fs h' \<le> c") (auto simp: backed_def lock_levels min_def)
  qed
  then show ?thesis by (simp add: op_inv_def)
qed

definition weaker :: "locks \<Rightarrow> locks \<Rightarrow> bool" where
  "weaker L L' \<longleftrightarrow> (L RESERVED_BYTE = F_WRLCK \<longrightarrow> L' RESERVED_BYTE = F_WRLCK) \<and>
     (L PENDING_BYTE = F_WRLCK \<longrightarrow> L' PENDING_BYTE = F_WRLCK) \<and>
     (\<forall>b\<in>shared_range. L b \<noteq> F_UNLCK \<longrightarrow> L' b \<noteq> F_UNLCK)"

lemma backed_keep: "backed c L \<Longrightarrow> weaker L L' \<Longrightarrow> backed c L'"
  by (auto simp: backed_def weaker_def)

lemma op_inv_keep: "op_inv fs h c L \<Longrightarrow> weaker L L' \<Longrightarrow> op_inv fs h c L'"
  using backed_keep unfolding op_inv_def by blast

text \<open>With no handle of \<open>unix-excl\<close> every lock request goes to the system.\<close>

lemma unixFileLock_plain [simp]:
  "\<not> f_excl f \<Longrightarrow> \<not> i_bProcessLock i \<Longrightarrow> unixFileLock f i lk cont = Setlk lk (\<lambda>e. cont e i)"
  by (simp add: unixFileLock_def)

lemma set_errno_same [simp]:
  "f_eFileLock (set_errno rc e f) = f_eFileLock f" "f_excl (set_errno rc e f) = f_excl f"
  "f_open (set_errno rc e f) = f_open f"
  by (simp_all add: set_errno_def)

lemma error_not_ok [simp]: "sqliteErrorFromPosixError e SQLITE_IOERR_LOCK \<noteq> SQLITE_OK"
  by (simp add: sqliteErrorFromPosixError_def)

text \<open>A handle is replaced by one with the same level, or with another one.\<close>

lemma positive_update:
  "{h'. lvl (fs(h := f)) h' > 0} = (if f_eFileLock f > 0 then insert h {h'. lvl fs h' > 0} else {h'. lvl fs h' > 0} - {h})"
  by auto

lemma open_update: "f_open f = f_open (fs h) \<Longrightarrow> {h'. f_open ((fs(h := f)) h')} = {h'. f_open (fs h')}"
  by auto

lemma inode_ok_same:
  assumes "inode_ok i fs" and "f_eFileLock f = lvl fs h" and "f_open f = f_open (fs h)"
  shows "inode_ok i (fs(h := f))"
proof -
  have "lvl (fs(h := f)) = lvl fs" "(\<lambda>h'. f_open ((fs(h := f)) h')) = (\<lambda>h'. f_open (fs h'))"
    using assms(2,3) by auto
  then show ?thesis using assms(1) unfolding inode_ok_def by metis
qed

text \<open>A new SHARED lock, next to others or as the first of the process.\<close>

lemma inode_ok_share:
  assumes "inode_ok i fs" and "lvl fs h = 0" and "f_open (fs h)" and "f_open f" and "f_eFileLock f = 1"
    and "i_eFileLock i \<in> {0, 1, 2}"
  shows "inode_ok (i\<lparr>i_nShared := i_nShared i + 1, i_nLock := i_nLock i + 1,
    i_eFileLock := if i_eFileLock i = 0 then 1 else i_eFileLock i\<rparr>) (fs(h := f))"
proof -
  have "card {h'. lvl (fs(h := f)) h' > 0} \<le> i_nShared i + 1"
    using assms(1,2,5) inode_okD(1) [OF assms(1)] unfolding positive_update by (simp add: inode_ok_def)
  moreover have "{h'. f_open ((fs(h := f)) h')} = {h'. f_open (fs h')}"
    using assms(3,4) by (intro open_update) simp
  moreover have "lvl fs h' \<le> 1" if "i_eFileLock i = 0" for h'
    using inode_okD(2) [OF assms(1), of h'] that by (cases "lvl fs h' > 0") auto
  ultimately show ?thesis
    using assms unfolding inode_ok_def by (auto simp del: One_nat_def)
qed

text \<open>A handle that has the level of the inode gets a new level above SHARED, with the inode.\<close>

lemma inode_ok_raise:
  assumes "inode_ok i fs" and "lvl fs h = i_eFileLock i" and "lvl fs h > 0" and "f_open f"
    and "f_eFileLock f = c" and "1 < c" and "c \<le> 4" and "c = 4 \<longrightarrow> i_nShared i \<le> 1"
  shows "inode_ok (i\<lparr>i_eFileLock := c\<rparr>) (fs(h := f))"
proof -
  have other: "lvl fs h' \<le> 1" if "h' \<noteq> h" for h'
  proof (rule ccontr)
    assume "\<not> lvl fs h' \<le> 1"
    then have "lvl fs h' = i_eFileLock i" "lvl fs h' > 1" using assms(1) by (auto simp: inode_ok_def)
    then have "lvl fs h > 1" using assms(2) by simp
    with \<open>lvl fs h' > 1\<close> that show False using assms(1) by (auto simp: inode_ok_def)
  qed
  define fs' where "fs' = fs(h := f)"
  have pos: "{h'. lvl fs' h' > 0} = {h'. lvl fs h' > 0}"
    using assms(3,5,6) unfolding fs'_def positive_update by auto
  have opn: "{h'. f_open (fs' h')} = {h'. f_open (fs h')}"
    unfolding fs'_def using assms(1,3,4) by (intro open_update) (auto simp: inode_ok_def)
  have "\<forall>h'. lvl fs' h' > 0 \<longrightarrow> f_open (fs' h')"
    using pos opn assms(1) unfolding inode_ok_def by blast
  moreover have top: "lvl fs' h' = c \<and> h' = h" if "lvl fs' h' > 1" for h'
    using that other [of h'] assms(5) by (cases "h' = h") (auto simp: fs'_def)
  moreover from top have "\<forall>h' h''. lvl fs' h' > 1 \<and> lvl fs' h'' > 1 \<longrightarrow> h' = h''" by blast
  moreover have "i_nShared i > 0" using inode_okD(2) [OF assms(1,3)] by simp
  moreover from this assms(8) have "c = 4 \<longrightarrow> i_nShared i = 1" by auto
  ultimately show ?thesis
    unfolding fs'_def [symmetric] using assms(1,6,7) pos opn unfolding inode_ok_def by simp
qed

lemma static_okI: "\<forall>h. \<not> f_excl (fs h) \<Longrightarrow> \<not> f_excl f \<Longrightarrow> inode_ok i (fs(h := f)) \<Longrightarrow> static_ok (Some i) (fs(h := f))"
  by (simp add: static_ok_def)

lemma lock_write_safe:
  assumes ok: "inode_ok i fs" and ne: "\<forall>h. \<not> f_excl (fs h)" and opn: "f_open (fs h)"
    and lv: "lvl fs h = i_eFileLock i" "lvl fs h > 0" "lvl fs h < 4"
    and e: "e = 2 \<and> lvl fs h = 1 \<or> e = 4 \<and> L PENDING_BYTE = F_WRLCK" and b: "backed (i_eFileLock i) L"
  shows "io_safe (lock_write e (fs h) i) L (op_inv fs h 4) False (\<lambda>L x. op_post (Some i) fs h L (keep_inode x))"
proof -
  have inv: "op_inv fs h 4 L" using op_inv_start [OF ok b] by simp
  have sh: "\<forall>b\<in>shared_range. L b \<noteq> F_UNLCK" using b lv by (simp add: backed_def lock_levels)
  have nb: "\<not> i_bProcessLock i" using ok by (simp add: inode_ok_def)
  have up: "static_ok (Some (i\<lparr>i_eFileLock := c\<rparr>)) (fs(h := f))"
    if "f_open f" "\<not> f_excl f" "f_eFileLock f = c" "1 < c" "c \<le> 4" "c = 4 \<longrightarrow> i_nShared i \<le> 1" for f c
    using inode_ok_raise [OF ok lv(1,2)] that ne by (intro static_okI) auto
  have same: "static_ok (Some i) (fs(h := f))"
    if "f_open f" "\<not> f_excl f" "f_eFileLock f = lvl fs h" for f
    using inode_ok_same [OF ok] that ne opn by (intro static_okI) auto
  from e show ?thesis
  proof
    assume e2: "e = 2 \<and> lvl fs h = 1"
    have "weaker L (apply_lock (Flock F_WRLCK RESERVED_BYTE 1) L)" by (simp add: weaker_def)
    from op_inv_keep [OF inv this] show ?thesis
      using e2 ne nb inv sh lv opn b up [of _ 2] same
      by (simp add: lock_write_def lock_result_def lock_levels op_post_def keep_inode_def Let_def)
        (simp add: backed_def lock_levels)
  next
    assume e4: "e = 4 \<and> L PENDING_BYTE = F_WRLCK"
    have "weaker L (apply_lock (Flock F_WRLCK SHARED_FIRST SHARED_SIZE) L)" by (simp add: weaker_def)
    from op_inv_keep [OF inv this] show ?thesis
      using e4 ne nb inv sh lv opn b up [of _ 3] up [of _ 4]
      by (simp add: lock_write_def lock_result_def lock_levels op_post_def keep_inode_def Let_def)
        (simp add: backed_def lock_levels)
  qed
qed

lemma lock_shared_safe:
  assumes ok: "inode_ok i fs" and ne: "\<forall>h. \<not> f_excl (fs h)" and opn: "f_open (fs h)"
    and lv: "lvl fs h = 0" "i_eFileLock i = 0" and L: "L PENDING_BYTE = F_RDLCK"
  shows "io_safe (lock_shared (fs h) i) L (op_inv fs h 4) False (\<lambda>L x. op_post (Some i) fs h L (keep_inode x))"
proof -
  have all0: "lvl fs h' = 0" for h' using inode_okD(3) [OF ok, of h'] lv by simp
  have inv: "op_inv fs h 4 L'" for L' by (simp add: op_inv_def all0)
  have n0: "i_nShared i = 0" "\<not> i_bProcessLock i" using ok lv by (auto simp: inode_ok_def)
  have same: "static_ok (Some i) (fs(h := f))" if "f_open f" "\<not> f_excl f" "f_eFileLock f = 0" for f
    using inode_ok_same [OF ok] that ne opn lv by (intro static_okI) auto
  have new: "static_ok (Some (i\<lparr>i_nLock := i_nLock i + 1, i_nShared := 1, i_eFileLock := 1\<rparr>)) (fs(h := f))"
    if "f_open f" "\<not> f_excl f" "f_eFileLock f = 1" for f
  proof -
    have "i\<lparr>i_nLock := i_nLock i + 1, i_nShared := 1, i_eFileLock := 1\<rparr> =
      i\<lparr>i_nShared := i_nShared i + 1, i_nLock := i_nLock i + 1, i_eFileLock := if i_eFileLock i = 0 then 1 else i_eFileLock i\<rparr>"
      using lv n0 by simp
    then show ?thesis
      using inode_ok_share [OF ok lv(1) opn that(1,3)] lv that ne by (intro static_okI) auto
  qed
  show ?thesis
    using ne n0 inv lv opn new same L
    by (auto simp: lock_shared_def lock_result_def lock_levels op_post_def keep_inode_def Let_def backed_def
        split: option.splits)
qed

lemma unixLock_safe:
  assumes ok: "inode_ok i fs" and ne: "\<forall>h. \<not> f_excl (fs h)" and opn: "f_open (fs h)"
    and req: "request_ok (lvl fs h) e" and b: "backed (i_eFileLock i) L"
  shows "io_safe (unixLock e (fs h) i) L (op_inv fs h 4) (i_eFileLock i = 4) (\<lambda>L x. op_post (Some i) fs h L (keep_inode x))"
proof -
  have inv: "op_inv fs h 4 L" using op_inv_start [OF ok b] by simp
  have nb: "\<not> i_bProcessLock i" using ok by (simp add: inode_ok_def)
  have same: "static_ok (Some i) (fs(h := f))" if "f_open f" "\<not> f_excl f" "f_eFileLock f = lvl fs h" for f
    using inode_ok_same [OF ok] that ne opn by (intro static_okI) auto
  have done_same: "io_safe (Done (rc, f, i)) L (op_inv fs h 4) ex (\<lambda>L x. op_post (Some i) fs h L (keep_inode x))"
    if "f_open f" "\<not> f_excl f" "f_eFileLock f = lvl fs h" for rc f ex
    using same [OF that] inv b by (simp add: op_post_def keep_inode_def)
  consider "lvl fs h \<ge> e \<or> lvl fs h \<noteq> i_eFileLock i \<and> (i_eFileLock i \<ge> 3 \<or> e > 1)"
    | "lvl fs h = 0" "e = 1" "i_eFileLock i = 1 \<or> i_eFileLock i = 2"
    | "lvl fs h = 0" "e = 1" "i_eFileLock i = 0"
    | "lvl fs h = i_eFileLock i" "lvl fs h = 1" "e = 2"
    | "lvl fs h = i_eFileLock i" "lvl fs h < 4" "lvl fs h > 0" "e = 4"
    using req by (fastforce simp: request_ok_def lock_levels)
  note cs = this
  have same_level: "i\<lparr>i_nShared := x, i_nLock := y, i_eFileLock := z\<rparr> = i\<lparr>i_nShared := x, i_nLock := y\<rparr>"
    if "i_eFileLock i = z" for x y z
    using that by (cases i) simp
  show ?thesis using cs
  proof cases
    case 1
    then have "unixLock e (fs h) i = Done (if lvl fs h \<ge> e then SQLITE_OK else SQLITE_BUSY, fs h, i)"
      by (auto simp: unixLock_def lock_levels)
    then show ?thesis using done_same [of "fs h"] opn ne by (simp only:) simp
  next
    case 2
    then have "inode_ok (i\<lparr>i_nShared := i_nShared i + 1, i_nLock := i_nLock i + 1\<rparr>) (fs(h := (fs h)\<lparr>f_eFileLock := 1\<rparr>))"
      using inode_ok_share [OF ok 2(1) opn, of "(fs h)\<lparr>f_eFileLock := 1\<rparr>"] opn
      by (elim disjE) (simp_all add: same_level del: One_nat_def)
    then have "static_ok (Some (i\<lparr>i_nShared := i_nShared i + 1, i_nLock := i_nLock i + 1\<rparr>)) (fs(h := (fs h)\<lparr>f_eFileLock := 1\<rparr>))"
      using ne by (intro static_okI) auto
    then show ?thesis
      using 2 inv b by (auto simp: unixLock_def lock_levels op_post_def keep_inode_def)
  next
    case 3
    have "io_safe (lock_shared (fs h) i) (apply_lock (Flock F_RDLCK PENDING_BYTE 1) L) (op_inv fs h 4) False
        (\<lambda>L x. op_post (Some i) fs h L (keep_inode x))"
      using lock_shared_safe [OF ok ne opn] 3 by simp
    then show ?thesis
      using 3 inv nb ne done_same opn by (simp add: unixLock_def lock_levels Let_def)
  next
    case 4
    then show ?thesis
      using lock_write_safe [OF ok ne opn, of 2 L] b by (simp add: unixLock_def lock_levels)
  next
    case 5
    show ?thesis
    proof (cases "lvl fs h < 3")
      case True
      have w: "weaker L (apply_lock (Flock F_WRLCK PENDING_BYTE 1) L)" by (simp add: weaker_def)
      have "backed (i_eFileLock i) (apply_lock (Flock F_WRLCK PENDING_BYTE 1) L)" using backed_keep [OF b w] .
      then have "io_safe (lock_write 4 (fs h) i) (apply_lock (Flock F_WRLCK PENDING_BYTE 1) L) (op_inv fs h 4) False
          (\<lambda>L x. op_post (Some i) fs h L (keep_inode x))"
        using lock_write_safe [OF ok ne opn] 5 by simp
      then show ?thesis
        using 5 True inv nb ne done_same opn by (simp add: unixLock_def lock_levels Let_def)
    next
      case False
      then have "L PENDING_BYTE = F_WRLCK" using b 5 by (simp add: backed_def lock_levels)
      then show ?thesis
        using lock_write_safe [OF ok ne opn, of 4 L] b 5 False by (simp add: unixLock_def lock_levels)
    qed
  qed
qed

text \<open>Unlocking: a handle gives up its level above SHARED, or its SHARED lock.\<close>

lemma inode_ok_lower:
  assumes "inode_ok i fs" and "lvl fs h > 1" and "f_open f" and "f_eFileLock f = c" and "c \<le> 1 \<or> c = lvl fs h"
    and "c \<le> 1 \<longrightarrow> i' = i\<lparr>i_eFileLock := 1\<rparr>" and "c > 1 \<longrightarrow> i' = i" and "c \<noteq> 0"
  shows "inode_ok i' (fs(h := f))"
proof (cases "c = 1")
  case True
  define fs' where "fs' = fs(h := f)"
  have hp: "lvl fs h > 0" using assms(2) by simp
  have pos: "{h'. lvl fs' h' > 0} = {h'. lvl fs h' > 0}"
    using True assms(4) hp unfolding fs'_def positive_update by auto
  have opn: "{h'. f_open (fs' h')} = {h'. f_open (fs h')}"
    unfolding fs'_def using assms(1,3) hp by (intro open_update) (auto simp: inode_ok_def)
  have "lvl fs h' \<le> 1" if "h' \<noteq> h" for h'
    using assms(1,2) that by (auto simp: inode_ok_def not_less [symmetric])
  then have "lvl fs' h' \<le> 1" for h' using True assms(4) by (auto simp: fs'_def)
  moreover have "i_nShared i > 0" using inode_okD(2) [OF assms(1) hp] by simp
  moreover have "\<forall>h'. lvl fs' h' > 0 \<longrightarrow> f_open (fs' h')"
    using pos opn assms(1) unfolding inode_ok_def by blast
  ultimately show ?thesis
    unfolding fs'_def [symmetric] using assms(1,6) True pos opn unfolding inode_ok_def by (simp add: leD)
next
  case False
  then have "c > 1" "f_open (fs h)" using assms(1,2,8) by (auto simp: inode_ok_def)
  then show ?thesis using inode_ok_same [OF assms(1), of f h] assms(3-5,7) by simp
qed

text \<open>The release of the last level, from a state in which the handle has no more than SHARED.\<close>

lemma inode_ok_drop:
  assumes "inode_ok i fs" and "lvl fs h = 1" and "f_open f" and "f_eFileLock f = 0"
    and "i_eFileLock i' = (if i_nShared i = 1 then 0 else i_eFileLock i)"
    and "i_nShared i' = i_nShared i - 1" and "i_nLock i' = i_nLock i - 1" and "i_nRef i' = i_nRef i"
    and "i_bProcessLock i' = i_bProcessLock i"
  shows "inode_ok i' (fs(h := f))"
proof -
  define fs' where "fs' = fs(h := f)"
  have hp: "lvl fs h > 0" using assms(2) by simp
  have pos: "{h'. lvl fs' h' > 0} = {h'. lvl fs h' > 0} - {h}"
    using assms(4) unfolding fs'_def positive_update by auto
  have n: "i_nShared i > 0" using inode_okD(2) [OF assms(1) hp] by simp
  have cd: "card {h'. lvl fs' h' > 0} \<le> i_nShared i'"
    unfolding pos using inode_okD(1) [OF assms(1)] hp assms(1,6)
    by (simp add: card_Diff_singleton inode_ok_def diff_le_mono)
  have opn: "{h'. f_open (fs' h')} = {h'. f_open (fs h')}"
    unfolding fs'_def using assms(1,3) hp by (intro open_update) (auto simp: inode_ok_def)
  have up: "lvl fs' h' > 1 \<Longrightarrow> lvl fs h' > 1 \<and> lvl fs' h' = lvl fs h' \<and> i_nShared i \<noteq> 1" for h'
  proof -
    assume a: "lvl fs' h' > 1"
    then have "h' \<noteq> h" "lvl fs h' > 1" "lvl fs' h' = lvl fs h'" using assms(4) by (auto simp: fs'_def split: if_splits)
    then show ?thesis using inode_okD(4) [OF assms(1) hp, of h'] by auto
  qed
  have k: "\<forall>h. lvl fs h > 1 \<longrightarrow> lvl fs h = i_eFileLock i" "i_eFileLock i = 0 \<longleftrightarrow> i_nShared i = 0" "i_eFileLock i \<le> 4"
    "i_eFileLock i = 4 \<longrightarrow> i_nShared i = 1"
    using assms(1) unfolding inode_ok_def by blast+
  have 1: "\<forall>h'. lvl fs' h' > 0 \<longrightarrow> f_open (fs' h')"
  proof (intro allI impI)
    fix h' assume "lvl fs' h' > 0"
    then have "h' \<in> {h'. lvl fs h' > 0} - {h}" using pos by blast
    then have "h' \<in> {h'. f_open (fs h')}" using assms(1) by (simp add: inode_ok_def)
    then show "f_open (fs' h')" using opn by blast
  qed
  have 2: "\<forall>h'. lvl fs' h' > 1 \<longrightarrow> lvl fs' h' = i_eFileLock i'"
  proof (intro allI impI)
    fix h' assume "lvl fs' h' > 1"
    from up [OF this] show "lvl fs' h' = i_eFileLock i'" using k(1) assms(5) by simp
  qed
  have 3: "\<forall>h' h''. lvl fs' h' > 1 \<and> lvl fs' h'' > 1 \<longrightarrow> h' = h''"
    using up assms(1) unfolding inode_ok_def by blast
  have 4: "\<not> i_bProcessLock i'" "finite {h'. f_open (fs' h')}" "i_nRef i' = card {h'. f_open (fs' h')}" "i_nRef i' > 0"
    "i_nLock i' = i_nShared i'"
    using assms(1,6-9) unfolding opn inode_ok_def by simp_all
  have 5: "i_eFileLock i' = 0 \<longleftrightarrow> i_nShared i' = 0" "i_eFileLock i' \<le> 4" "i_eFileLock i' = 4 \<longrightarrow> i_nShared i' = 1"
    using k(2-4) assms(5,6) n by (cases "i_nShared i = 1"; simp)+
  show ?thesis
    unfolding fs'_def [symmetric] inode_ok_def by (intro conjI 1 2 3 4 5 cd)
qed

lemma op_inv_idle: "\<forall>h'. h' \<noteq> h \<longrightarrow> lvl fs h' = 0 \<Longrightarrow> op_inv fs h 0 L"
  by (simp add: op_inv_def)

lemma close_fds_safe:
  "op_inv fs h 0 L \<Longrightarrow> op_inv fs h 0 (\<lambda>_. F_UNLCK) \<Longrightarrow>
   (\<And>L'. L' = L \<or> L' = (\<lambda>_. F_UNLCK) \<Longrightarrow> io_safe m L' (op_inv fs h 0) ex Q) \<Longrightarrow>
   io_safe (close_fds n m) L (op_inv fs h 0) ex Q"
proof (induction n arbitrary: L)
  case (Suc n)
  then show ?case by (simp only: close_fds.simps io_safe.simps) blast
qed simp

lemma unlock_none_safe:
  assumes ok: "inode_ok i (fs(h := g))" and g: "f_eFileLock g = 1" "f_open g"
    and f: "f_open f" "\<not> f_excl f" and b: "backed (i_eFileLock i) L" and inv: "op_inv fs h 0 L"
    and K: "\<And>rc f' i' L'. inode_ok i' (fs(h := f')) \<Longrightarrow> f_open f' \<Longrightarrow> \<not> f_excl f' \<Longrightarrow> backed (i_eFileLock i') L' \<Longrightarrow>
      (i_eFileLock i' = 4 \<Longrightarrow> i_eFileLock i = 4) \<Longrightarrow> op_inv fs h 0 L' \<Longrightarrow> io_safe (cont rc f' i') L' (op_inv fs h 0) ex Q"
  shows "io_safe (unlock_none f i cont) L (op_inv fs h 0) ex Q"
proof -
  have nb: "\<not> i_bProcessLock i" and nl: "i_nLock i = i_nShared i" and np: "i_nShared i > 0"
    using inode_ok_basic(1,2) [OF ok] inode_okD(2) [OF ok, of h] g by simp_all
  have drop: "inode_ok i' (fs(h := f'))" if "f_open f'" "f_eFileLock f' = 0"
    "i_eFileLock i' = (if i_nShared i = 1 then 0 else i_eFileLock i)" "i_nShared i' = i_nShared i - 1"
    "i_nLock i' = i_nLock i - 1" "i_nRef i' = i_nRef i" "\<not> i_bProcessLock i'" for f' i'
    using inode_ok_drop [OF ok, of h f' i'] that g nb by simp
  have alone: "op_inv fs h 0 L'" if "i_nShared i = 1" for L'
  proof (rule op_inv_idle, intro allI impI)
    fix h' assume "h' \<noteq> h"
    then show "lvl fs h' = 0" using inode_okD(4) [OF ok, of h h'] g that by (cases "lvl fs h' > 0") auto
  qed
  show ?thesis
  proof (cases "i_nShared i = 1")
    case True
    have step: "io_safe (close_fds n (unlock_end NO_LOCK rc f' i' cont)) L' (op_inv fs h 0) ex Q"
      if "f_open f'" "\<not> f_excl f'" "rc \<noteq> SQLITE_OK \<longrightarrow> f_eFileLock f' = 0" "i_eFileLock i' = 0" "i_nShared i' = 0"
        "i_nLock i' = 0" "i_nRef i' = i_nRef i" "\<not> i_bProcessLock i'" for n rc f' i' L'
    proof (rule close_fds_safe [OF alone [OF True] alone [OF True]])
      fix L'' 
      show "io_safe (unlock_end NO_LOCK rc f' i' cont) L'' (op_inv fs h 0) ex Q"
        unfolding unlock_end_def
        using that nl True by (intro K drop alone [OF True]) (auto simp: lock_levels)
    qed
    define i1 where "i1 = i\<lparr>i_nShared := 0, i_eFileLock := 0, i_nLock := 0, i_nUnused := 0\<rparr>"
    have "unlock_none f i cont = Setlk (Flock F_UNLCK 0 0) (\<lambda>e. close_fds (i_nUnused i) (case e of
        None \<Rightarrow> unlock_end NO_LOCK SQLITE_OK f i1 cont
      | Some e \<Rightarrow> unlock_end NO_LOCK SQLITE_IOERR_UNLOCK (f\<lparr>f_lastErrno := Some e, f_eFileLock := NO_LOCK\<rparr>) i1 cont))"
      unfolding unlock_none_def Let_def closePendingFds_def i1_def
      using True nb nl f(2) by (simp add: lock_levels cong: option.case_cong) (rule ext, simp split: option.split)
    moreover have "io_safe (close_fds (i_nUnused i) (unlock_end NO_LOCK SQLITE_OK f i1 cont)) L' (op_inv fs h 0) ex Q" for L'
      using f nb by (intro step) (simp_all add: i1_def)
    moreover have "io_safe (close_fds (i_nUnused i) (unlock_end NO_LOCK SQLITE_IOERR_UNLOCK
        (f\<lparr>f_lastErrno := Some e, f_eFileLock := NO_LOCK\<rparr>) i1 cont)) L' (op_inv fs h 0) ex Q" for e L'
      using f nb by (intro step) (simp_all add: i1_def lock_levels)
    ultimately show ?thesis using inv by simp
  next
    case False
    define i1 where "i1 = i\<lparr>i_nShared := i_nShared i - 1, i_nLock := i_nLock i - 1\<rparr>"
    have "unlock_none f i cont = cont SQLITE_OK (f\<lparr>f_eFileLock := NO_LOCK\<rparr>) i1"
      using False nl np by (simp add: unlock_none_def Let_def unlock_end_def i1_def)
    moreover have "inode_ok i1 (fs(h := f\<lparr>f_eFileLock := NO_LOCK\<rparr>))"
      using f False nb by (intro drop) (simp_all add: i1_def lock_levels)
    ultimately show ?thesis
      using f b inv by (simp only:) (intro K; simp add: i1_def)
  qed
qed

text \<open>The handle has a level above SHARED and the shared range is locked: claims up to SHARED are backed.\<close>

lemma op_inv_shared:
  assumes "inode_ok i fs" and "lvl fs h > 1" and "c \<le> 1" and "\<forall>b\<in>shared_range. L b \<noteq> F_UNLCK"
  shows "op_inv fs h c L"
  unfolding op_inv_def
proof
  fix h'
  have "lvl fs h' \<le> 1" if "h' \<noteq> h"
    using assms(1,2) that unfolding inode_ok_def by (metis not_le)
  then have "(if h' = h then min (lvl fs h) c else lvl fs h') \<le> 1" using assms(3) by (auto simp: min_def)
  then show "backed (if h' = h then min (lvl fs h) c else lvl fs h') L"
    using assms(4) by (simp add: backed_def lock_levels)
qed

lemma unlock_pending_safe:
  assumes ok: "inode_ok i fs" and ne: "\<not> f_excl (fs h)" and opn: "f_open (fs h)" and c: "c \<le> 1" and hi: "lvl fs h > 1"
    and L: "\<forall>b\<in>shared_range. L b \<noteq> F_UNLCK" and b: "backed (i_eFileLock i) L"
    and K: "\<And>rc f i' L'. inode_ok i' (fs(h := f)) \<Longrightarrow> f_open f \<Longrightarrow> \<not> f_excl f \<Longrightarrow> backed (i_eFileLock i') L' \<Longrightarrow>
      (i_eFileLock i' = 4 \<Longrightarrow> i_eFileLock i = 4) \<Longrightarrow> op_inv fs h c L' \<Longrightarrow> io_safe (cont rc f i') L' (op_inv fs h c) ex Q"
  shows "io_safe (unlock_pending c (fs h) i cont) L (op_inv fs h c) ex Q"
proof -
  define i1 where "i1 = i\<lparr>i_eFileLock := SHARED_LOCK\<rparr>"
  define L2 where "L2 = apply_lock (Flock F_UNLCK PENDING_BYTE 2) L"
  note inv = op_inv_shared [OF ok hi c]
  have L2: "\<forall>b\<in>shared_range. L2 b \<noteq> F_UNLCK" using L by (simp add: L2_def)
  have b2: "backed (i_eFileLock i1) L2" using L2 by (simp add: backed_def lock_levels i1_def)
  have low: "inode_ok i1 (fs(h := (fs h)\<lparr>f_eFileLock := 1\<rparr>))"
    using inode_ok_lower [OF ok hi, of "(fs h)\<lparr>f_eFileLock := 1\<rparr>" 1 i1] opn by (simp add: lock_levels i1_def)
  have "inode_ok i (fs(h := (fs h)\<lparr>f_lastErrno := Some e\<rparr>))" for e
    using inode_ok_same [OF ok, of "(fs h)\<lparr>f_lastErrno := Some e\<rparr>" h] opn by simp
  then have err: "io_safe (unlock_end c SQLITE_IOERR_UNLOCK ((fs h)\<lparr>f_lastErrno := Some e\<rparr>) i cont) L (op_inv fs h c) ex Q" for e
    unfolding unlock_end_def using opn ne b inv [OF L] by (simp add: K)
  have "io_safe (if c = NO_LOCK then unlock_none (fs h) i1 cont else unlock_end c SQLITE_OK (fs h) i1 cont)
      L2 (op_inv fs h c) ex Q"
  proof (cases "c = 0")
    case True
    have "io_safe (unlock_none (fs h) i1 cont) L2 (op_inv fs h 0) ex Q"
      using opn ne b2 inv [OF L2] True K
      by (intro unlock_none_safe [OF low]) (auto simp: i1_def lock_levels)
    then show ?thesis using True by (simp add: lock_levels)
  next
    case False
    then have "c = 1" using c by simp
    then show ?thesis
      unfolding unlock_end_def using K [OF low _ _ b2, of SQLITE_OK] opn ne inv [OF L2]
      by (simp add: lock_levels i1_def)
  qed
  then show ?thesis
    unfolding unlock_pending_def Let_def i1_def [symmetric] using inode_ok_basic(1) [OF ok] ne err inv [OF L]
    by (simp add: L2_def i1_def split: if_splits)
qed

lemma posixUnlock_safe:
  assumes ok: "inode_ok i fs" and ne: "\<not> f_excl (fs h)" and opn: "f_open (fs h)" and c: "c \<le> 1"
    and b: "backed (i_eFileLock i) L"
    and K: "\<And>rc f i' L'. inode_ok i' (fs(h := f)) \<Longrightarrow> f_open f \<Longrightarrow> \<not> f_excl f \<Longrightarrow> backed (i_eFileLock i') L' \<Longrightarrow>
      (i_eFileLock i' = 4 \<Longrightarrow> i_eFileLock i = 4) \<Longrightarrow> op_inv fs h c L' \<Longrightarrow> io_safe (cont rc f i') L' (op_inv fs h c) ex Q"
  shows "io_safe (posixUnlock c (fs h) i cont) L (op_inv fs h c) ex Q"
proof -
  have inv: "op_inv fs h c L" using op_inv_start [OF ok b] c by simp
  have same: "io_safe (cont rc f i) L (op_inv fs h c) ex Q"
    if "f_open f" "\<not> f_excl f" "f_eFileLock f = lvl fs h" for rc f
    using that inode_ok_same [OF ok, of f h] opn b inv by (intro K) auto
  consider "lvl fs h \<le> c" | "lvl fs h = 1" "c = 0" | "lvl fs h > 1"
    using c by linarith
  then show ?thesis
  proof cases
    case 1
    then show ?thesis using same [of "fs h"] opn ne by (simp add: posixUnlock_def)
  next
    case 2
    have "io_safe (unlock_none (fs h) i cont) L (op_inv fs h 0) ex Q"
      using ok 2 opn ne b inv K by (intro unlock_none_safe [where g = "fs h"]) simp_all
    then show ?thesis using 2 by (simp add: posixUnlock_def lock_levels)
  next
    case 3
    have "i_eFileLock i = lvl fs h" using ok 3 unfolding inode_ok_def by metis
    then have sh: "\<forall>b\<in>shared_range. L b \<noteq> F_UNLCK" using b 3 by (simp add: backed_def lock_levels)
    show ?thesis
    proof (cases "c = 1")
      case True
      define L1 where "L1 = apply_lock (Flock F_RDLCK SHARED_FIRST SHARED_SIZE) L"
      have "\<forall>b\<in>shared_range. L1 b \<noteq> F_UNLCK" "backed (i_eFileLock i) L1"
        using b by (simp_all add: backed_def L1_def)
      then have "io_safe (unlock_pending c (fs h) i cont) L1 (op_inv fs h c) ex Q"
        by (rule unlock_pending_safe [OF ok ne opn c 3]) (rule K)
      then show ?thesis
        using True 3 inode_ok_basic(1) [OF ok] ne inv sh same opn
        by (simp add: posixUnlock_def unlock_end_def lock_levels L1_def)
    next
      case False
      have "io_safe (unlock_pending c (fs h) i cont) L (op_inv fs h c) ex Q"
        by (rule unlock_pending_safe [OF ok ne opn c 3 sh b]) (rule K)
      with False show ?thesis using c 3 by (simp add: posixUnlock_def lock_levels)
    qed
  qed
qed

lemma unixUnlock_safe:
  assumes "inode_ok i fs" and "\<forall>h. \<not> f_excl (fs h)" and "f_open (fs h)" and "c \<le> 1" and "backed (i_eFileLock i) L"
  shows "io_safe (unixUnlock c (fs h) i) L (op_inv fs h c) ex (\<lambda>L x. op_post (Some i) fs h L (keep_inode x))"
  unfolding unixUnlock_def
proof (rule posixUnlock_safe)
  fix rc f i' L'
  assume "inode_ok i' (fs(h := f))" "f_open f" "\<not> f_excl f" "backed (i_eFileLock i') L'"
    "i_eFileLock i' = 4 \<Longrightarrow> i_eFileLock i = 4" "op_inv fs h c L'"
  then show "io_safe (Done (rc, f, i')) L' (op_inv fs h c) ex (\<lambda>L x. op_post (Some i) fs h L (keep_inode x))"
    using static_okI [of fs f i' h] assms(2) by (auto simp: op_post_def keep_inode_def)
qed (use assms in auto)

text \<open>Closing: the handle disappears; with it the inode object, if it was the last one.\<close>

lemma open_close:
  assumes "inode_ok i (fs(h := f))" and "f_open f"
  shows "{h'. f_open ((fs(h := closed_file)) h')} = {h'. f_open ((fs(h := f)) h')} - {h}"
    and "card {h'. f_open ((fs(h := closed_file)) h')} = i_nRef i - 1"
proof -
  show eq: "{h'. f_open ((fs(h := closed_file)) h')} = {h'. f_open ((fs(h := f)) h')} - {h}"
    by (auto simp: closed_file_def)
  have "finite {h'. f_open ((fs(h := f)) h')}" "i_nRef i = card {h'. f_open ((fs(h := f)) h')}"
    using assms(1) unfolding inode_ok_def by blast+
  then show "card {h'. f_open ((fs(h := closed_file)) h')} = i_nRef i - 1"
    using assms(2) unfolding eq by (simp add: card_Diff_singleton)
qed

lemma inode_ok_close:
  assumes "inode_ok i (fs(h := f))" and "f_open f" and "i_nRef i > 1"
  shows "inode_ok (i\<lparr>i_nUnused := n, i_nRef := i_nRef i - 1\<rparr>) (fs(h := closed_file))"
proof -
  define fs1 where "fs1 = fs(h := f)"
  define fs2 where "fs2 = fs(h := closed_file)"
  have oc: "{h'. f_open (fs2 h')} = {h'. f_open (fs1 h')} - {h}" "card {h'. f_open (fs2 h')} = i_nRef i - 1"
    using open_close [OF assms(1,2)] by (simp_all add: fs1_def fs2_def)
  have ok: "inode_ok i fs1" using assms(1) by (simp add: fs1_def)
  have lv: "lvl fs2 h' = (if h' = h then 0 else lvl fs1 h')" for h' by (simp add: fs1_def fs2_def closed_file_def)
  have "{h'. lvl fs2 h' > 0} \<subseteq> {h'. lvl fs1 h' > 0}" using lv by auto
  then have 1: "card {h'. lvl fs2 h' > 0} \<le> i_nShared i"
    using card_mono [OF inode_okD(1) [OF ok]] ok unfolding inode_ok_def by (meson order_trans)
  have k: "\<forall>h'. lvl fs1 h' > 0 \<longrightarrow> f_open (fs1 h')" "\<forall>h'. lvl fs1 h' > 1 \<longrightarrow> lvl fs1 h' = i_eFileLock i"
    "\<forall>h' h''. lvl fs1 h' > 1 \<and> lvl fs1 h'' > 1 \<longrightarrow> h' = h''"
    using ok unfolding inode_ok_def by blast+
  have 2: "\<forall>h'. lvl fs2 h' > 0 \<longrightarrow> f_open (fs2 h')"
  proof (intro allI impI)
    fix h' assume "lvl fs2 h' > 0"
    then have "h' \<noteq> h" "lvl fs1 h' > 0" by (simp_all add: lv split: if_splits)
    with k(1) have "f_open (fs1 h')" by blast
    with \<open>h' \<noteq> h\<close> show "f_open (fs2 h')" by (simp add: fs1_def fs2_def)
  qed
  have 3: "\<forall>h'. lvl fs2 h' > 1 \<longrightarrow> lvl fs2 h' = i_eFileLock i" using k(2) by (simp add: lv)
  have 4: "\<forall>h' h''. lvl fs2 h' > 1 \<and> lvl fs2 h'' > 1 \<longrightarrow> h' = h''" using k(3) by (simp add: lv)
  have 5: "finite {h'. f_open (fs2 h')}"
    using ok unfolding oc(1) inode_ok_def by (intro finite_Diff) blast
  show ?thesis
    using inode_ok_basic [OF ok] 1 2 3 4 5 oc(2) assms(3)
    unfolding fs2_def [symmetric] inode_ok_def by simp
qed

lemma static_closed:
  assumes "inode_ok i (fs(h := f))" and "f_open f" and "i_nRef i - 1 = 0"
    and "\<forall>h. \<not> f_excl (fs h)"
  shows "static_ok None (fs(h := closed_file))" and "\<forall>h'. h' \<noteq> h \<longrightarrow> lvl fs h' = 0"
proof -
  have "finite {h'. f_open ((fs(h := f)) h')}" using assms(1) unfolding inode_ok_def by blast
  then have none: "{h'. f_open ((fs(h := closed_file)) h')} = {}"
    using open_close [OF assms(1,2)] assms(3) by simp
  then have no: "\<not> f_open (fs h')" if "h' \<noteq> h" for h' using that by fastforce
  then have z: "lvl fs h' = 0" if "h' \<noteq> h" for h'
    using assms(1) that unfolding inode_ok_def by (metis fun_upd_other gr0I)
  then show "\<forall>h'. h' \<noteq> h \<longrightarrow> lvl fs h' = 0" by blast
  show "static_ok None (fs(h := closed_file))"
    using no z assms(4) by (auto simp: static_ok_def closed_file_def)
qed

lemma unixClose_safe:
  assumes ok: "inode_ok i fs" and ne: "\<forall>h. \<not> f_excl (fs h)" and opn: "f_open (fs h)" and b: "backed (i_eFileLock i) L"
  shows "io_safe (unixClose (fs h) i) L (op_inv fs h 0) ex (op_post (Some i) fs h)"
  unfolding unixClose_def lock_levels
proof (rule posixUnlock_safe [OF ok _ opn _ b])
  fix rc f i' L'
  assume ok': "inode_ok i' (fs(h := f))" and f: "f_open f" and b': "backed (i_eFileLock i') L'"
    and e4: "i_eFileLock i' = 4 \<Longrightarrow> i_eFileLock i = 4" and inv: "op_inv fs h 0 L'"
  have keep: "op_post (Some i) fs h L' (SQLITE_OK, closed_file, Some (i'\<lparr>i_nUnused := n, i_nRef := i_nRef i' - 1\<rparr>))"
    if "i_nRef i' - 1 \<noteq> 0" for n
    using static_okI [OF ne _ inode_ok_close [OF ok' f]] that b' e4 by (auto simp: op_post_def closed_file_def)
  have none: "op_post (Some i) fs h L'' (SQLITE_OK, closed_file, None)" "op_inv fs h 0 L''" if "i_nRef i' - 1 = 0" for L''
    using static_closed [OF ok' f that ne] by (auto simp: op_post_def intro: op_inv_idle)
  have idle: "op_inv fs h 0 L''" "op_post (Some i) fs h L'' (SQLITE_OK, closed_file, Some (i'\<lparr>i_nRef := i_nRef i' - 1\<rparr>))"
    if "i_nLock i' = 0" "i_nRef i' - 1 \<noteq> 0" for L''
  proof -
    have z: "i_nShared i' = 0" "i_eFileLock i' = 0" using inode_ok_basic(2,3) [OF ok'] that by auto
    have "lvl fs h' = 0" if "h' \<noteq> h" for h'
      using inode_okD(3) [OF ok', of h'] z that by simp
    then show "op_inv fs h 0 L''" by (simp add: op_inv_idle)
    have "i'\<lparr>i_nRef := i_nRef i' - 1\<rparr> = i'\<lparr>i_nUnused := i_nUnused i', i_nRef := i_nRef i' - 1\<rparr>" by simp
    then show "op_post (Some i) fs h L'' (SQLITE_OK, closed_file, Some (i'\<lparr>i_nRef := i_nRef i' - 1\<rparr>))"
      using static_okI [OF ne _ inode_ok_close [OF ok' f, of "i_nUnused i'"]] that z
      by (auto simp: op_post_def closed_file_def)
  qed
  show "io_safe (if i_nLock i' \<noteq> 0
      then releaseInodeInfo (i'\<lparr>i_nUnused := i_nUnused i' + 1\<rparr>) (\<lambda>pInode. Done (SQLITE_OK, closed_file, pInode))
      else releaseInodeInfo i' (\<lambda>pInode. Close_Fd (Done (SQLITE_OK, closed_file, pInode)))) L' (op_inv fs h 0) ex (op_post (Some i) fs h)"
    using inv keep none idle
    by (auto simp: releaseInodeInfo_def closePendingFds_def Let_def intro!: close_fds_safe)
qed (use ne in auto)

section \<open>All processes\<close>

definition proc_inv :: "locks \<Rightarrow> process \<Rightarrow> bool" where
  "proc_inv L P \<longleftrightarrow> static_ok (p_inode P) (p_file P) \<and>
     (case p_op P of
        None \<Rightarrow> backed (level (p_inode P)) L
      | Some (h, c, m) \<Rightarrow> io_safe m L (op_inv (p_file P) h c) (level (p_inode P) = 4) (op_post (p_inode P) (p_file P) h))"

text \<open>No byte is write-locked by one process and locked by another, and a process whose inode is at EXCLUSIVE and
  that holds the pending byte has the shared range for itself.\<close>

definition os_inv :: "(nat \<Rightarrow> locks) \<Rightarrow> bool" where
  "os_inv os \<longleftrightarrow> (\<forall>p q b. p \<noteq> q \<and> os p b = F_WRLCK \<longrightarrow> os q b = F_UNLCK)"

definition excl_inv :: "world \<Rightarrow> bool" where
  "excl_inv w \<longleftrightarrow> (\<forall>p q. p \<noteq> q \<and> level (p_inode (w_proc w p)) = 4 \<and> w_os w p PENDING_BYTE = F_WRLCK \<longrightarrow>
     (\<forall>b\<in>shared_range. w_os w q b = F_UNLCK))"

definition world_inv :: "world \<Rightarrow> bool" where
  "world_inv w \<longleftrightarrow> (\<forall>p. proc_inv (w_os w p) (w_proc w p)) \<and> os_inv (w_os w) \<and> excl_inv w"

lemma set_proc_simps [simp]:
  "w_os (set_proc w p P) = w_os w" "w_proc (set_proc w p P) = (w_proc w)(p := P)"
  by (simp_all add: set_proc_def)

lemma findInodeInfo_ok:
  assumes "static_ok oi fs" and "\<not> f_open (fs h)" and "backed (level oi) L"
  shows "static_ok (Some (findInodeInfo oi)) (fs(h := closed_file\<lparr>f_open := True, f_rdonly := r\<rparr>))"
    and "level (Some (findInodeInfo oi)) = level oi"
proof -
  show "level (Some (findInodeInfo oi)) = level oi"
    by (cases oi) (simp_all add: findInodeInfo_def new_inode_def)
  define fs' where "fs' = fs(h := closed_file\<lparr>f_open := True, f_rdonly := r\<rparr>)"
  have ex: "\<forall>h. \<not> f_excl (fs' h)" using assms(1) by (simp add: fs'_def static_ok_def closed_file_def)
  have h0: "lvl fs h = 0" using assms(1,2) by (cases oi) (auto simp: static_ok_def inode_ok_def)
  then have lv: "lvl fs' h' = lvl fs h'" for h' by (simp add: fs'_def closed_file_def)
  have op: "{h'. f_open (fs' h')} = insert h {h'. f_open (fs h')}" by (auto simp: fs'_def)
  have "inode_ok (findInodeInfo oi) fs'"
  proof (cases oi)
    case None
    then have "\<forall>h'. \<not> f_open (fs h') \<and> lvl fs h' = 0" using assms(1) by (simp add: static_ok_def)
    then show ?thesis
      using None unfolding inode_ok_def lv op by (simp add: findInodeInfo_def new_inode_def)
  next
    case (Some i)
    then have ok: "inode_ok i fs" using assms(1) by (simp add: static_ok_def)
    have "\<forall>h'. lvl fs h' > 0 \<longrightarrow> f_open (fs' h')" using ok h0 by (auto simp: inode_ok_def fs'_def)
    moreover have "finite {h'. f_open (fs h')}" using ok unfolding inode_ok_def by blast
    ultimately show ?thesis
      using ok assms(2) Some unfolding inode_ok_def lv op by (simp add: findInodeInfo_def)
  qed
  then show "static_ok (Some (findInodeInfo oi)) (fs(h := closed_file\<lparr>f_open := True, f_rdonly := r\<rparr>))"
    using ex by (simp add: static_ok_def fs'_def)
qed

lemma idle_inode_ok:
  assumes "proc_inv L P" and "p_op P = None" and "p_inode P = Some i"
  shows "inode_ok i (p_file P)" and "\<forall>h. \<not> f_excl (p_file P h)" and "backed (i_eFileLock i) L"
  using assms by (simp_all add: proc_inv_def static_ok_def)

text \<open>A step of process \<open>p\<close> that changes no locks of the system and leaves the invariant of the process.\<close>

lemma world_inv_local:
  assumes "world_inv w" and "proc_inv (w_os w p) P'"
    and "level (p_inode P') = 4 \<Longrightarrow> level (p_inode (w_proc w p)) \<noteq> 4 \<Longrightarrow> \<forall>b\<in>shared_range. w_os w p b = F_WRLCK"
  shows "world_inv (set_proc w p P')"
proof -
  have "excl_inv (set_proc w p P')"
    unfolding excl_inv_def
  proof (intro allI impI)
    fix q r assume a: "q \<noteq> r \<and> level (p_inode (w_proc (set_proc w p P') q)) = 4 \<and> w_os (set_proc w p P') q PENDING_BYTE = F_WRLCK"
    show "\<forall>b\<in>shared_range. w_os (set_proc w p P') r b = F_UNLCK"
    proof (cases "q = p \<and> level (p_inode (w_proc w p)) \<noteq> 4")
      case True
      then have "\<forall>b\<in>shared_range. w_os w p b = F_WRLCK" using a assms(3) by simp
      then show ?thesis using True a assms(1) by (auto simp: world_inv_def os_inv_def)
    next
      case False
      then have "level (p_inode (w_proc w q)) = 4" using a by (auto split: if_splits)
      then show ?thesis using a assms(1) by (auto simp: world_inv_def excl_inv_def)
    qed
  qed
  then show ?thesis using assms(1,2) by (simp add: world_inv_def)
qed

text \<open>A step of process \<open>p\<close> that replaces its locks by weaker ones or by locks nobody else is in the way of.\<close>

lemma excl_inv_os:
  assumes "world_inv w" and "p_inode P' = p_inode (w_proc w p)"
    and "os_inv ((w_os w)(p := L))"
    and "\<forall>b\<in>shared_range. L b \<noteq> F_UNLCK \<and> w_os w p b = F_UNLCK \<longrightarrow> w_os w p PENDING_BYTE \<noteq> F_UNLCK"
    and "level (p_inode (w_proc w p)) = 4 \<Longrightarrow> w_os w p PENDING_BYTE \<noteq> F_WRLCK \<Longrightarrow> L PENDING_BYTE \<noteq> F_WRLCK"
  shows "excl_inv ((set_proc w p P')\<lparr>w_os := (w_os w)(p := L)\<rparr>)"
  unfolding excl_inv_def
proof (intro allI impI ballI)
  fix q r b
  let ?w = "(set_proc w p P')\<lparr>w_os := (w_os w)(p := L)\<rparr>"
  assume a: "q \<noteq> r \<and> level (p_inode (w_proc ?w q)) = 4 \<and> w_os ?w q PENDING_BYTE = F_WRLCK" and b: "b \<in> shared_range"
  have lv: "level (p_inode (w_proc w q)) = 4" using a assms(2) by (auto split: if_splits)
  have pd: "w_os w q PENDING_BYTE = F_WRLCK"
    using a lv assms(5) by (cases "q = p") auto
  have old: "w_os w r b = F_UNLCK"
    using assms(1) a lv pd b by (auto simp: world_inv_def excl_inv_def)
  have oi: "os_inv (w_os w)" using assms(1) by (simp add: world_inv_def)
  show "w_os ?w r b = F_UNLCK"
  proof (cases "r = p")
    case True
    then have "w_os w p PENDING_BYTE = F_UNLCK" using oi pd a unfolding os_inv_def by blast
    then show ?thesis using assms(4) b old True by auto
  next
    case False
    then show ?thesis using old by simp
  qed
qed

lemma os_inv_setlk: "os_inv os \<Longrightarrow> \<not> blocked os p lk \<Longrightarrow> os_inv (os(p := apply_lock lk (os p)))"
proof -
  assume i: "os_inv os" and nb: "\<not> blocked os p lk"
  show ?thesis
    unfolding os_inv_def
  proof (intro allI impI)
    fix q r b
    assume a: "q \<noteq> r \<and> (os(p := apply_lock lk (os p))) q b = F_WRLCK"
    show "(os(p := apply_lock lk (os p))) r b = F_UNLCK"
    proof (cases "covers lk b")
      case True
      then have c: "\<not> conflicts (l_type lk) (os s b)" if "s \<noteq> p" for s using nb that by (auto simp: blocked_def)
      show ?thesis
        using a True c [of q] c [of r] i by (cases "l_type lk") (auto simp: apply_lock_def conflicts_def os_inv_def split: if_splits)
    next
      case False
      then show ?thesis using a i by (auto simp: apply_lock_def os_inv_def split: if_splits)
    qed
  qed
qed

lemma os_inv_clear: "os_inv os \<Longrightarrow> os_inv (os(p := (\<lambda>_. F_UNLCK)))"
  by (auto simp: os_inv_def)

lemma world_inv_step:
  assumes "world_step w w'" and "world_inv w"
  shows "world_inv w'"
  using assms
proof (induction rule: world_step.induct)
  case (open_file P w p h r)
  then have P: "proc_inv (w_os w p) P" by (simp add: world_inv_def)
  then have s: "static_ok (p_inode P) (p_file P)" "backed (level (p_inode P)) (w_os w p)"
    using open_file.hyps(1) by (simp_all add: proc_inv_def)
  note f = findInodeInfo_ok [OF s(1) open_file.hyps(3) s(2)]
  show ?case
    using f s(2) open_file by (intro world_inv_local) (auto simp: proc_inv_def)
next
  case (lock P w p i h e)
  then have P: "proc_inv (w_os w p) P" by (simp add: world_inv_def)
  note ok = idle_inode_ok [OF P lock.hyps(1,3)]
  show ?case
    using unixLock_safe [OF ok(1,2) lock.hyps(4,5) ok(3)] P lock
    by (intro world_inv_local) (auto simp: proc_inv_def lock_levels)
next
  case (unlock P w p i h e)
  then have P: "proc_inv (w_os w p) P" by (simp add: world_inv_def)
  note ok = idle_inode_ok [OF P unlock.hyps(1,3)]
  show ?case
    using unixUnlock_safe [OF ok(1,2) unlock.hyps(4) _ ok(3)] P unlock
    by (intro world_inv_local) (auto simp: proc_inv_def lock_levels)
next
  case (close P w p i h)
  then have P: "proc_inv (w_os w p) P" by (simp add: world_inv_def)
  note ok = idle_inode_ok [OF P close.hyps(1,3)]
  show ?case
    using unixClose_safe [OF ok(1,2) close.hyps(4) ok(3)] P close
    by (intro world_inv_local) (auto simp: proc_inv_def lock_levels)
next
  case (setlk_ok P h c lk k w p)
  then have P: "proc_inv (w_os w p) P" and oi: "os_inv (w_os w)" by (simp_all add: world_inv_def)
  note os' = os_inv_setlk [OF oi setlk_ok.hyps(3)]
  have g: "guar (level (p_inode P) = 4) lk (w_os w p)"
    using P setlk_ok.hyps(1) by (simp add: proc_inv_def)
  have "excl_inv ((set_proc w p (P\<lparr>p_op := Some (h, c, k None)\<rparr>))\<lparr>w_os := (w_os w)(p := apply_lock lk (w_os w p))\<rparr>)"
    using g setlk_ok os' by (intro excl_inv_os) (auto simp: guar_def apply_lock_def)
  then show ?case
    using P setlk_ok os' by (auto simp: world_inv_def proc_inv_def)
next
  case (setlk_error P h c lk k w p e)
  then have P: "proc_inv (w_os w p) P" by (simp add: world_inv_def)
  show ?case
    using P setlk_error by (intro world_inv_local) (auto simp: proc_inv_def)
next
  case (close_fd P h c k w p)
  then have P: "proc_inv (w_os w p) P" and oi: "os_inv (w_os w)" by (simp_all add: world_inv_def)
  have "excl_inv ((set_proc w p (P\<lparr>p_op := Some (h, c, k)\<rparr>))\<lparr>w_os := (w_os w)(p := (\<lambda>_. F_UNLCK))\<rparr>)"
    using close_fd os_inv_clear [OF oi] by (intro excl_inv_os) auto
  then show ?case
    using P close_fd os_inv_clear [OF oi] by (auto simp: world_inv_def proc_inv_def)
next
  case (finish P h c rc f i w p)
  then have P: "proc_inv (w_os w p) P" by (simp add: world_inv_def)
  then have post: "op_post (p_inode P) (p_file P) h (w_os w p) (rc, f, i)"
    using finish.hyps(1) by (simp add: proc_inv_def)
  show ?case
    using post finish by (intro world_inv_local) (auto simp: proc_inv_def op_post_def)
qed

lemma reachable_inv: "reachable w \<Longrightarrow> world_inv w"
proof (induction rule: reachable.induct)
  case init
  show ?case
    by (simp add: world_inv_def world0_def proc_inv_def static_ok_def os_inv_def excl_inv_def closed_file_def)
next
  case (step w w')
  then show ?case using world_inv_step by blast
qed

section \<open>Runs without interference\<close>

text \<open>The result of an operation all of whose system calls succeed.\<close>

primrec exec_ok :: "'a io \<Rightarrow> 'a" where
  "exec_ok (Done x) = x"
| "exec_ok (Setlk lk k) = exec_ok (k None)"
| "exec_ok (Getlk lk k) = exec_ok (k (Inr F_UNLCK))"
| "exec_ok (Close_Fd k) = exec_ok k"

primrec no_getlk :: "'a io \<Rightarrow> bool" where
  "no_getlk (Done x) \<longleftrightarrow> True"
| "no_getlk (Setlk lk k) \<longleftrightarrow> (\<forall>e. no_getlk (k e))"
| "no_getlk (Getlk lk k) \<longleftrightarrow> False"
| "no_getlk (Close_Fd k) \<longleftrightarrow> no_getlk k"

lemma no_getlk_map [simp]: "no_getlk (map_io g m) = no_getlk m"
  by (induction m) auto

lemma exec_ok_map [simp]: "exec_ok (map_io g m) = g (exec_ok m)"
  by (induction m) auto

lemma no_getlk_unixLock: "no_getlk (unixLock e f i)"
  by (auto simp: unixLock_def lock_shared_def lock_write_def unixFileLock_def Let_def split: option.splits)

definition alone :: "world \<Rightarrow> nat \<Rightarrow> bool" where
  "alone w p \<longleftrightarrow> (\<forall>q b. q \<noteq> p \<longrightarrow> w_os w q b = F_UNLCK)"

lemma alone_run:
  assumes "world_step\<^sup>*\<^sup>* w0 w" and "alone w p" and "p_op (w_proc w p) = Some (h, c, m)" and "no_getlk m"
  shows "\<exists>L. world_step\<^sup>*\<^sup>* w0 ((set_proc w p ((w_proc w p)\<lparr>p_op := Some (h, c, Done (exec_ok m))\<rparr>))\<lparr>w_os := (w_os w)(p := L)\<rparr>)"
  using assms
proof (induction m arbitrary: w)
  case (Done x)
  have "(set_proc w p ((w_proc w p)\<lparr>p_op := Some (h, c, Done (exec_ok (Done x)))\<rparr>))\<lparr>w_os := (w_os w)(p := w_os w p)\<rparr> = w"
    using Done(3) by (cases w) (simp add: set_proc_def fun_upd_idem)
  then show ?case using Done(1) by metis
next
  case (Setlk lk k)
  define w1 where "w1 = (set_proc w p ((w_proc w p)\<lparr>p_op := Some (h, c, k None)\<rparr>))\<lparr>w_os := (w_os w)(p := apply_lock lk (w_os w p))\<rparr>"
  have "\<not> blocked (w_os w) p lk" using Setlk.prems(2) by (auto simp: blocked_def alone_def conflicts_def)
  from world_step.setlk_ok [OF Setlk.prems(3) refl this] have "world_step w w1" by (simp add: w1_def)
  then have 1: "world_step\<^sup>*\<^sup>* w0 w1" using Setlk.prems(1) by simp
  have 2: "alone w1 p" "p_op (w_proc w1 p) = Some (h, c, k None)" "no_getlk (k None)"
    using Setlk.prems by (auto simp: w1_def alone_def)
  have "(set_proc w1 p ((w_proc w1 p)\<lparr>p_op := x\<rparr>))\<lparr>w_os := (w_os w1)(p := L)\<rparr> =
      (set_proc w p ((w_proc w p)\<lparr>p_op := x\<rparr>))\<lparr>w_os := (w_os w)(p := L)\<rparr>" for x L
    by (cases w) (simp add: w1_def set_proc_def)
  then show ?case
    using Setlk.IH [OF rangeI 1 2] by (simp only: exec_ok.simps)
next
  case (Close_Fd m)
  define w1 where "w1 = (set_proc w p ((w_proc w p)\<lparr>p_op := Some (h, c, m)\<rparr>))\<lparr>w_os := (w_os w)(p := (\<lambda>_. F_UNLCK))\<rparr>"
  from world_step.close_fd [OF Close_Fd.prems(3) refl] have "world_step w w1" by (simp add: w1_def)
  then have 1: "world_step\<^sup>*\<^sup>* w0 w1" using Close_Fd.prems(1) by simp
  have 2: "alone w1 p" "p_op (w_proc w1 p) = Some (h, c, m)" "no_getlk m"
    using Close_Fd.prems by (auto simp: w1_def alone_def)
  have "(set_proc w1 p ((w_proc w1 p)\<lparr>p_op := x\<rparr>))\<lparr>w_os := (w_os w1)(p := L)\<rparr> =
      (set_proc w p ((w_proc w p)\<lparr>p_op := x\<rparr>))\<lparr>w_os := (w_os w)(p := L)\<rparr>" for x L
    by (cases w) (simp add: w1_def set_proc_def)
  then show ?case
    using Close_Fd.IH [OF 1 2] by (simp only: exec_ok.simps)
qed simp

lemma alone_lock:
  assumes "alone w p" and "p_op (w_proc w p) = None" and "p_inode (w_proc w p) = Some i"
    and "f_open (p_file (w_proc w p) h)" and "request_ok (f_eFileLock (p_file (w_proc w p) h)) e"
    and "exec_ok (unixLock e (p_file (w_proc w p) h) i) = (rc, f, i')"
  shows "\<exists>w'. world_step\<^sup>*\<^sup>* w w' \<and> alone w' p \<and>
    w_proc w' = (w_proc w)(p := (w_proc w p)\<lparr>p_op := None, p_file := (p_file (w_proc w p))(h := f), p_inode := Some i'\<rparr>)"
proof -
  define m where "m = map_io keep_inode (unixLock e (p_file (w_proc w p) h) i)"
  define w1 where "w1 = set_proc w p ((w_proc w p)\<lparr>p_op := Some (h, EXCLUSIVE_LOCK, m)\<rparr>)"
  have "world_step w w1"
    using world_step.lock [OF assms(2) refl assms(3-5)] by (simp add: w1_def m_def)
  then have 1: "world_step\<^sup>*\<^sup>* w w1" by simp
  have 2: "alone w1 p" "p_op (w_proc w1 p) = Some (h, EXCLUSIVE_LOCK, m)" "no_getlk m"
    using assms(1) by (auto simp: w1_def alone_def m_def no_getlk_unixLock)
  have ex: "exec_ok m = (rc, f, Some i')" by (simp add: m_def assms(6) keep_inode_def)
  define w2 where "w2 L = (set_proc w1 p ((w_proc w1 p)\<lparr>p_op := Some (h, EXCLUSIVE_LOCK, Done (rc, f, Some i'))\<rparr>))
    \<lparr>w_os := (w_os w1)(p := L)\<rparr>" for L
  from alone_run [OF 1 2] obtain L where L: "world_step\<^sup>*\<^sup>* w (w2 L)" by (auto simp: ex w2_def)
  define P2 where "P2 = w_proc (w2 L) p"
  define w3 where "w3 = set_proc (w2 L) p (P2\<lparr>p_op := None, p_file := (p_file P2)(h := f), p_inode := Some i'\<rparr>)"
  have "world_step (w2 L) w3"
    unfolding w3_def by (rule world_step.finish) (simp_all add: P2_def w2_def)
  then have "world_step\<^sup>*\<^sup>* w w3" using L by simp
  moreover have "alone w3 p" using 2(1) by (simp add: w3_def w2_def alone_def)
  moreover have "w_proc w3 = (w_proc w)(p := (w_proc w p)\<lparr>p_op := None, p_file := (p_file (w_proc w p))(h := f), p_inode := Some i'\<rparr>)"
    by (simp add: w3_def P2_def w2_def w1_def)
  ultimately show ?thesis by blast
qed

section \<open>Properties\<close>

lemma claim_le: "claim P h \<le> f_eFileLock (p_file P h)"
  by (auto simp: claim_def split: option.splits)

lemma claim_backed:
  assumes "world_inv w"
  shows "backed (claim (w_proc w p) h) (w_os w p)"
proof -
  define P where "P = w_proc w p"
  have P: "proc_inv (w_os w p) P" using assms by (simp add: world_inv_def P_def)
  show ?thesis
  proof (cases "p_op P")
    case None
    show ?thesis
    proof (cases "p_inode P")
      case (Some i)
      note ok = idle_inode_ok [OF P None Some]
      have "op_inv (p_file P) h 4 (w_os w p)" using op_inv_start [OF ok(1,3)] by simp
      moreover have "min (f_eFileLock (p_file P h)) 4 = f_eFileLock (p_file P h)"
        using inode_okD(3) [OF ok(1), of h] inode_ok_basic(4) [OF ok(1)] by simp
      ultimately show ?thesis using None by (auto simp: op_inv_def claim_def P_def split: if_splits)
    next
      case None': None
      then show ?thesis using P None by (simp add: proc_inv_def static_ok_def claim_def P_def)
    qed
  next
    case (Some x)
    obtain h' c m where x: "x = (h', c, m)" by (cases x)
    have "op_inv (p_file P) h' c (w_os w p)"
      using P Some x io_safe_inv by (fastforce simp: proc_inv_def)
    then have "backed (if h = h' then min (f_eFileLock (p_file P h')) c else f_eFileLock (p_file P h)) (w_os w p)"
      unfolding op_inv_def by blast
    then show ?thesis using Some x by (auto simp: claim_def P_def split: if_splits)
  qed
qed

lemma high_claim:
  assumes "world_inv w" and "claim (w_proc w p) h > 1"
  shows "f_eFileLock (p_file (w_proc w p) h) = level (p_inode (w_proc w p))"
    and "\<And>h'. claim (w_proc w p) h' > 1 \<Longrightarrow> h' = h" and "level (p_inode (w_proc w p)) \<le> 4"
    and "\<And>h'. level (p_inode (w_proc w p)) = 4 \<Longrightarrow> h' \<noteq> h \<Longrightarrow> claim (w_proc w p) h' = 0"
proof -
  define P where "P = w_proc w p"
  have s: "static_ok (p_inode P) (p_file P)" using assms(1) by (simp add: world_inv_def proc_inv_def P_def)
  have lv: "f_eFileLock (p_file P h) > 1" using assms(2) claim_le [of P h] by (simp add: P_def)
  obtain i where i: "p_inode P = Some i" and ok: "inode_ok i (p_file P)"
    using s lv by (cases "p_inode P") (auto simp: static_ok_def)
  show "f_eFileLock (p_file (w_proc w p) h) = level (p_inode (w_proc w p))"
    using ok lv i unfolding inode_ok_def P_def by simp
  show "h' = h" if "claim (w_proc w p) h' > 1" for h'
  proof -
    have "f_eFileLock (p_file P h') > 1" using that claim_le [of P h'] by (simp add: P_def)
    then show ?thesis using ok lv unfolding inode_ok_def by blast
  qed
  show "level (p_inode (w_proc w p)) \<le> 4" using inode_ok_basic(4) [OF ok] i by (simp add: P_def)
  show "claim (w_proc w p) h' = 0" if "level (p_inode (w_proc w p)) = 4" "h' \<noteq> h" for h'
  proof -
    have "i_nShared i = 1" using inode_ok_basic(5) [OF ok] that i by (simp add: P_def)
    then have "f_eFileLock (p_file P h') = 0"
      using inode_okD(4) [OF ok, of h h'] lv that(2) by (cases "f_eFileLock (p_file P h') > 0") auto
    then show ?thesis using claim_le [of P h'] by (simp add: P_def)
  qed
qed

text \<open>
  C7. Mutual exclusion, for any number of processes and handles, any interleaving of their system calls and any
  failures of system calls: a handle at EXCLUSIVE is the only handle with any lock, there is at most one handle at
  RESERVED, and at most one at PENDING or EXCLUSIVE.
\<close>

theorem lock_mutual_exclusion:
  assumes "reachable w" and "(p, h) \<noteq> (q, h')"
  shows "(claim (w_proc w p) h = EXCLUSIVE_LOCK \<longrightarrow> claim (w_proc w q) h' = NO_LOCK) \<and>
    \<not> (claim (w_proc w p) h = RESERVED_LOCK \<and> claim (w_proc w q) h' = RESERVED_LOCK) \<and>
    \<not> (claim (w_proc w p) h \<ge> PENDING_LOCK \<and> claim (w_proc w q) h' \<ge> PENDING_LOCK)"
proof -
  note inv = reachable_inv [OF assms(1)]
  show ?thesis
  proof (cases "p = q")
    case True
    then have hh: "h' \<noteq> h" using assms(2) by simp
    have 1: "claim (w_proc w p) h' = 0" if "claim (w_proc w p) h = 4"
    proof -
      have "level (p_inode (w_proc w p)) = 4"
        using high_claim(1,3) [OF inv, of p h] claim_le [of "w_proc w p" h] that by simp
      then show ?thesis using high_claim(4) [OF inv, of p h h'] that hh by simp
    qed
    have 2: "\<not> (claim (w_proc w p) h > 1 \<and> claim (w_proc w p) h' > 1)"
      using high_claim(2) [OF inv, of p h h'] hh by auto
    from 1 2 show ?thesis unfolding True lock_levels by auto
  next
    case False
    note bp = claim_backed [OF inv, of p h] and bq = claim_backed [OF inv, of q h']
    have os: "os_inv (w_os w)" and ex: "excl_inv w" using inv by (simp_all add: world_inv_def)
    have wr: "w_os w p b = F_WRLCK \<Longrightarrow> w_os w q b = F_WRLCK \<Longrightarrow> False" for b
      using os False unfolding os_inv_def by (metis l_type.distinct(5))
    have 1: "claim (w_proc w q) h' = 0" if c: "claim (w_proc w p) h = 4"
    proof -
      have "level (p_inode (w_proc w p)) = 4"
        using high_claim(1,3) [OF inv, of p h] claim_le [of "w_proc w p" h] c by simp
      moreover have "w_os w p PENDING_BYTE = F_WRLCK" using bp c by (simp add: backed_def lock_levels)
      ultimately have un: "\<forall>b\<in>shared_range. w_os w q b = F_UNLCK" using ex False unfolding excl_inv_def by blast
      have "SHARED_FIRST \<in> shared_range" by (simp add: byte_defs)
      then show ?thesis using bq un by (cases "claim (w_proc w q) h' > 0") (auto simp: backed_def lock_levels)
    qed
    show ?thesis
      using 1 bp bq wr [of RESERVED_BYTE] wr [of PENDING_BYTE] by (auto simp: backed_def lock_levels)
  qed
qed

lemma reachable_steps: "world_step\<^sup>*\<^sup>* w w' \<Longrightarrow> reachable w \<Longrightarrow> reachable w'"
  by (induction rule: rtranclp_induct) (auto intro: reachable.step)

text \<open>
  A request of the only handle of an otherwise idle database runs through: this is what the witness of the next
  properties needs, too.
\<close>

lemma exec_unixLock:
  assumes "inode_ok i fs" and "\<not> f_excl (fs h)" and "lvl fs h = i_eFileLock i" and "i_nShared i \<le> 1"
    and "request_ok (lvl fs h) e" and "lvl fs h < e"
  shows "\<exists>f i'. exec_ok (unixLock e (fs h) i) = (SQLITE_OK, f, i') \<and> f_eFileLock f = e \<and> f_open f = f_open (fs h) \<and>
    \<not> f_excl f \<and> i_eFileLock i' = e \<and> i_nShared i' = 1"
proof -
  have nb: "\<not> i_bProcessLock i" and n: "i_eFileLock i = 0 \<longleftrightarrow> i_nShared i = 0"
    using inode_ok_basic [OF assms(1)] by auto
  consider "e = 1" "lvl fs h = 0" | "e = 2" "lvl fs h = 1" | "e = 4" "lvl fs h > 0" "lvl fs h < 4"
    using assms(5,6) by (auto simp: request_ok_def lock_levels)
  then show ?thesis
  proof cases
    case 1
    then show ?thesis
      using assms(2,3) nb n by (auto simp: unixLock_def lock_shared_def lock_result_def lock_levels)
  next
    case 2
    then show ?thesis
      using assms(2,3,4) nb n by (auto simp: unixLock_def lock_write_def lock_result_def lock_levels)
  next
    case 3
    then have "i_nShared i = 1" using assms(3,4) n by simp
    with 3 show ?thesis
      using assms(2,3) nb by (auto simp: unixLock_def lock_write_def lock_result_def lock_levels)
  qed
qed

text \<open>
  C22. Progress: when no other process holds a lock on the file and the handle is the only one of its process with a
  lock, every request that respects the protocol (SHARED from nothing, RESERVED from SHARED, EXCLUSIVE from any level)
  can run to its end and gives the handle the level it asked for.
\<close>

theorem lock_progress:
  assumes "reachable w" and "alone w p" and "p_op (w_proc w p) = None" and "p_inode (w_proc w p) = Some i"
    and "f_open (p_file (w_proc w p) h)" and "f_eFileLock (p_file (w_proc w p) h) = i_eFileLock i" and "i_nShared i \<le> 1"
    and "request_ok (f_eFileLock (p_file (w_proc w p) h)) e" and "f_eFileLock (p_file (w_proc w p) h) < e"
  shows "\<exists>w' i'. world_step\<^sup>*\<^sup>* w w' \<and> alone w' p \<and> p_op (w_proc w' p) = None \<and> p_inode (w_proc w' p) = Some i' \<and>
    f_open (p_file (w_proc w' p) h) \<and> f_eFileLock (p_file (w_proc w' p) h) = e \<and> i_eFileLock i' = e \<and> i_nShared i' \<le> 1"
proof -
  have "proc_inv (w_os w p) (w_proc w p)" using reachable_inv [OF assms(1)] by (simp add: world_inv_def)
  note ok = idle_inode_ok [OF this assms(3,4)]
  obtain f i' where x: "exec_ok (unixLock e (p_file (w_proc w p) h) i) = (SQLITE_OK, f, i')"
    "f_eFileLock f = e" "f_open f" "i_eFileLock i' = e" "i_nShared i' = 1"
    using exec_unixLock [OF ok(1) _ assms(6,7,8,9)] ok(2) assms(5) by auto
  from alone_lock [OF assms(2,3,4,5,8) x(1)] obtain w' where "world_step\<^sup>*\<^sup>* w w'" "alone w' p"
    "w_proc w' = (w_proc w)(p := (w_proc w p)\<lparr>p_op := None, p_file := (p_file (w_proc w p))(h := f), p_inode := Some i'\<rparr>)"
    by blast
  then show ?thesis using x by (intro exI [of _ w'] exI [of _ i']) simp
qed

definition opened :: world where
  "opened = set_proc world0 0 ((w_proc world0 0)\<lparr>p_inode := Some (findInodeInfo (p_inode (w_proc world0 0))),
     p_file := (p_file (w_proc world0 0))(0 := closed_file\<lparr>f_open := True, f_rdonly := False\<rparr>)\<rparr>)"

lemma opened_facts:
  "reachable opened" "alone opened 0" "p_op (w_proc opened 0) = None" "p_inode (w_proc opened 0) = Some new_inode"
  "f_open (p_file (w_proc opened 0) 0)" "f_eFileLock (p_file (w_proc opened 0) 0) = i_eFileLock new_inode"
  "i_nShared new_inode \<le> 1" "f_eFileLock (p_file (w_proc opened 0) 0) = 0"
proof -
  have "world_step world0 opened"
    unfolding opened_def by (rule world_step.open_file) (simp_all add: world0_def closed_file_def)
  then show "reachable opened" using reachable.intros by blast
  show "alone opened 0" by (simp add: opened_def alone_def world0_def)
  show "p_op (w_proc opened 0) = None" "p_inode (w_proc opened 0) = Some new_inode" "f_open (p_file (w_proc opened 0) 0)"
    "f_eFileLock (p_file (w_proc opened 0) 0) = i_eFileLock new_inode" "i_nShared new_inode \<le> 1"
    "f_eFileLock (p_file (w_proc opened 0) 0) = 0"
    by (simp_all add: opened_def world0_def findInodeInfo_def new_inode_def closed_file_def)
qed

theorem lock_progress_witness:
  "\<exists>w. world_step\<^sup>*\<^sup>* opened w \<and> f_eFileLock (p_file (w_proc w 0) 0) = SHARED_LOCK"
proof -
  have "request_ok (f_eFileLock (p_file (w_proc opened 0) 0)) SHARED_LOCK" "f_eFileLock (p_file (w_proc opened 0) 0) < SHARED_LOCK"
    using opened_facts(8) by (simp_all add: request_ok_def lock_levels)
  from lock_progress [OF opened_facts(1-7) this] show ?thesis by blast
qed

lemma level_world:
  assumes "e = 2 \<or> e = 4"
  shows "\<exists>w i. reachable w \<and> p_op (w_proc w 0) = None \<and> p_inode (w_proc w 0) = Some i \<and> claim (w_proc w 0) 0 = e"
proof -
  define f1 where "f1 = closed_file\<lparr>f_open := True, f_rdonly := False, f_eFileLock := 1\<rparr>"
  define i1 where "i1 = new_inode\<lparr>i_nLock := 1, i_nShared := 1, i_eFileLock := 1\<rparr>"
  have e1: "exec_ok (unixLock 1 (p_file (w_proc opened 0) 0) new_inode) = (SQLITE_OK, f1, i1)"
    by (simp add: opened_def unixLock_def lock_shared_def lock_result_def lock_levels new_inode_def closed_file_def f1_def i1_def)
  have r1: "request_ok (f_eFileLock (p_file (w_proc opened 0) 0)) 1"
    using opened_facts(8) by (simp add: request_ok_def lock_levels)
  from alone_lock [OF opened_facts(2-5) r1 e1] obtain w1 where w1: "world_step\<^sup>*\<^sup>* opened w1" "alone w1 0"
    "w_proc w1 0 = (w_proc opened 0)\<lparr>p_op := None, p_file := (p_file (w_proc opened 0))(0 := f1), p_inode := Some i1\<rparr>" by auto
  have e2: "exec_ok (unixLock e (p_file (w_proc w1 0) 0) i1) = (SQLITE_OK, f1\<lparr>f_eFileLock := e\<rparr>, i1\<lparr>i_eFileLock := e\<rparr>)"
    using assms by (auto simp: w1(3) unixLock_def lock_write_def lock_result_def lock_levels new_inode_def closed_file_def f1_def i1_def)
  have p: "p_op (w_proc w1 0) = None" "p_inode (w_proc w1 0) = Some i1" "f_open (p_file (w_proc w1 0) 0)"
    "request_ok (f_eFileLock (p_file (w_proc w1 0) 0)) e"
    using assms by (auto simp: w1(3) f1_def request_ok_def lock_levels)
  from alone_lock [OF w1(2) p e2] obtain w2 where w2: "world_step\<^sup>*\<^sup>* w1 w2"
    "p_file (w_proc w2 0) 0 = f1\<lparr>f_eFileLock := e\<rparr>" "p_op (w_proc w2 0) = None"
    "p_inode (w_proc w2 0) = Some (i1\<lparr>i_eFileLock := e\<rparr>)" by auto
  have "reachable w2" using reachable_steps [OF w2(1)] reachable_steps [OF w1(1) opened_facts(1)] by blast
  then show ?thesis using w2 by (auto simp: claim_def)
qed

theorem lock_mutual_exclusion_witness:
  "\<exists>w. reachable w \<and> claim (w_proc w 0) 0 = EXCLUSIVE_LOCK \<and> claim (w_proc w 1) 0 = NO_LOCK"
proof -
  obtain w where w: "reachable w" "claim (w_proc w 0) 0 = EXCLUSIVE_LOCK" using level_world [of EXCLUSIVE_LOCK] by (auto simp: lock_levels)
  have "(0::nat, 0::nat) \<noteq> (1, 0)" by simp
  from lock_mutual_exclusion [OF w(1) this] w show ?thesis by blast
qed

text \<open>
  C23. A pending writer is not starved: while a handle is at PENDING or above, no step of the system gives another
  process a lock in the shared range that it did not have, so that the readers can only become fewer.
\<close>

theorem pending_stops_readers:
  assumes "reachable w" and "claim (w_proc w p) h \<ge> PENDING_LOCK" and "world_step w w'" and "q \<noteq> p" and "b \<in> shared_range"
    and "w_os w q b = F_UNLCK"
  shows "w_os w' q b = F_UNLCK"
proof -
  note inv = reachable_inv [OF assms(1)]
  have pd: "w_os w p PENDING_BYTE = F_WRLCK"
    using claim_backed [OF inv, of p h] assms(2) by (simp add: backed_def)
  then have uq: "w_os w q PENDING_BYTE = F_UNLCK"
    using inv assms(4) unfolding world_inv_def os_inv_def by metis
  show ?thesis
    using assms(3) assms(6) inv uq
  proof (induction rule: world_step.induct)
    case (setlk_ok P h c lk k w r)
    then have "proc_inv (w_os w r) P" by (simp add: world_inv_def)
    then have "guar (level (p_inode P) = 4) lk (w_os w r)" using setlk_ok.hyps(1) by (simp add: proc_inv_def)
    then show ?case using setlk_ok.prems assms(5) by (auto simp: guar_def apply_lock_def)
  qed auto
qed

theorem pending_stops_readers_witness:
  "\<exists>w. reachable w \<and> claim (w_proc w 0) 0 \<ge> PENDING_LOCK \<and>
    (\<forall>w'. world_step w w' \<longrightarrow> w_os w 1 SHARED_FIRST = F_UNLCK \<longrightarrow> w_os w' 1 SHARED_FIRST = F_UNLCK)"
proof -
  obtain w where w: "reachable w" "claim (w_proc w 0) 0 = EXCLUSIVE_LOCK" using level_world [of EXCLUSIVE_LOCK] by (auto simp: lock_levels)
  then have c: "claim (w_proc w 0) 0 \<ge> PENDING_LOCK" by (simp add: lock_levels)
  have "SHARED_FIRST \<in> shared_range" by (simp add: byte_defs)
  then show ?thesis using pending_stops_readers [OF w(1) c, of _ 1] w(1) c by auto
qed

primrec run_getlk :: "'a io \<Rightarrow> (flock \<Rightarrow> errno + l_type) \<Rightarrow> 'a option" where
  "run_getlk (Done x) ans = Some x"
| "run_getlk (Setlk lk k) ans = None"
| "run_getlk (Getlk lk k) ans = run_getlk (k (ans lk)) ans"
| "run_getlk (Close_Fd k) ans = None"

definition getlk_exact :: "world \<Rightarrow> nat \<Rightarrow> (flock \<Rightarrow> errno + l_type) \<Rightarrow> bool" where
  "getlk_exact w p ans \<longleftrightarrow> (\<forall>lk. \<exists>t. ans lk = Inr t \<and> (t \<noteq> F_UNLCK \<longleftrightarrow> blocked (w_os w) p lk))"

text \<open>
  C24. \<open>unixCheckReservedLock\<close> never misses a writer: if any handle of any process counts on RESERVED, the answer is
  yes, for every answer of \<open>F_GETLK\<close> that reports a lock exactly when there is a conflicting one.
\<close>

theorem check_reserved_sound:
  assumes "reachable w" and "p_op (w_proc w p) = None" and "p_inode (w_proc w p) = Some i"
    and "claim (w_proc w q) h = RESERVED_LOCK" and "getlk_exact w p ans"
  shows "run_getlk (unixCheckReservedLock f i) ans = Some (SQLITE_OK, True)"
proof -
  note inv = reachable_inv [OF assms(1)]
  have "proc_inv (w_os w p) (w_proc w p)" using inv by (simp add: world_inv_def)
  note ok = idle_inode_ok [OF this assms(2,3)]
  show ?thesis
  proof (cases "p = q")
    case True
    then have "i_eFileLock i = RESERVED_LOCK"
      using high_claim(1) [OF inv, of p h] assms(2,3,4) by (simp add: claim_def lock_levels)
    then show ?thesis by (simp add: unixCheckReservedLock_def lock_levels)
  next
    case False
    have "w_os w q RESERVED_BYTE = F_WRLCK"
      using claim_backed [OF inv, of q h] assms(4) by (simp add: backed_def)
    then have "blocked (w_os w) p (Flock F_WRLCK RESERVED_BYTE 1)"
      unfolding blocked_def using False
      by (intro exI [of _ q] exI [of _ RESERVED_BYTE]) (simp add: covers_def conflicts_def)
    then obtain t where "ans (Flock F_WRLCK RESERVED_BYTE 1) = Inr t" "t \<noteq> F_UNLCK"
      using assms(5) unfolding getlk_exact_def by blast
    then show ?thesis
      using inode_ok_basic(1) [OF ok(1)] by (simp add: unixCheckReservedLock_def lock_levels)
  qed
qed

theorem check_reserved_sound_witness:
  "\<exists>w i. reachable w \<and> claim (w_proc w 0) 0 = RESERVED_LOCK \<and>
    run_getlk (unixCheckReservedLock closed_file i) (\<lambda>lk. Inr (if blocked (w_os w) 0 lk then F_WRLCK else F_UNLCK))
      = Some (SQLITE_OK, True)"
proof -
  obtain w i where w: "reachable w" "p_op (w_proc w 0) = None" "p_inode (w_proc w 0) = Some i"
    "claim (w_proc w 0) 0 = RESERVED_LOCK" using level_world [of RESERVED_LOCK] by (auto simp: lock_levels)
  have "getlk_exact w 0 (\<lambda>lk. Inr (if blocked (w_os w) 0 lk then F_WRLCK else F_UNLCK))"
    by (simp add: getlk_exact_def)
  from check_reserved_sound [OF w this] w(1,4) show ?thesis by blast
qed

end
