(* ===== verification/Os_Vms.thy ===== *)
theory Os_Vms
  imports Sqlite_Prelude
begin

text \<open>
  The OpenVMS file layer, os_vms.c: reading and writing at byte offsets over virtual blocks of 512 bytes, the
  extension of a file before a write, the size and truncation of a file, the mapping of lock levels to modes of the
  lock manager, and the source of random bytes. The system services (\<open>sys$qiow\<close>, \<open>sys$enqw\<close>, \<open>sys$getlkiw\<close>, \<open>sys$getjpiw\<close>,
  \<open>mth$random\<close>) are parameters; what the code relies on is stated as a hypothesis about them.
\<close>

section \<open>System services\<close>

text \<open>The severity of a status is what the code looks at, and \<open>SS$_ENDOFFILE\<close>, which is not a success.\<close>

datatype vms_status = SS_NORMAL | SS_ENDOFFILE | SS_FAILURE

definition vms_success :: "vms_status \<Rightarrow> bool" where
  "vms_success s \<longleftrightarrow> s = SS_NORMAL"

text \<open>
  The services for one open file over a volume of type \<open>'d\<close>. A status is the one returned, or that of the I/O status
  block if the request was accepted: reading blocks (with the bytes transferred), writing blocks, the attributes
  (highest allocated block, default extension), extending (the flag is \<open>fib$v_aldef\<close>; the results are the first new block
  and the number of blocks allocated, which the service stores in \<open>fib$l_exvbn\<close> and \<open>fib$l_exsz\<close>), setting the end of file,
  truncating. Block numbers and counts are 32 bits wide.
\<close>

record 'd vms_io =
  readvblk :: "'d \<Rightarrow> u32 \<Rightarrow> nat \<Rightarrow> vms_status \<times> u8 list"
  writevblk :: "'d \<Rightarrow> u32 \<Rightarrow> u8 list \<Rightarrow> vms_status \<times> 'd"
  io_access :: "'d \<Rightarrow> vms_status \<times> u32 \<times> u16"
  io_extend :: "'d \<Rightarrow> bool \<Rightarrow> u32 \<Rightarrow> vms_status \<times> u32 \<times> u32 \<times> 'd"
  io_set_eof :: "'d \<Rightarrow> u32 \<Rightarrow> vms_status \<times> 'd"
  io_truncate :: "'d \<Rightarrow> u32 \<Rightarrow> 'd"
  rms_extend_size :: u32

text \<open>\<open>szChunk\<close> and \<open>szHint\<close> are of type \<open>int\<close>; they are kept as words and read with \<open>sint\<close>.\<close>

record vms_file =
  szChunk :: u32
  szHint :: u32
  lksb_id :: nat

text \<open>The build file descrip.mms sets the sector size to the size of a virtual block.\<close>

definition SQLITE_DEFAULT_SECTOR_SIZE :: nat where "SQLITE_DEFAULT_SECTOR_SIZE = 512"

section \<open>Reading\<close>

text \<open>
  The three parts of \<open>vmsRead\<close>: the rest of the first block, the whole blocks, the beginning of the last one. The
  state is the status, the bytes stored so far, the bytes still wanted, and the next block \<open>vbn\<close>, an \<open>int\<close> to which the
  64-bit quotient is truncated. The result \<open>None\<close> means that a block was used beyond the bytes that were transferred.
\<close>

type_synonym read_state = "vms_status \<times> u8 list \<times> nat \<times> u32"

definition read_first :: "'d vms_io \<Rightarrow> 'd \<Rightarrow> nat \<Rightarrow> read_state \<Rightarrow> read_state option" where
  "read_first io dsk vpos st = (case st of (status, out, amt, vbn) \<Rightarrow>
     if vpos \<noteq> 0 then
       (case readvblk io dsk vbn SQLITE_DEFAULT_SECTOR_SIZE of (status, buf) \<Rightarrow>
          if vms_success status then do {
            let bcnt = min amt (SQLITE_DEFAULT_SECTOR_SIZE - vpos);
            chunk \<leftarrow> rdn buf vpos bcnt;
            Some (status, out @ chunk, amt - bcnt, vbn + 1) }
          else Some (status, out, amt, vbn + 1))
     else Some st)"

definition read_middle :: "'d vms_io \<Rightarrow> 'd \<Rightarrow> read_state \<Rightarrow> read_state" where
  "read_middle io dsk st = (case st of (status, out, amt, vbn) \<Rightarrow>
     if amt \<ge> SQLITE_DEFAULT_SECTOR_SIZE \<and> vms_success status then
       (let remainder = amt mod SQLITE_DEFAULT_SECTOR_SIZE in
        case readvblk io dsk vbn (amt - remainder) of (status, data) \<Rightarrow>
          if vms_success status then
            (if length data < amt - remainder
             then (SS_ENDOFFILE, out @ data, amt - length data, vbn + of_nat (length data div SQLITE_DEFAULT_SECTOR_SIZE))
             else (status, out @ take (amt - remainder) data, remainder,
               vbn + of_nat ((amt - remainder) div SQLITE_DEFAULT_SECTOR_SIZE)))
          else (status, out, amt, vbn))
     else st)"

definition read_last :: "'d vms_io \<Rightarrow> 'd \<Rightarrow> read_state \<Rightarrow> read_state option" where
  "read_last io dsk st = (case st of (status, out, amt, vbn) \<Rightarrow>
     if amt > 0 \<and> vms_success status then
       (case readvblk io dsk vbn SQLITE_DEFAULT_SECTOR_SIZE of (status, buf) \<Rightarrow>
          if vms_success status then do {
            chunk \<leftarrow> rdn buf 0 amt;
            Some (status, out @ chunk, 0, vbn) }
          else Some (status, out, amt, vbn))
     else Some st)"

definition vmsRead :: "'d vms_io \<Rightarrow> 'd \<Rightarrow> nat \<Rightarrow> nat \<Rightarrow> (rc \<times> u8 list) option" where
  "vmsRead io dsk amt offset = do {
     let vbn = of_nat (offset div SQLITE_DEFAULT_SECTOR_SIZE + 1);
     let vpos = offset mod SQLITE_DEFAULT_SECTOR_SIZE;
     st \<leftarrow> read_first io dsk vpos (SS_NORMAL, [], amt, vbn);
     (status, out, amt, _) \<leftarrow> read_last io dsk (read_middle io dsk st);
     if status = SS_ENDOFFILE then Some (SQLITE_IOERR_SHORT_READ, out @ replicate amt 0)
     else if \<not> vms_success status then Some (SQLITE_IOERR_READ, out)
     else Some (SQLITE_OK, out) }"

section \<open>Writing\<close>

text \<open>The loops that add the extension quantity until it covers what is needed, in 32-bit unsigned arithmetic.\<close>

partial_function (option) extend_loop :: "u32 \<Rightarrow> u32 \<Rightarrow> u32 \<Rightarrow> u32 option" where
  "extend_loop step needed exsz =
     (let exsz = exsz + step in if exsz < needed then extend_loop step needed exsz else Some exsz)"

definition write_extend :: "'d vms_io \<Rightarrow> vms_file \<Rightarrow> 'd \<Rightarrow> u32 \<Rightarrow> nat \<Rightarrow> (vms_status \<times> vms_file \<times> 'd) option" where
  "write_extend io pFile dsk vbn amt =
     (case io_access io dsk of (status, filesize, defext) \<Rightarrow>
        if vms_success status then do {
          let needed = vbn + of_nat (amt div SQLITE_DEFAULT_SECTOR_SIZE) + 1;
          let needed = (if 0 < sint (szHint pFile) then (if sint needed < sint (szHint pFile) then szHint pFile else needed) else needed);
          let pFile = (if 0 < sint (szHint pFile) then pFile\<lparr>szHint := 0\<rparr> else pFile);
          if sint filesize < sint needed then do {
            (exsz, aldef) \<leftarrow>
              (if 0 < sint (szChunk pFile) then do { n \<leftarrow> extend_loop (szChunk pFile) needed 0; Some (n, False) }
               else if defext \<noteq> 0 then do { n \<leftarrow> extend_loop (ucast defext) needed 0; Some (n, False) }
               else Some (if rms_extend_size io \<noteq> 0 then rms_extend_size io else needed, True));
            (case io_extend io dsk aldef exsz of (status, exvbn, exsz, dsk) \<Rightarrow>
               if vms_success status then
                 (case io_set_eof io dsk (exvbn + exsz) of (status, dsk) \<Rightarrow> Some (status, pFile, dsk))
               else Some (status, pFile, dsk)) }
          else Some (status, pFile, dsk) }
        else Some (status, pFile, dsk))"

text \<open>
  The parts of the write. The state is the status, the volume, the source \<open>pBuf\<close>, the bytes still to write, the next
  block, and the variable \<open>bcnt\<close>, whose value before the first assignment is not determined and therefore a parameter.
\<close>

type_synonym 'd write_state = "vms_status \<times> 'd \<times> u8 list \<times> nat \<times> u32 \<times> int"

definition write_first :: "'d vms_io \<Rightarrow> nat \<Rightarrow> 'd write_state \<Rightarrow> 'd write_state option" where
  "write_first io vpos st = (case st of (status, dsk, pBuf, amt, vbn, bcnt) \<Rightarrow>
     if vpos \<noteq> 0 \<and> vms_success status then
       (case readvblk io dsk vbn SQLITE_DEFAULT_SECTOR_SIZE of (status, buf) \<Rightarrow>
          if vms_success status then do {
            let n = min amt (SQLITE_DEFAULT_SECTOR_SIZE - vpos);
            src \<leftarrow> rdn pBuf 0 n;
            buf \<leftarrow> blit buf vpos src;
            (case writevblk io dsk vbn buf of (status, dsk) \<Rightarrow>
               if vms_success status
               then Some (status, dsk, (if int n \<le> 0 then drop n pBuf else pBuf), amt - n, vbn + 1, int n)
               else Some (status, dsk, pBuf, amt, vbn + 1, int n)) }
          else Some (status, dsk, pBuf, amt, vbn, bcnt))
     else Some st)"

definition write_middle :: "'d vms_io \<Rightarrow> 'd write_state \<Rightarrow> 'd write_state option" where
  "write_middle io st = (case st of (status, dsk, pBuf, amt, vbn, bcnt) \<Rightarrow>
     if amt \<ge> SQLITE_DEFAULT_SECTOR_SIZE \<and> vms_success status then do {
       let remainder = amt mod SQLITE_DEFAULT_SECTOR_SIZE;
       src \<leftarrow> rdn pBuf 0 (amt - remainder);
       (case writevblk io dsk vbn src of (status, dsk) \<Rightarrow>
          if vms_success status then
            Some (status, dsk, (if bcnt > 0 then drop (amt - remainder) pBuf else pBuf), remainder,
              (if bcnt > 0 then vbn + of_nat (amt div SQLITE_DEFAULT_SECTOR_SIZE) else vbn), bcnt)
          else Some (status, dsk, pBuf, amt, vbn, bcnt)) }
     else Some st)"

definition write_last :: "'d vms_io \<Rightarrow> 'd write_state \<Rightarrow> (vms_status \<times> 'd) option" where
  "write_last io st = (case st of (status, dsk, pBuf, amt, vbn, bcnt) \<Rightarrow>
     if amt > 0 \<and> vms_success status then
       (case readvblk io dsk vbn SQLITE_DEFAULT_SECTOR_SIZE of (status, buf) \<Rightarrow>
          if vms_success status then do {
            src \<leftarrow> rdn pBuf 0 amt;
            buf \<leftarrow> blit buf 0 src;
            Some (writevblk io dsk vbn buf) }
          else Some (status, dsk))
     else Some (status, dsk))"

definition vmsWrite :: "'d vms_io \<Rightarrow> int \<Rightarrow> vms_file \<Rightarrow> 'd \<Rightarrow> u8 list \<Rightarrow> nat \<Rightarrow> nat \<Rightarrow> (rc \<times> vms_file \<times> 'd) option" where
  "vmsWrite io bcnt0 pFile dsk vBuf amt offset = do {
     let vbn = of_nat (offset div SQLITE_DEFAULT_SECTOR_SIZE + 1);
     let vpos = offset mod SQLITE_DEFAULT_SECTOR_SIZE;
     (status, pFile, dsk) \<leftarrow> write_extend io pFile dsk vbn amt;
     st \<leftarrow> write_first io vpos (status, dsk, vBuf, amt, vbn, bcnt0);
     st \<leftarrow> write_middle io st;
     (status, dsk) \<leftarrow> write_last io st;
     Some (if vms_success status then SQLITE_OK else SQLITE_IOERR_WRITE, pFile, dsk) }"

section \<open>Size, truncation, control\<close>

text \<open>The size is computed in the 32-bit arithmetic of \<open>int\<close>, before it is stored as a 64-bit number.\<close>

definition vmsFileSize :: "'d vms_io \<Rightarrow> 'd \<Rightarrow> rc \<times> i64" where
  "vmsFileSize io dsk = (case io_access io dsk of (status, hiblk, _) \<Rightarrow>
     if vms_success status then (SQLITE_OK, scast (hiblk * of_nat SQLITE_DEFAULT_SECTOR_SIZE :: u32))
     else (SQLITE_IOERR_FSTAT, 0))"

definition vmsTruncate :: "'d vms_io \<Rightarrow> 'd \<Rightarrow> nat \<Rightarrow> rc \<times> 'd" where
  "vmsTruncate io dsk nByte = (SQLITE_OK, io_truncate io dsk (of_nat (nByte div 512 + (if nByte mod 512 \<noteq> 0 then 1 else 0))))"

datatype vms_fcntl = SQLITE_FCNTL_CHUNK_SIZE u32 | SQLITE_FCNTL_SIZE_HINT u32 | SQLITE_FCNTL_VFSNAME | FCNTL_OTHER

text \<open>The last component of the result is the name stored at \<open>pArg\<close> for \<open>SQLITE_FCNTL_VFSNAME\<close>; the argument is the name of the VFS.\<close>

definition vmsFileControl :: "string \<Rightarrow> vms_file \<Rightarrow> vms_fcntl \<Rightarrow> rc \<times> vms_file \<times> string option" where
  "vmsFileControl zName pFile op = (case op of
     SQLITE_FCNTL_CHUNK_SIZE n \<Rightarrow> (SQLITE_OK, pFile\<lparr>szChunk := n\<rparr>, None)
   | SQLITE_FCNTL_SIZE_HINT n \<Rightarrow> (SQLITE_OK, pFile\<lparr>szHint := of_int (if sint n < 0 then - (- sint n div int SQLITE_DEFAULT_SECTOR_SIZE) else sint n div int SQLITE_DEFAULT_SECTOR_SIZE) + 1\<rparr>, None)
   | SQLITE_FCNTL_VFSNAME \<Rightarrow> (SQLITE_OK, pFile, Some zName)
   | FCNTL_OTHER \<Rightarrow> (SQLITE_NOTFOUND, pFile, None))"

section \<open>Locks\<close>

datatype lck_mode = LCK_NLMODE | LCK_PRMODE | LCK_PWMODE | LCK_EXMODE | LCK_INVALID

definition lock_modes :: "lck_mode list" where
  "lock_modes = [LCK_NLMODE, LCK_PRMODE, LCK_PWMODE, LCK_INVALID, LCK_EXMODE]"

text \<open>\<open>enqw\<close> converts the lock with the given id and returns the status of the conversion and the new state of the
  lock manager; \<open>getlki\<close> gives the granted mode of the lock with the given id.\<close>

definition vmsLock :: "('l \<Rightarrow> nat \<Rightarrow> lck_mode \<Rightarrow> vms_status \<times> 'l) \<Rightarrow> 'l \<Rightarrow> vms_file \<Rightarrow> nat \<Rightarrow> (rc \<times> 'l) option" where
  "vmsLock enqw lm pFile locktype = do {
     mode \<leftarrow> rd lock_modes locktype;
     let (status, lm) = enqw lm (lksb_id pFile) mode;
     Some (if vms_success status then SQLITE_OK else SQLITE_BUSY, lm) }"

definition vmsUnLock :: "('l \<Rightarrow> nat \<Rightarrow> lck_mode \<Rightarrow> vms_status \<times> 'l) \<Rightarrow> 'l \<Rightarrow> vms_file \<Rightarrow> nat \<Rightarrow> (rc \<times> 'l) option" where
  "vmsUnLock enqw lm pFile locktype = do {
     mode \<leftarrow> rd lock_modes locktype;
     let (status, lm) = enqw lm (lksb_id pFile) mode;
     Some (if vms_success status then SQLITE_OK else SQLITE_IOERR_UNLOCK, lm) }"

definition vmsCheckReservedLock :: "('l \<Rightarrow> nat \<Rightarrow> vms_status \<times> lck_mode) \<Rightarrow> 'l \<Rightarrow> vms_file \<Rightarrow> rc \<times> bool" where
  "vmsCheckReservedLock getlki lm pFile = (case getlki lm (lksb_id pFile) of (status, granted) \<Rightarrow>
     if vms_success status then (SQLITE_OK, granted = LCK_PWMODE)
     else (SQLITE_IOERR_CHECKRESERVEDLOCK, False))"

section \<open>Random bytes\<close>

text \<open>
  The loop of \<open>vmsRandomness\<close>: \<open>pBuf - (zBuf + nBuf)\<close> is negative and is converted to the unsigned type of \<open>sizeof\<close>
  before the minimum is taken. \<open>rnd\<close> gives the four bytes of the next number and the next seed; \<open>clock\<close> is the seed that is
  made of the time and the process id when there is none. The result has the seed, a static variable, and the buffer.
\<close>

definition random_count :: "nat \<Rightarrow> nat \<Rightarrow> nat" where
  "random_count pBuf nBuf = unat (min (of_nat pBuf - of_nat nBuf :: u32) 4)"

partial_function (option) random_loop :: "(nat \<Rightarrow> u8 list \<times> nat) \<Rightarrow> nat \<Rightarrow> nat \<Rightarrow> nat \<Rightarrow> u8 list \<Rightarrow> (nat \<times> u8 list) option" where
  "random_loop rnd seed nBuf p buf =
     (if p < nBuf then do {
        src \<leftarrow> rdn (fst (rnd seed)) 0 (random_count p nBuf);
        buf \<leftarrow> blit buf p src;
        random_loop rnd (snd (rnd seed)) nBuf (p + random_count p nBuf) buf }
      else Some (seed, buf))"

definition vmsRandomness :: "(nat \<Rightarrow> u8 list \<times> nat) \<Rightarrow> nat \<Rightarrow> nat \<Rightarrow> nat \<Rightarrow> u8 list \<Rightarrow> (nat \<times> u8 list) option" where
  "vmsRandomness rnd clock seed nBuf zBuf = random_loop rnd (if seed = 0 then clock else seed) nBuf 0 zBuf"

section \<open>What the file layer relies on\<close>

text \<open>
  The documented behaviour of virtual block I/O on a file with the bytes \<open>content d\<close> in whole blocks: a read inside
  the file returns the bytes, a read that starts behind the end reports end of file, a read that crosses the end
  transfers what there is; a write inside the file replaces the bytes. A request to extend the file may fail; if it
  succeeds it has appended at least as many blocks as were asked for (\<open>fib$v_aldef\<close> asks for the system default where that
  is more) and says how many.
\<close>

definition overwrite :: "'a list \<Rightarrow> nat \<Rightarrow> 'a list \<Rightarrow> 'a list" where
  "overwrite F pos xs = take pos F @ xs @ drop (pos + length xs) F"

definition MAX_VBN :: nat where "MAX_VBN = 2147483647"

definition vbn_of :: "nat \<Rightarrow> u32" where
  "vbn_of blk = of_nat (blk + 1)"

lemma vbn_of_add [simp]: "vbn_of blk + 1 = vbn_of (Suc blk)" "vbn_of blk + of_nat k = vbn_of (blk + k)"
  by (simp_all add: vbn_of_def)

definition reads_ok :: "'d vms_io \<Rightarrow> ('d \<Rightarrow> u8 list) \<Rightarrow> bool" where
  "reads_ok io content \<longleftrightarrow> (\<forall>d. length (content d) mod 512 = 0) \<and>
     (\<forall>d blk n. blk < MAX_VBN \<longrightarrow> blk * 512 + n \<le> length (content d) \<longrightarrow>
        readvblk io d (vbn_of blk) n = (SS_NORMAL, take n (drop (blk * 512) (content d)))) \<and>
     (\<forall>d blk n. blk < MAX_VBN \<longrightarrow> length (content d) \<le> blk * 512 \<longrightarrow> n > 0 \<longrightarrow> readvblk io d (vbn_of blk) n = (SS_ENDOFFILE, [])) \<and>
     (\<forall>d blk n. blk < MAX_VBN \<longrightarrow> blk * 512 < length (content d) \<longrightarrow> length (content d) < blk * 512 + n \<longrightarrow>
        readvblk io d (vbn_of blk) n = (SS_NORMAL, drop (blk * 512) (content d)))"

definition writes_ok :: "'d vms_io \<Rightarrow> ('d \<Rightarrow> u8 list) \<Rightarrow> bool" where
  "writes_ok io content \<longleftrightarrow>
     (\<forall>d blk xs. blk < MAX_VBN \<longrightarrow> blk * 512 + length xs \<le> length (content d) \<longrightarrow> length xs mod 512 = 0 \<longrightarrow>
        (\<exists>d'. writevblk io d (vbn_of blk) xs = (SS_NORMAL, d') \<and> content d' = overwrite (content d) (blk * 512) xs)) \<and>
     (\<forall>d. \<exists>defext. io_access io d = (SS_NORMAL, of_nat (length (content d) div 512), defext)) \<and>
     (\<forall>d al n. case io_extend io d al n of (status, v, n', d') \<Rightarrow>
        if vms_success status then n \<le> n' \<and> (\<exists>fill. content d' = content d @ fill \<and> length fill = unat n' * 512)
        else content d' = content d) \<and>
     (\<forall>d v. \<exists>d'. io_set_eof io d v = (SS_NORMAL, d') \<and> content d' = content d)"

lemma overwrite_length [simp]: "pos + length xs \<le> length F \<Longrightarrow> length (overwrite F pos xs) = length F"
  by (simp add: overwrite_def)

lemma overwrite_Nil [simp]: "overwrite F pos [] = F"
  by (simp add: overwrite_def)

lemma overwrite_nth:
  "pos + length xs \<le> length F \<Longrightarrow> j < length F \<Longrightarrow>
   overwrite F pos xs ! j = (if pos \<le> j \<and> j < pos + length xs then xs ! (j - pos) else F ! j)"
  by (auto simp: overwrite_def nth_append)

text \<open>Two adjacent overwrites are one, and so is the overwrite of a block with a part of it replaced.\<close>

lemma overwrite_append:
  "pos + length xs + length ys \<le> length F \<Longrightarrow> overwrite (overwrite F pos xs) (pos + length xs) ys = overwrite F pos (xs @ ys)"
  by (rule nth_equalityI) (auto simp: overwrite_nth nth_append)

lemma overwrite_block:
  assumes "blk + 512 \<le> length F" and "v + length xs \<le> 512"
  shows "overwrite F blk (overwrite (take 512 (drop blk F)) v xs) = overwrite F (blk + v) xs"
proof (rule nth_equalityI)
  have l: "length (overwrite (take 512 (drop blk F)) v xs) = 512" using assms by simp
  show "length (overwrite F blk (overwrite (take 512 (drop blk F)) v xs)) = length (overwrite F (blk + v) xs)"
    using assms l by simp
  fix j assume "j < length (overwrite F blk (overwrite (take 512 (drop blk F)) v xs))"
  then have j: "j < length F" using assms l by simp
  show "overwrite F blk (overwrite (take 512 (drop blk F)) v xs) ! j = overwrite F (blk + v) xs ! j"
    using assms j l by (auto simp: overwrite_nth)
qed

lemma blit_overwrite: "v + length xs \<le> length b \<Longrightarrow> blit b v xs = Some (overwrite b v xs)"
  by (simp add: blit_def overwrite_def)

lemma reads_okD:
  assumes "reads_ok io content"
  shows "blk < MAX_VBN \<Longrightarrow> blk * 512 + n \<le> length (content d) \<Longrightarrow>
      readvblk io d (vbn_of blk) n = (SS_NORMAL, take n (drop (blk * 512) (content d)))"
    and "blk < MAX_VBN \<Longrightarrow> length (content d) \<le> blk * 512 \<Longrightarrow> n > 0 \<Longrightarrow> readvblk io d (vbn_of blk) n = (SS_ENDOFFILE, [])"
    and "blk < MAX_VBN \<Longrightarrow> blk * 512 < length (content d) \<Longrightarrow> length (content d) < blk * 512 + n \<Longrightarrow>
      readvblk io d (vbn_of blk) n = (SS_NORMAL, drop (blk * 512) (content d))"
    and "length (content d) mod 512 = 0"
  using assms unfolding reads_ok_def by blast+

text \<open>The numbers of the blocks of a request are in range if it ends before \<open>2^40 - 512\<close>.\<close>

definition in_range :: "nat \<Rightarrow> bool" where
  "in_range e \<longleftrightarrow> e \<le> MAX_VBN * 512"

lemma in_range_blk: "blk * 512 + n \<le> e \<Longrightarrow> in_range e \<Longrightarrow> 0 < n \<Longrightarrow> blk < MAX_VBN"
  by (simp add: in_range_def MAX_VBN_def)

text \<open>Inside a file of whole blocks a block that begins before the end is complete.\<close>

lemma block_inside:
  assumes "n mod (512::nat) = 0" and "blk * 512 < n"
  shows "blk * 512 + 512 \<le> n"
proof -
  from assms(1) obtain q where "n = 512 * q" by auto
  then show ?thesis using assms(2) by (simp add: mult.commute [of 512])
qed

section \<open>Reading\<close>

lemma read_aligned:
  fixes dsk :: 'd
  assumes "reads_ok io content" and rng: "in_range (blk * 512 + amt)"
  defines "F \<equiv> content dsk"
  shows "\<exists>v. read_last io dsk (read_middle io dsk (SS_NORMAL, out, amt, vbn_of blk)) =
    Some (if amt = 0 \<or> blk * 512 + amt \<le> length F then (SS_NORMAL, out @ take amt (drop (blk * 512) F), 0, v)
          else (SS_ENDOFFILE, out @ drop (blk * 512) F, amt - (length F - blk * 512), v))"
proof -
  note rd = reads_okD [OF assms(1), where d = dsk, folded F_def]
  define m where "m = amt div 512 * 512"
  define r where "r = amt mod 512"
  have amt: "amt = m + r" "r < 512" "amt - r = m" "m div 512 = amt div 512" "m mod 512 = 0"
    by (simp_all add: m_def r_def minus_mod_eq_div_mult)
  have last: "\<exists>v. read_last io dsk (SS_NORMAL, out', r, vbn_of k) =
      Some (if r = 0 \<or> k * 512 + r \<le> length F then (SS_NORMAL, out' @ take r (drop (k * 512) F), 0, v)
            else (SS_ENDOFFILE, out' @ drop (k * 512) F, r - (length F - k * 512), v))"
    if kr: "k * 512 + r \<le> blk * 512 + amt" for out' k
  proof (cases "r = 0")
    case False
    then have kk: "k < MAX_VBN" using in_range_blk [OF kr rng] by simp
    show ?thesis
    proof (cases "k * 512 < length F")
      case True
      from block_inside [OF rd(4) True] show ?thesis
        using False amt(2) rd(1) [OF kk, of 512]
        by (simp add: read_last_def vms_success_def SQLITE_DEFAULT_SECTOR_SIZE_def rdn_def)
    next
      case F: False
      then show ?thesis
        using False rd(2) [OF kk, of 512] by (simp add: read_last_def vms_success_def SQLITE_DEFAULT_SECTOR_SIZE_def)
    qed
  qed (simp add: read_last_def)
  show ?thesis
  proof (cases "m = 0")
    case True
    then have ar: "amt = r" "\<not> 512 \<le> amt" using amt by simp_all
    then have "read_middle io dsk (SS_NORMAL, out, amt, vbn_of blk) = (SS_NORMAL, out, r, vbn_of blk)"
      by (simp add: read_middle_def SQLITE_DEFAULT_SECTOR_SIZE_def)
    then show ?thesis
      using last [of blk out] unfolding ar(1) by (simp only: order_refl)
  next
    case False
    then have "amt div 512 \<noteq> 0" by (simp add: m_def)
    then have big: "512 \<le> amt" by (simp add: div_eq_0_iff)
    then have bk: "blk < MAX_VBN" using in_range_blk [OF order_refl rng] by simp
    consider "blk * 512 + m \<le> length F" | "length F \<le> blk * 512" | "blk * 512 < length F" "length F < blk * 512 + m"
      by linarith
    then show ?thesis
    proof cases
      case 1
      have "read_middle io dsk (SS_NORMAL, out, amt, vbn_of blk) =
          (SS_NORMAL, out @ take m (drop (blk * 512) F), r, vbn_of (blk + amt div 512))"
        using big 1 rd(1) [OF bk, of m] amt(3,4)
        by (simp add: read_middle_def vms_success_def SQLITE_DEFAULT_SECTOR_SIZE_def r_def [symmetric])
      moreover have "(blk + amt div 512) * 512 = blk * 512 + m" by (simp add: m_def algebra_simps)
      moreover have "take (m + r) (drop (blk * 512) F) = take m (drop (blk * 512) F) @ take r (drop (blk * 512 + m) F)"
        by (simp add: take_add add.commute)
      moreover have "drop (blk * 512) F = take m (drop (blk * 512) F) @ drop (blk * 512 + m) F"
        by (metis append_take_drop_id drop_drop add.commute)
      ultimately show ?thesis
        using last [of "blk + amt div 512" "out @ take m (drop (blk * 512) F)"] 1 amt(1) rd(4)
        by (auto simp: add.assoc dest: block_inside)
    next
      case 2
      then show ?thesis
        using big False rd(2) [OF bk, of m] amt(3)
        by (simp add: read_middle_def read_last_def vms_success_def SQLITE_DEFAULT_SECTOR_SIZE_def r_def [symmetric])
    next
      case 3
      then have "length F - blk * 512 < m" "\<not> blk * 512 + amt \<le> length F" using amt(1) by linarith+
      with 3 show ?thesis
        using big rd(3) [OF bk, of m] amt(3)
        by (simp add: read_middle_def read_last_def vms_success_def SQLITE_DEFAULT_SECTOR_SIZE_def r_def [symmetric])
    qed
  qed
qed

text \<open>The end of \<open>vmsRead\<close>, from a block boundary on.\<close>

definition read_rest :: "'d vms_io \<Rightarrow> 'd \<Rightarrow> read_state \<Rightarrow> (rc \<times> u8 list) option" where
  "read_rest io dsk st = do {
     (status, out, amt, _) \<leftarrow> read_last io dsk (read_middle io dsk st);
     if status = SS_ENDOFFILE then Some (SQLITE_IOERR_SHORT_READ, out @ replicate amt 0)
     else if \<not> vms_success status then Some (SQLITE_IOERR_READ, out)
     else Some (SQLITE_OK, out) }"

lemma read_rest_spec:
  assumes "reads_ok io content" and "a = 0 \<or> in_range (k * 512 + a)"
  shows "read_rest io dsk (SS_NORMAL, out, a, vbn_of k) =
    Some (if a = 0 \<or> k * 512 + a \<le> length (content dsk) then SQLITE_OK else SQLITE_IOERR_SHORT_READ,
      out @ take a (drop (k * 512) (content dsk)) @ replicate (a - (length (content dsk) - k * 512)) 0)"
proof (cases "a = 0")
  case True
  then show ?thesis by (simp add: read_rest_def read_middle_def read_last_def vms_success_def SQLITE_DEFAULT_SECTOR_SIZE_def)
next
  case False
  then have r: "in_range (k * 512 + a)" using assms(2) by simp
  obtain x where "read_last io dsk (read_middle io dsk (SS_NORMAL, out, a, vbn_of k)) =
      Some (if a = 0 \<or> k * 512 + a \<le> length (content dsk)
        then (SS_NORMAL, out @ take a (drop (k * 512) (content dsk)), 0, x)
        else (SS_ENDOFFILE, out @ drop (k * 512) (content dsk), a - (length (content dsk) - k * 512), x))"
    using read_aligned [OF assms(1) r] by blast
  then show ?thesis
    by (cases "a = 0 \<or> k * 512 + a \<le> length (content dsk)") (auto simp: read_rest_def vms_success_def)
qed

lemma vmsRead_spec:
  assumes ok: "reads_ok io content" and "amt > 0" and rng: "in_range (offset + amt)"
  shows "vmsRead io dsk amt offset =
    Some (if offset + amt \<le> length (content dsk) then SQLITE_OK else SQLITE_IOERR_SHORT_READ,
      take amt (drop offset (content dsk)) @ replicate (amt - (length (content dsk) - offset)) 0)"
proof -
  define F where "F = content dsk"
  define blk where "blk = offset div 512"
  define v where "v = offset mod 512"
  note rd = reads_okD [OF ok, where d = dsk, folded F_def]
  note rest = read_rest_spec [OF ok, where dsk = dsk, folded F_def]
  have off: "offset = blk * 512 + v" "v < 512" by (simp_all add: blk_def v_def)
  have bk: "blk < MAX_VBN" using in_range_blk [of blk amt, OF _ rng] off(1) assms(2) by simp
  have run: "vmsRead io dsk amt offset = do {
      st \<leftarrow> read_first io dsk v (SS_NORMAL, [], amt, vbn_of blk); read_rest io dsk st }"
    by (simp add: vmsRead_def read_rest_def SQLITE_DEFAULT_SECTOR_SIZE_def blk_def v_def vbn_of_def)
  consider "v = 0" | "v \<noteq> 0" "blk * 512 < length F" | "v \<noteq> 0" "length F \<le> blk * 512" by linarith
  then have "vmsRead io dsk amt offset =
    Some (if offset + amt \<le> length F then SQLITE_OK else SQLITE_IOERR_SHORT_READ,
      take amt (drop offset F) @ replicate (amt - (length F - offset)) 0)"
  proof cases
    case 1
    then have "read_first io dsk v (SS_NORMAL, [], amt, vbn_of blk) = Some (SS_NORMAL, [], amt, vbn_of blk)"
      by (simp add: read_first_def)
    then show ?thesis unfolding run using rest [of amt blk "[]"] assms(2) 1 off(1) rng by simp
  next
    case 2
    from block_inside [OF rd(4) 2(2)] have b: "blk * 512 + 512 \<le> length F" .
    define n where "n = min amt (512 - v)"
    have n: "v + n \<le> 512" "n \<le> amt" using off(2) by (auto simp: n_def)
    have "n \<le> 512 - v" using n by simp
    then have "take n (drop v (take 512 (drop (blk * 512) F))) = take n (drop offset F)"
      by (simp add: drop_take take_take min_absorb1 off(1) add.commute)
    then have chunk: "rdn (take 512 (drop (blk * 512) F)) v n = Some (take n (drop offset F))"
      using n b by (simp add: rdn_def)
    have first: "read_first io dsk v (SS_NORMAL, [], amt, vbn_of blk) =
        Some (SS_NORMAL, take n (drop offset F), amt - n, vbn_of (Suc blk))"
      using 2(1) b rd(1) [OF bk, of 512] chunk
      by (simp add: read_first_def vms_success_def SQLITE_DEFAULT_SECTOR_SIZE_def n_def [symmetric])
    show ?thesis
    proof (cases "n = amt")
      case True
      then have "offset + amt \<le> length F" using n b off(1) by linarith
      then show ?thesis unfolding run first using rest [of 0 "Suc blk"] True by simp
    next
      case False
      then have pos: "Suc blk * 512 = offset + n" "amt - n \<noteq> 0" using off n by (auto simp: n_def min_def)
      have "take amt (drop offset F) = take n (drop offset F) @ take (amt - n) (drop (offset + n) F)"
        using n by (metis le_add_diff_inverse take_add drop_drop add.commute)
      moreover have "amt - n - (length F - (offset + n)) = amt - (length F - offset)"
        "offset + n + (amt - n) = offset + amt" using n b off(1) by linarith+
      ultimately show ?thesis unfolding run first using rest [of "amt - n" "Suc blk" "take n (drop offset F)"] pos rng
        by (simp only: bind.simps append.assoc) simp
    qed
  next
    case 3
    then have "read_first io dsk v (SS_NORMAL, [], amt, vbn_of blk) = Some (SS_ENDOFFILE, [], amt, vbn_of (Suc blk))"
      using rd(2) [OF bk, of 512] by (simp add: read_first_def vms_success_def SQLITE_DEFAULT_SECTOR_SIZE_def)
    then show ?thesis
      unfolding run using 3(2) off(1) assms(2) by (simp add: read_rest_def read_middle_def read_last_def vms_success_def)
  qed
  then show ?thesis by (simp add: F_def)
qed


section \<open>Writing\<close>

lemma sint_of_nat_small: "n < 2 ^ 31 \<Longrightarrow> sint (of_nat n :: u32) = int n"
  by (simp add: sint_uint signed_take_bit_int_eq_self uint_nat unat_of_nat)

lemma unat_of_nat32_small: "n < 2 ^ 32 \<Longrightarrow> unat (of_nat n :: u32) = n"
  by (simp add: unat_of_nat)

lemma extend_loop_ge:
  assumes "0 < step" and "unat step < 2 ^ 31" and "unat needed < 2 ^ 31" and "unat exsz < 2 ^ 31"
  shows "\<exists>x. extend_loop step needed exsz = Some x \<and> needed \<le> x"
  using assms(4)
proof (induction "unat needed - unat exsz" arbitrary: exsz rule: less_induct)
  case less
  have u: "unat (exsz + step) = unat exsz + unat step" using less.prems assms(2) by (simp flip: unat_add_lem)
  have "0 < unat step" using assms(1) by (simp add: word_less_nat_alt)
  show ?case
  proof (cases "exsz + step < needed")
    case True
    then have l: "unat (exsz + step) < unat needed" by (simp add: word_less_nat_alt)
    then have "\<exists>x. extend_loop step needed (exsz + step) = Some x \<and> needed \<le> x"
      using less.hyps [of "exsz + step"] assms(3) u \<open>0 < unat step\<close> by simp
    then show ?thesis using True by (subst extend_loop.simps) (simp add: Let_def)
  next
    case False
    then show ?thesis by (subst extend_loop.simps) (simp add: Let_def)
  qed
qed

definition write_needed :: "vms_file \<Rightarrow> nat \<Rightarrow> nat \<Rightarrow> nat" where
  "write_needed pFile offset amt = max (nat (sint (szHint pFile))) (offset div 512 + amt div 512 + 2)"

lemma sint_vbn_small: "unat (x :: u32) < 2 ^ 31 \<Longrightarrow> sint x = int (unat x)"
  using sint_of_nat_small [of "unat x"] by simp

lemma sint_positive: "0 < sint (x :: u32) \<Longrightarrow> unat x < 2 ^ 31 \<and> unat x = nat (sint x)"
proof -
  assume a: "0 < sint x"
  have l: "sint x < 2 ^ 31" using sint_lt [of x] by simp
  have "of_int (sint x) = x" by simp
  then have "of_nat (nat (sint x)) = x" using a by (simp add: of_nat_nat)
  moreover have "nat (sint x) < 2 ^ 32" using l a by (simp add: nat_less_iff)
  ultimately have "unat x = nat (sint x)" by (metis unat_of_nat32_small)
  then show ?thesis using l a by (simp add: nat_less_iff)
qed

text \<open>
  A file is extended by enough blocks, unless the default of the process is smaller than what is needed, which is a
  condition below; or the extension fails, and then the file is as it was.
\<close>

definition extend_fails :: "'d vms_io \<Rightarrow> 'd \<Rightarrow> bool" where
  "extend_fails io dsk \<longleftrightarrow> (\<exists>al n. \<not> vms_success (fst (io_extend io dsk al n)))"

definition extend_default_ok :: "'d vms_io \<Rightarrow> vms_file \<Rightarrow> nat \<Rightarrow> nat \<Rightarrow> bool" where
  "extend_default_ok io pFile offset amt \<longleftrightarrow>
     rms_extend_size io = 0 \<or> write_needed pFile offset amt \<le> unat (rms_extend_size io)"

lemma larger_hint:
  assumes "unat (u :: u32) = n" and "n < 2 ^ 31"
  shows "unat (if 0 < sint h then (if sint u < sint h then h else u) else u) = max (nat (sint h)) n"
    and "unat (if 0 < sint h then (if sint u < sint h then h else u) else u) < 2 ^ 31"
proof -
  have u: "sint u = int n" using sint_vbn_small [of u] assms by simp
  show "unat (if 0 < sint h then (if sint u < sint h then h else u) else u) = max (nat (sint h)) n"
    "unat (if 0 < sint h then (if sint u < sint h then h else u) else u) < 2 ^ 31"
    unfolding u using sint_positive [of h] assms by (simp_all split: if_split) linarith+
qed

lemma write_extend_size:
  assumes "in_range (offset + amt + 1024)"
  shows "unat (vbn_of (offset div 512) + of_nat (amt div 512) + 1) = offset div 512 + amt div 512 + 2"
    and "offset div 512 + amt div 512 + 2 < 2 ^ 31"
proof -
  have "512 * (offset div 512) + 512 * (amt div 512) \<le> offset + amt" by (simp add: add_mono)
  then show l: "offset div 512 + amt div 512 + 2 < 2 ^ 31" using assms unfolding in_range_def MAX_VBN_def by simp
  have "vbn_of (offset div 512) + of_nat (amt div 512) + 1 = (of_nat (offset div 512 + amt div 512 + 2) :: u32)" by (simp add: vbn_of_def)
  then show "unat (vbn_of (offset div 512) + of_nat (amt div 512) + 1) = offset div 512 + amt div 512 + 2"
    using unat_of_nat32_small [of "offset div 512 + amt div 512 + 2"] order_less_trans [OF l, of "2 ^ 32"] by simp
qed

definition extend_quantity :: "u32 \<Rightarrow> u16 \<Rightarrow> u32 \<Rightarrow> u32 \<Rightarrow> (u32 \<times> bool) option" where
  "extend_quantity chunk defext def need =
     (if 0 < sint chunk then do { n \<leftarrow> extend_loop chunk need 0; Some (n, False) }
      else if defext \<noteq> 0 then do { n \<leftarrow> extend_loop (ucast defext) need 0; Some (n, False) }
      else Some (if def \<noteq> 0 then def else need, True))"

lemma extend_quantity_ge:
  assumes "unat need < 2 ^ 31" and "def = 0 \<or> unat need \<le> unat def"
  shows "\<exists>exsz al. extend_quantity chunk defext def need = Some (exsz, al) \<and> need \<le> exsz"
proof -
  consider "0 < sint chunk" | "\<not> 0 < sint chunk" "defext \<noteq> 0" | "\<not> 0 < sint chunk" "defext = 0" by blast
  then show ?thesis
  proof cases
    case 1
    have p: "unat chunk < 2 ^ 31" "unat chunk = nat (sint chunk)" using sint_positive [OF 1] by simp_all
    have "0 < chunk" using p(2) 1 by (simp add: word_less_nat_alt)
    from extend_loop_ge [OF this p(1) assms(1), of 0] obtain x where "extend_loop chunk need 0 = Some x" "need \<le> x" by auto
    then show ?thesis using 1 by (auto simp: extend_quantity_def)
  next
    case 2
    have l: "unat defext < 2 ^ 16" using unsigned_less [of defext] by simp
    then have u: "unat (ucast defext :: u32) = unat defext" by (simp add: unsigned_ucast_eq take_bit_nat_eq_self)
    have "0 < (ucast defext :: u32)" using 2(2) u by (simp add: word_less_nat_alt unat_gt_0)
    moreover have "unat (ucast defext :: u32) < 2 ^ 31" using u l by simp
    ultimately obtain x where "extend_loop (ucast defext) need 0 = Some x" "need \<le> x" using extend_loop_ge [OF _ _ assms(1), of "ucast defext" 0] by auto
    then show ?thesis using 2 by (auto simp: extend_quantity_def)
  next
    case 3
    then show ?thesis using assms(2) by (auto simp: extend_quantity_def word_le_nat_alt)
  qed
qed

lemma write_extend_ok:
  assumes w: "writes_ok io content" and r: "reads_ok io content" and d: "extend_default_ok io pFile offset amt"
    and rng: "in_range (offset + amt + 1024)" "in_range (length (content dsk))"
  shows "\<exists>st pF d. write_extend io pFile dsk (vbn_of (offset div 512)) amt = Some (st, pF, d) \<and>
    (if vms_success st then (\<exists>fill. content d = content dsk @ fill) \<and> offset div 512 * 512 + amt div 512 * 512 + 1024 \<le> length (content d)
     else content d = content dsk \<and> extend_fails io dsk)"
proof -
  define n where "n = vbn_of (offset div 512) + of_nat (amt div 512) + 1"
  define need where "need = (if 0 < sint (szHint pFile) then (if sint n < sint (szHint pFile) then szHint pFile else n) else n)"
  define pF where "pF = (if 0 < sint (szHint pFile) then pFile\<lparr>szHint := 0\<rparr> else pFile)"
  define k where "k = length (content dsk) div 512"
  have need: "unat need = write_needed pFile offset amt" "unat need < 2 ^ 31" "sint need = int (unat need)"
    using larger_hint [OF write_extend_size [OF rng(1)], of "szHint pFile", folded n_def, folded need_def] sint_vbn_small [of need]
    by (simp_all add: write_needed_def)
  have big: "offset div 512 + amt div 512 + 2 \<le> unat need" by (simp add: need(1) write_needed_def)
  have k: "length (content dsk) = k * 512" "k < 2 ^ 31" using reads_okD(4) [OF r, of dsk] rng(2) by (auto simp: k_def in_range_def MAX_VBN_def)
  obtain defext where acc: "io_access io dsk = (SS_NORMAL, of_nat k, defext)" using w unfolding writes_ok_def k_def by blast
  have cmp: "(sint (of_nat k :: u32) < sint need) = (k < unat need)"
    unfolding sint_of_nat_small [OF k(2)] need(3) by (rule of_nat_less_iff)
  have ok: "vms_success SS_NORMAL" by (simp add: vms_success_def)
  have run: "write_extend io pFile dsk (vbn_of (offset div 512)) amt =
    (if k < unat need then do {
       (exsz, aldef) \<leftarrow> extend_quantity (szChunk pF) defext (rms_extend_size io) need;
       (case io_extend io dsk aldef exsz of (status, exvbn, exsz, dsk) \<Rightarrow>
          if vms_success status then (case io_set_eof io dsk (exvbn + exsz) of (status, dsk) \<Rightarrow> Some (status, pF, dsk))
          else Some (status, pF, dsk)) }
     else Some (SS_NORMAL, pF, dsk))"
    unfolding write_extend_def acc prod.case SQLITE_DEFAULT_SECTOR_SIZE_def Let_def n_def [symmetric] need_def [symmetric] pF_def [symmetric] cmp if_P [OF ok]
      extend_quantity_def [symmetric] by (rule refl)
  show ?thesis
  proof (cases "k < unat need")
    case False
    then have "offset div 512 * 512 + amt div 512 * 512 + 1024 \<le> length (content dsk)" using big k(1) by linarith
    then show ?thesis using False by (simp add: run vms_success_def)
  next
    case True
    have dq: "rms_extend_size io = 0 \<or> unat need \<le> unat (rms_extend_size io)" using d need(1) by (simp add: extend_default_ok_def)
    from extend_quantity_ge [OF need(2) dq] obtain exsz al where
      ex: "extend_quantity (szChunk pF) defext (rms_extend_size io) need = Some (exsz, al)" "need \<le> exsz" by blast
    obtain st v n' d1 where e: "io_extend io dsk al exsz = (st, v, n', d1)" by (cases "io_extend io dsk al exsz") auto
    have c: "if vms_success st then exsz \<le> n' \<and> (\<exists>fill. content d1 = content dsk @ fill \<and> length fill = unat n' * 512) else content d1 = content dsk"
    proof -
      have "\<forall>d al n. case io_extend io d al n of (status, v, n', d') \<Rightarrow>
          if vms_success status then n \<le> n' \<and> (\<exists>fill. content d' = content d @ fill \<and> length fill = unat n' * 512) else content d' = content d"
        using w unfolding writes_ok_def by (elim conjE) assumption
      from this [THEN spec, of dsk, THEN spec, of al, THEN spec, of exsz] show ?thesis by (simp only: e prod.case)
    qed
    show ?thesis
    proof (cases "vms_success st")
      case ok: True
      then obtain fill where f: "content d1 = content dsk @ fill" "length fill = unat n' * 512" "exsz \<le> n'" using c by auto
      obtain d2 where e2: "io_set_eof io d1 (v + n') = (SS_NORMAL, d2)" "content d2 = content d1" using w unfolding writes_ok_def by blast
      have "unat need \<le> unat n'" using ex(2) f(3) by (simp add: word_le_nat_alt)
      then have "offset div 512 * 512 + amt div 512 * 512 + 1024 \<le> length (content d2)" using big f(1,2) e2(2) by simp
      then show ?thesis using True ok f(1) e2 by (simp add: run ex(1) e vms_success_def)
    next
      case bad: False
      then show ?thesis using True c by (auto simp: run ex(1) e extend_fails_def intro!: exI [of _ al] exI [of _ exsz])
    qed
  qed
qed

lemma writes_okD:
  assumes "writes_ok io content" and "blk < MAX_VBN" and "blk * 512 + length xs \<le> length (content d)" and "length xs mod 512 = 0"
  shows "\<exists>d'. writevblk io d (vbn_of blk) xs = (SS_NORMAL, d') \<and> content d' = overwrite (content d) (blk * 512) xs"
  using assms by (simp add: writes_ok_def)

lemma write_block:
  assumes "writes_ok io content" and "reads_ok io content" and "blk < MAX_VBN" and "blk * 512 + 512 \<le> length (content d)"
    and "v + length xs \<le> 512"
  shows "\<exists>b d'. readvblk io d (vbn_of blk) 512 = (SS_NORMAL, take 512 (drop (blk * 512) (content d))) \<and>
    blit (take 512 (drop (blk * 512) (content d))) v xs = Some b \<and> writevblk io d (vbn_of blk) b = (SS_NORMAL, d') \<and>
    content d' = overwrite (content d) (blk * 512 + v) xs"
proof -
  define b where "b = overwrite (take 512 (drop (blk * 512) (content d))) v xs"
  have l: "length b = 512" using assms(4,5) by (simp add: b_def)
  then obtain d' where "writevblk io d (vbn_of blk) b = (SS_NORMAL, d')" "content d' = overwrite (content d) (blk * 512) b"
    using writes_okD [OF assms(1,3), of b d] assms(4) by auto
  moreover have "blit (take 512 (drop (blk * 512) (content d))) v xs = Some b"
    using assms(4,5) by (simp add: b_def blit_overwrite)
  moreover have "overwrite (content d) (blk * 512) b = overwrite (content d) (blk * 512 + v) xs"
    unfolding b_def using assms(4,5) by (rule overwrite_block)
  ultimately show ?thesis
    using reads_okD(1) [OF assms(2,3,4)] by auto
qed

text \<open>
  The outcome of a write: the bytes of the file, extended if need be, have become \<open>G\<close> of what they were; or a request to
  extend it failed, the file is as it was, and the caller is told.
\<close>

definition write_outcome :: "'d vms_io \<Rightarrow> ('d \<Rightarrow> u8 list) \<Rightarrow> 'd \<Rightarrow> (u8 list \<Rightarrow> u8 list) \<Rightarrow> (rc \<times> vms_file \<times> 'd) option \<Rightarrow> bool" where
  "write_outcome io content dsk G r \<longleftrightarrow> (\<exists>rc pF d. r = Some (rc, pF, d) \<and>
     (rc = SQLITE_OK \<and> (\<exists>fill. content d = G (content dsk @ fill)) \<or>
      rc = SQLITE_IOERR_WRITE \<and> content d = content dsk \<and> extend_fails io dsk))"

lemma vmsWrite_run:
  assumes "writes_ok io content" and "reads_ok io content" and "extend_default_ok io pFile offset amt"
    and "in_range (offset + amt + 1024)" and "in_range (length (content dsk))"
    and parts: "\<And>d. offset div 512 * 512 + amt div 512 * 512 + 1024 \<le> length (content d) \<Longrightarrow>
      \<exists>d'. (do { st \<leftarrow> write_first io (offset mod 512) (SS_NORMAL, d, vBuf, amt, vbn_of (offset div 512), bcnt0);
         st \<leftarrow> write_middle io st; write_last io st }) = Some (SS_NORMAL, d') \<and> content d' = G (content d)"
  shows "write_outcome io content dsk G (vmsWrite io bcnt0 pFile dsk vBuf amt offset)"
proof -
  obtain st pF d where e: "write_extend io pFile dsk (vbn_of (offset div 512)) amt = Some (st, pF, d)"
    "if vms_success st then (\<exists>fill. content d = content dsk @ fill) \<and> offset div 512 * 512 + amt div 512 * 512 + 1024 \<le> length (content d)
     else content d = content dsk \<and> extend_fails io dsk"
    using write_extend_ok [OF assms(1-5)] by blast
  have run: "vmsWrite io bcnt0 pFile dsk vBuf amt offset = do {
      (status, d) \<leftarrow> do { s \<leftarrow> write_first io (offset mod 512) (st, d, vBuf, amt, vbn_of (offset div 512), bcnt0); s \<leftarrow> write_middle io s; write_last io s };
      Some (if vms_success status then SQLITE_OK else SQLITE_IOERR_WRITE, pF, d) }"
    unfolding vmsWrite_def SQLITE_DEFAULT_SECTOR_SIZE_def Let_def vbn_of_def [symmetric] e(1) by (simp add: Option.bind_assoc)
  show ?thesis
  proof (cases "vms_success st")
    case True
    then have room: "offset div 512 * 512 + amt div 512 * 512 + 1024 \<le> length (content d)" and st: "st = SS_NORMAL" and f: "\<exists>fill. content d = content dsk @ fill"
      using e(2) by (simp_all add: vms_success_def)
    obtain d' where "(do { st \<leftarrow> write_first io (offset mod 512) (SS_NORMAL, d, vBuf, amt, vbn_of (offset div 512), bcnt0);
         st \<leftarrow> write_middle io st; write_last io st }) = Some (SS_NORMAL, d')" "content d' = G (content d)" using parts [OF room] by blast
    then show ?thesis unfolding write_outcome_def run st using f by (auto simp: vms_success_def)
  next
    case False
    then show ?thesis unfolding write_outcome_def run using e(2) by (simp add: write_first_def write_middle_def write_last_def)
  qed
qed

lemma write_first_aligned: "write_first io 0 st = Some st"
  by (cases st) (simp add: write_first_def)

lemma write_first_step:
  assumes "writes_ok io content" and "reads_ok io content" and "blk < MAX_VBN" and "blk * 512 + 512 \<le> length (content d)"
    and "0 < v" and "v < 512" and "length vBuf = amt"
  shows "\<exists>d'. write_first io v (SS_NORMAL, d, vBuf, amt, vbn_of blk, b) =
      Some (SS_NORMAL, d', (if min amt (512 - v) = 0 then drop (min amt (512 - v)) vBuf else vBuf), amt - min amt (512 - v),
        vbn_of (Suc blk), int (min amt (512 - v))) \<and>
    content d' = overwrite (content d) (blk * 512 + v) (take (min amt (512 - v)) vBuf)"
proof -
  define n where "n = min amt (512 - v)"
  have n: "n \<le> amt" "v + n \<le> 512" using assms(6) by (auto simp: n_def)
  have src: "rdn vBuf 0 n = Some (take n vBuf)" "length (take n vBuf) = n" using n assms(7) by (simp_all add: rdn_def)
  obtain buf d' where w: "readvblk io d (vbn_of blk) 512 = (SS_NORMAL, take 512 (drop (blk * 512) (content d)))"
    "blit (take 512 (drop (blk * 512) (content d))) v (take n vBuf) = Some buf" "writevblk io d (vbn_of blk) buf = (SS_NORMAL, d')"
    "content d' = overwrite (content d) (blk * 512 + v) (take n vBuf)"
    using write_block [OF assms(1-4), of v "take n vBuf"] n src(2) by auto
  have "write_first io v (SS_NORMAL, d, vBuf, amt, vbn_of blk, b) =
      Some (SS_NORMAL, d', (if n = 0 then drop n vBuf else vBuf), amt - n, vbn_of (Suc blk), int n)"
    using assms(5) w(1,2,3) src(1)
    by (simp add: write_first_def SQLITE_DEFAULT_SECTOR_SIZE_def vms_success_def n_def [symmetric])
  then show ?thesis using w(4) by (simp add: n_def)
qed

lemma write_middle_skip: "amt < 512 \<Longrightarrow> write_middle io (s, d, p, amt, v, b) = Some (s, d, p, amt, v, b)"
  by (simp add: write_middle_def SQLITE_DEFAULT_SECTOR_SIZE_def)

lemma write_middle_step:
  assumes "writes_ok io content" and "blk < MAX_VBN" and "512 \<le> amt" and "blk * 512 + amt \<le> length (content d)" and "amt \<le> length pBuf"
  defines "m \<equiv> amt div 512 * 512"
  shows "\<exists>d'. write_middle io (SS_NORMAL, d, pBuf, amt, vbn_of blk, b) =
      Some (SS_NORMAL, d', (if b > 0 then drop m pBuf else pBuf), amt mod 512, (if b > 0 then vbn_of (blk + amt div 512) else vbn_of blk), b) \<and>
    content d' = overwrite (content d) (blk * 512) (take m pBuf)"
proof -
  have m: "amt - amt mod 512 = m" "m \<le> amt" "m mod 512 = 0" by (simp_all add: m_def minus_mod_eq_div_mult)
  have l: "length (take m pBuf) = m" "rdn pBuf 0 m = Some (take m pBuf)" using m(2) assms(5) by (simp_all add: rdn_def)
  have fits: "blk * 512 + length (take m pBuf) \<le> length (content d)" "length (take m pBuf) mod 512 = 0"
    unfolding l(1) using assms(4) m(2,3) by simp_all
  obtain d' where "writevblk io d (vbn_of blk) (take m pBuf) = (SS_NORMAL, d')"
    "content d' = overwrite (content d) (blk * 512) (take m pBuf)"
    using writes_okD [OF assms(1,2) fits] by blast
  then show ?thesis
    using assms(3) l(2) m(1) by (simp add: write_middle_def SQLITE_DEFAULT_SECTOR_SIZE_def vms_success_def)
qed

lemma write_last_skip: "write_last io (s, d, p, 0, v, b) = Some (s, d)"
  by (simp add: write_last_def)

lemma write_last_step:
  assumes "writes_ok io content" and "reads_ok io content" and "blk < MAX_VBN" and "blk * 512 + 512 \<le> length (content d)"
    and "0 < amt" and "amt \<le> 512" and "amt \<le> length pBuf"
  shows "\<exists>d'. write_last io (SS_NORMAL, d, pBuf, amt, vbn_of blk, b) = Some (SS_NORMAL, d') \<and>
    content d' = overwrite (content d) (blk * 512) (take amt pBuf)"
proof -
  have src: "rdn pBuf 0 amt = Some (take amt pBuf)" "length (take amt pBuf) = amt" using assms(7) by (simp_all add: rdn_def)
  show ?thesis
    using write_block [OF assms(1-4), of 0 "take amt pBuf"] src assms(5,6)
    by (auto simp: write_last_def SQLITE_DEFAULT_SECTOR_SIZE_def vms_success_def)
qed

text \<open>The parts after the first one with \<open>bcnt\<close> positive write all bytes that are left, from where \<open>pBuf\<close> stands.\<close>

lemma write_tail:
  assumes "writes_ok io content" and "reads_ok io content" and "in_range (blk * 512 + amt)" and "0 < amt" and "amt \<le> length pBuf" and "0 < b"
    and "blk * 512 + amt div 512 * 512 + 512 \<le> length (content d)"
  shows "\<exists>d'. (do { st \<leftarrow> write_middle io (SS_NORMAL, d, pBuf, amt, vbn_of blk, b); write_last io st }) = Some (SS_NORMAL, d') \<and>
    content d' = overwrite (content d) (blk * 512) (take amt pBuf)"
proof -
  have bk: "blk < MAX_VBN" using in_range_blk [OF order_refl assms(3,4)] .
  define m where "m = amt div 512 * 512"
  have m: "m + amt mod 512 = amt" by (simp add: m_def)
  show ?thesis
  proof (cases "512 \<le> amt")
    case False
    then have "blk * 512 + 512 \<le> length (content d)" using assms(7) by simp
    then show ?thesis using write_last_step [OF assms(1,2) bk _ assms(4) _ assms(5)] False by (simp add: write_middle_skip)
  next
    case True
    have "blk * 512 + amt \<le> length (content d)" using assms(7) mod_less_divisor [of 512 amt] m by (simp add: m_def [symmetric])
    then obtain d1 where d1: "write_middle io (SS_NORMAL, d, pBuf, amt, vbn_of blk, b) = Some (SS_NORMAL, d1, drop m pBuf, amt mod 512, vbn_of (blk + amt div 512), b)"
      "content d1 = overwrite (content d) (blk * 512) (take m pBuf)"
      using write_middle_step [OF assms(1) bk True, of d pBuf b] assms(5,6) by (auto simp: m_def)
    show ?thesis
    proof (cases "amt mod 512 = 0")
      case True
      then show ?thesis using d1 m by (simp add: write_last_skip)
    next
      case False
      have pos: "(blk + amt div 512) * 512 = blk * 512 + m" by (simp add: m_def algebra_simps)
      have b2: "blk + amt div 512 < MAX_VBN" by (rule in_range_blk [OF _ assms(3), of _ "amt mod 512"]) (use pos m False in simp_all)
      have l1: "length (take m pBuf) = m" "length (content d1) = length (content d)" using assms(5,7) m d1(2) by (simp_all add: m_def [symmetric])
      have dp: "amt mod 512 \<le> length (drop m pBuf)" using assms(5) m by simp
      obtain d2 where "write_last io (SS_NORMAL, d1, drop m pBuf, amt mod 512, vbn_of (blk + amt div 512), b) = Some (SS_NORMAL, d2)"
        "content d2 = overwrite (content d1) (blk * 512 + m) (take (amt mod 512) (drop m pBuf))"
        using write_last_step [OF assms(1,2) b2 _ _ _ dp, of d1 b] assms(7) False l1(2) unfolding pos
        by (auto simp: m_def [symmetric])
      moreover have "overwrite (content d1) (blk * 512 + m) (take (amt mod 512) (drop m pBuf)) = overwrite (content d) (blk * 512) (take amt pBuf)"
        using overwrite_append [of "blk * 512" "take m pBuf" "take (amt mod 512) (drop m pBuf)" "content d"] d1(2) l1(1) assms(5,7) m
        by (simp add: m_def [symmetric] flip: take_add)
      ultimately show ?thesis using d1(1) by simp
    qed
  qed
qed

section \<open>Properties\<close>

text \<open>
  C25. \<open>vmsRead\<close> at any offset and of any length, over blocks of 512 bytes, returns the bytes of the file; where the file
  ends it reports a short read and fills the rest of the buffer with zeros, as the pager expects. The request has to end
  before \<open>2^40 - 512\<close>: beyond, the block number does not fit in an \<open>int\<close>.
\<close>

theorem vms_read_exact:
  assumes "reads_ok io content" and "amt > 0" and "offset + amt \<le> 2147483647 * 512"
  shows "vmsRead io dsk amt offset =
    Some (if offset + amt \<le> length (content dsk) then SQLITE_OK else SQLITE_IOERR_SHORT_READ,
      take amt (drop offset (content dsk)) @ replicate (amt - (length (content dsk) - offset)) 0)"
  by (rule vmsRead_spec [OF assms(1,2)]) (use assms(3) in \<open>simp add: in_range_def MAX_VBN_def\<close>)

text \<open>A volume that holds one file as a list of bytes, for the witnesses.\<close>

definition list_io :: "u8 list vms_io" where
  "list_io = \<lparr>
     readvblk = (\<lambda>d vbn n. let p = (unat vbn - 1) * 512 in
       if length d \<le> p \<and> n > 0 then (SS_ENDOFFILE, []) else (SS_NORMAL, take n (drop p d))),
     writevblk = (\<lambda>d vbn xs. if (unat vbn - 1) * 512 + length xs \<le> length d
       then (SS_NORMAL, overwrite d ((unat vbn - 1) * 512) xs) else (SS_FAILURE, d)),
     io_access = (\<lambda>d. (SS_NORMAL, of_nat (length d div 512), 0)),
     io_extend = (\<lambda>d aldef n. (SS_NORMAL, of_nat (length d div 512 + 1), n, d @ replicate (unat n * 512) 0)),
     io_set_eof = (\<lambda>d v. (SS_NORMAL, d)),
     io_truncate = (\<lambda>d v. take (unat v * 512) d),
     rms_extend_size = 0\<rparr>"

text \<open>The list is padded to whole blocks.\<close>

definition blocks :: "u8 list \<Rightarrow> u8 list" where
  "blocks d = d @ replicate ((512 - length d mod 512) mod 512) 0"

definition block_io :: "u8 list vms_io" where
  "block_io = \<lparr>
     readvblk = (\<lambda>d. readvblk list_io (blocks d)),
     writevblk = (\<lambda>d. writevblk list_io (blocks d)),
     io_access = (\<lambda>d. io_access list_io (blocks d)),
     io_extend = (\<lambda>d. io_extend list_io (blocks d)),
     io_set_eof = (\<lambda>d. io_set_eof list_io (blocks d)),
     io_truncate = (\<lambda>d. io_truncate list_io (blocks d)),
     rms_extend_size = 0\<rparr>"

lemma blocks_mod: "length (blocks d) mod 512 = 0"
proof -
  define r where "r = length d mod 512"
  define q where "q = length d div 512"
  have "length d = 512 * q + r" "r < 512" by (simp_all add: q_def r_def)
  moreover have "(512 - r) mod 512 = (if r = 0 then 0 else 512 - r)" using \<open>r < 512\<close> by simp
  ultimately show ?thesis by (simp add: blocks_def r_def [symmetric])
qed

lemma blocks_id: "length d mod 512 = 0 \<Longrightarrow> blocks d = d"
  by (simp add: blocks_def)

lemma vbn_of_block: "blk < MAX_VBN \<Longrightarrow> unat (vbn_of blk) - Suc 0 = blk"
  using unat_of_nat32_small [of "blk + 1"] by (simp add: vbn_of_def MAX_VBN_def)

lemma block_io_ok: "reads_ok block_io blocks" "writes_ok block_io blocks"
proof -
  show "reads_ok block_io blocks"
    unfolding reads_ok_def using blocks_mod by (auto simp: block_io_def list_io_def Let_def vbn_of_block)
  have "blocks (overwrite (blocks d) p xs) = overwrite (blocks d) p xs" if "p + length xs \<le> length (blocks d)" for d p xs
    using that blocks_mod [of d] by (intro blocks_id) simp
  moreover have "blocks (blocks d @ replicate (n * 512) 0) = blocks d @ replicate (n * 512) 0" for d n
    using blocks_mod [of d] by (intro blocks_id) simp
  moreover have "blocks (blocks d) = blocks d" for d using blocks_mod by (intro blocks_id) simp
  ultimately show "writes_ok block_io blocks"
    unfolding writes_ok_def by (auto simp: block_io_def list_io_def vbn_of_block vms_success_def)
qed

lemma block_io_extend: "extend_default_ok block_io pFile offset amt" "\<not> extend_fails block_io d"
  by (simp_all add: block_io_def list_io_def extend_default_ok_def extend_fails_def vms_success_def)

theorem vms_read_exact_witness: "vmsRead block_io [5, 6, 7] 2 1 = Some (SQLITE_OK, [6, 7])"
proof -
  have "blocks [5, 6, 7] = [5, 6, 7] @ replicate 509 0" by (simp add: blocks_def)
  then have "length (blocks [5, 6, 7]) = 512" "take 2 (drop 1 (blocks [5, 6, 7])) = [6, 7]" by (simp_all add: numeral_2_eq_2)
  then show ?thesis using vms_read_exact [OF block_io_ok(1), of 2 1 "[5, 6, 7]"] by simp
qed

text \<open>
  C26. \<open>vmsWrite\<close> of whole blocks at a block boundary, or of any bytes inside one block, extends the file as needed and puts
  exactly the given bytes at the given offset, whatever the uninitialised variable \<open>bcnt\<close> holds, and returns
  \<open>SQLITE_OK\<close>; it fails only if the file could not be extended, and then has not changed it. The conditions: block numbers
  fit in an \<open>int\<close> (the write and the file end below \<open>2^40\<close>), and the default extension of the process is unset or covers
  what is needed, since the code does not compare the two.
\<close>

theorem vms_write_exact:
  assumes "writes_ok io content" and "reads_ok io content" and "extend_default_ok io pFile offset (length vBuf)"
    and "offset + length vBuf + 1024 \<le> 2147483647 * 512" and "length (content dsk) \<le> 2147483647 * 512"
    and "offset mod 512 = 0 \<and> length vBuf mod 512 = 0 \<or> offset mod 512 + length vBuf \<le> 512" and "vBuf \<noteq> []"
  shows "write_outcome io content dsk (\<lambda>F. overwrite F offset vBuf) (vmsWrite io bcnt0 pFile dsk vBuf (length vBuf) offset)"
proof (rule vmsWrite_run [OF assms(1-3)])
  show rng: "in_range (offset + length vBuf + 1024)" "in_range (length (content dsk))"
    using assms(4,5) by (simp_all add: in_range_def MAX_VBN_def)
  fix d
  define blk where "blk = offset div 512"
  define v where "v = offset mod 512"
  define amt where "amt = length vBuf"
  assume "offset div 512 * 512 + length vBuf div 512 * 512 + 1024 \<le> length (content d)"
  then have room: "blk * 512 + amt div 512 * 512 + 1024 \<le> length (content d)" by (simp add: blk_def amt_def)
  have off: "offset = blk * 512 + v" "v < 512" "0 < amt" using assms(7) by (simp_all add: blk_def v_def amt_def)
  have fit: "blk * 512 + 512 \<le> length (content d)" using room by simp
  have bk: "blk < MAX_VBN" by (rule in_range_blk [OF _ rng(1), of _ amt]) (use off in \<open>simp_all add: amt_def\<close>)
  consider "0 < v" "v + amt \<le> 512" | "v = 0" "amt < 512" | "v = 0" "512 \<le> amt" "amt mod 512 = 0"
    using assms(6) unfolding v_def [symmetric] amt_def [symmetric] by (cases "v = 0"; cases "amt < 512") force+
  then have "\<exists>d'. (do { st \<leftarrow> write_first io v (SS_NORMAL, d, vBuf, amt, vbn_of blk, bcnt0); st \<leftarrow> write_middle io st; write_last io st })
      = Some (SS_NORMAL, d') \<and> content d' = overwrite (content d) offset vBuf"
  proof cases
    case 1
    then have "min amt (512 - v) = amt" "amt \<noteq> 0" using off(3) by auto
    then obtain d' where "write_first io v (SS_NORMAL, d, vBuf, amt, vbn_of blk, bcnt0) = Some (SS_NORMAL, d', vBuf, 0, vbn_of (Suc blk), int amt)"
      "content d' = overwrite (content d) offset vBuf"
      using write_first_step [OF assms(1,2) bk fit 1(1) off(2), of vBuf amt bcnt0] off(1) by (auto simp: amt_def)
    then show ?thesis by (simp add: write_middle_skip write_last_skip)
  next
    case 2
    then obtain d' where "write_last io (SS_NORMAL, d, vBuf, amt, vbn_of blk, bcnt0) = Some (SS_NORMAL, d')"
      "content d' = overwrite (content d) offset vBuf"
      using write_last_step [OF assms(1,2) bk fit off(3), of vBuf bcnt0] off(1) by (auto simp: amt_def)
    then show ?thesis using 2 by (simp add: write_first_aligned write_middle_skip)
  next
    case 3
    then have m: "amt div 512 * 512 = amt" using div_mult_mod_eq [of amt 512] by simp
    have "blk * 512 + amt \<le> length (content d)" using room m by simp
    then obtain d' p w where "write_middle io (SS_NORMAL, d, vBuf, amt, vbn_of blk, bcnt0) = Some (SS_NORMAL, d', p, 0, w, bcnt0)"
      "content d' = overwrite (content d) offset vBuf"
      using write_middle_step [OF assms(1) bk 3(2), of d vBuf bcnt0] 3 m off(1) by (auto simp: amt_def)
    then show ?thesis using 3 by (simp add: write_first_aligned write_last_skip)
  qed
  then show "\<exists>d'. (do { st \<leftarrow> write_first io (offset mod 512) (SS_NORMAL, d, vBuf, length vBuf, vbn_of (offset div 512), bcnt0);
      st \<leftarrow> write_middle io st; write_last io st }) = Some (SS_NORMAL, d') \<and> content d' = overwrite (content d) offset vBuf"
    by (simp only: v_def blk_def amt_def)
qed

definition empty_file :: vms_file where
  "empty_file = \<lparr>szChunk = 0, szHint = 0, lksb_id = 1\<rparr>"

lemma block_io_outcome: "write_outcome block_io blocks dsk G r \<Longrightarrow> \<exists>pF d fill. r = Some (SQLITE_OK, pF, d) \<and> blocks d = G (blocks dsk @ fill)"
  using block_io_extend(2) by (auto simp: write_outcome_def)

theorem vms_write_exact_witness:
  "\<exists>pF d fill. vmsWrite block_io 0 empty_file [] [1, 2, 3] 3 100 = Some (SQLITE_OK, pF, d) \<and>
    blocks d = overwrite (blocks [] @ fill) 100 [1, 2, 3]"
proof -
  have l: "length [1, 2, 3 :: u8] = 3" by simp
  show ?thesis
    by (rule block_io_outcome, rule vms_write_exact [OF block_io_ok(2,1) block_io_extend(1), of 100 "[1, 2, 3]", unfolded l])
      (simp_all add: blocks_def)
qed

text \<open>
  C27. An unaligned write that crosses a block boundary corrupts the file: everything behind the first boundary is filled
  with the bytes from the beginning of the buffer again, because \<open>pBuf\<close> is not advanced after the first block
  (\<open>if( bcnt <= 0 ) pBuf += bcnt\<close>), and \<open>SQLITE_OK\<close> is returned, under the conditions of the previous property. Every page record of a
  rollback journal that does not begin at a block boundary is such a write.
\<close>

theorem vms_write_repeats_buffer:
  assumes "writes_ok io content" and "reads_ok io content" and "extend_default_ok io pFile offset (length vBuf)"
    and "offset + length vBuf + 1024 \<le> 2147483647 * 512" and "length (content dsk) \<le> 2147483647 * 512"
    and "offset mod 512 \<noteq> 0" and "512 < offset mod 512 + length vBuf"
  defines "n \<equiv> 512 - offset mod 512"
  shows "write_outcome io content dsk
    (\<lambda>F. overwrite (overwrite F offset (take n vBuf)) (offset + n) (take (length vBuf - n) vBuf))
    (vmsWrite io bcnt0 pFile dsk vBuf (length vBuf) offset)"
proof (rule vmsWrite_run [OF assms(1-3)])
  show rng: "in_range (offset + length vBuf + 1024)" "in_range (length (content dsk))"
    using assms(4,5) by (simp_all add: in_range_def MAX_VBN_def)
  fix d
  define blk where "blk = offset div 512"
  define v where "v = offset mod 512"
  define amt where "amt = length vBuf"
  assume "offset div 512 * 512 + length vBuf div 512 * 512 + 1024 \<le> length (content d)"
  then have room: "blk * 512 + amt div 512 * 512 + 1024 \<le> length (content d)" by (simp add: blk_def amt_def)
  have v: "offset = blk * 512 + v" "v < 512" "n = 512 - v" by (simp_all add: blk_def v_def n_def)
  have off: "0 < v" "offset + n = Suc blk * 512" "n < amt" "min amt (512 - v) = n" "n \<noteq> 0"
    using assms(6,7) v unfolding v_def [symmetric] amt_def [symmetric] by (simp_all add: min_def)
  have fit: "blk * 512 + 512 \<le> length (content d)" using room by simp
  have bk: "blk < MAX_VBN" by (rule in_range_blk [OF _ rng(1), of _ amt]) (use v off in \<open>simp_all add: amt_def [symmetric]\<close>)
  obtain d1 where d1: "write_first io v (SS_NORMAL, d, vBuf, amt, vbn_of blk, bcnt0) = Some (SS_NORMAL, d1, vBuf, amt - n, vbn_of (Suc blk), int n)"
    "content d1 = overwrite (content d) offset (take n vBuf)"
    using write_first_step [OF assms(1,2) bk fit off(1) v(2), of vBuf amt bcnt0] off v(1) by (auto simp: amt_def)
  have len: "length (content d1) = length (content d)" using d1(2) fit v off(3) by (simp add: amt_def)
  have "(amt - n) div 512 * 512 \<le> amt div 512 * 512" by (simp add: div_le_mono)
  then have room1: "Suc blk * 512 + (amt - n) div 512 * 512 + 512 \<le> length (content d1)" using room len by simp
  have "in_range (Suc blk * 512 + (amt - n))" using rng(1) off v by (simp add: in_range_def amt_def)
  then obtain d2 where "(do { st \<leftarrow> write_middle io (SS_NORMAL, d1, vBuf, amt - n, vbn_of (Suc blk), int n); write_last io st }) = Some (SS_NORMAL, d2)"
    "content d2 = overwrite (content d1) (offset + n) (take (amt - n) vBuf)"
    using write_tail [OF assms(1,2) _ _ _ _ room1, of vBuf "int n"] off by (auto simp: amt_def)
  then have "(do { st \<leftarrow> write_first io v (SS_NORMAL, d, vBuf, amt, vbn_of blk, bcnt0); st \<leftarrow> write_middle io st; write_last io st }) = Some (SS_NORMAL, d2)"
    "content d2 = overwrite (overwrite (content d) offset (take n vBuf)) (offset + n) (take (amt - n) vBuf)" using d1 by simp_all
  then show "\<exists>d'. (do { st \<leftarrow> write_first io (offset mod 512) (SS_NORMAL, d, vBuf, length vBuf, vbn_of (offset div 512), bcnt0);
      st \<leftarrow> write_middle io st; write_last io st }) = Some (SS_NORMAL, d') \<and>
    content d' = overwrite (overwrite (content d) offset (take n vBuf)) (offset + n) (take (length vBuf - n) vBuf)"
    by (auto simp only: v_def blk_def amt_def)
qed

text \<open>Ten bytes at offset 510: after the write the file holds 1, 2, 1, 2, \<dots>, 8 there.\<close>

theorem vms_write_repeats_buffer_witness:
  "\<exists>pF d fill. vmsWrite block_io 0 empty_file [] [1, 2, 3, 4, 5, 6, 7, 8, 9, 10] 10 510 = Some (SQLITE_OK, pF, d) \<and>
    blocks d = overwrite (overwrite (blocks [] @ fill) 510 [1, 2]) 512 [1, 2, 3, 4, 5, 6, 7, 8]"
proof -
  have l: "length [1, 2, 3, 4, 5, 6, 7, 8, 9, 10 :: u8] = 10" "510 mod 512 = (510 :: nat)" "512 - 510 = (2 :: nat)"
    "510 + 2 = (512 :: nat)" "10 - 2 = (8 :: nat)" "take 2 [1, 2, 3, 4, 5, 6, 7, 8, 9, 10 :: u8] = [1, 2]"
    "take 8 [1, 2, 3, 4, 5, 6, 7, 8, 9, 10 :: u8] = [1, 2, 3, 4, 5, 6, 7, 8]" by simp_all
  show ?thesis
    by (rule block_io_outcome, rule vms_write_repeats_buffer [OF block_io_ok(2,1) block_io_extend(1), of 510 "[1, 2, 3, 4, 5, 6, 7, 8, 9, 10]", unfolded l])
      (simp_all add: blocks_def)
qed

text \<open>
  C28. A write of more than a block that begins at a block boundary and does not end at one depends on the value the
  variable \<open>bcnt\<close> happens to have, which nothing has set: if it is positive the bytes are written as they should be; if it is
  not, the bytes behind the last whole block are never written, the beginning of the buffer is written to the first block
  again, and the call reports success. The conditions are those of the previous properties.
\<close>

theorem vms_write_uninitialised:
  assumes "writes_ok io content" and "reads_ok io content" and "extend_default_ok io pFile offset (length vBuf)"
    and "offset + length vBuf + 1024 \<le> 2147483647 * 512" and "length (content dsk) \<le> 2147483647 * 512"
    and "offset mod 512 = 0" and "512 < length vBuf" and "length vBuf mod 512 \<noteq> 0"
  defines "m \<equiv> length vBuf div 512 * 512"
  shows "write_outcome io content dsk
    (\<lambda>F. if 0 < bcnt0 then overwrite F offset vBuf
         else overwrite (overwrite F offset (take m vBuf)) offset (take (length vBuf mod 512) vBuf))
    (vmsWrite io bcnt0 pFile dsk vBuf (length vBuf) offset)"
proof (rule vmsWrite_run [OF assms(1-3)])
  show rng: "in_range (offset + length vBuf + 1024)" "in_range (length (content dsk))"
    using assms(4,5) by (simp_all add: in_range_def MAX_VBN_def)
  fix d
  define blk where "blk = offset div 512"
  define amt where "amt = length vBuf"
  assume "offset div 512 * 512 + length vBuf div 512 * 512 + 1024 \<le> length (content d)"
  then have room: "blk * 512 + amt div 512 * 512 + 1024 \<le> length (content d)" by (simp add: blk_def amt_def)
  have off: "offset = blk * 512" "0 < amt mod 512" "amt mod 512 \<le> 512" "m + amt mod 512 = amt" "m = amt div 512 * 512" "512 \<le> amt" "0 < amt"
    using assms(6,7,8) by (auto simp: blk_def amt_def m_def)
  have rb: "in_range (blk * 512 + amt)" using rng(1) off(1) by (simp add: in_range_def amt_def)
  have bk: "blk < MAX_VBN" by (rule in_range_blk [OF order_refl rb off(7)])
  have "\<exists>d'. (do { st \<leftarrow> write_middle io (SS_NORMAL, d, vBuf, amt, vbn_of blk, bcnt0); write_last io st }) = Some (SS_NORMAL, d') \<and>
      content d' = (if 0 < bcnt0 then overwrite (content d) offset vBuf
        else overwrite (overwrite (content d) offset (take m vBuf)) offset (take (amt mod 512) vBuf))"
  proof (cases "0 < bcnt0")
    case True
    then show ?thesis using write_tail [OF assms(1,2) rb off(7) _ True, of vBuf d] room off(1) by (simp add: amt_def)
  next
    case False
    have fit: "blk * 512 + amt \<le> length (content d)" using room off by linarith
    obtain d1 where d1: "write_middle io (SS_NORMAL, d, vBuf, amt, vbn_of blk, bcnt0) = Some (SS_NORMAL, d1, vBuf, amt mod 512, vbn_of blk, bcnt0)"
      "content d1 = overwrite (content d) offset (take m vBuf)"
      using write_middle_step [OF assms(1) bk off(6) fit, of vBuf bcnt0] False off(1,5) by (auto simp: amt_def)
    have "length (content d1) = length (content d)" using d1(2) fit off(4,1) by (simp add: amt_def)
    then have "blk * 512 + 512 \<le> length (content d1)" using room by simp
    then show ?thesis using write_last_step [OF assms(1,2) bk _ off(2,3), of d1 vBuf bcnt0] d1 False off(1) by (auto simp: amt_def)
  qed
  then show "\<exists>d'. (do { st \<leftarrow> write_first io (offset mod 512) (SS_NORMAL, d, vBuf, length vBuf, vbn_of (offset div 512), bcnt0);
      st \<leftarrow> write_middle io st; write_last io st }) = Some (SS_NORMAL, d') \<and>
    content d' = (if 0 < bcnt0 then overwrite (content d) offset vBuf
        else overwrite (overwrite (content d) offset (take m vBuf)) offset (take (length vBuf mod 512) vBuf))"
    unfolding assms(6) write_first_aligned Option.bind.simps by (simp only: blk_def amt_def)
qed

text \<open>Of 513 bytes the last one is lost.\<close>

theorem vms_write_uninitialised_witness:
  "\<exists>pF d fill. vmsWrite block_io 0 empty_file [] (replicate 513 7) 513 0 = Some (SQLITE_OK, pF, d) \<and>
    blocks d = overwrite (overwrite (blocks [] @ fill) 0 (replicate 512 7)) 0 [7]"
proof -
  have l: "length (replicate 513 (7 :: u8)) = 513" "513 mod 512 = (1 :: nat)" "513 div 512 * 512 = (512 :: nat)"
    "take 512 (replicate 513 (7 :: u8)) = replicate 512 7" "take 1 (replicate 513 (7 :: u8)) = [7]" "(0 < (0 :: int)) = False"
    by simp_all
  show ?thesis
    by (rule block_io_outcome, rule vms_write_uninitialised [OF block_io_ok(2,1) block_io_extend(1), of 0 "replicate 513 7" _ 0, unfolded l if_False])
      (simp_all add: blocks_def)
qed

text \<open>The number of bytes copied per turn is always four: the difference is negative and becomes a large unsigned number.\<close>

lemma random_count_four:
  assumes "p < nBuf" and "nBuf < 2 ^ 31"
  shows "random_count p nBuf = 4"
proof -
  have "uint (of_nat p - of_nat nBuf :: u32) = (int p - int nBuf) mod 2 ^ 32"
    by (simp add: uint_word_ariths unsigned_of_nat take_bit_eq_mod mod_diff_left_eq mod_diff_right_eq of_nat_mod)
  also have "\<dots> = int p - int nBuf + 2 ^ 32"
    using assms by (intro mod_pos_pos_trivial [of "int p - int nBuf + 2 ^ 32" "2 ^ 32", simplified mod_add_self2]) auto
  finally have "(4 :: u32) \<le> of_nat p - of_nat nBuf"
    unfolding word_le_def using assms by simp
  then show ?thesis by (simp add: random_count_def min_def)
qed

text \<open>The bytes of \<open>k\<close> successive random numbers, and the seed after them.\<close>

fun random_bytes :: "(nat \<Rightarrow> u8 list \<times> nat) \<Rightarrow> nat \<Rightarrow> nat \<Rightarrow> u8 list" where
  "random_bytes rnd seed 0 = []"
| "random_bytes rnd seed (Suc k) = fst (rnd seed) @ random_bytes rnd (snd (rnd seed)) k"

lemma random_bytes_length: "\<forall>s. length (fst (rnd s)) = 4 \<Longrightarrow> length (random_bytes rnd seed k) = 4 * k"
  by (induction k arbitrary: seed) simp_all

lemma random_loop_run:
  assumes four: "\<forall>s. length (fst (rnd s)) = 4" and "length buf = nBuf" and "nBuf < 2 ^ 31" and "p \<le> nBuf"
  shows "random_loop rnd seed nBuf p buf =
    (if (nBuf - p) mod 4 = 0
     then Some (((\<lambda>s. snd (rnd s)) ^^ ((nBuf - p) div 4)) seed, take p buf @ random_bytes rnd seed ((nBuf - p) div 4)) else None)"
  using assms(2-)
proof (induction "nBuf - p" arbitrary: seed p buf rule: less_induct)
  case less
  have l: "length (fst (rnd seed)) = 4" using four by simp
  then have rval: "rdn (fst (rnd seed)) 0 4 = Some (fst (rnd seed))" by (simp add: rdn_def)
  show ?case
  proof (cases "p < nBuf")
    case False
    then show ?thesis using less.prems by (subst random_loop.simps) simp
  next
    case True
    note c = random_count_four [OF True less.prems(2)]
    show ?thesis
    proof (cases "p + 4 \<le> nBuf")
      case False
      then have "(nBuf - p) mod 4 \<noteq> 0" "blit buf p (fst (rnd seed)) = None" using True l less.prems(1) by (auto simp: blit_def)
      then show ?thesis using True by (subst random_loop.simps) (simp add: c rval)
    next
      case in_buf: True
      define k where "k = (nBuf - (p + 4)) div 4"
      have b: "blit buf p (fst (rnd seed)) = Some (overwrite buf p (fst (rnd seed)))" "length (overwrite buf p (fst (rnd seed))) = nBuf"
        using in_buf less.prems(1) l by (simp_all add: blit_overwrite)
      have t: "take (p + 4) (overwrite buf p (fst (rnd seed))) = take p buf @ fst (rnd seed)"
        using in_buf less.prems(1) l by (simp add: overwrite_def)
      have m: "(nBuf - p) mod 4 = (nBuf - (p + 4)) mod 4" "(nBuf - p) div 4 = Suc k"
        using in_buf by (simp_all add: k_def mod_eq_dvd_iff_nat le_div_geq)
      have "random_loop rnd seed nBuf p buf = random_loop rnd (snd (rnd seed)) nBuf (p + 4) (overwrite buf p (fst (rnd seed)))"
        using True by (subst random_loop.simps) (simp add: c rval b)
      also have "\<dots> = (if (nBuf - (p + 4)) mod 4 = 0 then Some (((\<lambda>s. snd (rnd s)) ^^ k) (snd (rnd seed)),
          take (p + 4) (overwrite buf p (fst (rnd seed))) @ random_bytes rnd (snd (rnd seed)) k) else None)"
        unfolding k_def by (rule less.hyps) (use in_buf b(2) less.prems(2) in simp_all)
      finally show ?thesis unfolding m t using funpow_swap1 [of "\<lambda>s. snd (rnd s)" k seed] by simp
    qed
  qed
qed

text \<open>
  C29. \<open>vmsRandomness\<close> fills a buffer whose length is a multiple of four with the bytes of successive random numbers and
  leaves the seed that follows them; for every other length it writes up to three bytes behind the end of the buffer.
\<close>

theorem vms_randomness:
  fixes clock seed :: nat
  assumes "\<forall>s. length (fst (rnd s)) = 4" and "length zBuf = nBuf" and "nBuf < 2 ^ 31"
  defines "s0 \<equiv> if seed = 0 then clock else seed"
  shows "vmsRandomness rnd clock seed nBuf zBuf =
    (if nBuf mod 4 = 0 then Some (((\<lambda>s. snd (rnd s)) ^^ (nBuf div 4)) s0, random_bytes rnd s0 (nBuf div 4)) else None)"
  using random_loop_run [OF assms(1-3), of 0 s0] by (simp add: vmsRandomness_def s0_def)

theorem vms_randomness_witness:
  "vmsRandomness (\<lambda>s. ([1, 2, 3, of_nat s], s + 1)) 5 0 8 (replicate 8 0) = Some (7, [1, 2, 3, 5, 1, 2, 3, 6]) \<and>
   vmsRandomness (\<lambda>s. ([1, 2, 3, of_nat s], s + 1)) 5 0 6 (replicate 6 0) = None"
proof -
  have two: "random_bytes rnd s 2 = fst (rnd s) @ fst (rnd (snd (rnd s)))" "(f ^^ 2) x = f (f x)" for rnd s f and x :: nat
    by (simp_all add: numeral_2_eq_2)
  show ?thesis
    using vms_randomness [of "\<lambda>s. ([1, 2, 3, of_nat s], s + 1)" "replicate 8 0" 8 5 0]
      vms_randomness [of "\<lambda>s. ([1, 2, 3, of_nat s], s + 1)" "replicate 6 0" 6 5 0] by (simp add: two)
qed

end
