(* ===== verification/Pager.thy ===== *)
theory Pager
  imports Bitvec Int_Util "HOL-Library.State_Monad" "HOL-Library.AList"
begin

text \<open>
  The rollback-journal pager of pager.c: the journal file format, writing pages to the journal and to the database,
  committing, rolling back, and recovering from a hot journal. The operations are state transformers over a record
  that holds the two files, the fields of \<open>Pager\<close>, the page cache, and the outcomes of the calls to the operating
  system, each of which can fail.

  The configuration is a main database file in normal locking mode with a rollback journal (delete, truncate or
  persist), without savepoints, WAL, codec, memory mapping and backup, and built without
  \<open>SQLITE_ENABLE_ATOMIC_WRITE\<close>.
\<close>

section \<open>Files\<close>

text \<open>
  \<open>xRead\<close> returns the bytes there are and fills the rest of the buffer with zeros; \<open>xWrite\<close> extends the file where
  needed. A write that fails may have stored the part that lies below some sector boundary.
\<close>

definition file_read :: "u8 list \<Rightarrow> nat \<Rightarrow> nat \<Rightarrow> rc \<times> u8 list" where
  "file_read f n off = (let xs = take n (drop off f)
     in (if length xs = n then SQLITE_OK else SQLITE_IOERR_SHORT_READ, xs @ replicate (n - length xs) 0))"

definition file_write :: "u8 list \<Rightarrow> nat \<Rightarrow> u8 list \<Rightarrow> u8 list" where
  "file_write f off xs = (if xs = [] then f
     else take off (f @ replicate (off - length f) 0) @ xs @ drop (off + length xs) f)"

definition file_torn :: "u8 list \<Rightarrow> nat \<Rightarrow> u8 list \<Rightarrow> nat \<Rightarrow> u8 list" where
  "file_torn f off xs k = file_write f off (take (512 * k - off) xs)"

section \<open>State\<close>

record pghdr =
  pData :: "u8 list"
  pg_dirty :: bool
  pg_need_sync :: bool
  pg_dont_write :: bool

datatype journal_mode = PAGER_JOURNALMODE_DELETE | PAGER_JOURNALMODE_PERSIST | PAGER_JOURNALMODE_TRUNCATE

text \<open>
  \<open>io_fail\<close> gives the outcome of each call to the VFS: \<open>None\<close> if it succeeds; \<open>Some k\<close> if it fails, where \<open>k\<close> is the
  number of sectors a failed write has reached, and tells \<open>SQLITE_BUSY\<close> (\<open>k = 0\<close>) from an I/O error when a lock is
  refused. \<open>io_random\<close> gives the numbers of \<open>sqlite3_randomness\<close>, \<open>malloc_ok\<close> the outcome of each allocation.
\<close>

record pager =
  dbf :: "u8 list"
  jrnl :: "u8 list option"
  io_fail :: "nat \<Rightarrow> nat option"
  io_random :: "nat \<Rightarrow> u32"
  io_tick :: nat
  malloc_ok :: "nat \<Rightarrow> bool"
  mallocs :: nat
  master_exists :: "u8 list \<Rightarrow> bool"
  mxPathname :: nat
  safe_append :: bool
  sequential :: bool
  powersafe_overwrite :: bool
  os_sector_size :: nat
  undeletable :: bool
  journalMode :: journal_mode
  noSync :: bool
  fullSync :: bool
  readOnly :: bool
  eState :: nat
  eLock :: nat
  changeCountDone :: bool
  setMaster :: bool
  doNotSyncSpill :: bool
  dbSize :: nat
  dbOrigSize :: nat
  dbFileSize :: nat
  errCode :: rc
  nRec :: nat
  cksumInit :: u32
  pInJournal :: "bitvec option"
  jfd_open :: bool
  journalOff :: nat
  journalHdr :: nat
  dbFileVers :: "u8 list"
  nReserve :: nat
  sectorSize :: nat
  pageSize :: nat
  mxPgno :: nat
  journalSizeLimit :: int
  pPCache :: "(nat \<times> pghdr) list"
  pcache_nRef :: nat
  pcache_pPage1 :: bool

type_synonym 'a pm = "(pager, 'a) state"

abbreviation ret :: "'a \<Rightarrow> 'a pm" where "ret \<equiv> State_Monad.return"
abbreviation getp :: "pager pm" where "getp \<equiv> State_Monad.get"

definition upd :: "(pager \<Rightarrow> pager) \<Rightarrow> unit pm" where
  "upd f = State (\<lambda>p. ((), f p))"

definition PAGER_OPEN :: nat where "PAGER_OPEN = 0"
definition PAGER_READER :: nat where "PAGER_READER = 1"
definition PAGER_WRITER_LOCKED :: nat where "PAGER_WRITER_LOCKED = 2"
definition PAGER_WRITER_CACHEMOD :: nat where "PAGER_WRITER_CACHEMOD = 3"
definition PAGER_WRITER_DBMOD :: nat where "PAGER_WRITER_DBMOD = 4"
definition PAGER_WRITER_FINISHED :: nat where "PAGER_WRITER_FINISHED = 5"
definition PAGER_ERROR :: nat where "PAGER_ERROR = 6"

definition UNKNOWN_LOCK :: nat where "UNKNOWN_LOCK = 5"

definition PAGER_MAX_PGNO :: nat where "PAGER_MAX_PGNO = 2147483647"
definition SQLITE_MAX_PAGE_SIZE :: nat where "SQLITE_MAX_PAGE_SIZE = 65536"
definition MAX_SECTOR_SIZE :: nat where "MAX_SECTOR_SIZE = 0x10000"
definition SQLITE_VERSION_NUMBER :: u32 where "SQLITE_VERSION_NUMBER = 3007017"

definition PAGER_MJ_PGNO :: "pager \<Rightarrow> nat" where
  "PAGER_MJ_PGNO p = PENDING_BYTE div pageSize p + 1"

definition aJournalMagic :: "u8 list" where
  "aJournalMagic = [0xd9, 0xd5, 0x05, 0xf9, 0x20, 0xa1, 0x63, 0xd7]"

definition JOURNAL_PG_SZ :: "pager \<Rightarrow> nat" where
  "JOURNAL_PG_SZ p = pageSize p + 8"

definition JOURNAL_HDR_SZ :: "pager \<Rightarrow> nat" where
  "JOURNAL_HDR_SZ p = sectorSize p"

section \<open>Calls to the VFS\<close>

definition io_event :: "nat option pm" where
  "io_event = State (\<lambda>p. (io_fail p (io_tick p), p\<lparr>io_tick := io_tick p + 1\<rparr>))"

definition io_call :: "rc \<Rightarrow> (pager \<Rightarrow> 'a \<times> pager) \<Rightarrow> (nat \<Rightarrow> pager \<Rightarrow> 'a \<times> pager) \<Rightarrow> (rc \<times> 'a) pm" where
  "io_call err ok bad = do {
     e \<leftarrow> io_event;
     State (\<lambda>p. case e of
         None \<Rightarrow> (case ok p of (x, p) \<Rightarrow> ((SQLITE_OK, x), p))
       | Some k \<Rightarrow> (case bad k p of (x, p) \<Rightarrow> ((err, x), p))) }"

definition jfile :: "pager \<Rightarrow> u8 list" where
  "jfile p = (case jrnl p of None \<Rightarrow> [] | Some j \<Rightarrow> j)"

definition os_read :: "(pager \<Rightarrow> u8 list) \<Rightarrow> nat \<Rightarrow> nat \<Rightarrow> (rc \<times> u8 list) pm" where
  "os_read f n off = do {
     (rc, r) \<leftarrow> io_call SQLITE_IOERR_READ (\<lambda>p. (file_read (f p) n off, p)) (\<lambda>_ p. ((SQLITE_IOERR_READ, []), p));
     ret (if rc = SQLITE_OK then r else (rc, [])) }"

definition db_write :: "u8 list \<Rightarrow> nat \<Rightarrow> rc pm" where
  "db_write xs off = do {
     (rc, _) \<leftarrow> io_call SQLITE_IOERR_WRITE (\<lambda>p. ((), p\<lparr>dbf := file_write (dbf p) off xs\<rparr>))
       (\<lambda>k p. ((), p\<lparr>dbf := file_torn (dbf p) off xs k\<rparr>));
     ret rc }"

definition j_write :: "u8 list \<Rightarrow> nat \<Rightarrow> rc pm" where
  "j_write xs off = do {
     (rc, _) \<leftarrow> io_call SQLITE_IOERR_WRITE (\<lambda>p. ((), p\<lparr>jrnl := Some (file_write (jfile p) off xs)\<rparr>))
       (\<lambda>k p. ((), p\<lparr>jrnl := Some (file_torn (jfile p) off xs k)\<rparr>));
     ret rc }"

definition os_size :: "(pager \<Rightarrow> u8 list) \<Rightarrow> (rc \<times> nat) pm" where
  "os_size f = io_call SQLITE_IOERR_FSTAT (\<lambda>p. (length (f p), p)) (\<lambda>_ p. (0, p))"

text \<open>Calls that change nothing the model keeps, such as \<open>xSync\<close>, and calls with an effect that either happens or not.\<close>

definition os_effect :: "rc \<Rightarrow> (pager \<Rightarrow> pager) \<Rightarrow> rc pm" where
  "os_effect err f = do { (rc, _) \<leftarrow> io_call err (\<lambda>p. ((), f p)) (\<lambda>_ p. ((), p)); ret rc }"

definition os_sync :: "rc pm" where
  "os_sync = os_effect SQLITE_IOERR id"

definition db_truncate :: "nat \<Rightarrow> rc pm" where
  "db_truncate n = os_effect SQLITE_IOERR (\<lambda>p. p\<lparr>dbf := take n (dbf p)\<rparr>)"

definition j_truncate :: "nat \<Rightarrow> rc pm" where
  "j_truncate n = os_effect SQLITE_IOERR (\<lambda>p. p\<lparr>jrnl := map_option (take n) (jrnl p)\<rparr>)"

definition j_delete :: "rc pm" where
  "j_delete = os_effect SQLITE_IOERR (\<lambda>p. p\<lparr>jrnl := None\<rparr>)"

definition j_open :: "rc pm" where
  "j_open = os_effect SQLITE_CANTOPEN (\<lambda>p. p\<lparr>jrnl := Some (jfile p), jfd_open := True\<rparr>)"

definition os_lock :: "rc pm" where
  "os_lock = do { e \<leftarrow> io_event; ret (case e of None \<Rightarrow> SQLITE_OK | Some k \<Rightarrow> if k = 0 then SQLITE_BUSY else SQLITE_IOERR_LOCK) }"

text \<open>Opening the journal to look at it, which fails with \<open>SQLITE_CANTOPEN\<close> or with another code.\<close>

definition os_open :: "rc pm" where
  "os_open = do { e \<leftarrow> io_event; ret (case e of None \<Rightarrow> SQLITE_OK | Some k \<Rightarrow> if k = 0 then SQLITE_CANTOPEN else SQLITE_IOERR) }"

definition read32bits :: "(pager \<Rightarrow> u8 list) \<Rightarrow> nat \<Rightarrow> (rc \<times> u32) pm" where
  "read32bits f off = do {
     (rc, ac) \<leftarrow> os_read f 4 off;
     ret (rc, if rc = SQLITE_OK then (case sqlite3Get4byte ac of Some v \<Rightarrow> v | None \<Rightarrow> 0) else 0) }"

definition write32bits :: "nat \<Rightarrow> u32 \<Rightarrow> rc pm" where
  "write32bits off val = j_write (sqlite3Put4byte val) off"

section \<open>Page cache\<close>

text \<open>The cache of pcache.c as an association of page numbers with page headers; the list of dirty pages is sorted by page number.\<close>

definition pager_lookup :: "pager \<Rightarrow> nat \<Rightarrow> pghdr option" where
  "pager_lookup p pgno = map_of (pPCache p) pgno"

definition pcache_put :: "nat \<Rightarrow> pghdr \<Rightarrow> pager \<Rightarrow> pager" where
  "pcache_put pgno h p = p\<lparr>pPCache := AList.update pgno h (pPCache p)\<rparr>"

definition pcache_map :: "(pghdr \<Rightarrow> pghdr) \<Rightarrow> pager \<Rightarrow> pager" where
  "pcache_map f p = p\<lparr>pPCache := map (\<lambda>(k, h). (k, f h)) (pPCache p)\<rparr>"

definition sqlite3PcacheMakeDirty :: "pghdr \<Rightarrow> pghdr" where
  "sqlite3PcacheMakeDirty h = h\<lparr>pg_dont_write := False, pg_dirty := True\<rparr>"

definition sqlite3PcacheMakeClean :: "pghdr \<Rightarrow> pghdr" where
  "sqlite3PcacheMakeClean h = (if pg_dirty h then h\<lparr>pg_dirty := False, pg_need_sync := False\<rparr> else h)"

definition sqlite3PcacheCleanAll :: "pager \<Rightarrow> pager" where
  "sqlite3PcacheCleanAll = pcache_map sqlite3PcacheMakeClean"

definition sqlite3PcacheClearSyncFlags :: "pager \<Rightarrow> pager" where
  "sqlite3PcacheClearSyncFlags = pcache_map (\<lambda>h. if pg_dirty h then h\<lparr>pg_need_sync := False\<rparr> else h)"

definition sqlite3PcacheTruncate :: "nat \<Rightarrow> pager \<Rightarrow> pager" where
  "sqlite3PcacheTruncate pgno p =
     (let keep = (if pgno = 0 \<and> pcache_pPage1 p then 1 else pgno)
      in p\<lparr>pPCache := map (\<lambda>(k, h). (k, if pgno = 0 then (sqlite3PcacheMakeClean h)\<lparr>pData := replicate (pageSize p) 0\<rparr> else h))
             (filter (\<lambda>(k, h). k \<le> keep) (pPCache p))\<rparr>)"

definition sqlite3PcacheDirtyList :: "pager \<Rightarrow> nat list" where
  "sqlite3PcacheDirtyList p = sort (map fst (filter (\<lambda>(k, h). pg_dirty h) (pPCache p)))"

definition pager_reset :: "pager \<Rightarrow> pager" where
  "pager_reset = sqlite3PcacheTruncate 0"

definition pageInJournal :: "pager \<Rightarrow> nat \<Rightarrow> bool" where
  "pageInJournal p pgno = (sqlite3BitvecTest (pInJournal p) pgno = Some True)"

section \<open>Locks and errors\<close>

definition pagerUnlockDb :: "nat \<Rightarrow> rc pm" where
  "pagerUnlockDb lvl = do {
     rc \<leftarrow> os_effect SQLITE_IOERR_UNLOCK id;
     upd (\<lambda>p. if eLock p \<noteq> UNKNOWN_LOCK then p\<lparr>eLock := lvl\<rparr> else p);
     ret rc }"

definition pagerLockDb :: "nat \<Rightarrow> rc pm" where
  "pagerLockDb lvl = do {
     p \<leftarrow> getp;
     if eLock p < lvl \<or> eLock p = UNKNOWN_LOCK then do {
       rc \<leftarrow> os_lock;
       upd (\<lambda>p. if rc = SQLITE_OK \<and> (eLock p \<noteq> UNKNOWN_LOCK \<or> lvl = EXCLUSIVE_LOCK) then p\<lparr>eLock := lvl\<rparr> else p);
       ret rc }
     else ret SQLITE_OK }"

text \<open>The loop over the busy handler ends with the last answer of the lock manager.\<close>

definition pager_wait_on_lock :: "nat \<Rightarrow> rc pm" where
  "pager_wait_on_lock locktype = pagerLockDb locktype"

text \<open>\<open>rc & 0xff\<close> is \<open>SQLITE_IOERR\<close> for the extended codes.\<close>

definition is_ioerr :: "rc \<Rightarrow> bool" where
  "is_ioerr rc \<longleftrightarrow> rc \<in> {SQLITE_IOERR, SQLITE_IOERR_SHORT_READ, SQLITE_IOERR_LOCK, SQLITE_IOERR_UNLOCK,
     SQLITE_IOERR_RDLOCK, SQLITE_IOERR_CHECKRESERVEDLOCK, SQLITE_IOERR_READ, SQLITE_IOERR_WRITE, SQLITE_IOERR_FSTAT}"

definition pager_error :: "rc \<Rightarrow> rc pm" where
  "pager_error rc = do {
     upd (\<lambda>p. if rc = SQLITE_FULL \<or> is_ioerr rc then p\<lparr>errCode := rc, eState := PAGER_ERROR\<rparr> else p);
     ret rc }"

section \<open>The journal header\<close>

definition journalHdrOffset :: "pager \<Rightarrow> nat" where
  "journalHdrOffset p = (let c = journalOff p
     in if c \<noteq> 0 then ((c - 1) div JOURNAL_HDR_SZ p + 1) * JOURNAL_HDR_SZ p else 0)"

definition journal_header :: "pager \<Rightarrow> u32 \<Rightarrow> nat \<Rightarrow> u8 list" where
  "journal_header p ck nHeader =
     (if noSync p \<or> safe_append p then aJournalMagic @ sqlite3Put4byte 0xffffffff else replicate 12 0)
     @ sqlite3Put4byte ck @ sqlite3Put4byte (of_nat (dbOrigSize p)) @ sqlite3Put4byte (of_nat (sectorSize p))
     @ sqlite3Put4byte (of_nat (pageSize p)) @ replicate (nHeader - 28) 0"

text \<open>The header fills a sector, which can take several writes of a buffer the size of a page.\<close>

function write_hdr_loop :: "nat \<Rightarrow> u8 list \<Rightarrow> nat \<Rightarrow> rc pm" where
  "write_hdr_loop hdrsz zHeader nWrite =
     (if nWrite < hdrsz \<and> zHeader \<noteq> [] then do {
        p \<leftarrow> getp;
        rc \<leftarrow> j_write zHeader (journalOff p);
        upd (\<lambda>p. p\<lparr>journalOff := journalOff p + length zHeader\<rparr>);
        if rc \<noteq> SQLITE_OK then ret rc else write_hdr_loop hdrsz zHeader (nWrite + length zHeader) }
      else ret SQLITE_OK)"
  by pat_completeness auto
termination
  by (relation "measure (\<lambda>(hdrsz, zHeader, nWrite). hdrsz - nWrite)") (auto simp: diff_less_mono2)

declare write_hdr_loop.simps [simp del]

definition writeJournalHdr :: "rc pm" where
  "writeJournalHdr = do {
     upd (\<lambda>p. p\<lparr>journalHdr := journalHdrOffset p, journalOff := journalHdrOffset p\<rparr>);
     upd (\<lambda>p. p\<lparr>cksumInit := io_random p (io_tick p), io_tick := io_tick p + 1\<rparr>);
     p \<leftarrow> getp;
     let nHeader = min (pageSize p) (JOURNAL_HDR_SZ p);
     write_hdr_loop (JOURNAL_HDR_SZ p) (journal_header p (cksumInit p) nHeader) 0 }"

definition is_pow2 :: "u32 \<Rightarrow> bool" where
  "is_pow2 n \<longleftrightarrow> (n - 1) AND n = 0"

definition sqlite3PagerSetPagesize :: "nat \<Rightarrow> rc pm" where
  "sqlite3PagerSetPagesize sz = do {
     p \<leftarrow> getp;
     if pcache_nRef p = 0 \<and> sz \<noteq> 0 \<and> sz \<noteq> pageSize p then do {
       (rc, nByte) \<leftarrow> (if eState p > PAGER_OPEN then os_size dbf else ret (SQLITE_OK, 0));
       if rc \<noteq> SQLITE_OK then ret rc
       else if \<not> malloc_ok p (mallocs p) then do {
         upd (\<lambda>p. p\<lparr>mallocs := mallocs p + 1\<rparr>); ret SQLITE_NOMEM }
       else do {
         upd (\<lambda>p. (pager_reset p)\<lparr>mallocs := mallocs p + 1, dbSize := (nByte + sz - 1) div sz, pageSize := sz, pPCache := []\<rparr>);
         ret SQLITE_OK } }
     else ret SQLITE_OK }"

text \<open>
  The page and sector sizes of the first header, which are checked and adopted; then the fields every header has. The
  result is the code, the number of records and the original size of the database.
\<close>

definition read_hdr_sizes :: "nat \<Rightarrow> u32 \<Rightarrow> nat \<Rightarrow> (rc \<times> u32 \<times> nat) pm" where
  "read_hdr_sizes iHdrOff n mx = do {
     (rc, iSectorSize) \<leftarrow> read32bits jfile (iHdrOff + 20);
     if rc \<noteq> SQLITE_OK then ret (rc, 0, 0) else do {
     (rc, iPageSize) \<leftarrow> read32bits jfile (iHdrOff + 24);
     if rc \<noteq> SQLITE_OK then ret (rc, 0, 0) else do {
     p \<leftarrow> getp;
     let iPageSize = (if iPageSize = 0 then of_nat (pageSize p) else iPageSize);
     if iPageSize < 512 \<or> iSectorSize < 32 \<or> unat iPageSize > SQLITE_MAX_PAGE_SIZE \<or> unat iSectorSize > MAX_SECTOR_SIZE
       \<or> \<not> is_pow2 iPageSize \<or> \<not> is_pow2 iSectorSize
     then ret (SQLITE_DONE, 0, 0)
     else do {
       rc \<leftarrow> sqlite3PagerSetPagesize (unat iPageSize);
       upd (\<lambda>p. p\<lparr>sectorSize := unat iSectorSize\<rparr>);
       upd (\<lambda>p. p\<lparr>journalOff := journalOff p + JOURNAL_HDR_SZ p\<rparr>);
       ret (rc, n, mx) } } } }"

definition read_hdr_fields :: "nat \<Rightarrow> (rc \<times> u32 \<times> nat) pm" where
  "read_hdr_fields iHdrOff = do {
     (rc, n) \<leftarrow> read32bits jfile (iHdrOff + 8);
     if rc \<noteq> SQLITE_OK then ret (rc, 0, 0) else do {
     (rc, ck) \<leftarrow> read32bits jfile (iHdrOff + 12);
     if rc \<noteq> SQLITE_OK then ret (rc, 0, 0) else do {
     upd (\<lambda>p. p\<lparr>cksumInit := ck\<rparr>);
     (rc, mx) \<leftarrow> read32bits jfile (iHdrOff + 16);
     if rc \<noteq> SQLITE_OK then ret (rc, 0, 0)
     else if iHdrOff = 0 then read_hdr_sizes iHdrOff n (unat mx)
     else do {
       upd (\<lambda>p. p\<lparr>journalOff := journalOff p + JOURNAL_HDR_SZ p\<rparr>);
       ret (SQLITE_OK, n, unat mx) } } } }"

definition readJournalHdr :: "bool \<Rightarrow> nat \<Rightarrow> (rc \<times> u32 \<times> nat) pm" where
  "readJournalHdr isHot journalSize = do {
     upd (\<lambda>p. p\<lparr>journalOff := journalHdrOffset p\<rparr>);
     p \<leftarrow> getp;
     let iHdrOff = journalOff p;
     if iHdrOff + JOURNAL_HDR_SZ p > journalSize then ret (SQLITE_DONE, 0, 0)
     else do {
       (rc, aMagic) \<leftarrow> (if isHot \<or> iHdrOff \<noteq> journalHdr p then os_read jfile 8 iHdrOff else ret (SQLITE_OK, aJournalMagic));
       if rc \<noteq> SQLITE_OK then ret (rc, 0, 0)
       else if aMagic \<noteq> aJournalMagic then ret (SQLITE_DONE, 0, 0)
       else read_hdr_fields iHdrOff } }"

section \<open>Master journal\<close>

definition master_cksum :: "u8 list \<Rightarrow> u32" where
  "master_cksum z = sum_list (map (\<lambda>b. scast b) z)"

text \<open>The result is the code and the bytes of the name, none if there is no valid name.\<close>

definition readMasterJournal :: "nat \<Rightarrow> (rc \<times> u8 list) pm" where
  "readMasterJournal nMaster = do {
     (rc, szJ) \<leftarrow> os_size jfile;
     if rc \<noteq> SQLITE_OK \<or> szJ < 16 then ret (rc, []) else do {
     (rc, len) \<leftarrow> read32bits jfile (szJ - 16);
     if rc \<noteq> SQLITE_OK \<or> unat len \<ge> nMaster then ret (rc, []) else do {
     (rc, cksum) \<leftarrow> read32bits jfile (szJ - 12);
     if rc \<noteq> SQLITE_OK then ret (rc, []) else do {
     (rc, aMagic) \<leftarrow> os_read jfile 8 (szJ - 8);
     if rc \<noteq> SQLITE_OK \<or> aMagic \<noteq> aJournalMagic then ret (rc, []) else do {
     (rc, z) \<leftarrow> (if unat len > szJ - 16 then ret (SQLITE_IOERR_READ, []) else os_read jfile (unat len) (szJ - 16 - unat len));
     if rc \<noteq> SQLITE_OK then ret (rc, [])
     else ret (SQLITE_OK, if cksum - master_cksum z \<noteq> 0 then [] else z) } } } } }"

definition has_name :: "u8 list \<Rightarrow> bool" where
  "has_name z \<longleftrightarrow> z \<noteq> [] \<and> hd z \<noteq> 0"

definition writeMasterJournal :: "u8 list option \<Rightarrow> rc pm" where
  "writeMasterJournal zMaster = (case zMaster of None \<Rightarrow> ret SQLITE_OK | Some z \<Rightarrow> do {
     upd (\<lambda>p. p\<lparr>setMaster := True\<rparr>);
     upd (\<lambda>p. if fullSync p then p\<lparr>journalOff := journalHdrOffset p\<rparr> else p);
     p \<leftarrow> getp;
     let iHdrOff = journalOff p;
     rc \<leftarrow> write32bits iHdrOff (of_nat (PAGER_MJ_PGNO p));
     if rc \<noteq> SQLITE_OK then ret rc else do {
     rc \<leftarrow> j_write z (iHdrOff + 4);
     if rc \<noteq> SQLITE_OK then ret rc else do {
     rc \<leftarrow> write32bits (iHdrOff + 4 + length z) (of_nat (length z));
     if rc \<noteq> SQLITE_OK then ret rc else do {
     rc \<leftarrow> write32bits (iHdrOff + 4 + length z + 4) (master_cksum z);
     if rc \<noteq> SQLITE_OK then ret rc else do {
     rc \<leftarrow> j_write aJournalMagic (iHdrOff + 4 + length z + 8);
     if rc \<noteq> SQLITE_OK then ret rc else do {
     upd (\<lambda>p. p\<lparr>journalOff := journalOff p + length z + 20\<rparr>);
     (rc, jrnlSize) \<leftarrow> os_size jfile;
     p \<leftarrow> getp;
     if rc = SQLITE_OK \<and> jrnlSize > journalOff p then j_truncate (journalOff p) else ret rc } } } } } })"

section \<open>Ending a transaction\<close>

definition pager_truncate :: "nat \<Rightarrow> rc pm" where
  "pager_truncate nPage = do {
     p \<leftarrow> getp;
     if eState p \<ge> PAGER_WRITER_DBMOD \<or> eState p = PAGER_OPEN then do {
       (rc, currentSize) \<leftarrow> os_size dbf;
       let newSize = pageSize p * nPage;
       if rc = SQLITE_OK \<and> currentSize \<noteq> newSize then do {
         rc \<leftarrow> (if currentSize > newSize then db_truncate newSize
                else if currentSize + pageSize p \<le> newSize then db_write (replicate (pageSize p) 0) (newSize - pageSize p)
                else ret SQLITE_OK);
         upd (\<lambda>p. if rc = SQLITE_OK then p\<lparr>dbFileSize := nPage\<rparr> else p);
         ret rc }
       else ret rc }
     else ret SQLITE_OK }"

definition zeroJournalHdr :: "bool \<Rightarrow> rc pm" where
  "zeroJournalHdr doTruncate = do {
     p \<leftarrow> getp;
     if journalOff p \<noteq> 0 then do {
       let iLimit = journalSizeLimit p;
       rc \<leftarrow> (if doTruncate \<or> iLimit = 0 then j_truncate 0 else j_write (replicate 28 0) 0);
       rc \<leftarrow> (if rc = SQLITE_OK \<and> \<not> noSync p then os_sync else ret rc);
       if rc = SQLITE_OK \<and> iLimit > 0 then do {
         (rc, sz) \<leftarrow> os_size jfile;
         if rc = SQLITE_OK \<and> int sz > iLimit then j_truncate (nat iLimit) else ret rc }
       else ret rc }
     else ret SQLITE_OK }"

definition pager_end_transaction :: "bool \<Rightarrow> bool \<Rightarrow> rc pm" where
  "pager_end_transaction hasMaster bCommit = do {
     p \<leftarrow> getp;
     if eState p < PAGER_WRITER_LOCKED \<and> eLock p < RESERVED_LOCK then ret SQLITE_OK
     else do {
       rc \<leftarrow> (if jfd_open p then (case journalMode p of
           PAGER_JOURNALMODE_TRUNCATE \<Rightarrow> do {
             rc \<leftarrow> (if journalOff p = 0 then ret SQLITE_OK else j_truncate 0);
             upd (\<lambda>p. p\<lparr>journalOff := 0\<rparr>);
             ret rc }
         | PAGER_JOURNALMODE_PERSIST \<Rightarrow> do {
             rc \<leftarrow> zeroJournalHdr hasMaster;
             upd (\<lambda>p. p\<lparr>journalOff := 0\<rparr>);
             ret rc }
         | PAGER_JOURNALMODE_DELETE \<Rightarrow> do {
             upd (\<lambda>p. p\<lparr>jfd_open := False\<rparr>);
             j_delete })
         else ret SQLITE_OK);
       upd (\<lambda>p. sqlite3PcacheTruncate (dbSize p) (sqlite3PcacheCleanAll (p\<lparr>pInJournal := None, nRec := 0\<rparr>)));
       p \<leftarrow> getp;
       rc \<leftarrow> (if rc = SQLITE_OK \<and> bCommit \<and> dbFileSize p > dbSize p then pager_truncate (dbSize p) else ret rc);
       rc2 \<leftarrow> pagerUnlockDb SHARED_LOCK;
       upd (\<lambda>p. p\<lparr>changeCountDone := False, eState := PAGER_READER, setMaster := False\<rparr>);
       ret (if rc = SQLITE_OK then rc2 else rc) } }"

definition sqlite3PagerSync :: "rc pm" where
  "sqlite3PagerSync = do { p \<leftarrow> getp; if \<not> noSync p then os_sync else ret SQLITE_OK }"

section \<open>Playing back the journal\<close>

fun cksum_loop :: "u8 list \<Rightarrow> nat \<Rightarrow> u32 \<Rightarrow> u32" where
  "cksum_loop aData i cksum = (if i = 0 then cksum else cksum_loop aData (i - 200) (cksum + ucast (aData ! i)))"

declare cksum_loop.simps [simp del]

definition pager_cksum :: "pager \<Rightarrow> u8 list \<Rightarrow> u32" where
  "pager_cksum p aData = cksum_loop aData (pageSize p - 200) (cksumInit p)"

text \<open>One record of the main journal, outside a savepoint rollback.\<close>

definition playback_page :: "nat \<Rightarrow> u8 list \<Rightarrow> rc pm" where
  "playback_page pgno aData = do {
     upd (\<lambda>p. if pgno = 1 then p\<lparr>nReserve := unat (aData ! 20)\<rparr> else p);
     p \<leftarrow> getp;
     let pPg = pager_lookup p pgno;
     let isSynced = (noSync p \<or> journalOff p \<le> journalHdr p);
     rc \<leftarrow> (if (eState p \<ge> PAGER_WRITER_DBMOD \<or> eState p = PAGER_OPEN) \<and> isSynced then do {
         rc \<leftarrow> db_write aData ((pgno - 1) * pageSize p);
         upd (\<lambda>p. if pgno > dbFileSize p then p\<lparr>dbFileSize := pgno\<rparr> else p);
         ret rc }
       else ret SQLITE_OK);
     (case pPg of
        None \<Rightarrow> ret rc
      | Some h \<Rightarrow> do {
          upd (pcache_put pgno (sqlite3PcacheMakeClean (h\<lparr>pData := aData\<rparr>)));
          upd (\<lambda>p. if pgno = 1 then p\<lparr>dbFileVers := take 16 (drop 24 aData)\<rparr> else p);
          ret rc }) }"

definition pager_playback_one_page :: "rc pm" where
  "pager_playback_one_page = do {
     p \<leftarrow> getp;
     let off = journalOff p;
     (rc, v) \<leftarrow> read32bits jfile off;
     if rc \<noteq> SQLITE_OK then ret rc else do {
     (rc, aData) \<leftarrow> os_read jfile (pageSize p) (off + 4);
     if rc \<noteq> SQLITE_OK then ret rc else do {
     upd (\<lambda>p. p\<lparr>journalOff := off + pageSize p + 8\<rparr>);
     let pgno = unat v;
     if pgno = 0 \<or> pgno = PAGER_MJ_PGNO p then ret SQLITE_DONE
     else if pgno > dbSize p then ret SQLITE_OK
     else do {
       (rc, cksum) \<leftarrow> read32bits jfile (off + pageSize p + 4);
       if rc \<noteq> SQLITE_OK then ret rc
       else if pager_cksum p aData \<noteq> cksum then ret SQLITE_DONE
       else playback_page pgno aData } } } }"

text \<open>
  The loop over the records of one header: \<open>None\<close> if the outer loop goes on, the code at \<open>end_playback\<close> otherwise; and
  whether the cache is still to be reset before the first record.
\<close>

fun playback_records :: "nat \<Rightarrow> nat \<Rightarrow> bool \<Rightarrow> (rc option \<times> bool) pm" where
  "playback_records 0 szJ needPagerReset = ret (None, needPagerReset)"
| "playback_records (Suc n) szJ needPagerReset = do {
     upd (\<lambda>p. if needPagerReset then pager_reset p else p);
     rc \<leftarrow> pager_playback_one_page;
     if rc = SQLITE_OK then playback_records n szJ False
     else if rc = SQLITE_DONE then do { upd (\<lambda>p. p\<lparr>journalOff := szJ\<rparr>); ret (None, False) }
     else if rc = SQLITE_IOERR_SHORT_READ then ret (Some SQLITE_OK, False)
     else ret (Some rc, False) }"

text \<open>
  The loop over the headers. Every header moves the offset by a sector, so that \<open>szJ + 1\<close> turns are enough; running out
  of fuel would be \<open>SQLITE_MISUSE\<close>.
\<close>

text \<open>
  The number of records between an offset and the end of the journal, \<open>(int)((szJ - x) / JOURNAL_PG_SZ(pPager))\<close>
  stored in the \<open>u32\<close> \<open>nRec\<close>: the difference is a signed 64-bit one and the division rounds towards zero, so that
  an offset beyond the end gives a huge count, with which the records are read until a read comes back short.
\<close>

definition rec_count :: "nat \<Rightarrow> nat \<Rightarrow> nat \<Rightarrow> u32" where
  "rec_count szJ x sz = (if x \<le> szJ then of_nat ((szJ - x) div sz) else - of_nat ((x - szJ) div sz))"

fun playback_loop :: "nat \<Rightarrow> bool \<Rightarrow> nat \<Rightarrow> bool \<Rightarrow> rc pm" where
  "playback_loop 0 isHot szJ needPagerReset = ret SQLITE_MISUSE"
| "playback_loop (Suc fuel) isHot szJ needPagerReset = do {
     (rc, n, mxPg) \<leftarrow> readJournalHdr isHot szJ;
     if rc \<noteq> SQLITE_OK then ret (if rc = SQLITE_DONE then SQLITE_OK else rc)
     else do {
       p \<leftarrow> getp;
       let n = (if n = 0xffffffff then rec_count szJ (JOURNAL_HDR_SZ p) (JOURNAL_PG_SZ p) else n);
       let n = (if n = 0 \<and> \<not> isHot \<and> journalHdr p + JOURNAL_HDR_SZ p = journalOff p
                then rec_count szJ (journalOff p) (JOURNAL_PG_SZ p) else n);
       rc \<leftarrow> (if journalOff p = JOURNAL_HDR_SZ p then do {
           rc \<leftarrow> pager_truncate mxPg;
           upd (\<lambda>p. if rc = SQLITE_OK then p\<lparr>dbSize := mxPg\<rparr> else p);
           ret rc }
         else ret SQLITE_OK);
       if rc \<noteq> SQLITE_OK then ret rc
       else do {
         (r, needPagerReset) \<leftarrow> playback_records (unat n) szJ needPagerReset;
         (case r of Some rc \<Rightarrow> ret rc | None \<Rightarrow> playback_loop fuel isHot szJ needPagerReset) } } }"

text \<open>The part before \<open>end_playback\<close>: the code, and \<open>res\<close>, which is false if the master journal is gone.\<close>

definition playback_body :: "bool \<Rightarrow> (rc \<times> bool) pm" where
  "playback_body isHot = do {
     (rc, szJ) \<leftarrow> os_size jfile;
     if rc \<noteq> SQLITE_OK then ret (rc, True)
     else do {
       p \<leftarrow> getp;
       (rc, z) \<leftarrow> readMasterJournal (mxPathname p + 1);
       (rc, res) \<leftarrow> (if rc = SQLITE_OK \<and> has_name z
         then io_call SQLITE_IOERR (\<lambda>p. (master_exists p (takeWhile (\<lambda>b. b \<noteq> 0) z), p)) (\<lambda>_ p. (True, p))
         else ret (rc, True));
       if rc \<noteq> SQLITE_OK \<or> \<not> res then ret (rc, res)
       else do {
         upd (\<lambda>p. p\<lparr>journalOff := 0\<rparr>);
         rc \<leftarrow> playback_loop (szJ + 1) isHot szJ isHot;
         ret (rc, True) } } }"

definition sqlite3SectorSize :: "nat \<Rightarrow> nat" where
  "sqlite3SectorSize sz = (if sz < 32 then 512 else if sz > MAX_SECTOR_SIZE then MAX_SECTOR_SIZE else sz)"

definition setSectorSize :: "pager \<Rightarrow> pager" where
  "setSectorSize p = p\<lparr>sectorSize := (if powersafe_overwrite p then 512 else sqlite3SectorSize (os_sector_size p))\<rparr>"

text \<open>\<open>pager_delmaster\<close> works on other files only: it is a call that can fail.\<close>

definition pager_playback :: "bool \<Rightarrow> rc pm" where
  "pager_playback isHot = do {
     (rc, res) \<leftarrow> playback_body isHot;
     upd (\<lambda>p. p\<lparr>changeCountDone := False\<rparr>);
     p \<leftarrow> getp;
     (rc, z) \<leftarrow> (if rc = SQLITE_OK then readMasterJournal (mxPathname p + 1) else ret (rc, []));
     rc \<leftarrow> (if rc = SQLITE_OK \<and> (eState p \<ge> PAGER_WRITER_DBMOD \<or> eState p = PAGER_OPEN) then sqlite3PagerSync else ret rc);
     rc \<leftarrow> (if rc = SQLITE_OK then pager_end_transaction (has_name z) False else ret rc);
     rc \<leftarrow> (if rc = SQLITE_OK \<and> has_name z \<and> res then os_effect SQLITE_IOERR id else ret rc);
     upd setSectorSize;
     ret rc }"

definition sqlite3PagerRollback :: "rc pm" where
  "sqlite3PagerRollback = do {
     p \<leftarrow> getp;
     if eState p = PAGER_ERROR then ret (errCode p)
     else if eState p \<le> PAGER_READER then ret SQLITE_OK
     else if \<not> jfd_open p \<or> eState p = PAGER_WRITER_LOCKED then do {
       rc \<leftarrow> pager_end_transaction False False;
       if eState p > PAGER_WRITER_LOCKED then do {
         upd (\<lambda>p. p\<lparr>errCode := SQLITE_ABORT, eState := PAGER_ERROR\<rparr>);
         ret rc }
       else pager_error rc }
     else do {
       rc \<leftarrow> pager_playback False;
       pager_error rc } }"

definition pager_unlock :: "unit pm" where
  "pager_unlock = do {
     upd (\<lambda>p. p\<lparr>pInJournal := None\<rparr>);
     upd (\<lambda>p. if \<not> undeletable p \<or> journalMode p = PAGER_JOURNALMODE_DELETE then p\<lparr>jfd_open := False\<rparr> else p);
     rc \<leftarrow> pagerUnlockDb NO_LOCK;
     upd (\<lambda>p. if rc \<noteq> SQLITE_OK \<and> eState p = PAGER_ERROR then p\<lparr>eLock := UNKNOWN_LOCK\<rparr> else p);
     upd (\<lambda>p. p\<lparr>changeCountDone := False, eState := PAGER_OPEN\<rparr>);
     upd (\<lambda>p. if errCode p \<noteq> SQLITE_OK then (pager_reset p)\<lparr>errCode := SQLITE_OK\<rparr> else p);
     upd (\<lambda>p. p\<lparr>journalOff := 0, journalHdr := 0, setMaster := False\<rparr>) }"

definition pagerUnlockAndRollback :: "unit pm" where
  "pagerUnlockAndRollback = do {
     p \<leftarrow> getp;
     _ \<leftarrow> (if eState p \<noteq> PAGER_ERROR \<and> eState p \<noteq> PAGER_OPEN then
          (if eState p \<ge> PAGER_WRITER_LOCKED then sqlite3PagerRollback else pager_end_transaction False False)
        else ret SQLITE_OK);
     pager_unlock }"

definition pagerUnlockIfUnused :: "unit pm" where
  "pagerUnlockIfUnused = do { p \<leftarrow> getp; if pcache_nRef p = 0 then pagerUnlockAndRollback else ret () }"

section \<open>Reading pages\<close>

definition readDbPage :: "nat \<Rightarrow> (rc \<times> u8 list) pm" where
  "readDbPage pgno = do {
     p \<leftarrow> getp;
     (rc, d) \<leftarrow> os_read dbf (pageSize p) ((pgno - 1) * pageSize p);
     let rc = (if rc = SQLITE_IOERR_SHORT_READ then SQLITE_OK else rc);
     upd (\<lambda>p. if pgno = 1 then p\<lparr>dbFileVers := (if rc \<noteq> SQLITE_OK then replicate 16 0xff else take 16 (drop 24 d))\<rparr> else p);
     ret (rc, d) }"

text \<open>\<open>sqlite3PagerAcquire\<close> without flags; making room in the cache is a step of its own (\<open>pagerStress\<close>).\<close>

definition pager_acquire_err :: "rc \<Rightarrow> rc pm" where
  "pager_acquire_err rc = do { pagerUnlockIfUnused; ret rc }"

definition sqlite3PagerGet :: "nat \<Rightarrow> rc pm" where
  "sqlite3PagerGet pgno = do {
     p \<leftarrow> getp;
     if pgno = 0 then ret SQLITE_CORRUPT
     else if errCode p \<noteq> SQLITE_OK then pager_acquire_err (errCode p)
     else if pager_lookup p pgno \<noteq> None then ret SQLITE_OK
     else do {
       upd (\<lambda>p. p\<lparr>mallocs := mallocs p + 1\<rparr>);
       if \<not> malloc_ok p (mallocs p) then pager_acquire_err SQLITE_NOMEM
       else if pgno > PAGER_MAX_PGNO \<or> pgno = PAGER_MJ_PGNO p then pager_acquire_err SQLITE_CORRUPT
       else do {
         let new = (\<lambda>d. \<lparr>pData = d, pg_dirty = False, pg_need_sync = False, pg_dont_write = False\<rparr>);
         if dbSize p < pgno then
           (if pgno > mxPgno p then pager_acquire_err SQLITE_FULL
            else do { upd (pcache_put pgno (new (replicate (pageSize p) 0))); ret SQLITE_OK })
         else do {
           (rc, d) \<leftarrow> readDbPage pgno;
           if rc \<noteq> SQLITE_OK then pager_acquire_err rc
           else do { upd (pcache_put pgno (new d)); ret SQLITE_OK } } } } }"

section \<open>Making pages writable\<close>

definition pager_open_journal :: "rc pm" where
  "pager_open_journal = do {
     p \<leftarrow> getp;
     let (bv, k) = sqlite3BitvecCreate (malloc_ok p) (mallocs p) (dbSize p);
     upd (\<lambda>p. p\<lparr>pInJournal := bv, mallocs := k\<rparr>);
     if bv = None then ret SQLITE_NOMEM
     else do {
       rc \<leftarrow> (if jfd_open p then ret SQLITE_OK else j_open);
       rc \<leftarrow> (if rc = SQLITE_OK then do {
           upd (\<lambda>p. p\<lparr>nRec := 0, journalOff := 0, setMaster := False, journalHdr := 0\<rparr>);
           writeJournalHdr }
         else ret rc);
       upd (\<lambda>p. if rc \<noteq> SQLITE_OK then p\<lparr>pInJournal := None\<rparr> else p\<lparr>eState := PAGER_WRITER_CACHEMOD\<rparr>);
       ret rc } }"

definition set_need_sync :: "nat \<Rightarrow> pager \<Rightarrow> pager" where
  "set_need_sync pgno p = (case pager_lookup p pgno of None \<Rightarrow> p | Some h \<Rightarrow> pcache_put pgno (h\<lparr>pg_need_sync := True\<rparr>) p)"

definition mark_in_journal :: "nat \<Rightarrow> rc pm" where
  "mark_in_journal pgno = State (\<lambda>p.
     case sqlite3BitvecSet (malloc_ok p) (mallocs p) (pInJournal p) pgno of
       None \<Rightarrow> (SQLITE_MISUSE, p)
     | Some (rc, bv, k) \<Rightarrow> (rc, p\<lparr>pInJournal := bv, mallocs := k\<rparr>))"

text \<open>The page record: page number, content, checksum.\<close>

definition journal_page :: "nat \<Rightarrow> pghdr \<Rightarrow> rc pm" where
  "journal_page pgno pPg = do {
     p \<leftarrow> getp;
     let cksum = pager_cksum p (pData pPg);
     let iOff = journalOff p;
     upd (set_need_sync pgno);
     rc \<leftarrow> write32bits iOff (of_nat pgno);
     if rc \<noteq> SQLITE_OK then ret rc else do {
     rc \<leftarrow> j_write (pData pPg) (iOff + 4);
     if rc \<noteq> SQLITE_OK then ret rc else do {
     rc \<leftarrow> write32bits (iOff + pageSize p + 4) cksum;
     if rc \<noteq> SQLITE_OK then ret rc else do {
     upd (\<lambda>p. p\<lparr>journalOff := journalOff p + 8 + pageSize p, nRec := nRec p + 1\<rparr>);
     mark_in_journal pgno } } } }"

definition pager_write :: "nat \<Rightarrow> rc pm" where
  "pager_write pgno = do {
     p \<leftarrow> getp;
     if errCode p \<noteq> SQLITE_OK then ret (errCode p)
     else if readOnly p then ret SQLITE_PERM
     else do {
       rc \<leftarrow> (if eState p = PAGER_WRITER_LOCKED then pager_open_journal else ret SQLITE_OK);
       if rc \<noteq> SQLITE_OK then ret rc
       else do {
         p \<leftarrow> getp;
         (case pager_lookup p pgno of
            None \<Rightarrow> ret SQLITE_MISUSE
          | Some pPg \<Rightarrow> do {
              upd (pcache_put pgno (sqlite3PcacheMakeDirty pPg));
              rc \<leftarrow> (if pageInJournal p pgno then ret SQLITE_OK
                     else if pgno \<le> dbOrigSize p \<and> jfd_open p then journal_page pgno pPg
                     else do {
                       upd (\<lambda>p. if eState p \<noteq> PAGER_WRITER_DBMOD then set_need_sync pgno p else p);
                       ret SQLITE_OK });
              if rc \<noteq> SQLITE_OK then ret rc
              else do {
                upd (\<lambda>p. if dbSize p < pgno then p\<lparr>dbSize := pgno\<rparr> else p);
                ret SQLITE_OK } }) } } }"

text \<open>All pages of a sector are journalled together: the loop over the pages of the sector, and the final synchronisation of their flags.\<close>

definition need_sync :: "pager \<Rightarrow> nat \<Rightarrow> bool" where
  "need_sync p pgno = (case pager_lookup p pgno of None \<Rightarrow> False | Some h \<Rightarrow> pg_need_sync h)"

fun write_sector :: "nat \<Rightarrow> nat list \<Rightarrow> bool \<Rightarrow> (rc \<times> bool) pm" where
  "write_sector pgno [] needSync = ret (SQLITE_OK, needSync)"
| "write_sector pgno (pg # pgs) needSync = do {
     p \<leftarrow> getp;
     if pg = pgno \<or> \<not> pageInJournal p pg then
       (if pg \<noteq> PAGER_MJ_PGNO p then do {
          rc \<leftarrow> sqlite3PagerGet pg;
          if rc \<noteq> SQLITE_OK then ret (rc, needSync)
          else do {
            rc \<leftarrow> pager_write pg;
            p \<leftarrow> getp;
            if rc \<noteq> SQLITE_OK then ret (rc, needSync) else write_sector pgno pgs (needSync \<or> need_sync p pg) } }
        else write_sector pgno pgs needSync)
     else write_sector pgno pgs (needSync \<or> need_sync p pg) }"

definition sqlite3PagerWrite :: "nat \<Rightarrow> rc pm" where
  "sqlite3PagerWrite pgno = do {
     p \<leftarrow> getp;
     let nPagePerSector = sectorSize p div pageSize p;
     if nPagePerSector > 1 then do {
       upd (\<lambda>p. p\<lparr>doNotSyncSpill := True\<rparr>);
       let pg1 = unat ((of_nat (pgno - 1) :: u32) AND NOT (of_nat (nPagePerSector - 1))) + 1;
       let nPageCount = dbSize p;
       let nPage = (if pgno > nPageCount then pgno - pg1 + 1
                    else if pg1 + nPagePerSector - 1 > nPageCount then nPageCount + 1 - pg1 else nPagePerSector);
       (rc, needSync) \<leftarrow> write_sector pgno [pg1..<pg1 + nPage] False;
       upd (\<lambda>p. if rc = SQLITE_OK \<and> needSync then fold set_need_sync [pg1..<pg1 + nPage] p else p);
       upd (\<lambda>p. p\<lparr>doNotSyncSpill := False\<rparr>);
       ret rc }
     else pager_write pgno }"

section \<open>Writing to the database file\<close>

definition sync_journal_file :: "bool \<Rightarrow> rc pm" where
  "sync_journal_file newHdr = do {
     p \<leftarrow> getp;
     rc \<leftarrow> (if safe_append p then ret SQLITE_OK else do {
         let iNextHdrOffset = journalHdrOffset p;
         (rc, aMagic) \<leftarrow> os_read jfile 8 iNextHdrOffset;
         rc \<leftarrow> (if rc = SQLITE_OK \<and> aMagic = aJournalMagic then j_write [0] iNextHdrOffset else ret rc);
         if rc \<noteq> SQLITE_OK \<and> rc \<noteq> SQLITE_IOERR_SHORT_READ then ret rc
         else do {
           rc \<leftarrow> (if fullSync p \<and> \<not> sequential p then os_sync else ret SQLITE_OK);
           if rc \<noteq> SQLITE_OK then ret rc
           else j_write (aJournalMagic @ sqlite3Put4byte (of_nat (nRec p))) (journalHdr p) } });
     if rc \<noteq> SQLITE_OK then ret rc
     else do {
       rc \<leftarrow> (if sequential p then ret SQLITE_OK else os_sync);
       if rc \<noteq> SQLITE_OK then ret rc
       else do {
         upd (\<lambda>p. p\<lparr>journalHdr := journalOff p\<rparr>);
         if newHdr \<and> \<not> safe_append p then do { upd (\<lambda>p. p\<lparr>nRec := 0\<rparr>); writeJournalHdr } else ret SQLITE_OK } } }"

definition syncJournal :: "bool \<Rightarrow> rc pm" where
  "syncJournal newHdr = do {
     rc \<leftarrow> pager_wait_on_lock EXCLUSIVE_LOCK;
     if rc \<noteq> SQLITE_OK then ret rc
     else do {
       p \<leftarrow> getp;
       rc \<leftarrow> (if noSync p then ret SQLITE_OK
              else if jfd_open p then sync_journal_file newHdr
              else do { upd (\<lambda>p. p\<lparr>journalHdr := journalOff p\<rparr>); ret SQLITE_OK });
       if rc \<noteq> SQLITE_OK then ret rc
       else do {
         upd (\<lambda>p. (sqlite3PcacheClearSyncFlags p)\<lparr>eState := PAGER_WRITER_DBMOD\<rparr>);
         ret SQLITE_OK } } }"

definition pager_write_changecounter :: "pager \<Rightarrow> pghdr \<Rightarrow> pghdr" where
  "pager_write_changecounter p h =
     (let cc = sqlite3Put4byte ((case sqlite3Get4byte (dbFileVers p) of Some v \<Rightarrow> v | None \<Rightarrow> 0) + 1)
      in h\<lparr>pData := file_write (file_write (file_write (pData h) 24 cc) 92 cc) 96 (sqlite3Put4byte SQLITE_VERSION_NUMBER)\<rparr>)"

fun pager_write_pagelist :: "nat list \<Rightarrow> rc pm" where
  "pager_write_pagelist [] = ret SQLITE_OK"
| "pager_write_pagelist (pgno # pgs) = do {
     p \<leftarrow> getp;
     (case pager_lookup p pgno of
        None \<Rightarrow> ret SQLITE_MISUSE
      | Some h \<Rightarrow>
          if pgno \<le> dbSize p \<and> \<not> pg_dont_write h then do {
            let h = (if pgno = 1 then pager_write_changecounter p h else h);
            upd (pcache_put pgno h);
            rc \<leftarrow> db_write (pData h) ((pgno - 1) * pageSize p);
            upd (\<lambda>p. if pgno = 1 then p\<lparr>dbFileVers := take 16 (drop 24 (pData h))\<rparr> else p);
            upd (\<lambda>p. if pgno > dbFileSize p then p\<lparr>dbFileSize := pgno\<rparr> else p);
            if rc \<noteq> SQLITE_OK then ret rc else pager_write_pagelist pgs }
          else pager_write_pagelist pgs) }"

definition pagerStress :: "nat \<Rightarrow> rc pm" where
  "pagerStress pgno = do {
     p \<leftarrow> getp;
     if errCode p \<noteq> SQLITE_OK then ret SQLITE_OK
     else if doNotSyncSpill p \<and> need_sync p pgno then ret SQLITE_OK
     else do {
       rc \<leftarrow> (if need_sync p pgno \<or> eState p = PAGER_WRITER_CACHEMOD then syncJournal True else ret SQLITE_OK);
       rc \<leftarrow> (if rc = SQLITE_OK then pager_write_pagelist [pgno] else ret rc);
       upd (\<lambda>p. case pager_lookup p pgno of
          Some h \<Rightarrow> if rc = SQLITE_OK then pcache_put pgno (sqlite3PcacheMakeClean h) p else p | None \<Rightarrow> p);
       pager_error rc } }"

section \<open>Transactions\<close>

definition sqlite3PagerBegin :: "bool \<Rightarrow> rc pm" where
  "sqlite3PagerBegin exFlag = do {
     p \<leftarrow> getp;
     if errCode p \<noteq> SQLITE_OK then ret (errCode p)
     else if eState p = PAGER_READER then do {
       rc \<leftarrow> pagerLockDb RESERVED_LOCK;
       rc \<leftarrow> (if rc = SQLITE_OK \<and> exFlag then pager_wait_on_lock EXCLUSIVE_LOCK else ret rc);
       upd (\<lambda>p. if rc = SQLITE_OK
         then p\<lparr>eState := PAGER_WRITER_LOCKED, dbFileSize := dbSize p, dbOrigSize := dbSize p, journalOff := 0\<rparr> else p);
       ret rc }
     else ret SQLITE_OK }"

definition pager_incr_changecounter :: "rc pm" where
  "pager_incr_changecounter = do {
     p \<leftarrow> getp;
     if \<not> changeCountDone p \<and> dbSize p > 0 then do {
       rc \<leftarrow> sqlite3PagerGet 1;
       rc \<leftarrow> (if rc = SQLITE_OK then sqlite3PagerWrite 1 else ret rc);
       if rc = SQLITE_OK then do {
         upd (\<lambda>p. case pager_lookup p 1 of Some h \<Rightarrow> pcache_put 1 (pager_write_changecounter p h) p | None \<Rightarrow> p);
         upd (\<lambda>p. p\<lparr>changeCountDone := True\<rparr>);
         ret SQLITE_OK }
       else ret rc }
     else ret SQLITE_OK }"

definition sqlite3PagerCommitPhaseOne :: "u8 list option \<Rightarrow> bool \<Rightarrow> rc pm" where
  "sqlite3PagerCommitPhaseOne zMaster noSync_arg = do {
     p \<leftarrow> getp;
     if errCode p \<noteq> SQLITE_OK then ret (errCode p)
     else if eState p < PAGER_WRITER_CACHEMOD then ret SQLITE_OK
     else do {
       rc \<leftarrow> pager_incr_changecounter;
       if rc \<noteq> SQLITE_OK then ret rc else do {
       rc \<leftarrow> writeMasterJournal zMaster;
       if rc \<noteq> SQLITE_OK then ret rc else do {
       rc \<leftarrow> syncJournal False;
       if rc \<noteq> SQLITE_OK then ret rc else do {
       p \<leftarrow> getp;
       rc \<leftarrow> pager_write_pagelist (sqlite3PcacheDirtyList p);
       if rc \<noteq> SQLITE_OK then ret rc else do {
       upd sqlite3PcacheCleanAll;
       p \<leftarrow> getp;
       rc \<leftarrow> (if dbSize p > dbFileSize p
              then pager_truncate (dbSize p - (if dbSize p = PAGER_MJ_PGNO p then 1 else 0)) else ret SQLITE_OK);
       if rc \<noteq> SQLITE_OK then ret rc else do {
       rc \<leftarrow> (if noSync_arg then ret SQLITE_OK else sqlite3PagerSync);
       upd (\<lambda>p. if rc = SQLITE_OK then p\<lparr>eState := PAGER_WRITER_FINISHED\<rparr> else p);
       ret rc } } } } } } }"

definition sqlite3PagerCommitPhaseTwo :: "rc pm" where
  "sqlite3PagerCommitPhaseTwo = do {
     p \<leftarrow> getp;
     if errCode p \<noteq> SQLITE_OK then ret (errCode p)
     else do {
       rc \<leftarrow> pager_end_transaction (setMaster p) True;
       pager_error rc } }"

definition sqlite3PagerTruncateImage :: "nat \<Rightarrow> unit pm" where
  "sqlite3PagerTruncateImage nPage = upd (\<lambda>p. p\<lparr>dbSize := nPage\<rparr>)"

section \<open>Recovery\<close>

text \<open>
  The number of pages of the file. The source casts it to \<open>Pgno\<close>, which loses nothing below \<open>2 ^ 32\<close> pages; the model
  keeps the natural number, and a longer file is outside it.
\<close>

definition pagerPagecount :: "(rc \<times> nat) pm" where
  "pagerPagecount = do {
     p \<leftarrow> getp;
     (rc, n) \<leftarrow> os_size dbf;
     if rc \<noteq> SQLITE_OK then ret (rc, 0)
     else do {
       let nPage = (n + pageSize p - 1) div pageSize p;
       upd (\<lambda>p. if nPage > mxPgno p then p\<lparr>mxPgno := nPage\<rparr> else p);
       ret (SQLITE_OK, nPage) } }"

text \<open>\<open>reserved\<close> is the answer of \<open>sqlite3OsCheckReservedLock\<close>.\<close>

definition hasHotJournal :: "bool \<Rightarrow> (rc \<times> bool) pm" where
  "hasHotJournal reserved = do {
     p \<leftarrow> getp;
     (rc, exists) \<leftarrow> (if jfd_open p then ret (SQLITE_OK, True)
        else io_call SQLITE_IOERR (\<lambda>p. (jrnl p \<noteq> None, p)) (\<lambda>_ p. (True, p)));
     if rc \<noteq> SQLITE_OK \<or> \<not> exists then ret (rc, False)
     else do {
       rc \<leftarrow> os_effect SQLITE_IOERR_CHECKRESERVEDLOCK id;
       if rc \<noteq> SQLITE_OK \<or> reserved then ret (rc, False)
       else do {
         (rc, nPage) \<leftarrow> pagerPagecount;
         if rc \<noteq> SQLITE_OK then ret (rc, False)
         else if nPage = 0 then do {
           rc \<leftarrow> pagerLockDb RESERVED_LOCK;
           if rc = SQLITE_OK then do { _ \<leftarrow> j_delete; _ \<leftarrow> pagerUnlockDb SHARED_LOCK; ret (SQLITE_OK, False) }
           else ret (SQLITE_OK, False) }
         else do {
           rc \<leftarrow> (if jfd_open p then ret SQLITE_OK else os_open);
           if rc = SQLITE_OK then do {
             (rc, b) \<leftarrow> os_read jfile 1 0;
             ret (if rc = SQLITE_IOERR_SHORT_READ then SQLITE_OK else rc, b \<noteq> [] \<and> hd b \<noteq> 0) }
           else if rc = SQLITE_CANTOPEN then ret (SQLITE_OK, True)
           else ret (rc, False) } } } }"

definition pagerSyncHotJournal :: "rc pm" where
  "pagerSyncHotJournal = do {
     p \<leftarrow> getp;
     rc \<leftarrow> (if \<not> noSync p then os_sync else ret SQLITE_OK);
     if rc = SQLITE_OK then do {
       (rc, sz) \<leftarrow> os_size jfile;
       upd (\<lambda>p. if rc = SQLITE_OK then p\<lparr>journalHdr := sz\<rparr> else p);
       ret rc }
     else ret rc }"

text \<open>The branch of \<open>sqlite3PagerSharedLock\<close> that rolls a hot journal back.\<close>

definition rollback_hot_journal :: "rc pm" where
  "rollback_hot_journal = do {
     rc \<leftarrow> pagerLockDb EXCLUSIVE_LOCK;
     if rc \<noteq> SQLITE_OK then ret rc
     else do {
       p \<leftarrow> getp;
       rc \<leftarrow> (if jfd_open p then ret SQLITE_OK else do {
           (rc, bExists) \<leftarrow> io_call SQLITE_IOERR (\<lambda>p. (jrnl p \<noteq> None, p)) (\<lambda>_ p. (False, p));
           if rc = SQLITE_OK \<and> bExists then j_open else ret rc });
       p \<leftarrow> getp;
       rc \<leftarrow> (if jfd_open p then do {
           rc \<leftarrow> pagerSyncHotJournal;
           if rc = SQLITE_OK then do {
             rc \<leftarrow> pager_playback True;
             upd (\<lambda>p. p\<lparr>eState := PAGER_OPEN\<rparr>);
             ret rc }
           else ret rc }
         else do { _ \<leftarrow> pagerUnlockDb SHARED_LOCK; ret rc });
       if rc \<noteq> SQLITE_OK then pager_error rc else ret SQLITE_OK } }"

text \<open>The check of the change counter, which discards a stale cache.\<close>

definition check_cache :: "rc pm" where
  "check_cache = do {
     p \<leftarrow> getp;
     if pPCache p \<noteq> [] then do {
       (rc, nPage) \<leftarrow> pagerPagecount;
       if rc \<noteq> SQLITE_OK then ret rc
       else do {
         (rc, vers) \<leftarrow> (if nPage > 0 then os_read dbf 16 24 else ret (SQLITE_OK, replicate 16 0));
         if rc \<noteq> SQLITE_OK \<and> rc \<noteq> SQLITE_IOERR_SHORT_READ then ret rc
         else do {
           upd (\<lambda>p. if dbFileVers p \<noteq> vers then pager_reset p else p);
           ret SQLITE_OK } } }
     else ret SQLITE_OK }"

definition shared_lock_open :: "bool \<Rightarrow> rc pm" where
  "shared_lock_open reserved = do {
     rc \<leftarrow> pager_wait_on_lock SHARED_LOCK;
     if rc \<noteq> SQLITE_OK then ret rc
     else do {
       p \<leftarrow> getp;
       (rc, bHotJournal) \<leftarrow> (if eLock p \<le> SHARED_LOCK then hasHotJournal reserved else ret (SQLITE_OK, True));
       if rc \<noteq> SQLITE_OK then ret rc
       else do {
         rc \<leftarrow> (if bHotJournal then (if readOnly p then ret SQLITE_READONLY_ROLLBACK else rollback_hot_journal) else ret SQLITE_OK);
         if rc \<noteq> SQLITE_OK then ret rc
         else do {
           rc \<leftarrow> check_cache;
           if rc \<noteq> SQLITE_OK then ret rc
           else do {
             (rc, nPage) \<leftarrow> pagerPagecount;
             upd (\<lambda>p. if rc = SQLITE_OK then p\<lparr>dbSize := nPage\<rparr> else p);
             ret rc } } } } }"

definition sqlite3PagerSharedLock :: "bool \<Rightarrow> rc pm" where
  "sqlite3PagerSharedLock reserved = do {
     p \<leftarrow> getp;
     rc \<leftarrow> (if eState p = PAGER_OPEN then shared_lock_open reserved else ret SQLITE_OK);
     if rc \<noteq> SQLITE_OK then do { pager_unlock; ret rc }
     else do { upd (\<lambda>p. p\<lparr>eState := PAGER_READER\<rparr>); ret SQLITE_OK } }"

end
