(* ===== verification/Pager_Recovery.thy ===== *)
theory Pager_Recovery
  imports Pager
begin

text \<open>
  Recovery with the rollback journal. A weakest precondition calculus for the operations of the pager, the shape of a
  journal file as a chain of headers with their records, the condition under which a database file and a journal
  together determine the original database, and the proof that playing back the journal restores it, whatever calls to
  the operating system fail on the way.
\<close>

section \<open>Weakest preconditions\<close>

definition wp :: "'a pm \<Rightarrow> ('a \<Rightarrow> pager \<Rightarrow> bool) \<Rightarrow> pager \<Rightarrow> bool" where
  "wp m Q p = (case run_state m p of (x, q) \<Rightarrow> Q x q)"

lemma wp_ret [simp]: "wp (ret x) Q p = Q x p"
  by (simp add: wp_def)

lemma wp_bind [simp]: "wp (State_Monad.bind m f) Q p = wp m (\<lambda>x. wp (f x) Q) p"
  by (simp add: wp_def split: prod.splits)

lemma wp_get [simp]: "wp getp Q p = Q p p"
  by (simp add: wp_def)

lemma wp_upd [simp]: "wp (upd f) Q p = Q () (f p)"
  by (simp add: wp_def upd_def)

lemma wp_State: "wp (State f) Q p = (case f p of (x, q) \<Rightarrow> Q x q)"
  by (simp add: wp_def)

lemma wp_if [simp]: "wp (if b then m else n) Q p = (if b then wp m Q p else wp n Q p)"
  by simp

lemma wp_prod [simp]: "wp (case z of (a, b) \<Rightarrow> f a b) Q p = (case z of (a, b) \<Rightarrow> wp (f a b) Q p)"
  by (cases z) simp

lemma wp_option [simp]:
  "wp (case z of None \<Rightarrow> m | Some a \<Rightarrow> f a) Q p = (case z of None \<Rightarrow> wp m Q p | Some a \<Rightarrow> wp (f a) Q p)"
  by (cases z) simp_all

lemma wp_cons: "wp m Q p \<Longrightarrow> (\<And>x q. Q x q \<Longrightarrow> R x q) \<Longrightarrow> wp m R p"
  by (auto simp: wp_def split: prod.splits)

lemma wp_conj: "wp m Q p \<Longrightarrow> wp m R p \<Longrightarrow> wp m (\<lambda>x q. Q x q \<and> R x q) p"
  by (auto simp: wp_def split: prod.splits)

abbreviation tick :: "pager \<Rightarrow> pager" where
  "tick p \<equiv> p\<lparr>io_tick := Suc (io_tick p)\<rparr>"

lemma wp_io_call:
  "wp (io_call err ok bad) Q p = (case io_fail p (io_tick p) of
     None \<Rightarrow> (case ok (tick p) of (x, q) \<Rightarrow> Q (SQLITE_OK, x) q)
   | Some k \<Rightarrow> (case bad k (tick p) of (x, q) \<Rightarrow> Q (err, x) q))"
  by (auto simp: io_call_def io_event_def wp_State split: option.splits prod.splits)

text \<open>The calls, by the outcome the environment chooses; \<open>fails p\<close> says that some call can fail.\<close>

definition fails :: "pager \<Rightarrow> bool" where
  "fails p \<longleftrightarrow> (\<exists>k. io_fail p k \<noteq> None)"

lemma wp_os_read:
  assumes "Q (file_read (f (tick p)) n off) (tick p)" and "fails p \<Longrightarrow> Q (SQLITE_IOERR_READ, []) (tick p)"
  shows "wp (os_read f n off) Q p"
  using assms by (auto simp: os_read_def wp_io_call fails_def split: option.splits prod.splits)

lemma wp_os_size:
  assumes "Q (SQLITE_OK, length (f (tick p))) (tick p)" and "fails p \<Longrightarrow> Q (SQLITE_IOERR_FSTAT, 0) (tick p)"
  shows "wp (os_size f) Q p"
  using assms by (auto simp: os_size_def wp_io_call fails_def split: option.splits)

lemma wp_os_effect:
  assumes "Q SQLITE_OK (f (tick p))" and "fails p \<Longrightarrow> Q err (tick p)"
  shows "wp (os_effect err f) Q p"
  using assms by (auto simp: os_effect_def wp_io_call fails_def split: option.splits)

lemma wp_db_write:
  assumes "Q SQLITE_OK ((tick p)\<lparr>dbf := file_write (dbf p) off xs\<rparr>)"
    and "\<And>k. fails p \<Longrightarrow> Q SQLITE_IOERR_WRITE ((tick p)\<lparr>dbf := file_torn (dbf p) off xs k\<rparr>)"
  shows "wp (db_write xs off) Q p"
  using assms by (auto simp: db_write_def wp_io_call fails_def split: option.splits)

lemma wp_j_write:
  assumes "Q SQLITE_OK ((tick p)\<lparr>jrnl := Some (file_write (jfile p) off xs)\<rparr>)"
    and "\<And>k. fails p \<Longrightarrow> Q SQLITE_IOERR_WRITE ((tick p)\<lparr>jrnl := Some (file_torn (jfile p) off xs k)\<rparr>)"
  shows "wp (j_write xs off) Q p"
  using assms by (auto simp: j_write_def wp_io_call fails_def jfile_def split: option.splits)

lemma wp_os_lock:
  assumes "Q SQLITE_OK (tick p)" and "fails p \<Longrightarrow> Q SQLITE_BUSY (tick p)" and "fails p \<Longrightarrow> Q SQLITE_IOERR_LOCK (tick p)"
  shows "wp os_lock Q p"
  using assms by (auto simp: os_lock_def io_event_def wp_State fails_def split: option.splits)

lemma wp_os_open:
  assumes "Q SQLITE_OK (tick p)" and "fails p \<Longrightarrow> Q SQLITE_CANTOPEN (tick p)" and "fails p \<Longrightarrow> Q SQLITE_IOERR (tick p)"
  shows "wp os_open Q p"
  using assms by (auto simp: os_open_def io_event_def wp_State fails_def split: option.splits)

definition u32_at :: "u8 list \<Rightarrow> nat \<Rightarrow> u32" where
  "u32_at f off = (case sqlite3Get4byte (take 4 (drop off f)) of Some v \<Rightarrow> v | None \<Rightarrow> 0)"

lemma wp_read32bits:
  assumes "off + 4 \<le> length (f (tick p)) \<Longrightarrow> Q (SQLITE_OK, u32_at (f (tick p)) off) (tick p)"
    and "length (f (tick p)) < off + 4 \<Longrightarrow> Q (SQLITE_IOERR_SHORT_READ, 0) (tick p)"
    and "fails p \<Longrightarrow> Q (SQLITE_IOERR_READ, 0) (tick p)"
  shows "wp (read32bits f off) Q p"
  unfolding read32bits_def wp_bind
  by (rule wp_os_read) (use assms in \<open>auto simp: file_read_def u32_at_def Let_def split: prod.splits\<close>)

lemma jfile_simps [simp]:
  "jfile (p\<lparr>io_tick := t\<rparr>) = jfile p" "jfile (p\<lparr>jrnl := Some j\<rparr>) = j" "jfile (p\<lparr>jrnl := None\<rparr>) = []"
  "jfile (p\<lparr>dbf := x1\<rparr>) = jfile p" "jfile (p\<lparr>journalOff := x2\<rparr>) = jfile p" "jfile (p\<lparr>cksumInit := x3\<rparr>) = jfile p"
  "jfile (p\<lparr>dbSize := x4\<rparr>) = jfile p" "jfile (p\<lparr>sectorSize := x5\<rparr>) = jfile p" "jfile (p\<lparr>jfd_open := x6\<rparr>) = jfile p"
  "jfile (p\<lparr>journalHdr := x7\<rparr>) = jfile p" "jfile (p\<lparr>eState := x8\<rparr>) = jfile p" "jfile (p\<lparr>nRec := x9\<rparr>) = jfile p"
  "jfile (p\<lparr>dbFileSize := x10\<rparr>) = jfile p" "jfile (p\<lparr>eLock := x11\<rparr>) = jfile p" "jfile (p\<lparr>pPCache := x12\<rparr>) = jfile p"
  "jfile (p\<lparr>changeCountDone := x13\<rparr>) = jfile p" "jfile (p\<lparr>setMaster := x14\<rparr>) = jfile p" "jfile (p\<lparr>pInJournal := x15\<rparr>) = jfile p"
  "jfile (p\<lparr>dbFileVers := x16\<rparr>) = jfile p" "jfile (p\<lparr>mallocs := x17\<rparr>) = jfile p" "jfile (p\<lparr>mxPgno := x18\<rparr>) = jfile p"
  by (simp_all add: jfile_def)

lemma fails_simps [simp]:
  "fails (p\<lparr>io_tick := t\<rparr>) = fails p" "fails (p\<lparr>jrnl := x0\<rparr>) = fails p"
  "fails (p\<lparr>dbf := x1\<rparr>) = fails p" "fails (p\<lparr>journalOff := x2\<rparr>) = fails p" "fails (p\<lparr>cksumInit := x3\<rparr>) = fails p"
  "fails (p\<lparr>dbSize := x4\<rparr>) = fails p" "fails (p\<lparr>sectorSize := x5\<rparr>) = fails p" "fails (p\<lparr>jfd_open := x6\<rparr>) = fails p"
  "fails (p\<lparr>journalHdr := x7\<rparr>) = fails p" "fails (p\<lparr>eState := x8\<rparr>) = fails p" "fails (p\<lparr>nRec := x9\<rparr>) = fails p"
  "fails (p\<lparr>dbFileSize := x10\<rparr>) = fails p" "fails (p\<lparr>eLock := x11\<rparr>) = fails p" "fails (p\<lparr>pPCache := x12\<rparr>) = fails p"
  "fails (p\<lparr>changeCountDone := x13\<rparr>) = fails p" "fails (p\<lparr>setMaster := x14\<rparr>) = fails p" "fails (p\<lparr>pInJournal := x15\<rparr>) = fails p"
  "fails (p\<lparr>dbFileVers := x16\<rparr>) = fails p" "fails (p\<lparr>mallocs := x17\<rparr>) = fails p" "fails (p\<lparr>mxPgno := x18\<rparr>) = fails p"
  by (simp_all add: fails_def)

section \<open>Files and pages\<close>

lemma file_write_length: "xs \<noteq> [] \<Longrightarrow> length (file_write f off xs) = max (length f) (off + length xs)"
  by (auto simp: file_write_def min_def max_def)

lemma file_write_nth:
  assumes "i < length (file_write f off xs)"
  shows "file_write f off xs ! i = (if off \<le> i \<and> i < off + length xs then xs ! (i - off) else if i < length f then f ! i else 0)"
proof (cases "xs = []")
  case True
  then show ?thesis using assms by (auto simp: file_write_def)
next
  case False
  define F where "F = take off (f @ replicate (off - length f) 0)"
  have l: "length F = off" by (simp add: F_def)
  have w: "file_write f off xs = F @ xs @ drop (off + length xs) f" using False by (simp add: file_write_def F_def)
  have F: "i < off \<Longrightarrow> F ! i = (if i < length f then f ! i else 0)" by (simp add: F_def nth_append)
  consider "i < off" | "off \<le> i" "i < off + length xs" | "off + length xs \<le> i" by linarith
  then show ?thesis
  proof cases
    case 1
    then show ?thesis using F l by (simp add: w nth_append)
  next
    case 2
    then have "i - off < length xs" by linarith
    with 2 show ?thesis using l by (simp add: w nth_append)
  next
    case 3
    moreover have "i < length f" using 3 assms False by (simp add: file_write_length max_def split: if_splits)
    moreover have "\<not> i - off < length xs" using 3 by linarith
    ultimately show ?thesis using l by (simp add: w nth_append)
  qed
qed

text \<open>A write leaves every other part of the file as it was, and the part it covers holds the bytes.\<close>

lemma file_write_other:
  assumes "a + n \<le> length f" and "a + n \<le> off \<or> off + length xs \<le> a"
  shows "take n (drop a (file_write f off xs)) = take n (drop a f)"
proof (cases "xs = []")
  case False
  then have l: "length f \<le> length (file_write f off xs)" by (simp add: file_write_length)
  show ?thesis
  proof (rule nth_equalityI)
    show "length (take n (drop a (file_write f off xs))) = length (take n (drop a f))" using l assms(1) by simp
    fix i assume "i < length (take n (drop a (file_write f off xs)))"
    then have i: "i < n" "a + i < length (file_write f off xs)" by auto
    then show "take n (drop a (file_write f off xs)) ! i = take n (drop a f) ! i"
      using assms by (auto simp: file_write_nth)
  qed
qed (simp add: file_write_def)

lemma file_write_same: "take (length xs) (drop off (file_write f off xs)) = xs"
  by (simp add: file_write_def)

lemma file_torn_length: "length f \<le> length (file_torn f off xs k)" "length (file_torn f off xs k) \<le> max (length f) (off + length xs)"
  by (cases "take (512 * k - off) xs = []"; auto simp: file_torn_def file_write_length; auto simp: file_write_def)+

definition page :: "nat \<Rightarrow> u8 list \<Rightarrow> nat \<Rightarrow> u8 list" where
  "page ps f pg = take ps (drop ((pg - 1) * ps) f)"

lemma page_end: "1 \<le> pg \<Longrightarrow> pg \<le> n \<Longrightarrow> (pg - 1) * ps + ps \<le> n * (ps :: nat)"
  using mult_le_mono1 [of pg n ps] by (cases pg) auto

lemma page_other: "1 \<le> pg \<Longrightarrow> 1 \<le> q \<Longrightarrow> pg \<noteq> q \<Longrightarrow> (q - 1) * ps + ps \<le> (pg - 1) * (ps :: nat) \<or> (pg - 1) * ps + ps \<le> (q - 1) * ps"
  using page_end [of pg "q - 1" ps] page_end [of q "pg - 1" ps] by (cases "pg < q") auto

text \<open>\<open>dbok\<close>: the file holds the original of every page that is not in \<open>S\<close>.\<close>

definition dbok :: "nat \<Rightarrow> nat \<Rightarrow> u8 list \<Rightarrow> nat set \<Rightarrow> u8 list \<Rightarrow> bool" where
  "dbok ps n0 D0 S db \<longleftrightarrow> n0 * ps \<le> length db \<and> (\<forall>pg. 1 \<le> pg \<and> pg \<le> n0 \<and> pg \<notin> S \<longrightarrow> page ps db pg = page ps D0 pg)"

lemma dbok_mono: "dbok ps n0 D0 S db \<Longrightarrow> S \<subseteq> T \<Longrightarrow> dbok ps n0 D0 T db"
  by (auto simp: dbok_def)

lemma page_write_other:
  assumes "n0 * ps \<le> length db" and "1 \<le> q" "q \<le> n0" and "1 \<le> pg" "pg \<noteq> q" and "length xs \<le> ps"
  shows "page ps (file_write db ((pg - 1) * ps) xs) q = page ps db q"
  unfolding page_def
  using file_write_other [of "(q - 1) * ps" ps db "(pg - 1) * ps" xs] page_end [OF assms(2,3), of ps] page_other [OF assms(4,2,5), of ps] assms(1,6)
  by linarith

lemma dbok_put:
  assumes "dbok ps n0 D0 S db" and "1 \<le> pg" and "length xs \<le> ps"
  shows "dbok ps n0 D0 (insert pg S) (file_write db ((pg - 1) * ps) xs)"
  unfolding dbok_def
proof (intro conjI allI impI)
  show "n0 * ps \<le> length (file_write db ((pg - 1) * ps) xs)"
    using assms(1) by (cases "xs = []") (auto simp: dbok_def file_write_length, simp add: file_write_def)
  fix q assume q: "1 \<le> q \<and> q \<le> n0 \<and> q \<notin> insert pg S"
  then show "page ps (file_write db ((pg - 1) * ps) xs) q = page ps D0 q"
    using page_write_other [of n0 ps db q pg xs] assms by (auto simp: dbok_def)
qed

lemma dbok_torn:
  assumes "dbok ps n0 D0 S db" and "1 \<le> pg" and "length xs \<le> ps" and "pg \<in> S \<or> n0 < pg"
  shows "dbok ps n0 D0 S (file_torn db ((pg - 1) * ps) xs k)"
proof -
  have "dbok ps n0 D0 (insert pg S) (file_torn db ((pg - 1) * ps) xs k)"
    unfolding file_torn_def by (rule dbok_put [OF assms(1,2)]) (use assms(3) in simp)
  then show ?thesis using assms(4) by (auto simp: dbok_def)
qed

lemma dbok_write:
  assumes "dbok ps n0 D0 S db" and "1 \<le> pg" "pg \<le> n0" and "xs = page ps D0 pg" and "length D0 = n0 * ps"
  shows "dbok ps n0 D0 (S - {pg}) (file_write db ((pg - 1) * ps) xs)"
proof -
  have l: "length xs = ps" using assms(4,5) page_end [OF assms(2,3), of ps] by (simp add: page_def)
  then have "page ps (file_write db ((pg - 1) * ps) xs) pg = xs"
    using file_write_same [of xs "(pg - 1) * ps" db] by (simp add: page_def)
  then show ?thesis using dbok_put [OF assms(1,2), of xs] l assms(4) by (auto simp: dbok_def)
qed

lemma db_write_length:
  assumes "1 \<le> pg" "pg \<le> n0" and "length db = n0 * ps" and "length xs \<le> ps"
  shows "length (file_write db ((pg - 1) * ps) xs) = n0 * ps"
  using page_end [OF assms(1,2), of ps] assms(3,4)
  by (cases "xs = []") (auto simp: file_write_length, simp add: file_write_def)

lemma dbok_take: "dbok ps n0 D0 S db \<Longrightarrow> dbok ps n0 D0 S (take (ps * n0) db)"
proof -
  assume a: "dbok ps n0 D0 S db"
  have "page ps (take (ps * n0) db) q = page ps db q" if "1 \<le> q" "q \<le> n0" for q
    using page_end [OF that, of ps] by (simp add: page_def drop_take min_def mult.commute [of ps])
  then show ?thesis using a by (auto simp: dbok_def mult.commute [of ps])
qed

lemma dbok_all:
  assumes "dbok ps n0 D0 {} db" and "length db = n0 * ps" and "length D0 = n0 * ps"
  shows "db = D0"
proof (rule nth_equalityI)
  fix i assume i: "i < length db"
  define q where "q = i div ps + 1"
  have ps: "0 < ps" using i assms(2) by (cases ps) auto
  have q: "1 \<le> q" "q \<le> n0" using i assms(2) ps by (auto simp: q_def less_mult_imp_div_less Suc_le_eq)
  have r: "i mod ps < ps" "(q - 1) * ps + i mod ps = i" using ps by (simp_all add: q_def)
  have "page ps db q ! (i mod ps) = page ps D0 q ! (i mod ps)" using assms(1) q by (simp add: dbok_def)
  moreover have "(q - 1) * ps \<le> length db" "(q - 1) * ps \<le> length D0" using page_end [OF q, of ps] assms(2,3) by linarith+
  ultimately show "db ! i = D0 ! i" using r by (simp add: page_def del: One_nat_def)
qed (use assms in simp)

section \<open>The journal as a chain of segments\<close>

definition roundup :: "nat \<Rightarrow> nat \<Rightarrow> nat" where
  "roundup ss c = (if c \<noteq> 0 then ((c - 1) div ss + 1) * ss else 0)"

lemma journalHdrOffset_roundup: "journalHdrOffset p = roundup (sectorSize p) (journalOff p)"
  by (simp add: journalHdrOffset_def roundup_def JOURNAL_HDR_SZ_def Let_def)

text \<open>A record at an offset, a run of records that share the initial checksum, and a header with its count.\<close>

fun recs_at :: "nat \<Rightarrow> u8 list \<Rightarrow> nat \<Rightarrow> u32 \<Rightarrow> (nat \<times> u8 list) list \<Rightarrow> bool" where
  "recs_at ps J off ck [] \<longleftrightarrow> True"
| "recs_at ps J off ck ((pg, data) # rs) \<longleftrightarrow> off + ps + 8 \<le> length J \<and> u32_at J off = of_nat pg \<and>
     take ps (drop (off + 4) J) = data \<and> u32_at J (off + ps + 4) = cksum_loop data (ps - 200) ck \<and>
     recs_at ps J (off + ps + 8) ck rs"

definition hdr_at :: "nat \<Rightarrow> nat \<Rightarrow> nat \<Rightarrow> u8 list \<Rightarrow> nat \<Rightarrow> nat \<Rightarrow> u32 \<Rightarrow> bool" where
  "hdr_at ss ps n0 J off n ck \<longleftrightarrow> off + ss \<le> length J \<and> take 8 (drop off J) = aJournalMagic \<and>
     u32_at J (off + 8) = of_nat n \<and> u32_at J (off + 12) = ck \<and> u32_at J (off + 16) = of_nat n0 \<and>
     u32_at J (off + 20) = of_nat ss \<and> u32_at J (off + 24) = of_nat ps"

definition hdr_stop :: "nat \<Rightarrow> u8 list \<Rightarrow> nat \<Rightarrow> bool" where
  "hdr_stop ss J off \<longleftrightarrow> length J < off + ss \<or> take 8 (drop off J) \<noteq> aJournalMagic"

type_synonym segment = "u32 \<times> (nat \<times> u8 list) list"

fun chain :: "nat \<Rightarrow> nat \<Rightarrow> nat \<Rightarrow> u8 list \<Rightarrow> nat \<Rightarrow> segment list \<Rightarrow> nat \<Rightarrow> bool" where
  "chain ss ps n0 J off [] e \<longleftrightarrow> off = e"
| "chain ss ps n0 J off ((ck, recs) # segs) e \<longleftrightarrow> hdr_at ss ps n0 J off (length recs) ck \<and> recs_at ps J (off + ss) ck recs \<and>
     chain ss ps n0 J (roundup ss (off + ss + length recs * (ps + 8))) segs e"

definition seg_pages :: "segment list \<Rightarrow> nat set" where
  "seg_pages segs = (\<Union>(ck, recs)\<in>set segs. fst ` set recs)"

text \<open>The records hold originals of pages that exist, and the counts fit their fields.\<close>

definition good_recs :: "nat \<Rightarrow> nat \<Rightarrow> u8 list \<Rightarrow> (nat \<times> u8 list) list \<Rightarrow> bool" where
  "good_recs ps n0 D0 recs \<longleftrightarrow> length recs < 2 ^ 32 - 1 \<and>
     (\<forall>(pg, data)\<in>set recs. 1 \<le> pg \<and> pg \<le> n0 \<and> pg \<noteq> PENDING_BYTE div ps + 1 \<and> data = page ps D0 pg)"

text \<open>Sizes of pages and sectors that the format allows, and an original database of whole pages.\<close>

definition geometry :: "nat \<Rightarrow> nat \<Rightarrow> nat \<Rightarrow> u8 list \<Rightarrow> bool" where
  "geometry ss ps n0 D0 \<longleftrightarrow> 512 \<le> ps \<and> ps \<le> SQLITE_MAX_PAGE_SIZE \<and> 32 \<le> ss \<and> ss \<le> MAX_SECTOR_SIZE \<and>
     is_pow2 (of_nat ps) \<and> is_pow2 (of_nat ss) \<and> length D0 = n0 * ps \<and> n0 < 2 ^ 32"

text \<open>
  A database file and a journal from which the original database can be recovered: every page that may differ from
  its original is in a record that playback reaches. With no valid header the database is the original.
\<close>

definition recoverable :: "nat \<Rightarrow> nat \<Rightarrow> u8 list \<Rightarrow> u8 list \<Rightarrow> u8 list \<Rightarrow> bool" where
  "recoverable ss ps D0 db J \<longleftrightarrow> (let n0 = length D0 div ps in
     \<exists>segs e. chain ss ps n0 J 0 segs e \<and> hdr_stop ss J e \<and> (\<forall>(ck, recs)\<in>set segs. good_recs ps n0 D0 recs) \<and>
       dbok ps n0 D0 (seg_pages segs) db \<and> (segs = [] \<longrightarrow> db = D0))"

section \<open>Playing back records\<close>

lemma unat_pgno: "n < 2 ^ 32 \<Longrightarrow> unat (of_nat n :: u32) = n"
  by (simp add: unat_of_nat)

text \<open>What playing back leaves alone: everything but the database file, the offset, the cache and a few counters.\<close>

definition core :: "pager \<Rightarrow> pager" where
  "core p = p\<lparr>dbf := [], io_tick := 0, journalOff := 0, pPCache := [], nReserve := 0, dbFileVers := [], dbFileSize := 0,
     cksumInit := 0, dbSize := 0, changeCountDone := False\<rparr>"

lemma core_simps [simp]:
  "core (p\<lparr>dbf := x1\<rparr>) = core p" "core (p\<lparr>io_tick := x2\<rparr>) = core p" "core (p\<lparr>journalOff := x3\<rparr>) = core p"
  "core (p\<lparr>pPCache := x4\<rparr>) = core p" "core (p\<lparr>nReserve := x5\<rparr>) = core p" "core (p\<lparr>dbFileVers := x6\<rparr>) = core p"
  "core (p\<lparr>dbFileSize := x7\<rparr>) = core p" "core (p\<lparr>cksumInit := x8\<rparr>) = core p" "core (p\<lparr>dbSize := x9\<rparr>) = core p"
  "core (p\<lparr>changeCountDone := x10\<rparr>) = core p"
  by (simp_all add: core_def)

lemma core_cache [simp]: "core (pcache_put k h p) = core p" "core (pager_reset p) = core p"
  by (simp_all add: pcache_put_def pager_reset_def sqlite3PcacheTruncate_def Let_def)

lemma coreD:
  assumes "core q = core p"
  shows "jrnl q = jrnl p" "jfile q = jfile p" "io_fail q = io_fail p" "fails q = fails p" "journalHdr q = journalHdr p"
    "pageSize q = pageSize p" "sectorSize q = sectorSize p" "eState q = eState p" "noSync q = noSync p" "eLock q = eLock p"
    "journalMode q = journalMode p" "jfd_open q = jfd_open p" "mxPathname q = mxPathname p"
    "journalSizeLimit q = journalSizeLimit p" "errCode q = errCode p" "os_sector_size q = os_sector_size p"
    "powersafe_overwrite q = powersafe_overwrite p" "pcache_nRef q = pcache_nRef p" "dbOrigSize q = dbOrigSize p"
    "undeletable q = undeletable p"
proof -
  have e: "f (core q) = f (core p)" for f :: "pager \<Rightarrow> 'b" using assms by simp
  show "jrnl q = jrnl p" using e [of jrnl] by (simp add: core_def)
  then show "jfile q = jfile p" by (simp add: jfile_def)
  show "io_fail q = io_fail p" using e [of io_fail] by (simp add: core_def)
  then show "fails q = fails p" by (simp add: fails_def)
  show "journalHdr q = journalHdr p" using e [of journalHdr] by (simp add: core_def)
  show "pageSize q = pageSize p" using e [of pageSize] by (simp add: core_def)
  show "sectorSize q = sectorSize p" using e [of sectorSize] by (simp add: core_def)
  show "eState q = eState p" using e [of eState] by (simp add: core_def)
  show "noSync q = noSync p" using e [of noSync] by (simp add: core_def)
  show "eLock q = eLock p" using e [of eLock] by (simp add: core_def)
  show "journalMode q = journalMode p" using e [of journalMode] by (simp add: core_def)
  show "jfd_open q = jfd_open p" using e [of jfd_open] by (simp add: core_def)
  show "mxPathname q = mxPathname p" using e [of mxPathname] by (simp add: core_def)
  show "journalSizeLimit q = journalSizeLimit p" using e [of journalSizeLimit] by (simp add: core_def)
  show "errCode q = errCode p" using e [of errCode] by (simp add: core_def)
  show "os_sector_size q = os_sector_size p" using e [of os_sector_size] by (simp add: core_def)
  show "powersafe_overwrite q = powersafe_overwrite p" using e [of powersafe_overwrite] by (simp add: core_def)
  show "pcache_nRef q = pcache_nRef p" using e [of pcache_nRef] by (simp add: core_def)
  show "dbOrigSize q = dbOrigSize p" using e [of dbOrigSize] by (simp add: core_def)
  show "undeletable q = undeletable p" using e [of undeletable] by (simp add: core_def)
qed

text \<open>The database file may be written: the state allows it and the record lies in the synced part of the journal.\<close>

definition db_open :: "pager \<Rightarrow> bool" where
  "db_open p \<longleftrightarrow> eState p \<ge> PAGER_WRITER_DBMOD \<or> eState p = PAGER_OPEN"

definition restored :: "nat \<Rightarrow> u8 list \<Rightarrow> nat set \<Rightarrow> pager \<Rightarrow> nat set \<Rightarrow> rc \<Rightarrow> pager \<Rightarrow> bool" where
  "restored ps D0 R p S rc q \<longleftrightarrow> (let n0 = length D0 div ps in core q = core p \<and> length (dbf q) = n0 * ps \<and>
     dbok ps n0 D0 R (dbf q) \<and> (rc = SQLITE_OK \<longrightarrow> dbok ps n0 D0 S (dbf q)) \<and>
     (rc \<noteq> SQLITE_OK \<longrightarrow> fails p \<and> rc \<noteq> SQLITE_DONE \<and> rc \<noteq> SQLITE_IOERR_SHORT_READ))"

lemma playback_page_wp:
  assumes "geometry ss ps n0 D0" and "pageSize p = ps" and "1 \<le> pg" "pg \<le> n0" and "data = page ps D0 pg" and "pg \<in> R" and "S \<subseteq> R"
    and "dbok ps n0 D0 S (dbf p)" and "length (dbf p) = n0 * ps" and "db_open p" and "journalOff p \<le> journalHdr p"
  shows "wp (playback_page pg data) (\<lambda>rc q. restored ps D0 R p (S - {pg}) rc q \<and> journalOff q = journalOff p \<and>
    cksumInit q = cksumInit p \<and> dbSize q = dbSize p) p"
proof -
  have ps: "0 < ps" and n0: "length D0 div ps = n0" "length D0 = n0 * ps" using assms(1) by (auto simp: geometry_def)
  have len: "length data \<le> ps" by (simp add: assms(5) page_def)
  have R: "dbok ps n0 D0 R (dbf p)" using dbok_mono [OF assms(8,7)] .
  note w = dbok_write [OF assms(8,3,4,5) n0(2)] dbok_torn [OF R assms(3) len] db_write_length [OF assms(3,4,9) len]
  have w2: "dbok ps n0 D0 R (file_write (dbf p) ((pg - 1) * ps) data)" using dbok_mono [OF w(1)] assms(7) by blast
  have t: "length (file_torn (dbf p) ((pg - 1) * ps) data k) = n0 * ps" for k
    unfolding file_torn_def by (rule db_write_length [OF assms(3,4,9)]) (use len in simp)
  define p1 where "p1 = (if pg = 1 then p\<lparr>nReserve := unat (data ! 20)\<rparr> else p)"
  have p1: "core p1 = core p" "dbf p1 = dbf p" "journalOff p1 = journalOff p" "cksumInit p1 = cksumInit p" "dbSize p1 = dbSize p"
    by (simp_all add: p1_def)
  have cond: "(eState p1 \<ge> PAGER_WRITER_DBMOD \<or> eState p1 = PAGER_OPEN) \<and> (noSync p1 \<or> journalOff p1 \<le> journalHdr p1)"
    using assms(10,11) by (simp add: p1_def db_open_def)
  have ps1: "pageSize p1 = ps" and f1: "fails p1 = fails p" using assms(2) coreD [OF p1(1)] by simp_all
  define F where "F = file_write (dbf p1) ((pg - 1) * ps) data"
  define G where "G k = file_torn (dbf p1) ((pg - 1) * ps) data k" for k
  have F: "length F = n0 * ps" "dbok ps n0 D0 R F" "dbok ps n0 D0 (S - {pg}) F" using w w2 unfolding F_def p1(2) by simp_all
  have G: "length (G k) = n0 * ps" "dbok ps n0 D0 R (G k)" for k
    using t w(2) assms(6) unfolding G_def p1(2) by simp_all
  have rest: "restored ps D0 R p S' rc q \<longleftrightarrow> core q = core p \<and> length (dbf q) = n0 * ps \<and>
     dbok ps n0 D0 R (dbf q) \<and> (rc = SQLITE_OK \<longrightarrow> dbok ps n0 D0 S' (dbf q)) \<and>
     (rc \<noteq> SQLITE_OK \<longrightarrow> fails p \<and> rc \<noteq> SQLITE_DONE \<and> rc \<noteq> SQLITE_IOERR_SHORT_READ)" for S' rc q
    by (simp only: restored_def Let_def n0(1))
  show ?thesis
    unfolding playback_page_def wp_bind wp_upd wp_get Let_def p1_def [symmetric] if_P [OF cond] ps1
  proof (rule wp_db_write, goal_cases)
    case 1
    show ?case unfolding F_def [symmetric]
      using F(3) by (cases "pager_lookup p1 pg") (auto simp: rest F(1,2) p1 pcache_put_def)
  next
    case (2 k)
    then show ?case unfolding G_def [symmetric]
      by (cases "pager_lookup p1 pg") (simp_all add: rest G p1 f1 pcache_put_def)
  qed
qed

lemma restoredD:
  assumes "restored ps D0 R p S rc q"
  shows "core q = core p" "length (dbf q) = length D0 div ps * ps" "dbok ps (length D0 div ps) D0 R (dbf q)"
    "rc = SQLITE_OK \<Longrightarrow> dbok ps (length D0 div ps) D0 S (dbf q)" "rc \<noteq> SQLITE_OK \<Longrightarrow> fails p"
  using assms by (auto simp: restored_def Let_def)

text \<open>A record whose checksum is right is played back.\<close>

lemma playback_one_page_wp:
  assumes "geometry ss ps n0 D0" and "pageSize p = ps" and "recs_at ps (jfile p) (journalOff p) (cksumInit p) [(pg, data)]"
    and "good_recs ps n0 D0 [(pg, data)]" and "pg \<in> R" and "S \<subseteq> R" and "dbSize p = n0"
    and "dbok ps n0 D0 S (dbf p)" and "length (dbf p) = n0 * ps" and "db_open p" and "journalOff p + ps + 8 \<le> journalHdr p"
  shows "wp pager_playback_one_page (\<lambda>rc q. restored ps D0 R p (S - {pg}) rc q \<and>
    (rc = SQLITE_OK \<longrightarrow> journalOff q = journalOff p + ps + 8) \<and> cksumInit q = cksumInit p \<and> dbSize q = dbSize p) p"
proof -
  have geo: "512 \<le> ps" "length D0 div ps = n0" "length D0 = n0 * ps" "n0 < 2 ^ 32" using assms(1) by (auto simp: geometry_def)
  have g: "1 \<le> pg" "pg \<le> n0" "pg \<noteq> PENDING_BYTE div ps + 1" "data = page ps D0 pg" using assms(4) by (auto simp: good_recs_def)
  have r: "journalOff p + ps + 8 \<le> length (jfile p)" "u32_at (jfile p) (journalOff p) = of_nat pg"
    "take ps (drop (journalOff p + 4) (jfile p)) = data" "u32_at (jfile p) (journalOff p + ps + 4) = cksum_loop data (ps - 200) (cksumInit p)"
    using assms(3) by auto
  have pg: "unat (of_nat pg :: u32) = pg" by (rule unat_pgno) (use g(2) geo(4) in simp)
  have R: "dbok ps n0 D0 R (dbf p)" using dbok_mono [OF assms(8,6)] .
  have bad: "restored ps D0 R p (S - {pg}) SQLITE_IOERR_READ q" if "core q = core p" "dbf q = dbf p" "fails p" for q
    using that R assms(9) by (simp add: restored_def Let_def geo(2))
  have read: "file_read (jfile p) ps (journalOff p + 4) = (SQLITE_OK, data)"
    using r(1,3) by (auto simp: file_read_def Let_def)
  define q where "q = p\<lparr>journalOff := journalOff p + ps + 8, io_tick := Suc (Suc (Suc (io_tick p)))\<rparr>"
  have q: "core q = core p" "dbf q = dbf p" "cksumInit q = cksumInit p" "dbSize q = dbSize p" "journalOff q = journalOff p + ps + 8"
    by (simp_all add: q_def)
  have page: "wp (playback_page pg data) (\<lambda>rc q. restored ps D0 R p (S - {pg}) rc q \<and>
    (rc = SQLITE_OK \<longrightarrow> journalOff q = journalOff p + ps + 8) \<and> cksumInit q = cksumInit p \<and> dbSize q = dbSize p) q"
  proof (rule wp_cons [OF playback_page_wp [OF assms(1) _ g(1,2,4) assms(5,6), of q]])
    show "pageSize q = ps" "db_open q" "journalOff q \<le> journalHdr q" "dbok ps n0 D0 S (dbf q)" "length (dbf q) = n0 * ps"
      using assms(2,8-11) coreD [OF q(1)] q by (simp_all add: db_open_def)
  qed (use q coreD [OF q(1)] in \<open>auto simp: restored_def Let_def\<close>)
  have ck: "pager_cksum p' data = cksum_loop data (ps - 200) (cksumInit p)" if "pageSize p' = ps" "cksumInit p' = cksumInit p" for p'
    using that by (simp add: pager_cksum_def)
  show ?thesis
    unfolding pager_playback_one_page_def wp_bind wp_get Let_def
  proof (rule wp_read32bits, goal_cases)
    case 1
    have g': "\<not> n0 < pg" "0 < pg" "pg \<noteq> Suc (PENDING_BYTE div ps)" using g by simp_all
    show ?case
      apply (simp add: r pg assms(2))
      apply (rule wp_os_read)
       apply (simp add: read pg PAGER_MJ_PGNO_def assms(2,7) g', intro conjI)
      subgoal using g'(2) by simp
      subgoal
        apply (rule wp_read32bits)
        using r(1) page by (simp_all add: r(4) ck pg assms(2,7) q_def [symmetric] bad q(1-4) coreD(2) [OF q(1)])
      subgoal by (simp add: bad)
      done
  qed (use r(1) in \<open>simp_all add: bad\<close>)
qed

text \<open>A run of records is played back; the result is \<open>None\<close>, or the code of a call that failed.\<close>

lemma core_trans: "restored ps D0 R q S rc q' \<Longrightarrow> core q = core p \<Longrightarrow> restored ps D0 R p S rc q'"
  using coreD(4) [of q p] by (auto simp: restored_def Let_def)

lemma playback_records_wp:
  assumes "geometry ss ps n0 D0" and "recs_at ps (jfile p) (journalOff p) (cksumInit p) recs"
    and "good_recs ps n0 D0 recs" and "fst ` set recs \<subseteq> R" and "S \<subseteq> R" and "dbSize p = n0" and "pageSize p = ps"
    and "dbok ps n0 D0 S (dbf p)" and "length (dbf p) = n0 * ps" and "db_open p" and "journalOff p + length recs * (ps + 8) \<le> journalHdr p"
  shows "wp (playback_records (length recs) szJ b) (\<lambda>(r, b) q.
    restored ps D0 R p (S - fst ` set recs) (case r of None \<Rightarrow> SQLITE_OK | Some rc \<Rightarrow> rc) q \<and> r \<noteq> Some SQLITE_OK \<and>
    (r = None \<longrightarrow> journalOff q = journalOff p + length recs * (ps + 8)) \<and> cksumInit q = cksumInit p \<and> dbSize q = dbSize p) p"
  using assms(2-)
proof (induction recs arbitrary: p S b)
  case Nil
  have "length D0 div ps = n0" using assms(1) by (auto simp: geometry_def)
  then show ?case using Nil dbok_mono [of ps n0 D0 S "dbf p" R] by (simp add: restored_def Let_def)
next
  case (Cons rd recs)
  obtain pg data where rd: "rd = (pg, data)" by (cases rd)
  define p1 where "p1 = (if b then pager_reset p else p)"
  have p1: "core p1 = core p" "dbf p1 = dbf p" "journalOff p1 = journalOff p" "cksumInit p1 = cksumInit p" "dbSize p1 = dbSize p"
    by (simp_all add: p1_def pager_reset_def sqlite3PcacheTruncate_def Let_def)
  note c1 = coreD [OF p1(1)]
  have one: "recs_at ps (jfile p1) (journalOff p1) (cksumInit p1) [(pg, data)]" "good_recs ps n0 D0 [(pg, data)]" "pg \<in> R"
    "pageSize p1 = ps" "dbSize p1 = n0" "dbok ps n0 D0 S (dbf p1)" "length (dbf p1) = n0 * ps" "db_open p1"
    "journalOff p1 + ps + 8 \<le> journalHdr p1"
    using Cons.prems p1 c1 by (auto simp: rd good_recs_def db_open_def)
  have step: "wp (playback_records (length recs) szJ False) (\<lambda>(r, b) q.
      restored ps D0 R p (S - fst ` set (rd # recs)) (case r of None \<Rightarrow> SQLITE_OK | Some rc \<Rightarrow> rc) q \<and> r \<noteq> Some SQLITE_OK \<and>
      (r = None \<longrightarrow> journalOff q = journalOff p + length (rd # recs) * (ps + 8)) \<and> cksumInit q = cksumInit p \<and> dbSize q = dbSize p) q1"
    if q1: "restored ps D0 R p1 (S - {pg}) SQLITE_OK q1" "journalOff q1 = journalOff p1 + ps + 8" "cksumInit q1 = cksumInit p1" "dbSize q1 = dbSize p1" for q1
  proof -
    have n: "length D0 div ps = n0" using assms(1) by (auto simp: geometry_def)
    have c: "core q1 = core p" using restoredD(1) [OF q1(1)] p1(1) by simp
    note c' = coreD [OF c]
    have pre: "recs_at ps (jfile q1) (journalOff q1) (cksumInit q1) recs" "good_recs ps n0 D0 recs" "fst ` set recs \<subseteq> R" "S - {pg} \<subseteq> R"
      "dbSize q1 = n0" "pageSize q1 = ps" "dbok ps n0 D0 (S - {pg}) (dbf q1)" "length (dbf q1) = n0 * ps" "db_open q1"
      "journalOff q1 + length recs * (ps + 8) \<le> journalHdr q1"
      using Cons.prems q1(2-4) p1 c' restoredD(2,4) [OF q1(1)] n by (auto simp: rd good_recs_def db_open_def)
    have off: "journalOff q1 + length recs * (ps + 8) = journalOff p + length (rd # recs) * (ps + 8)" using q1(2) p1(3) by simp
    have set: "S - {pg} - fst ` set recs = S - fst ` set (rd # recs)" by (auto simp: rd)
    show ?thesis
      by (rule wp_cons [OF Cons.IH [OF pre, unfolded off set]]) (use q1(3,4) p1 core_trans [OF _ c] in auto)
  qed
  show ?case
    unfolding length_Cons playback_records.simps wp_bind wp_upd p1_def [symmetric]
  proof (rule wp_cons [OF playback_one_page_wp [OF assms(1) one(4,1,2,3) Cons.prems(4) one(5-9)]], goal_cases)
    case (1 rc q)
    have bad: "restored ps D0 R p (S - fst ` set (rd # recs)) rc q" "rc \<noteq> SQLITE_DONE" "rc \<noteq> SQLITE_IOERR_SHORT_READ" if "rc \<noteq> SQLITE_OK"
      using 1 that p1(1) c1 by (auto simp: restored_def Let_def)
    show ?case
    proof (cases "rc = SQLITE_OK")
      case True
      then show ?thesis using 1 step [of q] by simp
    next
      case False
      then show ?thesis using 1 bad p1 by simp
    qed
  qed
qed

section \<open>Reading headers\<close>

lemma core_sector: "sectorSize p = ss \<Longrightarrow> core (p\<lparr>sectorSize := ss\<rparr>) = core p"
  by (cases p) (simp add: core_def)

lemma wp_setPagesize: "pageSize p = sz \<Longrightarrow> Q SQLITE_OK p \<Longrightarrow> wp (sqlite3PagerSetPagesize sz) Q p"
  by (simp add: sqlite3PagerSetPagesize_def)

text \<open>\<open>q\<close> is \<open>p\<close> after reading from the journal.\<close>

definition hdr_read :: "pager \<Rightarrow> pager \<Rightarrow> bool" where
  "hdr_read p q \<longleftrightarrow> core q = core p \<and> dbf q = dbf p \<and> pPCache q = pPCache p \<and> dbSize q = dbSize p"

lemma hdr_readD:
  assumes "hdr_read p q"
  shows "core q = core p" "dbf q = dbf p" "pPCache q = pPCache p" "dbSize q = dbSize p" "jfile q = jfile p" "fails q = fails p"
    "pageSize q = pageSize p" "sectorSize q = sectorSize p" "journalHdr q = journalHdr p" "mxPathname q = mxPathname p"
  using assms coreD [of q p] by (simp_all add: hdr_read_def)

lemma hdr_read_upd [simp]:
  "hdr_read p (q\<lparr>io_tick := t\<rparr>) = hdr_read p q" "hdr_read p (q\<lparr>cksumInit := c\<rparr>) = hdr_read p q" "hdr_read p (q\<lparr>journalOff := k\<rparr>) = hdr_read p q"
  "hdr_read p p"
  by (simp_all add: hdr_read_def)

lemma wp_read32_hdr:
  assumes "hdr_read p q" and "off + 4 \<le> length (jfile p)"
    and "\<And>q'. hdr_read p q' \<Longrightarrow> journalOff q' = journalOff q \<Longrightarrow> cksumInit q' = cksumInit q \<Longrightarrow> Q (SQLITE_OK, u32_at (jfile p) off) q'"
    and "\<And>q'. hdr_read p q' \<Longrightarrow> fails p \<Longrightarrow> Q (SQLITE_IOERR_READ, 0) q'"
  shows "wp (read32bits jfile off) Q q"
  by (rule wp_read32bits) (use assms hdr_readD [OF assms(1)] in auto)

lemma wp_read_hdr:
  assumes "hdr_read p q"
    and "\<And>q'. hdr_read p q' \<Longrightarrow> journalOff q' = journalOff q \<Longrightarrow> cksumInit q' = cksumInit q \<Longrightarrow> Q (file_read (jfile p) n off) q'"
    and "\<And>q'. hdr_read p q' \<Longrightarrow> fails p \<Longrightarrow> Q (SQLITE_IOERR_READ, []) q'"
  shows "wp (os_read jfile n off) Q q"
  by (rule wp_os_read) (use assms hdr_readD [OF assms(1)] in auto)

lemma file_read_ok: "off + n \<le> length f \<Longrightarrow> file_read f n off = (SQLITE_OK, take n (drop off f))"
  by (simp add: file_read_def Let_def)

lemma readJournalHdr_ok:
  assumes "geometry ss ps n0 D0" and "pageSize p = ps" and "sectorSize p = ss" and "hdr_at ss ps n0 (jfile p) h n ck"
    and "h = roundup ss (journalOff p)" and "szJ = length (jfile p)"
  shows "wp (readJournalHdr isHot szJ) (\<lambda>(rc, n', mx) q. hdr_read p q \<and>
    (rc = SQLITE_OK \<and> n' = of_nat n \<and> mx = n0 \<and> journalOff q = h + ss \<and> cksumInit q = ck \<or>
     rc \<noteq> SQLITE_OK \<and> rc \<noteq> SQLITE_DONE \<and> fails p)) p" (is "wp _ ?Q p")
proof -
  have geo: "512 \<le> ps" "ps \<le> SQLITE_MAX_PAGE_SIZE" "32 \<le> ss" "ss \<le> MAX_SECTOR_SIZE" "is_pow2 (of_nat ps)" "is_pow2 (of_nat ss)" "n0 < 2 ^ 32"
    using assms(1) by (auto simp: geometry_def)
  have hd: "h + ss \<le> length (jfile p)" "take 8 (drop h (jfile p)) = aJournalMagic" "u32_at (jfile p) (h + 8) = of_nat n" "u32_at (jfile p) (h + 12) = ck"
    "u32_at (jfile p) (h + 16) = of_nat n0" "u32_at (jfile p) (h + 20) = of_nat ss" "u32_at (jfile p) (h + 24) = of_nat ps"
    using assms(4) by (auto simp: hdr_at_def)
  have u: "unat (of_nat ps :: u32) = ps" "unat (of_nat ss :: u32) = ss" "unat (of_nat n0 :: u32) = n0"
    using geo by (auto intro!: unat_pgno simp: SQLITE_MAX_PAGE_SIZE_def MAX_SECTOR_SIZE_def)
  have sz: "of_nat ps \<noteq> (0 :: u32)" "\<not> of_nat ps < (512 :: u32)" "\<not> of_nat ss < (32 :: u32)"
    using u geo(1,3) by (auto simp: word_less_nat_alt unat_eq_0 [symmetric])
  have magic: "file_read (jfile p) 8 h = (SQLITE_OK, aJournalMagic)"
    using hd(1,2) geo(3) by (subst file_read_ok) simp_all
  have le: "h + 8 + 4 \<le> length (jfile p)" "h + 12 + 4 \<le> length (jfile p)" "h + 16 + 4 \<le> length (jfile p)"
    "h + 20 + 4 \<le> length (jfile p)" "h + 24 + 4 \<le> length (jfile p)" using hd(1) geo(3) by auto
  have off: "journalHdrOffset p = h" by (simp add: journalHdrOffset_roundup assms(3,5))
  have bad: "?Q (SQLITE_IOERR_READ, 0, 0) q" if "hdr_read p q" "fails p" for q using that by simp
  have lim: "\<not> SQLITE_MAX_PAGE_SIZE < ps" "\<not> MAX_SECTOR_SIZE < ss" using geo(2,4) by simp_all
  have sizes: "wp (read_hdr_sizes h (of_nat n) n0) ?Q q" if q: "hdr_read p q" "journalOff q = h" "cksumInit q = ck" for q
    unfolding read_hdr_sizes_def wp_bind
  proof (rule wp_read32_hdr [OF q(1) le(4)], goal_cases)
    case (1 q1)
    show ?case unfolding prod.case hd(6) simp_thms if_False wp_bind
    proof (rule wp_read32_hdr [OF 1(1) le(5)], goal_cases)
      case (1 q2)
      have "hdr_read p (q2\<lparr>sectorSize := ss\<rparr>)"
        using 1(1) core_sector [of q2 ss] hdr_readD(8) [OF 1(1)] assms(3) by (simp add: hdr_read_def)
      moreover have "(q2\<lparr>sectorSize := ss, journalOff := x\<rparr>) = (q2\<lparr>sectorSize := ss\<rparr>)\<lparr>journalOff := x\<rparr>" for x by simp
      ultimately have "hdr_read p (q2\<lparr>sectorSize := ss, journalOff := x\<rparr>)" for x by (simp only: hdr_read_upd)
      then show ?case
        using 1 \<open>journalOff q1 = journalOff q\<close> \<open>cksumInit q1 = cksumInit q\<close> q hdr_readD(7) [OF 1(1)]
        by (auto simp: hd(7) u sz geo lim assms(2) Let_def JOURNAL_HDR_SZ_def intro!: wp_setPagesize)
    qed (simp add: bad)
  qed (simp add: bad)
  have fields: "wp (read_hdr_fields h) ?Q q" if q: "hdr_read p q" "journalOff q = h" for q
    unfolding read_hdr_fields_def wp_bind
  proof (rule wp_read32_hdr [OF q(1) le(1)], goal_cases)
    case (1 q1)
    show ?case unfolding prod.case hd(3) simp_thms if_False wp_bind
    proof (rule wp_read32_hdr [OF 1(1) le(2)], goal_cases)
      case (1 q2)
      show ?case unfolding prod.case hd(4) simp_thms if_False wp_bind wp_upd
      proof (rule wp_read32_hdr [of p, OF _ le(3)], goal_cases)
        case (2 q3)
        then show ?case unfolding prod.case hd(5) u(3)
          using 1 \<open>journalOff q1 = journalOff q\<close> q sizes [of q3] hdr_readD(8) [OF 2(1)] assms(3)
          by (cases "h = 0") (simp_all add: hd(5) u(3) JOURNAL_HDR_SZ_def)
      qed (use 1 bad in simp_all)
    qed (simp add: bad)
  qed (simp add: bad)
  define p1 where "p1 = p\<lparr>journalOff := h\<rparr>"
  have p1: "hdr_read p p1" "journalOff p1 = h" "sectorSize p1 = ss" by (simp_all add: p1_def assms(3))
  have start: "wp (if isHot \<or> h \<noteq> journalHdr p1 then os_read jfile 8 h else ret (SQLITE_OK, aJournalMagic)) Q p1"
    if "\<And>q. hdr_read p q \<Longrightarrow> journalOff q = h \<Longrightarrow> Q (SQLITE_OK, aJournalMagic) q"
      "\<And>q. hdr_read p q \<Longrightarrow> fails p \<Longrightarrow> Q (SQLITE_IOERR_READ, []) q" for Q
    using that p1 by (simp add: wp_read_hdr [of p] magic)
  have room: "\<not> length (jfile p) < h + ss" using hd(1) by simp
  show ?thesis
    unfolding readJournalHdr_def wp_bind wp_upd wp_get off p1_def [symmetric] Let_def JOURNAL_HDR_SZ_def p1(2,3) assms(6) if_not_P [OF room]
    by (rule start) (use fields bad in simp_all)
qed

text \<open>Playback ends where there is no header; the last header of the own transaction is read without its magic number.\<close>

lemma readJournalHdr_stop:
  assumes "sectorSize p = ss" and "hdr_stop ss (jfile p) (roundup ss (journalOff p))" and "szJ = length (jfile p)" and "8 \<le> ss"
    and "isHot \<or> roundup ss (journalOff p) \<noteq> journalHdr p \<or> szJ < roundup ss (journalOff p) + ss"
  shows "wp (readJournalHdr isHot szJ) (\<lambda>(rc, n', mx) q. hdr_read p q \<and>
    (rc = SQLITE_DONE \<or> rc \<noteq> SQLITE_OK \<and> rc \<noteq> SQLITE_DONE \<and> fails p) \<and> (rc = SQLITE_DONE \<longrightarrow> journalOff q = roundup ss (journalOff p))) p"
proof -
  define h where "h = roundup ss (journalOff p)"
  define p1 where "p1 = p\<lparr>journalOff := h\<rparr>"
  have p1: "hdr_read p p1" "journalOff p1 = h" "sectorSize p1 = ss" "journalHdrOffset p = h" "journalHdr p1 = journalHdr p"
    by (simp_all add: p1_def assms(1) journalHdrOffset_roundup h_def)
  show ?thesis
  proof (cases "szJ < h + ss")
    case True
    then show ?thesis
      unfolding readJournalHdr_def wp_bind wp_upd wp_get p1(4) p1_def [symmetric] Let_def
      using p1 by (simp add: JOURNAL_HDR_SZ_def h_def)
  next
    case False
    then have "file_read (jfile p) 8 h = (SQLITE_OK, take 8 (drop h (jfile p)))" "take 8 (drop h (jfile p)) \<noteq> aJournalMagic" "isHot \<or> h \<noteq> journalHdr p"
      using assms(2-5) by (auto simp: hdr_stop_def file_read_ok h_def [symmetric])
    then show ?thesis
      unfolding readJournalHdr_def wp_bind wp_upd wp_get p1(4) p1_def [symmetric] Let_def
      using p1 False by (auto simp: JOURNAL_HDR_SZ_def h_def [symmetric] intro!: wp_read_hdr [of p])
  qed
qed

section \<open>Playing back a chain of segments\<close>

lemma pager_truncate_wp:
  assumes "db_open p" and "pageSize p = ps" and "dbok ps n0 D0 S (dbf p)"
  shows "wp (pager_truncate n0) (\<lambda>rc q. core q = core p \<and> journalOff q = journalOff p \<and> cksumInit q = cksumInit p \<and> dbSize q = dbSize p \<and>
    dbok ps n0 D0 S (dbf q) \<and> (rc = SQLITE_OK \<and> length (dbf q) = n0 * ps \<or> rc \<noteq> SQLITE_OK \<and> fails p)) p"
proof -
  have len: "n0 * ps \<le> length (dbf p)" using assms(3) by (simp add: dbok_def)
  have o: "eState p \<ge> PAGER_WRITER_DBMOD \<or> eState p = PAGER_OPEN" using assms(1) by (simp add: db_open_def)
  note t = dbok_take [OF assms(3)]
  show ?thesis
    unfolding pager_truncate_def wp_bind wp_get Let_def if_P [OF o] wp_if assms(2)
  proof (rule wp_os_size, goal_cases)
    case 1
    show ?case
    proof (cases "length (dbf p) = n0 * ps")
      case True
      then show ?thesis using assms(3) by (simp add: mult.commute [of ps])
    next
      case False
      then have "ps * n0 < length (dbf p)" using len by (simp add: mult.commute [of ps])
      then show ?thesis
        using t assms(3) by (auto simp: db_truncate_def mult.commute [of n0 ps] intro!: wp_os_effect)
    qed
  next
    case 2
    then show ?case using assms(3) by simp
  qed
qed

lemma roundup_ge: "0 < ss \<Longrightarrow> c \<le> roundup ss c"
proof (cases c)
  case (Suc d)
  assume "0 < ss"
  then have "d < (d div ss + 1) * ss" using dividend_less_div_times [of ss d] by (simp add: algebra_simps)
  then show ?thesis by (simp add: roundup_def Suc)
qed simp

lemma roundup_mult: "0 < ss \<Longrightarrow> ss dvd roundup ss c"
  by (simp add: roundup_def)

lemma roundup_id: "0 < ss \<Longrightarrow> ss dvd c \<Longrightarrow> roundup ss c = c"
proof -
  assume ss: "0 < ss" and "ss dvd c"
  then obtain k where c: "c = ss * k" by blast
  show ?thesis
  proof (cases k)
    case (Suc m)
    have "(ss * k - 1) div ss = m" using ss by (intro div_nat_eqI) (simp_all add: Suc)
    then show ?thesis using ss by (simp add: roundup_def c Suc)
  qed (simp add: roundup_def c)
qed

lemma chain_ge: "0 < ss \<Longrightarrow> chain ss ps n0 J h segs e \<Longrightarrow> h \<le> e"
proof (induction segs arbitrary: h)
  case (Cons s segs)
  obtain ck recs where s: "s = (ck, recs)" by (cases s)
  show ?case
    using Cons.IH [of "roundup ss (h + ss + length recs * (ps + 8))"] Cons.prems roundup_ge [of ss "h + ss + length recs * (ps + 8)"]
    by (auto simp: s)
qed simp

lemma recs_at_end: "recs_at ps J off ck recs \<Longrightarrow> off \<le> length J \<Longrightarrow> off + length recs * (ps + 8) \<le> length J"
  by (induction recs arbitrary: off) (auto simp: algebra_simps, fastforce)

lemma playback_chain_wp:
  assumes geo: "geometry ss ps n0 D0" and "pageSize p = ps" "sectorSize p = ss" and "chain ss ps n0 (jfile p) h segs e"
    and "h = roundup ss (journalOff p)" and "szJ = length (jfile p)" and "min e szJ \<le> journalHdr p"
    and "\<forall>(ck, recs)\<in>set segs. good_recs ps n0 D0 recs" and "seg_pages segs \<subseteq> R" and "S \<subseteq> R"
    and "dbok ps n0 D0 S (dbf p)" and "db_open p" and "h \<noteq> 0 \<longrightarrow> length (dbf p) = n0 * ps \<and> dbSize p = n0"
    and ok: "\<And>q b. core q = core p \<Longrightarrow> roundup ss (journalOff q) = e \<Longrightarrow> dbok ps n0 D0 (S - seg_pages segs) (dbf q) \<Longrightarrow>
      (e \<noteq> 0 \<longrightarrow> length (dbf q) = n0 * ps \<and> dbSize q = n0) \<Longrightarrow> (segs = [] \<longrightarrow> dbf q = dbf p \<and> journalOff q = journalOff p) \<Longrightarrow>
      wp (playback_loop fuel isHot szJ b) Q q"
    and bad: "\<And>rc q. rc \<noteq> SQLITE_OK \<Longrightarrow> fails p \<Longrightarrow> core q = core p \<Longrightarrow> dbok ps n0 D0 R (dbf q) \<Longrightarrow> Q rc q"
  shows "wp (playback_loop (length segs + fuel) isHot szJ b) Q p"
  using assms(2-)
proof (induction segs arbitrary: p h S b)
  case Nil
  show ?case using Nil.prems(3-12) Nil.prems(13) [of p b] by (auto simp: seg_pages_def)
next
  case (Cons s segs)
  obtain ck recs where s: "s = (ck, recs)" by (cases s)
  have ss: "32 \<le> ss" "0 < ss" and n: "length D0 div ps = n0" using geo by (auto simp: geometry_def)
  define h' where "h' = roundup ss (h + ss + length recs * (ps + 8))"
  have hdr: "hdr_at ss ps n0 (jfile p) h (length recs) ck" and recs: "recs_at ps (jfile p) (h + ss) ck recs"
    and ch: "chain ss ps n0 (jfile p) h' segs e" using Cons.prems(3) by (simp_all add: s h'_def)
  have good: "good_recs ps n0 D0 recs" "fst ` set recs \<subseteq> R" "seg_pages segs \<subseteq> R" using Cons.prems(7,8) by (auto simp: s seg_pages_def)
  have len: "h + ss \<le> szJ" "h + ss + length recs * (ps + 8) \<le> szJ"
    using hdr recs_at_end [OF recs] Cons.prems(5) by (auto simp: hdr_at_def)
  have end_le: "h + ss + length recs * (ps + 8) \<le> e"
    using chain_ge [OF ss(2) ch] roundup_ge [OF ss(2), of "h + ss + length recs * (ps + 8)"] by (simp add: h'_def)
  then have synced: "h + ss + length recs * (ps + 8) \<le> journalHdr p" using len(2) Cons.prems(6) by simp
  have cnt: "of_nat (length recs) \<noteq> (0xffffffff :: u32)" "unat (of_nat (length recs) :: u32) = length recs"
  proof -
    show u: "unat (of_nat (length recs) :: u32) = length recs" using good(1) by (intro unat_pgno) (simp add: good_recs_def)
    have "unat (of_nat (length recs) :: u32) \<noteq> unat (0xffffffff :: u32)" unfolding u using good(1) by (simp add: good_recs_def)
    then show "of_nat (length recs) \<noteq> (0xffffffff :: u32)" by metis
  qed
  have R: "dbok ps n0 D0 R (dbf p)" using dbok_mono Cons.prems(9,10) by blast
  have records: "wp (playback_records (length recs) szJ b') (\<lambda>x. wp (case x of
      (None, b) \<Rightarrow> playback_loop (length segs + fuel) isHot szJ b | (Some rc, b) \<Rightarrow> ret rc) Q) q"
    if q: "core q = core p" "journalOff q = h + ss" "cksumInit q = ck" "dbSize q = n0" "dbok ps n0 D0 S (dbf q)" "length (dbf q) = n0 * ps" for q b'
  proof -
    note c = coreD [OF q(1)]
    have pre: "recs_at ps (jfile q) (journalOff q) (cksumInit q) recs" "pageSize q = ps" "db_open q" "journalOff q + length recs * (ps + 8) \<le> journalHdr q"
      using recs q c Cons.prems(1,11) synced by (simp_all add: db_open_def)
    show ?thesis
    proof (rule wp_cons [OF playback_records_wp [OF geo pre(1) good(1,2) Cons.prems(9) q(4) pre(2) q(5,6) pre(3,4)]], goal_cases)
      case (1 x q')
      obtain r b'' where x: "x = (r, b'')" by (cases x)
      have r: "restored ps D0 R q (S - fst ` set recs) (case r of None \<Rightarrow> SQLITE_OK | Some rc \<Rightarrow> rc) q'" "r \<noteq> Some SQLITE_OK"
        "r = None \<longrightarrow> journalOff q' = journalOff q + length recs * (ps + 8)" "dbSize q' = dbSize q"
        using 1 by (simp_all add: x)
      note d = restoredD [OF r(1), unfolded n]
      have c': "core q' = core p" using d(1) q(1) by simp
      show ?case
      proof (cases r)
        case (Some rc)
        then show ?thesis using r(2) d c Cons.prems(14) [of rc q'] c' by (simp add: x)
      next
        case None
        have off: "h' = roundup ss (journalOff q')" using r(3) None q(2) by (simp add: h'_def)
        have pages: "S - fst ` set recs - seg_pages segs = S - seg_pages (s # segs)" by (auto simp: s seg_pages_def)
        have "wp (playback_loop (length segs + fuel) isHot szJ b'') Q q'"
        proof (rule Cons.IH [of q' h' "S - fst ` set recs"])
          show "chain ss ps n0 (jfile q') h' segs e" using ch coreD(2) [OF c'] by simp
          show "szJ = length (jfile q')" "min e szJ \<le> journalHdr q'" "pageSize q' = ps" "sectorSize q' = ss" "db_open q'"
            using coreD [OF c'] Cons.prems(1,2,5,6,11) by (simp_all add: db_open_def)
          show "dbok ps n0 D0 (S - fst ` set recs) (dbf q')" using d(4) None by simp
          show "h' \<noteq> 0 \<longrightarrow> length (dbf q') = n0 * ps \<and> dbSize q' = n0" using d(2) r(4) q(4) by simp
          show "wp (playback_loop fuel isHot szJ b) Q q2" if "core q2 = core q'" "roundup ss (journalOff q2) = e"
            "dbok ps n0 D0 (S - fst ` set recs - seg_pages segs) (dbf q2)" "e \<noteq> 0 \<longrightarrow> length (dbf q2) = n0 * ps \<and> dbSize q2 = n0"
            "segs = [] \<longrightarrow> dbf q2 = dbf q' \<and> journalOff q2 = journalOff q'" for q2 b
            using Cons.prems(13) [of q2 b] that c' unfolding pages by simp
          show "Q rc q2" if "rc \<noteq> SQLITE_OK" "fails q'" "core q2 = core q'" "dbok ps n0 D0 R (dbf q2)" for rc q2
            using Cons.prems(14) [of rc q2] that c' coreD(4) [OF c'] by simp
        qed (use off good(3) Cons.prems(7,9) in auto)
        then show ?thesis using None by (simp add: x)
      qed
    qed
  qed
  show ?case
    unfolding length_Cons add_Suc playback_loop.simps wp_bind
  proof (rule wp_cons [OF readJournalHdr_ok [OF geo Cons.prems(1,2) hdr Cons.prems(4,5)]], goal_cases)
    case (1 x q)
    obtain rc n' mx where x: "x = (rc, n', mx)" by (cases x)
    have hr: "hdr_read p q" and or: "rc = SQLITE_OK \<and> n' = of_nat (length recs) \<and> mx = n0 \<and> journalOff q = h + ss \<and> cksumInit q = ck \<or>
      rc \<noteq> SQLITE_OK \<and> rc \<noteq> SQLITE_DONE \<and> fails p" using 1 by (simp_all add: x)
    note hq = hdr_readD [OF hr]
    show ?case
    proof (cases "rc = SQLITE_OK")
      case False
      then show ?thesis using or R hq Cons.prems(14) [of rc q] by (auto simp: x)
    next
      case True
      then have q: "n' = of_nat (length recs)" "mx = n0" "journalOff q = h + ss" "cksumInit q = ck" using or by auto
      have sz: "JOURNAL_HDR_SZ q = ss" using hq Cons.prems(2) by (simp add: JOURNAL_HDR_SZ_def)
      have notlast: "journalHdr q + ss \<noteq> h + ss" using synced hq(9) ss(2) by linarith
      show ?thesis
      proof (cases "h = 0")
        case False
        then show ?thesis
          using records [of q] q True cnt hq Cons.prems(10,12) notlast by (simp add: x Let_def sz)
      next
        case h0: True
        have "wp (pager_truncate n0) (\<lambda>x. wp (do {
             upd (\<lambda>p. if x = SQLITE_OK then p\<lparr>dbSize := n0\<rparr> else p);
             if x \<noteq> SQLITE_OK then ret x else do {
             (r, needPagerReset) \<leftarrow> playback_records (unat (of_nat (length recs) :: u32)) szJ b;
             (case r of Some rc \<Rightarrow> ret rc | None \<Rightarrow> playback_loop (length segs + fuel) isHot szJ needPagerReset) } }) Q) q"
          unfolding cnt(2)
        proof (rule wp_cons [OF pager_truncate_wp [of q ps n0 D0 S]], goal_cases)
          case (4 rc q')
          show ?case
          proof (cases "rc = SQLITE_OK")
            case True
            then show ?thesis
              using 4 q hq records [of "q'\<lparr>dbSize := n0\<rparr>" b] by simp
          next
            case False
            then have "dbok ps n0 D0 R (dbf q')" using 4 dbok_mono Cons.prems(9) by blast
            with False 4 show ?thesis using Cons.prems(14) [of rc q'] hq by simp
          qed
        qed (use hq(2,7) coreD(8) [OF hq(1)] Cons.prems(1,10,11) in \<open>simp_all add: db_open_def\<close>)
        then show ?thesis
          using q True cnt h0 notlast by (simp add: x Let_def sz)
      qed
    qed
  qed
qed

section \<open>The end of a playback\<close>

text \<open>The journal does not end in the trailer of a master journal name.\<close>

definition no_master :: "u8 list \<Rightarrow> bool" where
  "no_master J \<longleftrightarrow> \<not> (16 \<le> length J \<and> drop (length J - 8) J = aJournalMagic)"

lemma readMasterJournal_wp:
  assumes "no_master (jfile p)"
  shows "wp (readMasterJournal n) (\<lambda>(rc, z) q. hdr_read p q \<and> journalOff q = journalOff p \<and> cksumInit q = cksumInit p \<and> z = [] \<and>
    (rc \<noteq> SQLITE_OK \<longrightarrow> fails p)) p" (is "wp _ ?Q p")
proof (cases "length (jfile p) < 16")
  case True
  then show ?thesis unfolding readMasterJournal_def wp_bind by (intro wp_os_size) simp_all
next
  case False
  define sz where "sz = length (jfile p)"
  have sz: "16 \<le> sz" "sz - 16 + 4 \<le> length (jfile p)" "sz - 12 + 4 \<le> length (jfile p)" "sz - 8 + 8 \<le> length (jfile p)"
    "\<not> sz < 16" using False by (auto simp: sz_def)
  have m: "file_read (jfile p) 8 (sz - 8) = (SQLITE_OK, drop (sz - 8) (jfile p))" using sz by (subst file_read_ok) (simp_all add: sz_def)
  have nm: "drop (sz - 8) (jfile p) \<noteq> aJournalMagic" using assms sz(1) by (simp add: no_master_def sz_def)
  have bad: "?Q (SQLITE_IOERR_READ, []) q" if "hdr_read p q" "fails p" "journalOff q = journalOff p" "cksumInit q = cksumInit p" for q
    using that by simp
  have 3: "wp (os_read jfile 8 (sz - 8)) (\<lambda>x. wp (case x of (rc, aMagic) \<Rightarrow>
     if rc \<noteq> SQLITE_OK \<or> aMagic \<noteq> aJournalMagic then ret (rc, []) else R rc aMagic) ?Q) q"
    if "hdr_read p q" "journalOff q = journalOff p" "cksumInit q = cksumInit p" for q R
    using that hdr_readD [OF that(1)] by (intro wp_os_read) (simp_all add: m nm)
  have 2: "wp (read32bits jfile (sz - 12)) (\<lambda>x. wp (case x of (rc, cksum) \<Rightarrow>
     if rc \<noteq> SQLITE_OK then ret (rc, []) else do {
     (rc, aMagic) \<leftarrow> os_read jfile 8 (sz - 8);
     if rc \<noteq> SQLITE_OK \<or> aMagic \<noteq> aJournalMagic then ret (rc, []) else R cksum rc aMagic }) ?Q) q"
    if "hdr_read p q" "journalOff q = journalOff p" "cksumInit q = cksumInit p" for q R
  proof (rule wp_read32bits, goal_cases)
    case 1
    then show ?case using that 3 [of "tick q"] by simp
  qed (use that sz hdr_readD [OF that(1)] in simp_all)
  show ?thesis
    unfolding readMasterJournal_def wp_bind
  proof (rule wp_os_size, goal_cases)
    case 1
    have s: "length (jfile (tick p)) = sz" by (simp add: sz_def)
    show ?case
      unfolding s prod.case wp_if simp_thms if_not_P [OF sz(5)] wp_bind if_False
    proof (rule wp_read32bits, goal_cases)
      case 1
      then show ?case using 2 [of "tick (tick p)"] by simp
    qed (use sz in simp_all)
  qed simp
qed

lemma recoverable_done: "recoverable ss ps D0 db J \<Longrightarrow> length D0 = length D0 div ps * ps \<Longrightarrow> recoverable ss ps D0 D0 J"
  by (auto simp: recoverable_def Let_def dbok_def)

lemma recoverable_stop: "hdr_stop ss J 0 \<Longrightarrow> length D0 = length D0 div ps * ps \<Longrightarrow> recoverable ss ps D0 D0 J"
  unfolding recoverable_def Let_def by (intro exI [of _ "[]"] exI [of _ 0]) (auto simp: dbok_def)

lemma recoverable_dead:
  assumes "recoverable ss ps D0 db J" and "hdr_stop ss J 0"
  shows "db = D0"
proof -
  obtain segs e where s: "chain ss ps (length D0 div ps) J 0 segs e" "segs = [] \<longrightarrow> db = D0"
    using assms(1) by (auto simp: recoverable_def Let_def)
  have "segs = []" using s(1) assms(2) by (cases segs) (auto simp: hdr_at_def hdr_stop_def)
  then show ?thesis using s(2) by simp
qed

lemma hdr_stop_zeroed: "0 < ss \<Longrightarrow> hdr_stop ss (file_write J 0 (replicate 28 0)) 0"
proof -
  have "take 8 (drop 0 (file_write J 0 (replicate 28 0))) = replicate 8 (0 :: u8)" by (simp add: file_write_def)
  moreover have "hd (replicate 8 (0 :: u8)) \<noteq> hd aJournalMagic" by (simp add: aJournalMagic_def)
  ultimately show ?thesis by (metis hdr_stop_def)
qed

lemma hdr_stop_take: "hdr_stop ss J 0 \<Longrightarrow> 8 \<le> ss \<Longrightarrow> hdr_stop ss (take n J) 0"
  by (auto simp: hdr_stop_def min_def split: if_splits)

lemma torn_zero: "file_torn J 0 (replicate 28 (0 :: u8)) k \<in> {J, file_write J 0 (replicate 28 0)}"
  by (cases k) (auto simp: file_torn_def file_write_def min_def)

text \<open>
  Finalising the journal of a database that is the original again keeps it recoverable, and if it succeeds, no
  header is left.
\<close>

definition finalised :: "nat \<Rightarrow> pager \<Rightarrow> rc \<Rightarrow> pager \<Rightarrow> bool" where
  "finalised ss p rc q \<longleftrightarrow> dbf q = dbf p \<and> io_fail q = io_fail p \<and> (jfile q = jfile p \<or> hdr_stop ss (jfile q) 0) \<and>
     (rc = SQLITE_OK \<longrightarrow> hdr_stop ss (jfile q) 0) \<and> (rc \<noteq> SQLITE_OK \<longrightarrow> fails p)"

text \<open>\<open>part\<close>: a step of finalising, with the fields it leaves alone.\<close>

definition part :: "nat \<Rightarrow> pager \<Rightarrow> rc \<Rightarrow> pager \<Rightarrow> bool" where
  "part ss p rc q \<longleftrightarrow> finalised ss p rc q \<and> eState q = eState p \<and> dbSize q = dbSize p \<and> dbFileSize q = dbFileSize p \<and> eLock q = eLock p"

lemma part_tick [simp]: "part ss p rc (q\<lparr>io_tick := t\<rparr>) = part ss p rc q" "part ss p rc (q\<lparr>journalOff := c\<rparr>) = part ss p rc q"
  by (simp_all add: part_def finalised_def)

lemma part_fails: "part ss p rc q \<Longrightarrow> fails q = fails p"
  by (simp add: part_def finalised_def fails_def)

lemma part_failed: "part ss p rc q \<Longrightarrow> fails p \<Longrightarrow> rc' \<noteq> SQLITE_OK \<Longrightarrow> part ss p rc' q"
  by (auto simp: part_def finalised_def)

lemma part_effect:
  assumes "part ss p SQLITE_OK q" and "err \<noteq> SQLITE_OK" and "\<And>t. part ss p SQLITE_OK (f (q\<lparr>io_tick := t\<rparr>))"
  shows "wp (os_effect err f) (part ss p) q"
  by (rule wp_os_effect) (use assms part_fails [OF assms(1)] part_failed [OF assms(1)] in auto)

lemma part_take:
  assumes "part ss p SQLITE_OK q" and "8 \<le> ss"
  shows "wp (j_truncate n) (part ss p) q"
  unfolding j_truncate_def
proof (rule part_effect [OF assms(1)])
  have "hdr_stop ss [] 0" using assms(2) by (simp add: hdr_stop_def)
  then show "part ss p SQLITE_OK ((q\<lparr>io_tick := t\<rparr>)\<lparr>jrnl := map_option (take n) (jrnl (q\<lparr>io_tick := t\<rparr>))\<rparr>)" for t
    using assms hdr_stop_take [of ss "jfile q" n] by (cases "jrnl q") (auto simp: part_def finalised_def jfile_def)
qed simp

lemma zeroJournalHdr_wp:
  assumes "32 \<le> ss" and "journalOff p = 0 \<longrightarrow> hdr_stop ss (jfile p) 0"
  shows "wp (zeroJournalHdr m) (part ss p) p"
proof (cases "journalOff p = 0")
  case True
  then show ?thesis using assms by (simp add: zeroJournalHdr_def finalised_def part_def)
next
  case False
  have nil: "hdr_stop ss [] 0" and ss: "0 < ss" "8 \<le> ss" using assms(1) by (simp_all add: hdr_stop_def)
  have limit: "wp (if rc = SQLITE_OK \<and> journalSizeLimit p > 0 then do {
         (rc, sz) \<leftarrow> os_size jfile;
         if rc = SQLITE_OK \<and> int sz > journalSizeLimit p then j_truncate (nat (journalSizeLimit p)) else ret rc }
       else ret rc) (part ss p) q" if q: "part ss p rc q" for rc q
  proof (cases "rc = SQLITE_OK \<and> journalSizeLimit p > 0")
    case True
    then have ok: "part ss p SQLITE_OK q" using q by simp
    show ?thesis unfolding if_P [OF True] wp_bind
      by (rule wp_os_size) (use ok part_fails [OF ok] part_failed [OF ok] part_take [OF _ ss(2)] in auto)
  next
    case False
    then show ?thesis unfolding if_not_P [OF False] using q by simp
  qed
  have sync: "wp (if rc = SQLITE_OK \<and> \<not> noSync p then os_sync else ret rc) (part ss p) q" if "part ss p rc q" for rc q
    using that part_effect [of ss p q SQLITE_IOERR id] by (auto simp: os_sync_def)
  have torn: "file_torn (jfile p) 0 (replicate 28 0) k = jfile p \<or> hdr_stop ss (file_torn (jfile p) 0 (replicate 28 0) k) 0" for k
    using torn_zero [of "jfile p" k] hdr_stop_zeroed [OF ss(1), of "jfile p"] by auto
  have first: "wp (if m \<or> journalSizeLimit p = 0 then j_truncate 0 else j_write (replicate 28 0) 0) (part ss p) p"
  proof (cases "m \<or> journalSizeLimit p = 0")
    case True
    then show ?thesis unfolding if_P [OF True] j_truncate_def
      by (intro wp_os_effect) (use nil in \<open>simp_all add: finalised_def part_def jfile_def map_option_case split: option.splits\<close>)
  next
    case False
    then show ?thesis unfolding if_not_P [OF False]
      by (intro wp_j_write) (use torn hdr_stop_zeroed [OF ss(1), of "jfile p"] in \<open>simp_all add: finalised_def part_def\<close>)
  qed
  show ?thesis
    unfolding zeroJournalHdr_def wp_bind wp_get Let_def wp_if [where b = "journalOff p \<noteq> 0"] if_P [OF False]
    by (rule wp_cons [OF first], rule wp_cons [OF sync], assumption, rule limit)
qed

end
