(* ===== verification/Pager_Loop.thy ===== *)
theory Pager_Loop
  imports Pager_Recovery
begin

text \<open>
  The loop over the headers of a journal ends, whatever the journal holds and whatever calls fail: each turn moves the
  offset forward. The fuel of \<open>playback_loop\<close> is therefore enough.
\<close>

text \<open>\<open>fwd\<close>: neither the offset nor the size of a sector changes.\<close>

definition fwd :: "pager \<Rightarrow> pager \<Rightarrow> bool" where
  "fwd p q \<longleftrightarrow> journalOff q = journalOff p \<and> sectorSize q = sectorSize p"

lemma fwd_simps [simp]:
  "fwd p (q\<lparr>io_tick := x1\<rparr>) = fwd p q" "fwd p (q\<lparr>dbf := x2\<rparr>) = fwd p q" "fwd p (q\<lparr>cksumInit := x3\<rparr>) = fwd p q"
  "fwd p (q\<lparr>dbSize := x4\<rparr>) = fwd p q" "fwd p (q\<lparr>dbFileSize := x5\<rparr>) = fwd p q" "fwd p (q\<lparr>mallocs := x6\<rparr>) = fwd p q"
  "fwd p (q\<lparr>pPCache := x7\<rparr>) = fwd p q" "fwd p (q\<lparr>pageSize := x8\<rparr>) = fwd p q" "fwd p (q\<lparr>nReserve := x9\<rparr>) = fwd p q"
  "fwd p (q\<lparr>dbFileVers := x10\<rparr>) = fwd p q" "fwd p (pager_reset q) = fwd p q" "fwd p (pcache_put k h q) = fwd p q" "fwd p p"
  by (simp_all add: fwd_def pager_reset_def sqlite3PcacheTruncate_def pcache_put_def Let_def)

text \<open>Rules for calls of which only the frame matters.\<close>

lemma wp_read32_any: "(\<And>rc v. rc \<noteq> SQLITE_MISUSE \<Longrightarrow> Q (rc, v) (tick p)) \<Longrightarrow> wp (read32bits f off) Q p"
  by (rule wp_read32bits) simp_all

lemma wp_os_read_any: "(\<And>rc v. rc \<noteq> SQLITE_MISUSE \<Longrightarrow> Q (rc, v) (tick p)) \<Longrightarrow> wp (os_read f n off) Q p"
  by (rule wp_os_read) (simp_all add: file_read_def Let_def)

lemma wp_os_size_any: "(\<And>rc v. rc \<noteq> SQLITE_MISUSE \<Longrightarrow> Q (rc, v) (tick p)) \<Longrightarrow> wp (os_size f) Q p"
  by (rule wp_os_size) simp_all

lemma wp_os_effect_any: "e \<noteq> SQLITE_MISUSE \<Longrightarrow> (\<And>rc. rc \<noteq> SQLITE_MISUSE \<Longrightarrow> Q rc (f (tick p))) \<Longrightarrow> (\<And>rc. rc \<noteq> SQLITE_MISUSE \<Longrightarrow> Q rc (tick p)) \<Longrightarrow> wp (os_effect e f) Q p"
  by (rule wp_os_effect) simp_all

lemma wp_db_write_any: "(\<And>rc x. rc \<noteq> SQLITE_MISUSE \<Longrightarrow> Q rc ((tick p)\<lparr>dbf := x\<rparr>)) \<Longrightarrow> wp (db_write xs off) Q p"
  by (rule wp_db_write) simp_all

lemma playback_page_fwd: "wp (playback_page pg data) (\<lambda>rc q. fwd p q \<and> rc \<noteq> SQLITE_MISUSE) p"
  unfolding playback_page_def wp_bind wp_upd wp_get Let_def
  by (auto intro!: wp_db_write_any split: option.split)

lemma one_page_forward:
  "wp pager_playback_one_page (\<lambda>rc q. sectorSize q = sectorSize p \<and> journalOff p \<le> journalOff q \<and> rc \<noteq> SQLITE_MISUSE) p"
  unfolding pager_playback_one_page_def wp_bind wp_get Let_def
  by (auto intro!: wp_read32_any wp_os_read_any wp_cons [OF playback_page_fwd] simp: fwd_def)

lemma records_forward:
  "wp (playback_records n szJ b) (\<lambda>(r, b) q. sectorSize q = sectorSize p \<and> (journalOff p \<le> journalOff q \<or> journalOff q = szJ) \<and> r \<noteq> Some SQLITE_MISUSE) p"
proof (induction n arbitrary: p b)
  case (Suc n)
  define p1 where "p1 = (if b then pager_reset p else p)"
  have p1: "fwd p p1" by (simp add: p1_def)
  show ?case
    unfolding playback_records.simps wp_bind wp_upd p1_def [symmetric]
  proof (rule wp_cons [OF one_page_forward], goal_cases)
    case (1 rc q)
    have "wp (playback_records n szJ False) (\<lambda>(r, b) q. sectorSize q = sectorSize p \<and> (journalOff p \<le> journalOff q \<or> journalOff q = szJ) \<and> r \<noteq> Some SQLITE_MISUSE) q"
      by (rule wp_cons [OF Suc.IH]) (use 1 p1 in \<open>auto simp: fwd_def\<close>)
    then show ?case using 1 p1 by (auto simp: fwd_def)
  qed
qed simp

lemma truncate_fwd: "wp (pager_truncate n) (\<lambda>rc q. fwd p q \<and> rc \<noteq> SQLITE_MISUSE) p"
  unfolding pager_truncate_def db_truncate_def wp_bind wp_get Let_def
  by (auto intro!: wp_os_size_any wp_os_effect_any wp_db_write_any)

lemma setPagesize_fwd: "wp (sqlite3PagerSetPagesize sz) (\<lambda>rc q. fwd p q \<and> rc \<noteq> SQLITE_MISUSE) p"
  unfolding sqlite3PagerSetPagesize_def wp_bind wp_get
  by (auto intro!: wp_os_size_any)

lemma read_hdr_forward:
  assumes "0 < sectorSize p"
  shows "wp (read_hdr_fields h) (\<lambda>(rc, n, mx) q. rc \<noteq> SQLITE_MISUSE \<and> (rc = SQLITE_OK \<longrightarrow> 0 < sectorSize q \<and> journalOff p < journalOff q)) p" (is "wp _ ?Q p")
proof -
  have u: "\<not> (v :: u32) < 32 \<Longrightarrow> 0 < unat v" for v by (simp add: word_less_nat_alt)
  have sizes: "wp (read_hdr_sizes h n mx) ?Q q" if "fwd p q" for n mx q
    unfolding read_hdr_sizes_def wp_bind wp_get Let_def
    by (intro wp_read32_any) (use that u in \<open>auto intro!: wp_read32_any wp_cons [OF setPagesize_fwd] simp: fwd_def JOURNAL_HDR_SZ_def\<close>)
  show ?thesis
    unfolding read_hdr_fields_def wp_bind
    by (intro wp_read32_any) (use assms sizes in \<open>auto intro!: wp_read32_any simp: JOURNAL_HDR_SZ_def\<close>)
qed

lemma readJournalHdr_forward:
  assumes "0 < sectorSize p"
  shows "wp (readJournalHdr isHot szJ) (\<lambda>(rc, n, mx) q. rc \<noteq> SQLITE_MISUSE \<and> (rc = SQLITE_OK \<longrightarrow>
    0 < sectorSize q \<and> journalOff p < journalOff q \<and> journalOff p < szJ)) p"
proof -
  define p1 where "p1 = p\<lparr>journalOff := journalHdrOffset p\<rparr>"
  have p1: "0 < sectorSize p1" "journalOff p \<le> journalOff p1" "sectorSize p1 = sectorSize p"
    using assms roundup_ge [OF assms, of "journalOff p"] by (simp_all add: p1_def journalHdrOffset_roundup)
  show ?thesis
  proof (cases "journalOff p1 + JOURNAL_HDR_SZ p1 > szJ")
    case True
    then show ?thesis unfolding readJournalHdr_def wp_bind wp_upd wp_get p1_def [symmetric] Let_def by simp
  next
    case False
    then have lt: "journalOff p < szJ" using p1 by (simp add: JOURNAL_HDR_SZ_def)
    have fields: "wp (read_hdr_fields h) (\<lambda>(rc, n, mx) q. rc \<noteq> SQLITE_MISUSE \<and> (rc = SQLITE_OK \<longrightarrow>
      0 < sectorSize q \<and> journalOff p < journalOff q \<and> journalOff p < szJ)) q" if "fwd p1 q" for h q
      by (rule wp_cons [OF read_hdr_forward]) (use that p1 lt in \<open>auto simp: fwd_def\<close>)
    show ?thesis unfolding readJournalHdr_def wp_bind wp_upd wp_get p1_def [symmetric] Let_def if_not_P [OF False]
      by (auto intro!: wp_os_read_any fields)
  qed
qed

lemma first_header_fwd:
  "wp (if c then do {
     rc \<leftarrow> pager_truncate mx;
     upd (\<lambda>p. if rc = SQLITE_OK then p\<lparr>dbSize := mx\<rparr> else p);
     ret rc }
   else ret SQLITE_OK) (\<lambda>rc q. fwd p q \<and> rc \<noteq> SQLITE_MISUSE) p"
  by (auto intro!: wp_cons [OF truncate_fwd])

lemma run_bind_cong:
  assumes "wp m (\<lambda>x q. run_state (f x) q = run_state (g x) q) p"
  shows "run_state (State_Monad.bind m f) p = run_state (State_Monad.bind m g) p"
  using assms by (simp add: wp_def split: prod.splits)

lemma playback_loop_fuel:
  assumes "0 < sectorSize p" and "szJ - journalOff p < f" and "szJ - journalOff p < g"
  shows "run_state (playback_loop f isHot szJ b) p = run_state (playback_loop g isHot szJ b) p"
  using assms
proof (induction f arbitrary: g p b)
  case (Suc f)
  obtain g' where g: "g = Suc g'" using Suc.prems(3) by (cases g) auto
  show ?case
    unfolding g playback_loop.simps
  proof (rule run_bind_cong, rule wp_cons [OF readJournalHdr_forward [OF Suc.prems(1)]], goal_cases)
    case (1 x q)
    obtain rc n mx where x: "x = (rc, n, mx)" by (cases x)
    have rest: "run_state (playback_loop f isHot szJ b') q' = run_state (playback_loop g' isHot szJ b') q'"
      if "rc = SQLITE_OK" "sectorSize q' = sectorSize q" "journalOff q \<le> journalOff q' \<or> journalOff q' = szJ" for q' b'
      by (rule Suc.IH) (use 1 that Suc.prems x g in auto)
    show ?case
    proof (cases "rc = SQLITE_OK")
      case True
      define n1 where "n1 = (if n = 0xffffffff then rec_count szJ (JOURNAL_HDR_SZ q) (JOURNAL_PG_SZ q) else n)"
      define n2 :: u32 where "n2 = (if n1 = 0 \<and> \<not> isHot \<and> journalHdr q + JOURNAL_HDR_SZ q = journalOff q
        then rec_count szJ (journalOff q) (JOURNAL_PG_SZ q) else n1)"
      have records: "run_state (playback_records (unat n2) szJ b \<bind> (\<lambda>(r, b). case r of Some rc \<Rightarrow> ret rc | None \<Rightarrow> playback_loop f isHot szJ b)) q' =
        run_state (playback_records (unat n2) szJ b \<bind> (\<lambda>(r, b). case r of Some rc \<Rightarrow> ret rc | None \<Rightarrow> playback_loop g' isHot szJ b)) q'"
        if "fwd q q'" for q'
        by (rule run_bind_cong, rule wp_cons [OF records_forward])
          (use that rest [OF True] in \<open>auto simp: fwd_def split: option.split\<close>)
      show ?thesis
        unfolding x prod.case True simp_thms if_False
      proof (rule run_bind_cong, unfold wp_get Let_def n1_def [symmetric] n2_def [symmetric], rule run_bind_cong, rule wp_cons [OF first_header_fwd], goal_cases)
        case (1 rc q')
        then show ?case using records [of q'] by (cases "rc = SQLITE_OK") simp_all
      qed
    qed (simp add: x)
  qed
qed simp

lemma wp_fst: "wp m (\<lambda>x q. P x) p \<Longrightarrow> P (fst (run_state m p))"
  by (simp add: wp_def split: prod.splits)

lemma playback_loop_returns:
  assumes "0 < sectorSize p" and "szJ - journalOff p < f"
  shows "wp (playback_loop f isHot szJ b) (\<lambda>rc q. rc \<noteq> SQLITE_MISUSE) p"
  using assms
proof (induction f arbitrary: p b)
  case (Suc f)
  show ?case
    unfolding playback_loop.simps wp_bind
  proof (rule wp_cons [OF readJournalHdr_forward [OF Suc.prems(1)]], goal_cases)
    case (1 x q)
    obtain rc n mx where x: "x = (rc, n, mx)" by (cases x)
    show ?case
    proof (cases "rc = SQLITE_OK")
      case True
      have rest: "wp (playback_loop f isHot szJ b') (\<lambda>rc q. rc \<noteq> SQLITE_MISUSE) q'"
        if "sectorSize q' = sectorSize q" "journalOff q \<le> journalOff q' \<or> journalOff q' = szJ" for q' b'
        by (rule Suc.IH) (use 1 that Suc.prems x True in auto)
      have records: "wp (playback_records k szJ b) (\<lambda>z. wp (case z of (None, b) \<Rightarrow> playback_loop f isHot szJ b | (Some rc, b) \<Rightarrow> ret rc)
          (\<lambda>rc q. rc \<noteq> SQLITE_MISUSE)) q'" if "fwd q q'" for k q'
        by (rule wp_cons [OF records_forward]) (use that rest in \<open>auto simp: fwd_def split: option.split\<close>)
      show ?thesis
        unfolding x prod.case True simp_thms if_False wp_bind [where m = getp] wp_get Let_def wp_bind [where m = "if b then u else v" for b u v]
      proof (rule wp_cons [OF first_header_fwd], goal_cases)
        case (1 rc q')
        then show ?case unfolding wp_if wp_bind wp_ret using records [of q'] by (auto simp only: split: if_split)
      qed
    qed (use 1 in \<open>auto simp: x\<close>)
  qed
qed simp

text \<open>A database of one page that was overwritten after its original went to the journal.\<close>

definition crashed_journal :: "u8 list" where
  "crashed_journal = aJournalMagic @ [0, 0, 0, 1, 0, 0, 0, 7, 0, 0, 0, 1, 0, 0, 2, 0, 0, 0, 2, 0] @ replicate 484 0 @
     [0, 0, 0, 1] @ replicate 512 3 @ [0, 0, 0, 13]"

definition crashed_pager :: pager where
  "crashed_pager = \<lparr>dbf = replicate 512 9, jrnl = Some crashed_journal, io_fail = (\<lambda>_. None), io_random = (\<lambda>_. 0), io_tick = 0,
     malloc_ok = (\<lambda>_. True), mallocs = 0, master_exists = (\<lambda>_. False), mxPathname = 512, safe_append = False, sequential = False,
     powersafe_overwrite = True, os_sector_size = 512, undeletable = False, journalMode = PAGER_JOURNALMODE_DELETE, noSync = False,
     fullSync = True, readOnly = False, eState = PAGER_OPEN, eLock = NO_LOCK, changeCountDone = False, setMaster = False,
     doNotSyncSpill = False, dbSize = 0, dbOrigSize = 0, dbFileSize = 0, errCode = SQLITE_OK, nRec = 0, cksumInit = 0,
     pInJournal = None, jfd_open = False, journalOff = 0, journalHdr = 0, dbFileVers = [], nReserve = 0, sectorSize = 512,
     pageSize = 512, mxPgno = 1073741823, journalSizeLimit = -1, pPCache = [], pcache_nRef = 0, pcache_pPage1 = False\<rparr>"

text \<open>
  \<^bold>\<open>C3.\<close> Playing back a journal terminates. Whatever bytes the journal holds, whatever the page cache and the other fields of
  the pager are and whatever calls fail, the loop of \<open>pager_playback\<close> over the headers is finished after at most as many
  turns as the journal has bytes: more fuel than \<open>szJ + 1\<close> changes nothing, and the value that stands for running out of
  fuel is never returned.
\<close>

theorem playback_terminates:
  assumes "0 < sectorSize p" and "szJ < fuel"
  shows "run_state (playback_loop fuel isHot szJ b) p = run_state (playback_loop (szJ + 1) isHot szJ b) p \<and>
    fst (run_state (playback_loop (szJ + 1) isHot szJ b) p) \<noteq> SQLITE_MISUSE"
proof
  show "run_state (playback_loop fuel isHot szJ b) p = run_state (playback_loop (szJ + 1) isHot szJ b) p"
    by (rule playback_loop_fuel) (use assms in simp_all)
  have "wp (playback_loop (szJ + 1) isHot szJ b) (\<lambda>rc q. rc \<noteq> SQLITE_MISUSE) p"
    by (rule playback_loop_returns) (use assms(1) in simp_all)
  then show "fst (run_state (playback_loop (szJ + 1) isHot szJ b) p) \<noteq> SQLITE_MISUSE"
    by (rule wp_fst)
qed


theorem playback_terminates_witness:
  "run_state (playback_loop 5000 True 1032 True) crashed_pager = run_state (playback_loop 1033 True 1032 True) crashed_pager \<and>
   fst (run_state (playback_loop 1033 True 1032 True) crashed_pager) \<noteq> SQLITE_MISUSE"
  using playback_terminates [of crashed_pager 1032 5000 True True] by (simp add: crashed_pager_def del: playback_loop.simps)

end
