(* ===== verification/Pager_Hot.thy ===== *)
theory Pager_Hot
  imports Pager_Loop
begin

text \<open>
  Recovery from a hot journal: playing back a whole journal and finalising it, deciding whether a journal is hot, and
  \<open>sqlite3PagerSharedLock\<close>, which rolls a hot journal back before the first read.
\<close>

section \<open>Playing back a whole journal\<close>

lemma chain_length: "0 < ss \<Longrightarrow> chain ss ps n0 J h segs e \<Longrightarrow> segs \<noteq> [] \<Longrightarrow> h + length segs \<le> length J"
proof (induction segs arbitrary: h)
  case (Cons s segs)
  obtain ck recs where s: "s = (ck, recs)" by (cases s)
  have h: "h + ss \<le> length J" using Cons.prems(2) by (simp add: s hdr_at_def)
  show ?case
  proof (cases segs)
    case Nil
    then show ?thesis using h Cons.prems(1) by simp
  next
    case (Cons t ts)
    then have "roundup ss (h + ss + length recs * (ps + 8)) + length segs \<le> length J"
      using Cons.IH [of "roundup ss (h + ss + length recs * (ps + 8))"] Cons.prems by (simp add: s)
    then show ?thesis using roundup_ge [of ss "h + ss + length recs * (ps + 8)"] Cons.prems(1) by simp
  qed
qed simp

lemma chain_pos:
  assumes "0 < ss" and "chain ss ps n0 J h segs e" and "segs \<noteq> []"
  shows "h + ss \<le> e"
proof -
  obtain ck recs ts where s: "segs = (ck, recs) # ts" using assms(3) by (metis neq_Nil_conv surj_pair)
  show ?thesis
    using chain_ge [OF assms(1), of ps n0 J "roundup ss (h + ss + length recs * (ps + 8))" ts e] assms(2)
      roundup_ge [OF assms(1), of "h + ss + length recs * (ps + 8)"] by (simp add: s)
qed

lemma playback_loop_stop:
  assumes "sectorSize p = ss" and "hdr_stop ss (jfile p) (roundup ss (journalOff p))" and "szJ = length (jfile p)" and "8 \<le> ss"
    and "isHot \<or> roundup ss (journalOff p) \<noteq> journalHdr p \<or> szJ < roundup ss (journalOff p) + ss"
  shows "wp (playback_loop (Suc fuel) isHot szJ b) (\<lambda>rc q. hdr_read p q \<and>
    (rc = SQLITE_OK \<and> journalOff q = roundup ss (journalOff p) \<or> rc \<noteq> SQLITE_OK \<and> fails p)) p"
  unfolding playback_loop.simps wp_bind
  by (rule wp_cons [OF readJournalHdr_stop [OF assms]]) auto

definition played :: "nat \<Rightarrow> nat \<Rightarrow> u8 list \<Rightarrow> pager \<Rightarrow> rc \<Rightarrow> pager \<Rightarrow> bool" where
  "played ss ps D0 p rc q \<longleftrightarrow> core q = core p \<and> recoverable ss ps D0 (dbf q) (jfile q) \<and>
     (rc = SQLITE_OK \<longrightarrow> dbf q = D0 \<and> (journalOff q = 0 \<longrightarrow> hdr_stop ss (jfile q) 0)) \<and> (rc \<noteq> SQLITE_OK \<longrightarrow> fails p)"

lemma playback_loop_wp:
  assumes geo: "geometry ss ps n0 D0" and p: "pageSize p = ps" "sectorSize p = ss" "journalOff p = 0" "db_open p"
    and rec: "recoverable ss ps D0 (dbf p) (jfile p)" and sz: "szJ = length (jfile p)" "szJ \<le> journalHdr p"
  shows "wp (playback_loop (szJ + 1) True szJ b) (played ss ps D0 p) p"
proof -
  have g: "length D0 div ps = n0" "length D0 = n0 * ps" "8 \<le> ss" "0 < ss" using geo by (auto simp: geometry_def)
  obtain segs e where ch: "chain ss ps n0 (jfile p) 0 segs e" and stop: "hdr_stop ss (jfile p) e"
    and good: "\<forall>(ck, recs)\<in>set segs. good_recs ps n0 D0 recs" and db: "dbok ps n0 D0 (seg_pages segs) (dbf p)" and nil: "segs = [] \<longrightarrow> dbf p = D0"
    using rec unfolding recoverable_def Let_def g(1) by blast
  have keep: "recoverable ss ps D0 (dbf q) (jfile q)" if "core q = core p" "dbok ps n0 D0 (seg_pages segs) (dbf q)" "segs = [] \<longrightarrow> dbf q = D0" for q
    unfolding recoverable_def Let_def g(1) coreD(2) [OF that(1)] using ch stop good that(2,3) by blast
  show ?thesis
  proof (cases "segs = []")
    case True
    then have e: "e = 0" and d: "dbf p = D0" using ch nil by simp_all
    have st: "hdr_stop ss (jfile p) (roundup ss (journalOff p))" using stop e p(3) by (simp add: roundup_def)
    show ?thesis unfolding Suc_eq_plus1 [symmetric]
    proof (rule wp_cons [OF playback_loop_stop [OF p(2) st sz(1) g(3)]], goal_cases)
      case (2 rc q)
      then show ?case using hdr_readD [of p q] d stop e rec by (auto simp: played_def)
    qed simp
  next
    case False
    have len: "length segs \<le> szJ" using chain_length [OF g(4) ch False] sz(1) by simp
    then obtain f where f: "szJ + 1 = length segs + Suc f" using le_Suc_ex by fastforce
    have e: "e \<noteq> 0" using chain_pos [OF g(4) ch False] g(4) by simp
    show ?thesis unfolding f
    proof (rule playback_chain_wp [OF geo p(1,2) ch _ sz(1) _ good subset_refl subset_refl db p(4)], goal_cases)
      case (4 q b)
      have q: "dbf q = D0" by (rule dbok_all) (use 4 e g(2) in auto)
      have c: "sectorSize q = ss" "jfile q = jfile p" "fails q = fails p" using coreD [OF 4(1)] p(2) by auto
      show ?case
      proof (rule wp_cons [OF playback_loop_stop [of q ss]], goal_cases)
        case (6 rc q')
        note h = hdr_readD [OF conjunct1 [OF 6]]
        have "dbok ps n0 D0 (seg_pages segs) D0" using g(2) by (simp add: dbok_def)
        then show ?case using 6 h q 4 c e keep [of q'] False by (auto simp: played_def)
      qed (use c 4 stop sz g in auto)
    next
      case (5 rc q)
      then show ?case using keep [of q] False by (simp add: played_def)
    qed (use sz p(3) in \<open>auto simp: roundup_def\<close>)
  qed
qed

lemma played_trans: "played ss ps D0 q rc q' \<Longrightarrow> core q = core p \<Longrightarrow> played ss ps D0 p rc q'"
  using coreD(4) [of q p] by (simp add: played_def)

lemma played_bad: "core q = core p \<Longrightarrow> dbf q = dbf p \<Longrightarrow> recoverable ss ps D0 (dbf p) (jfile p) \<Longrightarrow> fails p \<Longrightarrow> rc \<noteq> SQLITE_OK \<Longrightarrow>
  played ss ps D0 p rc q"
  using coreD(2) [of q p] by (simp add: played_def)

lemma playback_body_wp:
  assumes geo: "geometry ss ps n0 D0" and p: "pageSize p = ps" "sectorSize p = ss" "db_open p" and nm: "no_master (jfile p)"
    and rec: "recoverable ss ps D0 (dbf p) (jfile p)" and sz: "length (jfile p) \<le> journalHdr p"
  shows "wp (playback_body True) (\<lambda>(rc, res) q. played ss ps D0 p rc q) p"
  unfolding playback_body_def wp_bind
proof (rule wp_os_size, goal_cases)
  case 1
  have nm': "no_master (jfile (tick p))" using nm by simp
  show ?case
    unfolding prod.case wp_bind wp_if simp_thms if_False wp_get
  proof (rule wp_cons [OF readMasterJournal_wp [OF nm']], goal_cases)
    case (1 x q)
    obtain rc z where x: "x = (rc, z)" by (cases x)
    have h: "hdr_read p q" using 1 by (simp add: x hdr_read_def)
    note hq = hdr_readD [OF h]
    define q0 where "q0 = q\<lparr>journalOff := 0\<rparr>"
    have q0: "core q0 = core p" "pageSize q0 = ps" "sectorSize q0 = ss" "journalOff q0 = 0" "db_open q0"
      "recoverable ss ps D0 (dbf q0) (jfile q0)" "length (jfile (tick p)) = length (jfile q0)" "length (jfile (tick p)) \<le> journalHdr q0"
      using hq p rec sz coreD(8) [OF hq(1)] by (simp_all add: q0_def db_open_def)
    have loop: "wp (playback_loop (length (jfile (tick p)) + 1) True (length (jfile (tick p))) True) (played ss ps D0 p) q0"
      by (rule wp_cons [OF playback_loop_wp [OF geo q0(2-8)]]) (rule played_trans [OF _ q0(1)])
    show ?case
    proof (cases "rc = SQLITE_OK")
      case True
      have z: "has_name z = False" using 1 by (simp add: x has_name_def)
      show ?thesis unfolding x prod.case wp_bind z True simp_thms if_False wp_ret wp_upd q0_def [symmetric]
        by (rule wp_cons [OF loop]) simp
    next
      case False
      then show ?thesis using 1 played_bad [OF hq(1,2) rec] by (simp add: x has_name_def)
    qed
  qed
qed (use rec in \<open>simp add: played_def\<close>)

section \<open>Ending the rollback\<close>

lemma finalised_cache [simp]:
  "finalised ss p rc (sqlite3PcacheTruncate n q) = finalised ss p rc q" "finalised ss p rc (sqlite3PcacheCleanAll q) = finalised ss p rc q"
  "finalised ss p rc (pager_reset q) = finalised ss p rc q"
  by (simp_all add: finalised_def sqlite3PcacheTruncate_def sqlite3PcacheCleanAll_def pcache_map_def pager_reset_def Let_def jfile_def)

lemma fails_cache [simp]:
  "fails (sqlite3PcacheTruncate n q) = fails q" "fails (sqlite3PcacheCleanAll q) = fails q" "fails (pager_reset q) = fails q"
  by (simp_all add: sqlite3PcacheTruncate_def sqlite3PcacheCleanAll_def pcache_map_def pager_reset_def Let_def)

lemma finalised_upd [simp]:
  "finalised ss p rc (q\<lparr>io_tick := x1\<rparr>) = finalised ss p rc q" "finalised ss p rc (q\<lparr>journalOff := x2\<rparr>) = finalised ss p rc q"
  "finalised ss p rc (q\<lparr>pInJournal := x3\<rparr>) = finalised ss p rc q" "finalised ss p rc (q\<lparr>nRec := x4\<rparr>) = finalised ss p rc q"
  "finalised ss p rc (q\<lparr>eLock := x5\<rparr>) = finalised ss p rc q" "finalised ss p rc (q\<lparr>eState := x6\<rparr>) = finalised ss p rc q"
  "finalised ss p rc (q\<lparr>changeCountDone := x7\<rparr>) = finalised ss p rc q" "finalised ss p rc (q\<lparr>setMaster := x8\<rparr>) = finalised ss p rc q"
  "finalised ss p rc (q\<lparr>sectorSize := x9\<rparr>) = finalised ss p rc q" "finalised ss p rc (q\<lparr>jfd_open := x10\<rparr>) = finalised ss p rc q"
  by (simp_all add: finalised_def)

lemma finalised_fails: "finalised ss p rc q \<Longrightarrow> fails q = fails p"
  by (simp add: finalised_def fails_def)

lemma finalised_failed: "finalised ss p rc q \<Longrightarrow> fails p \<Longrightarrow> rc' \<noteq> SQLITE_OK \<Longrightarrow> finalised ss p rc' q"
  by (auto simp: finalised_def)

lemma finalised_then: "finalised ss p rc q \<Longrightarrow> rc' \<noteq> SQLITE_OK \<longrightarrow> fails q \<Longrightarrow> finalised ss p (if rc = SQLITE_OK then rc' else rc) q"
  using finalised_fails [of ss p rc q] finalised_failed [of ss p rc q rc'] by auto

lemma pagerUnlockDb_wp:
  assumes "\<And>t e rc. (rc \<noteq> SQLITE_OK \<longrightarrow> fails p) \<Longrightarrow> Q rc (p\<lparr>io_tick := t, eLock := e\<rparr>)"
  shows "wp (pagerUnlockDb lvl) Q p"
proof -
  have same: "p\<lparr>io_tick := t, eLock := eLock p\<rparr> = p\<lparr>io_tick := t\<rparr>" for t by (cases p) simp
  show ?thesis
    unfolding pagerUnlockDb_def wp_bind wp_upd wp_ret
    by (rule wp_os_effect)
      (use assms [of SQLITE_OK lvl "Suc (io_tick p)"] assms [of SQLITE_OK "eLock p" "Suc (io_tick p)"]
        assms [of SQLITE_IOERR_UNLOCK lvl "Suc (io_tick p)"] assms [of SQLITE_IOERR_UNLOCK "eLock p" "Suc (io_tick p)"] in \<open>simp_all add: same\<close>)
qed

lemma pager_end_transaction_wp:
  assumes "32 \<le> ss" and "journalOff p = 0 \<longrightarrow> hdr_stop ss (jfile p) 0" and "jfd_open p" and "eLock p \<ge> RESERVED_LOCK"
  shows "wp (pager_end_transaction m False) (finalised ss p) p"
proof -
  have nil: "hdr_stop ss [] 0" using assms(1) by (simp add: hdr_stop_def)
  have l: "\<not> (eState p < PAGER_WRITER_LOCKED \<and> eLock p < RESERVED_LOCK)" using assms(4) by simp
  have journal: "wp (case journalMode p of
           PAGER_JOURNALMODE_TRUNCATE \<Rightarrow> do {
             rc \<leftarrow> (if journalOff p = 0 then ret SQLITE_OK else j_truncate 0);
             upd (\<lambda>p. p\<lparr>journalOff := 0\<rparr>);
             ret rc }
         | PAGER_JOURNALMODE_PERSIST \<Rightarrow> do {
             rc \<leftarrow> zeroJournalHdr m;
             upd (\<lambda>p. p\<lparr>journalOff := 0\<rparr>);
             ret rc }
         | PAGER_JOURNALMODE_DELETE \<Rightarrow> do {
             upd (\<lambda>p. p\<lparr>jfd_open := False\<rparr>);
             j_delete }) (finalised ss p) p"
  proof (cases "journalMode p")
    case PAGER_JOURNALMODE_DELETE
    then show ?thesis using nil by (auto simp: j_delete_def finalised_def intro!: wp_os_effect)
  next
    case PAGER_JOURNALMODE_PERSIST
    then show ?thesis unfolding PAGER_JOURNALMODE_PERSIST journal_mode.case wp_bind
      by (intro wp_cons [OF zeroJournalHdr_wp [OF assms(1,2), of m]]) (simp add: part_def)
  next
    case PAGER_JOURNALMODE_TRUNCATE
    then show ?thesis using nil assms(2)
      by (auto simp: j_truncate_def finalised_def jfile_def map_option_case intro!: wp_os_effect split: option.splits)
  qed
  show ?thesis
    unfolding pager_end_transaction_def wp_bind wp_get if_not_P [OF l] if_P [OF assms(3)]
  proof (rule wp_cons [OF journal], goal_cases)
    case (1 rc q)
    show ?case
      unfolding wp_upd simp_thms if_False wp_ret
      by (rule pagerUnlockDb_wp)
        (use finalised_then [OF 1] in simp)
  qed
qed

section \<open>Rolling back a hot journal\<close>

text \<open>The outcome of a recovery: the original can still be recovered, and on success the file is the original.\<close>

definition recovered :: "nat \<Rightarrow> nat \<Rightarrow> u8 list \<Rightarrow> pager \<Rightarrow> rc \<Rightarrow> pager \<Rightarrow> bool" where
  "recovered ss ps D0 p rc q \<longleftrightarrow> recoverable ss ps D0 (dbf q) (jfile q) \<and> io_fail q = io_fail p \<and>
     (rc = SQLITE_OK \<longrightarrow> dbf q = D0) \<and> (rc \<noteq> SQLITE_OK \<longrightarrow> fails p)"

lemma recovered_upd [simp]:
  "recovered ss ps D0 p rc (q\<lparr>io_tick := x1\<rparr>) = recovered ss ps D0 p rc q" "recovered ss ps D0 p rc (q\<lparr>eLock := x2\<rparr>) = recovered ss ps D0 p rc q"
  "recovered ss ps D0 p rc (q\<lparr>eState := x3\<rparr>) = recovered ss ps D0 p rc q" "recovered ss ps D0 p rc (q\<lparr>sectorSize := x4\<rparr>) = recovered ss ps D0 p rc q"
  "recovered ss ps D0 p rc (q\<lparr>mxPgno := x5\<rparr>) = recovered ss ps D0 p rc q" "recovered ss ps D0 p rc (q\<lparr>dbSize := x6\<rparr>) = recovered ss ps D0 p rc q"
  "recovered ss ps D0 p rc (q\<lparr>errCode := x7\<rparr>) = recovered ss ps D0 p rc q" "recovered ss ps D0 p rc (q\<lparr>pInJournal := x8\<rparr>) = recovered ss ps D0 p rc q"
  "recovered ss ps D0 p rc (q\<lparr>jfd_open := x9\<rparr>) = recovered ss ps D0 p rc q" "recovered ss ps D0 p rc (q\<lparr>journalOff := x10\<rparr>) = recovered ss ps D0 p rc q"
  "recovered ss ps D0 p rc (q\<lparr>journalHdr := x11\<rparr>) = recovered ss ps D0 p rc q" "recovered ss ps D0 p rc (q\<lparr>setMaster := x12\<rparr>) = recovered ss ps D0 p rc q"
  "recovered ss ps D0 p rc (q\<lparr>changeCountDone := x13\<rparr>) = recovered ss ps D0 p rc q" "recovered ss ps D0 p rc (pager_reset q) = recovered ss ps D0 p rc q"
  by (simp_all add: recovered_def pager_reset_def sqlite3PcacheTruncate_def Let_def jfile_def)

lemma recovered_bad: "recoverable ss ps D0 (dbf q) (jfile q) \<Longrightarrow> io_fail q = io_fail p \<Longrightarrow> fails p \<Longrightarrow> rc \<noteq> SQLITE_OK \<Longrightarrow> recovered ss ps D0 p rc q"
  by (simp add: recovered_def)

lemma finalised_recovered:
  assumes "finalised ss q rc q'" and "recoverable ss ps D0 D0 (jfile q)" and "dbf q = D0" and "io_fail q = io_fail p" and "length D0 = length D0 div ps * ps"
  shows "recovered ss ps D0 p rc q'"
  using assms recoverable_stop [of ss "jfile q'" D0 ps] by (auto simp: finalised_def recovered_def fails_def)

lemma pager_playback_wp:
  assumes geo: "geometry ss ps n0 D0" and p: "pageSize p = ps" "sectorSize p = ss" "db_open p" and nm: "no_master (jfile p)"
    and rec: "recoverable ss ps D0 (dbf p) (jfile p)" and sz: "length (jfile p) \<le> journalHdr p" and jo: "jfd_open p" "eLock p \<ge> RESERVED_LOCK"
  shows "wp (pager_playback True) (recovered ss ps D0 p) p"
proof -
  have g: "length D0 = length D0 div ps * ps" "32 \<le> ss" using geo by (auto simp: geometry_def)
  have final: "wp (pager_end_transaction m False) (recovered ss ps D0 p) q"
    if "played ss ps D0 p SQLITE_OK q" for q m
  proof -
    have c: "core q = core p" "dbf q = D0" "journalOff q = 0 \<longrightarrow> hdr_stop ss (jfile q) 0" "recoverable ss ps D0 D0 (jfile q)"
      using that by (auto simp: played_def)
    show ?thesis
      by (rule wp_cons [OF pager_end_transaction_wp [OF g(2) c(3)]])
        (use coreD [OF c(1)] jo finalised_recovered [OF _ c(4,2) _ g(1), where p = p] in simp_all)
  qed
  have same: "played ss ps D0 p SQLITE_OK q'" if "played ss ps D0 p SQLITE_OK q" "hdr_read q q'" "journalOff q' = journalOff q" for q q'
    using that hdr_readD [OF that(2)] by (auto simp: played_def)
  have bad: "recovered ss ps D0 p rc q" if "played ss ps D0 p rc' q" "fails p" "rc \<noteq> SQLITE_OK" for rc rc' q
    using that coreD(3) [of q p] by (intro recovered_bad) (auto simp: played_def)
  have tail: "wp (do {
     rc \<leftarrow> (if rc = SQLITE_OK \<and> b then sqlite3PagerSync else ret rc);
     rc \<leftarrow> (if rc = SQLITE_OK then pager_end_transaction (has_name z) False else ret rc);
     rc \<leftarrow> (if rc = SQLITE_OK \<and> has_name z \<and> res then os_effect SQLITE_IOERR id else ret rc);
     upd setSectorSize;
     ret rc }) (recovered ss ps D0 p) q"
    if q: "played ss ps D0 p SQLITE_OK q" "rc \<noteq> SQLITE_OK \<longrightarrow> fails p" "z = []" for rc b z res q
  proof -
    have nz: "has_name z = False" using q(3) by (simp add: has_name_def)
    have c: "core q = core p" using q(1) by (simp add: played_def)
    have tk: "played ss ps D0 p SQLITE_OK (tick q)" by (rule same [OF q(1)]) simp_all
    have sync: "wp (if rc = SQLITE_OK \<and> b then sqlite3PagerSync else ret rc)
      (\<lambda>rc q'. played ss ps D0 p SQLITE_OK q' \<and> (rc \<noteq> SQLITE_OK \<longrightarrow> fails p)) q"
      using q(1,2) tk coreD(4) [OF c] by (auto simp: sqlite3PagerSync_def os_sync_def intro!: wp_os_effect)
    show ?thesis unfolding wp_bind nz simp_thms if_False wp_ret wp_upd
    proof (rule wp_cons [OF sync], goal_cases)
      case (1 rc q')
      then show ?case using wp_cons [OF final [of q' False]] bad [of SQLITE_OK q' rc]
        by (cases "rc = SQLITE_OK") (auto simp: setSectorSize_def)
    qed
  qed
  show ?thesis
    unfolding pager_playback_def wp_bind [where m = "playback_body b" for b]
  proof (rule wp_cons [OF playback_body_wp [OF geo p nm rec sz]], goal_cases)
    case (1 x q)
    obtain rc res where x: "x = (rc, res)" by (cases x)
    have pl: "played ss ps D0 p rc (q\<lparr>changeCountDone := False\<rparr>)" using 1 by (simp add: x played_def jfile_def)
    define q1 where "q1 = q\<lparr>changeCountDone := False\<rparr>"
    show ?case
    proof (cases "rc = SQLITE_OK")
      case False
      then show ?thesis using bad [OF pl _ False] pl by (simp add: x played_def setSectorSize_def recovered_def)
    next
      case True
      have pl1: "played ss ps D0 p SQLITE_OK q1" "no_master (jfile q1)"
        using pl True nm coreD(2) [of q1 p] by (auto simp: q1_def played_def)
      show ?thesis
        unfolding x prod.case wp_bind [where m = "upd f" for f] wp_upd wp_get wp_bind [where m = "readMasterJournal k" for k] wp_bind [where m = getp] q1_def [symmetric] if_P [OF True]
      proof (rule wp_cons [OF readMasterJournal_wp [OF pl1(2)]], goal_cases)
        case (1 y q2)
        obtain rc z where y: "y = (rc, z)" by (cases y)
        have "played ss ps D0 p SQLITE_OK q2" "rc \<noteq> SQLITE_OK \<longrightarrow> fails p" "z = []"
          using 1 same [OF pl1(1), of q2] coreD(4) [of q1 p] pl1(1) by (auto simp: y played_def)
        then show ?case unfolding y prod.case by (rule tail)
      qed
    qed
  qed
qed

section \<open>Obtaining a shared lock\<close>

text \<open>
  A pager without a lock that finds a database file and a journal: \<open>cold\<close> describes it relative to the original, and the
  steps up to the playback keep it.
\<close>

definition cold :: "nat \<Rightarrow> nat \<Rightarrow> u8 list \<Rightarrow> pager \<Rightarrow> bool" where
  "cold ss ps D0 p \<longleftrightarrow> geometry ss ps (length D0 div ps) D0 \<and> pageSize p = ps \<and> sectorSize p = ss \<and> eState p = PAGER_OPEN \<and>
     no_master (jfile p) \<and> recoverable ss ps D0 (dbf p) (jfile p)"

lemma cold_upd [simp]:
  "cold ss ps D0 (p\<lparr>io_tick := x1\<rparr>) = cold ss ps D0 p" "cold ss ps D0 (p\<lparr>eLock := x2\<rparr>) = cold ss ps D0 p"
  "cold ss ps D0 (p\<lparr>mxPgno := x3\<rparr>) = cold ss ps D0 p" "cold ss ps D0 (p\<lparr>journalHdr := x4\<rparr>) = cold ss ps D0 p"
  "cold ss ps D0 (p\<lparr>jfd_open := x5\<rparr>) = cold ss ps D0 p" "j = jfile p \<Longrightarrow> cold ss ps D0 (p\<lparr>jrnl := Some j\<rparr>) = cold ss ps D0 p"
  by (simp_all add: cold_def)

text \<open>A step that leaves the pager cold.\<close>

definition cold_step :: "nat \<Rightarrow> nat \<Rightarrow> u8 list \<Rightarrow> pager \<Rightarrow> rc \<Rightarrow> pager \<Rightarrow> bool" where
  "cold_step ss ps D0 p rc q \<longleftrightarrow> cold ss ps D0 q \<and> io_fail q = io_fail p \<and> readOnly q = readOnly p \<and> (rc \<noteq> SQLITE_OK \<longrightarrow> fails p)"

lemma cold_step_recovered: "cold_step ss ps D0 p rc q \<Longrightarrow> rc \<noteq> SQLITE_OK \<Longrightarrow> recovered ss ps D0 p rc q"
  by (simp add: cold_step_def cold_def recovered_def)

lemma recovered_step: "cold_step ss ps D0 p rc q \<Longrightarrow> recovered ss ps D0 q rc' q' \<Longrightarrow> recovered ss ps D0 p rc' q'"
  by (auto simp: cold_step_def recovered_def fails_def)

lemma pagerLockDb_wp:
  assumes "\<And>rc t e. (rc \<noteq> SQLITE_OK \<longrightarrow> fails p) \<Longrightarrow> (rc = SQLITE_OK \<longrightarrow> lvl \<le> e) \<Longrightarrow> Q rc (p\<lparr>io_tick := t, eLock := e\<rparr>)" and "lvl \<le> EXCLUSIVE_LOCK"
  shows "wp (pagerLockDb lvl) Q p"
proof -
  have same: "p\<lparr>io_tick := t, eLock := eLock p\<rparr> = p\<lparr>io_tick := t\<rparr>" for t by (cases p) simp
  have self: "p\<lparr>io_tick := io_tick p, eLock := eLock p\<rparr> = p" by (cases p) simp
  note a = assms(1) [of _ "eLock p", unfolded same] assms(1) [of SQLITE_OK "eLock p" "io_tick p", unfolded self] assms(1) [of SQLITE_OK lvl]
  show ?thesis
  proof (cases "eLock p < lvl \<or> eLock p = UNKNOWN_LOCK")
    case True
    have u: "eLock p = UNKNOWN_LOCK \<Longrightarrow> lvl \<le> eLock p" using assms(2) by (simp add: UNKNOWN_LOCK_def EXCLUSIVE_LOCK_def)
    show ?thesis
      unfolding pagerLockDb_def wp_bind wp_get if_P [OF True]
      by (rule wp_os_lock) (use a u in simp_all)
  next
    case False
    then show ?thesis unfolding pagerLockDb_def wp_bind wp_get if_not_P [OF False] using a(2) by simp
  qed
qed

lemma cold_step_refl: "cold ss ps D0 p \<Longrightarrow> cold_step ss ps D0 p SQLITE_OK p"
  by (simp add: cold_step_def)

lemma cold_step_upd [simp]:
  "cold_step ss ps D0 p rc (q\<lparr>io_tick := x1\<rparr>) = cold_step ss ps D0 p rc q" "cold_step ss ps D0 p rc (q\<lparr>eLock := x2\<rparr>) = cold_step ss ps D0 p rc q"
  "cold_step ss ps D0 p rc (q\<lparr>mxPgno := x3\<rparr>) = cold_step ss ps D0 p rc q" "cold_step ss ps D0 p rc (q\<lparr>journalHdr := x4\<rparr>) = cold_step ss ps D0 p rc q"
  "cold_step ss ps D0 p rc (q\<lparr>jfd_open := x5\<rparr>) = cold_step ss ps D0 p rc q" "j = jfile q \<Longrightarrow> cold_step ss ps D0 p rc (q\<lparr>jrnl := Some j\<rparr>) = cold_step ss ps D0 p rc q"
  by (simp_all add: cold_step_def)

lemma cold_step_fails: "cold_step ss ps D0 p rc q \<Longrightarrow> fails q = fails p"
  by (simp add: cold_step_def fails_def)

lemma cold_step_failed: "cold_step ss ps D0 p rc q \<Longrightarrow> fails p \<Longrightarrow> cold_step ss ps D0 p rc' q"
  by (simp add: cold_step_def)

lemma cold_dead:
  assumes "cold_step ss ps D0 p rc q" and "hdr_stop ss (jfile q) 0"
  shows "dbf q = D0"
  using assms recoverable_dead by (auto simp: cold_step_def cold_def)

lemma pagerSyncHotJournal_wp:
  assumes "cold_step ss ps D0 p SQLITE_OK q"
  shows "wp pagerSyncHotJournal (\<lambda>rc q'. cold_step ss ps D0 p rc q' \<and> jfd_open q' = jfd_open q \<and> eLock q' = eLock q \<and>
    (rc = SQLITE_OK \<longrightarrow> length (jfile q') \<le> journalHdr q')) q" (is "wp _ ?Q q")
proof -
  have sync: "wp (if \<not> noSync q then os_sync else ret SQLITE_OK) (\<lambda>rc q'. cold_step ss ps D0 p rc q' \<and> jfd_open q' = jfd_open q \<and> eLock q' = eLock q) q"
    using assms cold_step_fails [OF assms] cold_step_failed [OF assms] by (auto simp: os_sync_def intro!: wp_os_effect)
  show ?thesis
    unfolding pagerSyncHotJournal_def wp_bind wp_get
  proof (rule wp_cons [OF sync], goal_cases)
    case (1 rc q1)
    show ?case
    proof (cases "rc = SQLITE_OK")
      case True
      show ?thesis unfolding if_P [OF True] wp_bind
        by (rule wp_os_size) (use 1 True cold_step_fails [of ss ps D0 p rc q1] cold_step_failed [of ss ps D0 p rc q1] in auto)
    qed (use 1 in simp)
  qed
qed

lemma wp_exists:
  assumes "Q (SQLITE_OK, jrnl p \<noteq> None) (tick p)" and "fails p \<Longrightarrow> Q (SQLITE_IOERR, b) (tick p)"
  shows "wp (io_call SQLITE_IOERR (\<lambda>p. (jrnl p \<noteq> None, p)) (\<lambda>_ p. (b, p))) Q p"
  using assms by (auto simp: wp_io_call fails_def split: option.splits)

lemma rollback_hot_journal_wp:
  assumes "cold ss ps D0 p"
  shows "wp rollback_hot_journal (recovered ss ps D0 p) p"
proof -
  have geo: "geometry ss ps (length D0 div ps) D0" using assms by (simp add: cold_def)
  then have nil: "hdr_stop ss [] 0" by (simp add: hdr_stop_def geometry_def)
  have playback: "wp (do {
       rc \<leftarrow> pagerSyncHotJournal;
       if rc = SQLITE_OK then do {
         rc \<leftarrow> pager_playback True;
         upd (\<lambda>p. p\<lparr>eState := PAGER_OPEN\<rparr>);
         ret rc }
       else ret rc }) (recovered ss ps D0 p) q"
    if q: "cold_step ss ps D0 p SQLITE_OK q" "jfd_open q" "eLock q \<ge> RESERVED_LOCK" for q
    unfolding wp_bind
  proof (rule wp_cons [OF pagerSyncHotJournal_wp [OF q(1)]], goal_cases)
    case (1 rc q1)
    show ?case
    proof (cases "rc = SQLITE_OK")
      case True
      have "wp (pager_playback True) (recovered ss ps D0 q1) q1"
        by (rule pager_playback_wp [OF geo]) (use 1 True q in \<open>auto simp: cold_step_def cold_def db_open_def\<close>)
      then have "wp (pager_playback True) (recovered ss ps D0 p) q1"
        by (rule wp_cons) (use 1 recovered_step in blast)
      then show ?thesis unfolding if_P [OF True] wp_bind by (rule wp_cons) simp
    qed (use 1 cold_step_recovered in auto)
  qed
  have error: "recovered ss ps D0 p rc q \<Longrightarrow> wp (if rc \<noteq> SQLITE_OK then pager_error rc else ret SQLITE_OK) (recovered ss ps D0 p) q" for rc q
    by (auto simp: pager_error_def)
  have journal: "wp (if jfd_open q then ret SQLITE_OK else do {
           (rc, bExists) \<leftarrow> io_call SQLITE_IOERR (\<lambda>p. (jrnl p \<noteq> None, p)) (\<lambda>_ p. (False, p));
           if rc = SQLITE_OK \<and> bExists then j_open else ret rc })
      (\<lambda>rc q'. cold_step ss ps D0 p rc q' \<and> eLock q' = eLock q \<and> (jfd_open q' \<longrightarrow> rc = SQLITE_OK) \<and>
        (\<not> jfd_open q' \<longrightarrow> rc = SQLITE_OK \<longrightarrow> dbf q' = D0)) q" if q: "cold_step ss ps D0 p SQLITE_OK q" for q
  proof (cases "jfd_open q")
    case False
    have gone: "dbf q = D0" if "jrnl q = None" using cold_dead [OF q] nil that by (simp add: jfile_def)
    show ?thesis
      unfolding if_not_P [OF False] wp_bind
      by (rule wp_exists) (use False q gone cold_step_fails [OF q] cold_step_failed [OF q] in \<open>auto simp: j_open_def intro!: wp_os_effect\<close>)
  qed (use q in simp)
  show ?thesis
    unfolding rollback_hot_journal_def wp_bind [where m = "pagerLockDb l" for l]
  proof (rule pagerLockDb_wp, goal_cases)
    case (1 rc t e)
    define p1 where "p1 = p\<lparr>io_tick := t, eLock := e\<rparr>"
    show ?case
    proof (cases "rc = SQLITE_OK")
      case False
      then show ?thesis using 1 assms by (simp add: recovered_def cold_def)
    next
      case True
      have p1: "cold_step ss ps D0 p SQLITE_OK p1" "eLock p1 \<ge> RESERVED_LOCK"
        using assms 1(2) True by (simp_all add: p1_def cold_step_refl EXCLUSIVE_LOCK_def RESERVED_LOCK_def)
      show ?thesis
        unfolding True simp_thms if_False wp_bind wp_get p1_def [symmetric]
      proof (rule wp_cons [OF journal [OF p1(1)]], goal_cases)
        case (1 rc q)
        show ?case
        proof (cases "jfd_open q")
          case True
          have "cold_step ss ps D0 p SQLITE_OK q" "eLock q \<ge> RESERVED_LOCK" using 1 True p1(2) by auto
          then show ?thesis unfolding if_P [OF True]
            by (intro wp_cons [OF playback [OF _ True]] error)
        next
          case False
          have rec: "recovered ss ps D0 p rc q" using 1 False by (auto simp: cold_step_def cold_def recovered_def)
          show ?thesis unfolding if_not_P [OF False] wp_bind wp_ret
            by (rule pagerUnlockDb_wp) (rule error, use rec in simp)
        qed
      qed
    qed
  qed (simp add: EXCLUSIVE_LOCK_def)
qed

lemma pagerPagecount_wp:
  assumes "\<And>rc n t m. (rc \<noteq> SQLITE_OK \<longrightarrow> fails p) \<Longrightarrow> (rc = SQLITE_OK \<longrightarrow> n = (length (dbf p) + pageSize p - 1) div pageSize p) \<Longrightarrow>
    Q (rc, n) (p\<lparr>io_tick := t, mxPgno := m\<rparr>)"
  shows "wp pagerPagecount Q p"
proof -
  have same: "p\<lparr>io_tick := t, mxPgno := mxPgno p\<rparr> = p\<lparr>io_tick := t\<rparr>" for t by (cases p) simp
  show ?thesis
    unfolding pagerPagecount_def wp_bind wp_get
    by (rule wp_os_size) (use assms assms [of _ _ "mxPgno p", unfolded same] in \<open>auto simp: Let_def\<close>)
qed


text \<open>A journal that is found not to be hot, and a database of size zero, leave the original.\<close>

lemma hdr_stop_first:
  assumes "file_read J 1 0 = (rc, b)" and "\<not> (b \<noteq> [] \<and> hd b \<noteq> 0)"  and "0 < ss"
  shows "hdr_stop ss J 0"
proof (cases J)
  case (Cons x xs)
  then have "x = 0" using assms(1,2) by (auto simp: file_read_def Let_def)
  then show ?thesis by (simp add: Cons hdr_stop_def aJournalMagic_def)
qed (use assms(3) in \<open>simp add: hdr_stop_def\<close>)

definition hot_post :: "nat \<Rightarrow> nat \<Rightarrow> u8 list \<Rightarrow> pager \<Rightarrow> rc \<times> bool \<Rightarrow> pager \<Rightarrow> bool" where
  "hot_post ss ps D0 p x q \<longleftrightarrow> (case x of (rc, hot) \<Rightarrow> 
     if rc = SQLITE_OK \<and> hot then cold_step ss ps D0 p SQLITE_OK q else recovered ss ps D0 p rc q)"

lemma hasHotJournal_wp:
  assumes "cold ss ps D0 p"
  shows "wp (hasHotJournal False) (hot_post ss ps D0 p) p"
proof -
  have geo: "geometry ss ps (length D0 div ps) D0" using assms by (simp add: cold_def)
  then have g: "hdr_stop ss [] 0" "0 < ss" "512 \<le> ps" "length D0 = length D0 div ps * ps" by (auto simp: hdr_stop_def geometry_def)
  have dead: "recovered ss ps D0 p SQLITE_OK q" if "cold_step ss ps D0 p rc q" "hdr_stop ss (jfile q) 0" for rc q
    using cold_dead [OF that] that by (simp add: cold_step_def cold_def recovered_def)
  have exists: "wp (if jfd_open p then ret (SQLITE_OK, True)
        else io_call SQLITE_IOERR (\<lambda>p. (jrnl p \<noteq> None, p)) (\<lambda>_ p. (True, p)))
      (\<lambda>(rc, ex) q. cold_step ss ps D0 p rc q \<and> jfd_open q = jfd_open p \<and> (rc = SQLITE_OK \<and> \<not> ex \<longrightarrow> jfile q = [])) p"
  proof (cases "jfd_open p")
    case False
    show ?thesis unfolding if_not_P [OF False] by (rule wp_exists) (use assms in \<open>auto simp: cold_step_def jfile_def\<close>)
  qed (use assms cold_step_refl in simp)
  have first: "wp (os_read jfile 1 0) (\<lambda>x. wp (case x of (rc, b) \<Rightarrow>
      ret (if rc = SQLITE_IOERR_SHORT_READ then SQLITE_OK else rc, b \<noteq> [] \<and> hd b \<noteq> 0)) (hot_post ss ps D0 p)) q"
    if q: "cold_step ss ps D0 p SQLITE_OK q" for q
  proof (rule wp_os_read, goal_cases)
    case 1
    obtain rc b where r: "file_read (jfile q) 1 0 = (rc, b)" by fastforce
    then have "rc \<in> {SQLITE_OK, SQLITE_IOERR_SHORT_READ}" by (simp add: file_read_def Let_def split: if_splits)
    then show ?case using q dead [OF q hdr_stop_first [OF r _ g(2)]] by (auto simp: r [unfolded One_nat_def] hot_post_def)
  qed (use q cold_step_fails [OF q] cold_step_recovered [OF cold_step_failed [OF q]] in \<open>simp add: hot_post_def\<close>)
  have empty: "wp (do {
           rc \<leftarrow> pagerLockDb RESERVED_LOCK;
           if rc = SQLITE_OK then do { _ \<leftarrow> j_delete; _ \<leftarrow> pagerUnlockDb SHARED_LOCK; ret (SQLITE_OK, False) }
           else ret (SQLITE_OK, False) }) (hot_post ss ps D0 p) q"
    if q: "cold_step ss ps D0 p SQLITE_OK q" "(length (dbf q) + pageSize q - 1) div pageSize q = 0" for q
  proof -
    have "pageSize q = ps" using q(1) by (simp add: cold_step_def cold_def)
    then have "length (dbf q) + ps - 1 < ps" using q(2) g(3) by (simp add: div_eq_0_iff)
    then have "length (dbf q) = 0" using g(3) by linarith
    then have "dbf q = []" by simp
    moreover have "length D0 div ps * ps \<le> length (dbf q)"
      using q(1) by (auto simp: cold_step_def cold_def recoverable_def Let_def dbok_def)
    ultimately have d: "dbf q = D0" "D0 = []" using g(4) by auto
    have del: "wp j_delete (\<lambda>_ q'. recovered ss ps D0 p SQLITE_OK q') q'" if "recovered ss ps D0 p SQLITE_OK q'" for q'
      using that d recoverable_stop [OF g(1), of D0 ps] by (auto simp: j_delete_def recovered_def intro!: wp_os_effect)
    have r: "recovered ss ps D0 p SQLITE_OK q" using q(1) d by (auto simp: cold_step_def cold_def recovered_def)
    show ?thesis
      unfolding wp_bind [where m = "pagerLockDb l" for l]
    proof (rule pagerLockDb_wp, goal_cases)
      case (1 rc t e)
      show ?case
      proof (cases "rc = SQLITE_OK")
        case True
        show ?thesis unfolding if_P [OF True] wp_bind
          by (rule wp_cons [OF del], use r in simp, rule pagerUnlockDb_wp) (simp add: hot_post_def)
      qed (use r in \<open>simp add: hot_post_def\<close>)
    qed (simp add: RESERVED_LOCK_def EXCLUSIVE_LOCK_def)
  qed
  have jopen: "wp (if jfd_open p then ret SQLITE_OK else os_open)
      (\<lambda>rc q'. cold_step ss ps D0 p SQLITE_OK q' \<and> (rc \<noteq> SQLITE_OK \<longrightarrow> fails p)) q"
    if q: "cold_step ss ps D0 p SQLITE_OK q" for q
    by (cases "jfd_open p") (use q cold_step_fails [OF q] in \<open>auto intro!: wp_os_open\<close>)
  have bad: "hot_post ss ps D0 p (rc, b) q" if "cold_step ss ps D0 p rc q" "rc \<noteq> SQLITE_OK" for rc b q
    using that cold_step_recovered by (simp add: hot_post_def)
  have count: "wp pagerPagecount (\<lambda>x. wp (case x of (rc, nPage) \<Rightarrow>
         if rc \<noteq> SQLITE_OK then ret (rc, False)
         else if nPage = 0 then do {
           rc \<leftarrow> pagerLockDb RESERVED_LOCK;
           if rc = SQLITE_OK then do { _ \<leftarrow> j_delete; _ \<leftarrow> pagerUnlockDb SHARED_LOCK; ret (SQLITE_OK, False) }
           else ret (SQLITE_OK, False) }
         else do {
           rc \<leftarrow> (if jfd_open p then ret SQLITE_OK else os_open);
           if rc = SQLITE_OK then do {
             (rc, b) \<leftarrow> os_read jfile 1 0;
             ret (if rc = SQLITE_IOERR_SHORT_READ then SQLITE_OK else rc, b \<noteq> [] \<and> hd b \<noteq> 0) }
           else if rc = SQLITE_CANTOPEN then ret (SQLITE_OK, True)
           else ret (rc, False) }) (hot_post ss ps D0 p)) q"
    if q: "cold_step ss ps D0 p SQLITE_OK q" for q
  proof (rule pagerPagecount_wp, goal_cases)
    case (1 rc n t m)
    define q1 where "q1 = q\<lparr>io_tick := t, mxPgno := m\<rparr>"
    have q1: "cold_step ss ps D0 p SQLITE_OK q1" "dbf q1 = dbf q" "pageSize q1 = pageSize q" using q by (simp_all add: q1_def)
    show ?case
    proof (cases "rc = SQLITE_OK")
      case False
      have "cold_step ss ps D0 p rc q1" using cold_step_failed [OF q1(1)] 1(1) cold_step_fails [OF q] False by simp
      then show ?thesis unfolding prod.case q1_def [symmetric] if_P [OF False] wp_ret by (rule bad [OF _ False])
    next
      case True
      show ?thesis
      proof (cases "n = 0")
        case n0: True
        have "(length (dbf q1) + pageSize q1 - 1) div pageSize q1 = 0" using 1(2) True n0 q1(2,3) by simp
        then show ?thesis unfolding prod.case q1_def [symmetric] True simp_thms if_False if_P [OF n0] by (rule empty [OF q1(1)])
      next
        case n0: False
        show ?thesis unfolding prod.case q1_def [symmetric] True simp_thms if_False if_not_P [OF n0] wp_bind [where m = "if b then u else v" for b u v]
        proof (rule wp_cons [OF jopen [OF q1(1)]], goal_cases)
          case (1 rc q2)
          then have q2: "cold_step ss ps D0 p SQLITE_OK q2" and f: "rc \<noteq> SQLITE_OK \<Longrightarrow> fails p" by simp_all
          show ?case
            by (cases "rc = SQLITE_OK")
              (use first [OF q2] q2 bad [OF cold_step_failed [OF q2 f]] in \<open>simp_all add: hot_post_def\<close>)
        qed
      qed
    qed
  qed
  show ?thesis
    unfolding hasHotJournal_def wp_bind [where m = "if b then u else v" for b u v] wp_bind [where m = getp] wp_get
  proof (rule wp_cons [OF exists], goal_cases)
    case (1 x q)
    obtain rc ex where x: "x = (rc, ex)" by (cases x)
    show ?case
    proof (cases "rc = SQLITE_OK \<and> ex")
      case True
      then have q: "cold_step ss ps D0 p SQLITE_OK q" using 1 by (simp add: x)
      have c: "\<not> (rc \<noteq> SQLITE_OK \<or> \<not> ex)" using True by simp
      show ?thesis
        unfolding x prod.case if_not_P [OF c] wp_bind [where m = "os_effect e id" for e]
        by (rule wp_os_effect) (use bad cold_step_failed [OF q] cold_step_fails [OF q] count q in simp_all)
    next
      case False
      then show ?thesis using 1 bad [of rc q False] dead [of SQLITE_OK q] g(1) by (cases "rc = SQLITE_OK") (auto simp: x hot_post_def)
    qed
  qed
qed


lemma recovered_then: "recovered ss ps D0 p SQLITE_OK q \<Longrightarrow> (rc \<noteq> SQLITE_OK \<longrightarrow> fails q) \<Longrightarrow> recovered ss ps D0 p rc q"
  by (auto simp: recovered_def fails_def)

lemma check_cache_wp:
  assumes "recovered ss ps D0 p SQLITE_OK q"
  shows "wp check_cache (recovered ss ps D0 p) q"
proof (cases "pPCache q = []")
  case False
  have vers: "wp (if 0 < n then os_read dbf 16 24 else ret (SQLITE_OK, replicate 16 0))
    (\<lambda>(rc, v) q'. recovered ss ps D0 p SQLITE_OK q' \<and> (rc \<noteq> SQLITE_OK \<and> rc \<noteq> SQLITE_IOERR_SHORT_READ \<longrightarrow> fails q')) q'"
    if "recovered ss ps D0 p SQLITE_OK q'" for n q'
  proof (cases "0 < n")
    case True
    show ?thesis unfolding if_P [OF True]
      by (rule wp_os_read) (use that in \<open>auto simp: file_read_def Let_def\<close>)
  qed (use that in simp)
  show ?thesis
    unfolding check_cache_def wp_bind wp_get if_P [OF False]
  proof (rule pagerPagecount_wp, goal_cases)
    case (1 rc n t m)
    have q': "recovered ss ps D0 p SQLITE_OK (q\<lparr>io_tick := t, mxPgno := m\<rparr>)" using assms by simp
    show ?case
    proof (cases "rc = SQLITE_OK")
      case True
      show ?thesis unfolding True prod.case simp_thms if_False wp_bind
        by (rule wp_cons [OF vers [OF q']]) (use recovered_then in auto)
    next
      case False
      then show ?thesis using recovered_then [OF q'] 1(1) by simp
    qed
  qed
qed (use assms in \<open>simp add: check_cache_def\<close>)

lemma shared_lock_open_wp:
  assumes "cold ss ps D0 p" and "\<not> readOnly p"
  shows "wp (shared_lock_open False) (recovered ss ps D0 p) p"
proof -
  have rest: "wp (if rc \<noteq> SQLITE_OK then ret rc else do {
           rc \<leftarrow> check_cache;
           if rc \<noteq> SQLITE_OK then ret rc
           else do {
             (rc, nPage) \<leftarrow> pagerPagecount;
             upd (\<lambda>p. if rc = SQLITE_OK then p\<lparr>dbSize := nPage\<rparr> else p);
             ret rc } }) (recovered ss ps D0 p) q" if r: "recovered ss ps D0 p rc q" for rc q
  proof (cases "rc = SQLITE_OK")
    case True
    have count: "wp pagerPagecount (\<lambda>x. wp (case x of (rc, nPage) \<Rightarrow> do {
        upd (\<lambda>p. if rc = SQLITE_OK then p\<lparr>dbSize := nPage\<rparr> else p); ret rc }) (recovered ss ps D0 p)) q'"
      if "recovered ss ps D0 p SQLITE_OK q'" for q'
      by (rule pagerPagecount_wp) (use recovered_then [OF that] in auto)
    show ?thesis unfolding True simp_thms if_False wp_bind [where m = check_cache]
    proof (rule wp_cons [OF check_cache_wp [OF r [unfolded True]]], goal_cases)
      case (1 rc q')
      then show ?case using count [of q'] by (cases "rc = SQLITE_OK") simp_all
    qed
  qed (use r in simp)
  have hot: "wp (if eLock q \<le> SHARED_LOCK then hasHotJournal False else ret (SQLITE_OK, True)) (hot_post ss ps D0 p) q" 
    if q: "cold_step ss ps D0 p SQLITE_OK q" for q
  proof (cases "eLock q \<le> SHARED_LOCK")
    case True
    have c: "cold ss ps D0 q" using q by (simp add: cold_step_def)
    have t: "hot_post ss ps D0 q x q' \<Longrightarrow> hot_post ss ps D0 p x q'" for x q'
      using q recovered_step [OF q] by (auto simp: hot_post_def cold_step_def fails_def split: if_splits)
    show ?thesis unfolding if_P [OF True] by (rule wp_cons [OF hasHotJournal_wp [OF c]]) (rule t)
  qed (use q in \<open>simp add: hot_post_def\<close>)
  show ?thesis
    unfolding shared_lock_open_def pager_wait_on_lock_def wp_bind [where m = "pagerLockDb l" for l]
  proof (rule pagerLockDb_wp, goal_cases)
    case (1 rc t e)
    define q where "q = p\<lparr>io_tick := t, eLock := e\<rparr>"
    have q: "cold_step ss ps D0 p SQLITE_OK q" "\<not> readOnly q" using assms by (simp_all add: q_def cold_step_refl)
    show ?case
    proof (cases "rc = SQLITE_OK")
      case True
      show ?thesis unfolding True simp_thms if_False q_def [symmetric] wp_bind [where m = getp] wp_get wp_bind [where m = "if b then u else v" for b u v]
      proof (rule wp_cons [OF hot [OF q(1)]], goal_cases)
        case (1 x q1)
        obtain rc hot where x: "x = (rc, hot)" by (cases x)
        show ?case
        proof (cases "rc = SQLITE_OK \<and> hot")
          case True
          then have q1: "cold_step ss ps D0 p SQLITE_OK q1" "cold ss ps D0 q1" using 1 by (simp_all add: x hot_post_def cold_step_def)
          have tr: "rc = SQLITE_OK" "hot" using True by simp_all
          show ?thesis unfolding x prod.case tr(1) simp_thms if_False if_P [OF tr(2)] if_not_P [OF q(2)] wp_bind [where m = rollback_hot_journal]
            by (rule wp_cons [OF rollback_hot_journal_wp [OF q1(2)]]) (rule rest, rule recovered_step [OF q1(1)])
        next
          case False
          then have "recovered ss ps D0 p rc q1" using 1 by (simp add: x hot_post_def split: if_splits)
          then show ?thesis unfolding x prod.case using False rest [of rc q1] by (cases "rc = SQLITE_OK") simp_all
        qed
      qed
    next
      case False
      then show ?thesis using q(1) 1(1) cold_step_recovered [OF cold_step_failed [OF q(1)]] by (simp add: q_def [symmetric])
    qed
  qed (simp add: SHARED_LOCK_def EXCLUSIVE_LOCK_def)
qed

lemma pager_unlock_wp: "recovered ss ps D0 p rc q \<Longrightarrow> wp pager_unlock (\<lambda>_ q. recovered ss ps D0 p rc q) q"
  unfolding pager_unlock_def wp_bind wp_upd
  by (rule pagerUnlockDb_wp) simp

lemma sqlite3PagerSharedLock_wp:
  assumes "cold ss ps D0 p" and "\<not> readOnly p"
  shows "wp (sqlite3PagerSharedLock False) (recovered ss ps D0 p) p"
proof -
  have o: "eState p = PAGER_OPEN" using assms(1) by (simp add: cold_def)
  show ?thesis
    unfolding sqlite3PagerSharedLock_def wp_bind [where m = getp] wp_get if_P [OF o] wp_bind [where m = "shared_lock_open b" for b]
  proof (rule wp_cons [OF shared_lock_open_wp [OF assms]], goal_cases)
    case (1 rc q)
    then show ?case using wp_cons [OF pager_unlock_wp [OF 1]] by (cases "rc = SQLITE_OK") simp_all
  qed
qed

text \<open>
  \<^bold>\<open>C1.\<close> Recovery from a hot journal. A database file and a rollback journal that determine an original database are left in
  that condition by \<open>sqlite3PagerSharedLock\<close>, whichever calls to the operating system fail on the way and however much of a
  failed write has reached the disk, so that recovery can be interrupted and repeated; if it returns \<open>SQLITE_OK\<close> the
  database file is the original, byte for byte; and it can fail only if some call failed.
\<close>

theorem hot_journal_restores:
  assumes "geometry ss ps (length D0 div ps) D0" and "pageSize p = ps" and "sectorSize p = ss" and "eState p = PAGER_OPEN"
    and "\<not> readOnly p" and "no_master (jfile p)" and "recoverable ss ps D0 (dbf p) (jfile p)"
    and "run_state (sqlite3PagerSharedLock False) p = (rc, q)"
  shows "recoverable ss ps D0 (dbf q) (jfile q) \<and> (rc = SQLITE_OK \<longrightarrow> dbf q = D0) \<and> (rc \<noteq> SQLITE_OK \<longrightarrow> (\<exists>k. io_fail p k \<noteq> None))"
proof -
  have "cold ss ps D0 p" using assms(1-4,6,7) by (simp add: cold_def)
  from sqlite3PagerSharedLock_wp [OF this assms(5)] show ?thesis
    by (simp add: wp_def assms(8) recovered_def fails_def)
qed

lemma crashed_recoverable: "recoverable 512 512 (replicate 512 3) (replicate 512 9) crashed_journal"
  unfolding recoverable_def Let_def
  apply (intro exI [of _ "[(7, [(1, replicate 512 3)])]"] exI [of _ 1536] conjI)
  subgoal
    by (simp add: crashed_journal_def hdr_at_def u32_at_def sqlite3Get4byte_def roundup_def aJournalMagic_def) (simp add: cksum_loop.simps)
  subgoal by (simp add: crashed_journal_def hdr_stop_def aJournalMagic_def)
  subgoal by (simp add: good_recs_def page_def PENDING_BYTE_def)
  subgoal by (auto simp: dbok_def seg_pages_def)
  subgoal by simp
  done

theorem hot_journal_restores_witness:
  "dbf crashed_pager \<noteq> replicate 512 3 \<and> fst (run_state (sqlite3PagerSharedLock False) crashed_pager) = SQLITE_OK \<and>
   dbf (snd (run_state (sqlite3PagerSharedLock False) crashed_pager)) = replicate 512 3"
proof -
  have j: "jfile crashed_pager = crashed_journal" by (simp add: crashed_pager_def jfile_def)
  have geo: "geometry 512 512 (length (replicate 512 (3 :: u8)) div 512) (replicate 512 (3 :: u8))"
    by (simp add: geometry_def is_pow2_def SQLITE_MAX_PAGE_SIZE_def MAX_SECTOR_SIZE_def)
  have nm: "no_master (jfile crashed_pager)" by (simp add: j crashed_journal_def no_master_def aJournalMagic_def)
  have rec: "recoverable 512 512 (replicate 512 3) (dbf crashed_pager) (jfile crashed_pager)"
    using crashed_recoverable by (simp add: j) (simp add: crashed_pager_def)
  obtain rc q where r: "run_state (sqlite3PagerSharedLock False) crashed_pager = (rc, q)" by fastforce
  from hot_journal_restores [OF geo _ _ _ _ nm rec r] have "rc = SQLITE_OK" "dbf q = replicate 512 3"
    by (auto simp: crashed_pager_def)
  moreover have "dbf crashed_pager \<noteq> replicate 512 3" by (simp add: crashed_pager_def)
  ultimately show ?thesis by (simp add: r)
qed

end
