(* ===== verification/Pager_Txn.thy ===== *)
theory Pager_Txn
  imports Pager_Hot
begin

text \<open>
  The writing side of the rollback journal: a transaction that journals pages, syncs the journal, spills dirty pages and
  writes the database file keeps the original database recoverable at every point where it can be interrupted.
\<close>

section \<open>Journals that agree below an offset\<close>

definition same_on :: "nat \<Rightarrow> nat \<Rightarrow> u8 list \<Rightarrow> u8 list \<Rightarrow> bool" where
  "same_on d e J J' \<longleftrightarrow> length J \<le> length J' \<and> (\<forall>i < length J. d \<le> i \<and> i < e \<longrightarrow> J' ! i = J ! i)"

abbreviation same_below :: "nat \<Rightarrow> u8 list \<Rightarrow> u8 list \<Rightarrow> bool" where
  "same_below \<equiv> same_on 0"

lemma same_on_part:
  assumes "same_on d e J J'" and "d \<le> a" and "a + n \<le> length J" and "a + n \<le> e"
  shows "take n (drop a J') = take n (drop a J)"
  by (rule nth_equalityI) (use assms in \<open>auto simp: same_on_def\<close>)

lemma same_on_u32: "same_on d e J J' \<Longrightarrow> d \<le> a \<Longrightarrow> a + 4 \<le> length J \<Longrightarrow> a + 4 \<le> e \<Longrightarrow> u32_at J' a = u32_at J a"
  by (simp add: u32_at_def same_on_part)

lemma same_on_refl [simp]: "same_on d e J J"
  by (simp add: same_on_def)

lemma same_on_trans: "same_on d e J J' \<Longrightarrow> same_on d e J' J'' \<Longrightarrow> same_on d e J J''"
  by (auto simp: same_on_def)

lemma same_on_mono: "same_on d e J J' \<Longrightarrow> d \<le> d' \<Longrightarrow> e' \<le> e \<Longrightarrow> same_on d' e' J J'"
  by (auto simp: same_on_def)

lemma file_write_grows: "length f \<le> length (file_write f off xs)"
  by (cases "xs = []") (simp_all add: file_write_length, simp add: file_write_def)

lemma same_on_write: "e \<le> off \<or> off + length xs \<le> d \<Longrightarrow> same_on d e J (file_write J off xs)"
  using file_write_grows [of J off xs] by (auto simp: same_on_def file_write_nth)

lemma same_on_torn: "e \<le> off \<or> off + length xs \<le> d \<Longrightarrow> same_on d e J (file_torn J off xs k)"
  unfolding file_torn_def by (rule same_on_write) auto

lemma recs_at_same:
  assumes "same_on d e J J'" and "recs_at ps J off ck recs" and "d \<le> off" and "off + length recs * (ps + 8) \<le> e"
  shows "recs_at ps J' off ck recs"
  using assms(2-4)
proof (induction recs arbitrary: off)
  case (Cons r recs)
  obtain pg data where r: "r = (pg, data)" by (cases r)
  have l: "off + ps + 8 \<le> e" "off + ps + 8 \<le> length J" "length J \<le> length J'" "d \<le> off"
    using Cons.prems assms(1) by (auto simp: r same_on_def)
  have "recs_at ps J' (off + ps + 8) ck recs" by (rule Cons.IH) (use Cons.prems in \<open>auto simp: r algebra_simps\<close>)
  then show ?case
    using Cons.prems(1) l same_on_u32 [OF assms(1), of off] same_on_u32 [OF assms(1), of "off + ps + 4"]
      same_on_part [OF assms(1), of "off + 4" ps] by (simp add: r)
qed simp

lemma hdr_at_same:
  assumes "same_below e J J'" and "hdr_at ss ps n0 J off n ck" and "off + ss \<le> e" and "32 \<le> ss"
  shows "hdr_at ss ps n0 J' off n ck"
proof -
  have l: "off + ss \<le> length J" "length J \<le> length J'" using assms(1,2) by (auto simp: hdr_at_def same_on_def)
  have u: "u32_at J' (off + a) = u32_at J (off + a)" if "a + 4 \<le> 32" for a
    by (rule same_on_u32 [OF assms(1)]) (use that assms(3,4) l in simp_all)
  have "take 8 (drop off J') = take 8 (drop off J)" by (rule same_on_part [OF assms(1)]) (use assms(3,4) l in simp_all)
  then show ?thesis using assms(2) u [of 8] u [of 12] u [of 16] u [of 20] u [of 24] l by (simp add: hdr_at_def)
qed

lemma chain_same:
  assumes "same_below e J J'" and "32 \<le> ss" and "chain ss ps n0 J h segs e"
  shows "chain ss ps n0 J' h segs e"
  using assms(3)
proof (induction segs arbitrary: h)
  case (Cons s segs)
  obtain ck recs where s: "s = (ck, recs)" by (cases s)
  define h' where "h' = roundup ss (h + ss + length recs * (ps + 8))"
  have p: "hdr_at ss ps n0 J h (length recs) ck" "recs_at ps J (h + ss) ck recs" "chain ss ps n0 J h' segs e"
    using Cons.prems by (simp_all add: s h'_def)
  have "h + ss + length recs * (ps + 8) \<le> e"
    using roundup_ge [of ss "h + ss + length recs * (ps + 8)"] chain_ge [OF _ p(3)] assms(2) by (simp add: h'_def)
  then show ?case
    using hdr_at_same [OF assms(1) p(1) _ assms(2)] recs_at_same [OF assms(1) p(2)] Cons.IH [OF p(3)] by (simp add: s h'_def)
qed simp

lemma chain_append: "chain ss ps n0 J h segs m \<Longrightarrow> chain ss ps n0 J m segs' e \<Longrightarrow> chain ss ps n0 J h (segs @ segs') e"
  by (induction segs arbitrary: h) auto

lemma chain_dvd: "0 < ss \<Longrightarrow> ss dvd h \<Longrightarrow> chain ss ps n0 J h segs e \<Longrightarrow> ss dvd e"
  by (induction segs arbitrary: h) (auto, metis roundup_mult)

lemma hdr_stop_same:
  assumes "same_below (e + 8) J J'" and "hdr_stop ss J e" and "e + ss \<le> length J" and "8 \<le> ss"
  shows "hdr_stop ss J' e"
proof -
  have "take 8 (drop e J') = take 8 (drop e J)" by (rule same_on_part [OF assms(1)]) (use assms(3,4) in simp_all)
  then show ?thesis using assms(2,3) by (simp add: hdr_stop_def)
qed

lemma recs_at_append:
  "recs_at ps J off ck (recs @ recs') \<longleftrightarrow> recs_at ps J off ck recs \<and> recs_at ps J (off + length recs * (ps + 8)) ck recs'"
  by (induction recs arbitrary: off) (auto simp: algebra_simps)

lemma seg_pages_append: "seg_pages (segs @ segs') = seg_pages segs \<union> seg_pages segs'"
  by (simp add: seg_pages_def)

lemma seg_pages_single [simp]: "seg_pages [(ck, recs)] = fst ` set recs" "seg_pages [] = {}"
  by (simp_all add: seg_pages_def)

section \<open>Closed and open segments\<close>

text \<open>
  \<open>closed\<close>: playback runs through the segments and stops at \<open>e\<close>. \<open>open_seg\<close>: at \<open>h\<close> there is a header whose magic
  number and count are still to be written, with its records.
\<close>

definition closed :: "nat \<Rightarrow> nat \<Rightarrow> u8 list \<Rightarrow> u8 list \<Rightarrow> segment list \<Rightarrow> nat \<Rightarrow> bool" where
  "closed ss ps D0 J segs e \<longleftrightarrow> chain ss ps (length D0 div ps) J 0 segs e \<and> hdr_stop ss J e \<and>
     (\<forall>(ck, recs)\<in>set segs. good_recs ps (length D0 div ps) D0 recs)"

definition open_seg :: "nat \<Rightarrow> nat \<Rightarrow> u8 list \<Rightarrow> u8 list \<Rightarrow> nat \<Rightarrow> u32 \<Rightarrow> (nat \<times> u8 list) list \<Rightarrow> bool" where
  "open_seg ss ps D0 J h ck recs \<longleftrightarrow> h + ss \<le> length J \<and> u32_at J (h + 12) = ck \<and> u32_at J (h + 16) = of_nat (length D0 div ps) \<and>
     u32_at J (h + 20) = of_nat ss \<and> u32_at J (h + 24) = of_nat ps \<and> recs_at ps J (h + ss) ck recs \<and> good_recs ps (length D0 div ps) D0 recs"

lemma recoverable_closed:
  assumes "closed ss ps D0 J segs e" and "dbok ps (length D0 div ps) D0 (seg_pages segs) db" and "segs = [] \<longrightarrow> db = D0"
  shows "recoverable ss ps D0 db J"
  unfolding recoverable_def Let_def using assms by (auto simp: closed_def)

lemma closed_same:
  assumes "closed ss ps D0 J segs e" and "same_below (e + 8) J J'" and "e + ss \<le> length J" and "32 \<le> ss"
  shows "closed ss ps D0 J' segs e"
proof -
  have "chain ss ps (length D0 div ps) J' 0 segs e"
    by (rule chain_same [OF _ assms(4)]) (use assms(1) same_on_mono [OF assms(2)] in \<open>auto simp: closed_def\<close>)
  moreover have "hdr_stop ss J' e" by (rule hdr_stop_same [OF assms(2) _ assms(3)]) (use assms(1,4) in \<open>auto simp: closed_def\<close>)
  ultimately show ?thesis using assms(1) by (simp add: closed_def)
qed

lemma open_seg_same:
  assumes "open_seg ss ps D0 J h ck recs" and "same_below (h + ss + length recs * (ps + 8)) J J'" and "32 \<le> ss"
  shows "open_seg ss ps D0 J' h ck recs"
proof -
  have l: "h + ss \<le> length J" "length J \<le> length J'" using assms(1,2) by (auto simp: open_seg_def same_on_def)
  have u: "u32_at J' (h + a) = u32_at J (h + a)" if "a + 4 \<le> 32" for a
    by (rule same_on_u32 [OF assms(2)]) (use that assms(3) l in simp_all)
  have "recs_at ps J' (h + ss) ck recs"
    by (rule recs_at_same [OF assms(2)]) (use assms(1) in \<open>auto simp: open_seg_def\<close>)
  then show ?thesis using assms(1) u [of 12] u [of 16] u [of 20] u [of 24] l by (simp add: open_seg_def)
qed

text \<open>A small write at the start of a sector is not torn.\<close>

lemma file_torn_sector:
  assumes "512 dvd off \<or> off mod 512 + length xs \<le> 512" and "length xs \<le> 512"
  shows "file_torn f off xs k \<in> {f, file_write f off xs}"
proof (cases "512 * k \<le> off")
  case False
  have "length xs \<le> 512 * k - off"
  proof -
    have "off div 512 < k" using False by (simp add: less_mult_imp_div_less)
    then have "512 * (off div 512) + 512 \<le> 512 * k" by linarith
    moreover have "off = 512 * (off div 512) + off mod 512" by simp
    moreover have "off mod 512 + length xs \<le> 512" using assms by (auto simp: dvd_eq_mod_eq_0)
    ultimately show ?thesis by linarith
  qed
  then show ?thesis by (simp add: file_torn_def)
qed (simp add: file_torn_def file_write_def)

text \<open>Writing the magic number and the count closes the open segment.\<close>

lemma close_seg:
  assumes c: "closed ss ps D0 J segs h" and o: "open_seg ss ps D0 J h ck recs" and ss: "32 \<le> ss"
    and e: "e = roundup ss (h + ss + length recs * (ps + 8))" and stop: "hdr_stop ss J e"
  shows "closed ss ps D0 (file_write J h (aJournalMagic @ sqlite3Put4byte (of_nat (length recs)))) (segs @ [(ck, recs)]) e"
proof -
  define xs where "xs = aJournalMagic @ sqlite3Put4byte (of_nat (length recs) :: u32)"
  define J' where "J' = file_write J h xs"
  have xs: "length xs = 12" "xs \<noteq> []" by (simp_all add: xs_def aJournalMagic_def sqlite3Put4byte_def)
  have len: "h + ss \<le> length J" using o by (simp add: open_seg_def)
  then have l': "length J' = length J" using xs ss by (simp add: J'_def file_write_length)
  have same: "same_on (h + 12) (length J) J J'" "same_below h J J'"
    unfolding J'_def by (rule same_on_write, use xs(1) in simp)+
  have u: "u32_at J' a = u32_at J a" if "h + 12 \<le> a" "a + 4 \<le> length J" for a
    by (rule same_on_u32 [OF same(1)]) (use that in simp_all)
  have w: "take 12 (drop h J') = xs" using file_write_same [of xs h J] xs(1) by (simp add: J'_def)
  have "take 8 (take 12 (drop h J')) = take 8 xs" using w by simp
  then have magic: "take 8 (drop h J') = aJournalMagic" by (simp add: xs_def aJournalMagic_def)
  have "take 4 (drop 8 (take 12 (drop h J'))) = drop 8 xs" using w xs(1) by simp
  then have "take 4 (drop (h + 8) J') = sqlite3Put4byte (of_nat (length recs))"
    by (simp add: drop_take xs_def aJournalMagic_def add.commute)
  then have cnt: "u32_at J' (h + 8) = of_nat (length recs)" by (simp add: u32_at_def Get4byte_Put4byte [where more = "[]", simplified])
  have r: "recs_at ps J' (h + ss) ck recs"
    by (rule recs_at_same [OF same(1)]) (use o ss recs_at_end [of ps J "h + ss" ck recs] in \<open>auto simp: open_seg_def\<close>)
  have hdr: "hdr_at ss ps (length D0 div ps) J' h (length recs) ck"
    using o u [of "h + 12"] u [of "h + 16"] u [of "h + 20"] u [of "h + 24"] ss len magic cnt by (simp add: hdr_at_def open_seg_def l')
  have he: "h + 12 \<le> e" using roundup_ge [of ss "h + ss + length recs * (ps + 8)"] ss by (simp add: e)
  have "hdr_stop ss J' e"
  proof (cases "e + ss \<le> length J")
    case True
    have "take 8 (drop e J') = take 8 (drop e J)" by (rule same_on_part [OF same(1)]) (use he True ss in simp_all)
    then show ?thesis using stop True by (simp add: hdr_stop_def l')
  qed (use l' in \<open>simp add: hdr_stop_def\<close>)
  moreover have "chain ss ps (length D0 div ps) J' 0 (segs @ [(ck, recs)]) e"
  proof (rule chain_append)
    show "chain ss ps (length D0 div ps) J' 0 segs h" by (rule chain_same [OF same(2) ss]) (use c in \<open>simp add: closed_def\<close>)
  qed (simp add: hdr r e)
  ultimately show ?thesis using c o unfolding J'_def [symmetric] xs_def [symmetric] by (auto simp: closed_def open_seg_def)
qed

section \<open>Writing a record\<close>

lemma Put4byte_length [simp]: "length (sqlite3Put4byte v) = 4"
  by (simp add: sqlite3Put4byte_def)

lemma u32_at_write: "u32_at (file_write J off (sqlite3Put4byte v)) off = v"
  using file_write_same [of "sqlite3Put4byte v" off J]
  by (simp add: u32_at_def Get4byte_Put4byte [where more = "[]", simplified])

lemma file_write_ge: "xs \<noteq> [] \<Longrightarrow> off + length xs \<le> length (file_write f off xs)"
  by (simp add: file_write_length)

lemma record_written:
  assumes "length d = ps" and "0 < ps"
    and J1: "J1 = file_write J off (sqlite3Put4byte (of_nat pg))" and J2: "J2 = file_write J1 (off + 4) d"
    and J3: "J3 = file_write J2 (off + ps + 4) (sqlite3Put4byte (cksum_loop d (ps - 200) ck))"
  shows "recs_at ps J3 off ck [(pg, d)]" and "same_below off J J3"
proof -
  have l1: "off + 4 \<le> length J1" using file_write_ge [of "sqlite3Put4byte (of_nat pg)" off J] by (simp add: J1 sqlite3Put4byte_def)
  have l2: "off + ps + 4 \<le> length J2" using file_write_ge [of d "off + 4" J1] assms(1,2) by (force simp: J2)
  have l3: "off + ps + 8 \<le> length J3"
    using file_write_ge [of "sqlite3Put4byte (cksum_loop d (ps - 200) ck)" "off + ps + 4" J2] by (simp add: J3 sqlite3Put4byte_def)
  have s12: "same_below (off + 4) J1 J2" unfolding J2 by (rule same_on_write) simp
  have s23: "same_below (off + ps + 4) J2 J3" unfolding J3 by (rule same_on_write) simp
  have "u32_at J3 off = u32_at J2 off" by (rule same_on_u32 [OF s23]) (use l2 in simp_all)
  also have "\<dots> = u32_at J1 off" by (rule same_on_u32 [OF s12]) (use l1 in simp_all)
  finally have pg: "u32_at J3 off = of_nat pg" by (simp add: J1 u32_at_write)
  have "take ps (drop (off + 4) J3) = take ps (drop (off + 4) J2)" by (rule same_on_part [OF s23]) (use l2 in simp_all)
  then have d: "take ps (drop (off + 4) J3) = d" using file_write_same [of d "off + 4" J1] assms(1) by (simp add: J2)
  show "recs_at ps J3 off ck [(pg, d)]" using l3 pg d by (simp add: J3 u32_at_write)
  have "same_below off J J1" unfolding J1 by (rule same_on_write) simp
  then show "same_below off J J3" using s12 s23 by (meson le_add1 le_trans same_on_mono same_on_trans order_refl)
qed

section \<open>The state of a transaction\<close>

text \<open>What journalling a page leaves alone.\<close>

definition jcore :: "pager \<Rightarrow> pager" where
  "jcore p = p\<lparr>jrnl := None, io_tick := 0, pPCache := [], journalOff := 0, nRec := 0, pInJournal := None, mallocs := 0\<rparr>"

lemma jcore_simps [simp]:
  "jcore (p\<lparr>jrnl := x1\<rparr>) = jcore p" "jcore (p\<lparr>io_tick := x2\<rparr>) = jcore p" "jcore (p\<lparr>pPCache := x3\<rparr>) = jcore p"
  "jcore (p\<lparr>journalOff := x4\<rparr>) = jcore p" "jcore (p\<lparr>nRec := x5\<rparr>) = jcore p" "jcore (p\<lparr>pInJournal := x6\<rparr>) = jcore p"
  "jcore (p\<lparr>mallocs := x7\<rparr>) = jcore p" "jcore (pcache_put k h p) = jcore p"
  by (simp_all add: jcore_def pcache_put_def)

lemma jcore_sync [simp]: "jcore (set_need_sync pg p) = jcore p"
  by (simp add: set_need_sync_def split: option.split)

lemma jcoreD:
  assumes "jcore q = jcore p"
  shows "dbf q = dbf p" "io_fail q = io_fail p" "fails q = fails p" "journalHdr q = journalHdr p" "pageSize q = pageSize p"
    "sectorSize q = sectorSize p" "eState q = eState p" "noSync q = noSync p" "eLock q = eLock p" "safe_append q = safe_append p"
    "jfd_open q = jfd_open p" "cksumInit q = cksumInit p" "dbOrigSize q = dbOrigSize p" "dbSize q = dbSize p" "dbFileSize q = dbFileSize p"
    "errCode q = errCode p" "readOnly q = readOnly p" "pcache_nRef q = pcache_nRef p" "malloc_ok q = malloc_ok p" "changeCountDone q = changeCountDone p"
proof -
  have e: "f (jcore q) = f (jcore p)" for f :: "pager \<Rightarrow> 'b" using assms by simp
  show "dbf q = dbf p" using e [of dbf] by (simp add: jcore_def)
  show "io_fail q = io_fail p" using e [of io_fail] by (simp add: jcore_def)
  then show "fails q = fails p" by (simp add: fails_def)
  show "journalHdr q = journalHdr p" using e [of journalHdr] by (simp add: jcore_def)
  show "pageSize q = pageSize p" using e [of pageSize] by (simp add: jcore_def)
  show "sectorSize q = sectorSize p" using e [of sectorSize] by (simp add: jcore_def)
  show "eState q = eState p" using e [of eState] by (simp add: jcore_def)
  show "noSync q = noSync p" using e [of noSync] by (simp add: jcore_def)
  show "eLock q = eLock p" using e [of eLock] by (simp add: jcore_def)
  show "safe_append q = safe_append p" using e [of safe_append] by (simp add: jcore_def)
  show "jfd_open q = jfd_open p" using e [of jfd_open] by (simp add: jcore_def)
  show "cksumInit q = cksumInit p" using e [of cksumInit] by (simp add: jcore_def)
  show "dbOrigSize q = dbOrigSize p" using e [of dbOrigSize] by (simp add: jcore_def)
  show "dbSize q = dbSize p" using e [of dbSize] by (simp add: jcore_def)
  show "dbFileSize q = dbFileSize p" using e [of dbFileSize] by (simp add: jcore_def)
  show "errCode q = errCode p" using e [of errCode] by (simp add: jcore_def)
  show "readOnly q = readOnly p" using e [of readOnly] by (simp add: jcore_def)
  show "pcache_nRef q = pcache_nRef p" using e [of pcache_nRef] by (simp add: jcore_def)
  show "malloc_ok q = malloc_ok p" using e [of malloc_ok] by (simp add: jcore_def)
  show "changeCountDone q = changeCountDone p" using e [of changeCountDone] by (simp add: jcore_def)
qed

text \<open>The configuration of a transaction, and the open journal.\<close>

definition conf :: "nat \<Rightarrow> nat \<Rightarrow> u8 list \<Rightarrow> pager \<Rightarrow> bool" where
  "conf ss ps D0 p \<longleftrightarrow> geometry ss ps (length D0 div ps) D0 \<and> length D0 div ps \<le> PAGER_MAX_PGNO \<and> pageSize p = ps \<and> sectorSize p = ss \<and>
     dbOrigSize p = length D0 div ps \<and> \<not> noSync p \<and> \<not> safe_append p \<and> 0 < pcache_nRef p \<and> errCode p = SQLITE_OK \<and> \<not> readOnly p"

definition jopen :: "nat \<Rightarrow> nat \<Rightarrow> u8 list \<Rightarrow> segment list \<Rightarrow> (nat \<times> u8 list) list \<Rightarrow> pager \<Rightarrow> bool" where
  "jopen ss ps D0 segs recs p \<longleftrightarrow> jfd_open p \<and> closed ss ps D0 (jfile p) segs (journalHdr p) \<and>
     open_seg ss ps D0 (jfile p) (journalHdr p) (cksumInit p) recs \<and> journalOff p = journalHdr p + ss + length recs * (ps + 8) \<and>
     nRec p = length recs \<and> distinct (map fst recs)"

text \<open>The pages marked in the bitmap.\<close>

definition marked :: "nat \<Rightarrow> nat set \<Rightarrow> pager \<Rightarrow> bool" where
  "marked n0 S p \<longleftrightarrow> (\<exists>bv. pInJournal p = Some bv \<and> bitvec_ok bv \<and> iSize bv = n0 \<and> bitvec_set bv = S)"

lemma marked_test: "marked n0 S p \<Longrightarrow> pageInJournal p pg \<longleftrightarrow> pg \<in> S"
  using bitvec.test_members by (auto simp: marked_def pageInJournal_def)

lemma mark_in_journal_wp:
  assumes "marked n0 S p" and "1 \<le> pg" "pg \<le> n0"
    and "\<And>rc bv k. bitvec_ok bv \<Longrightarrow> iSize bv = n0 \<Longrightarrow> rc = SQLITE_OK \<longrightarrow> bitvec_set bv = insert pg S \<Longrightarrow> Q rc (p\<lparr>pInJournal := Some bv, mallocs := k\<rparr>)"
  shows "wp (mark_in_journal pg) Q p"
proof -
  obtain bv where bv: "pInJournal p = Some bv" "bitvec_ok bv" "iSize bv = n0" "bitvec_set bv = S" using assms(1) by (auto simp: marked_def)
  obtain rc bv' k where a: "bitvec_add (malloc_ok p) (mallocs p) bv pg = Some (rc, bv', k)"
    using bitvec.add_total [OF bv(2) assms(2)] assms(3) bv(3) by blast
  then obtain z where z: "sqlite3BitvecSet (malloc_ok p) (mallocs p) (Some bv) pg = Some (rc, Some bv', k)"
    by (auto simp: bitvec_add_def sqlite3BitvecSet_def bind_eq_Some_conv)
  have i: "bitvec_ok bv'" "iSize bv' = n0" using bitvec.add_invar [OF bv(2) assms(2) _ a] assms(3) bv(3) by simp_all
  have "rc = SQLITE_OK \<longrightarrow> bitvec_set bv' = insert pg S" using bitvec.add_ok [OF bv(2) assms(2)] a assms(3) bv(3,4) by blast
  then show ?thesis using assms(4) [OF i] by (simp add: mark_in_journal_def wp_State bv(1) z)
qed

lemma journal_page_wp:
  assumes c: "conf ss ps D0 p" and j: "jopen ss ps D0 segs recs p" and m: "marked (length D0 div ps) S p" and "1 \<le> pg" "pg \<le> length D0 div ps"
    and "pg \<noteq> PENDING_BYTE div ps + 1" and "pData h = page ps D0 pg" and "pg \<notin> fst ` set recs"
    and ok: "\<And>q. jcore q = jcore p \<Longrightarrow> jopen ss ps D0 segs (recs @ [(pg, pData h)]) q \<Longrightarrow> marked (length D0 div ps) (insert pg S) q \<Longrightarrow>
      pPCache q = pPCache (set_need_sync pg p) \<Longrightarrow> Q SQLITE_OK q"
    and bad: "\<And>rc q. rc \<noteq> SQLITE_OK \<Longrightarrow> jcore q = jcore p \<Longrightarrow> closed ss ps D0 (jfile q) segs (journalHdr p) \<Longrightarrow> Q rc q"
  shows "wp (journal_page pg h) Q p"
proof -
  define n0 where "n0 = length D0 div ps"
  have geo: "geometry ss ps n0 D0" "pageSize p = ps" and n0: "n0 \<le> PAGER_MAX_PGNO" using c by (auto simp: conf_def n0_def)
  have ss: "32 \<le> ss" "0 < ps" "length D0 = n0 * ps" using geo(1) by (auto simp: geometry_def)
  define hd where "hd = journalHdr p"
  define off where "off = journalOff p"
  define J where "J = jfile p"
  have jo: "closed ss ps D0 J segs hd" "open_seg ss ps D0 J hd (cksumInit p) recs" "off = hd + ss + length recs * (ps + 8)" "nRec p = length recs" "jfd_open p"
    "distinct (map fst recs)" using j by (auto simp: jopen_def hd_def off_def J_def)
  have len: "hd + ss \<le> length J" using jo(2) by (simp add: open_seg_def)
  have d: "length (pData h) = ps" using assms(4,5,7) ss page_end [of pg n0 ps] by (simp add: page_def n0_def [symmetric])
  define p1 where "p1 = set_need_sync pg p"
  have p1: "jcore p1 = jcore p" "jfile p1 = J" "journalOff p1 = off" "nRec p1 = nRec p" "pInJournal p1 = pInJournal p"
    by (simp_all add: p1_def set_need_sync_def pcache_put_def J_def off_def jfile_def split: option.split)
  define J1 where "J1 = file_write J off (sqlite3Put4byte (of_nat pg))"
  define J2 where "J2 = file_write J1 (off + 4) (pData h)"
  define J3 where "J3 = file_write J2 (off + ps + 4) (sqlite3Put4byte (cksum_loop (pData h) (ps - 200) (cksumInit p)))"
  note rec = record_written [OF d ss(2) J1_def J2_def J3_def]
  have below: "hd + 8 \<le> off" "hd + 8 \<le> off + 4" "hd + 8 \<le> off + ps + 4" using jo(3) ss(1) by simp_all
  have s1: "same_below (hd + 8) J J1" and s2: "same_below (hd + 8) J J2"
  proof -
    show a: "same_below (hd + 8) J J1" unfolding J1_def by (rule same_on_write) (use below in simp)
    have "same_below (hd + 8) J1 J2" unfolding J2_def by (rule same_on_write) (use below in simp)
    with a show "same_below (hd + 8) J J2" by (rule same_on_trans)
  qed
  have keep: "closed ss ps D0 J' segs hd" if "same_below (hd + 8) J J'" for J'
    by (rule closed_same [OF jo(1) that len ss(1)])
  have t1: "closed ss ps D0 (file_torn J off xs k) segs hd" for xs k
    by (rule keep) (rule same_on_torn, use below in simp)
  have t2: "closed ss ps D0 (file_torn J1 (off + 4) xs k) segs hd" for xs k
    by (rule keep [OF same_on_trans [OF s1]]) (rule same_on_torn, use below in simp)
  have t3: "closed ss ps D0 (file_torn J2 (off + ps + 4) xs k) segs hd" for xs k
    by (rule keep [OF same_on_trans [OF s2]]) (rule same_on_torn, use below in simp)
  have ck: "pager_cksum p (pData h) = cksum_loop (pData h) (ps - 200) (cksumInit p)" by (simp add: pager_cksum_def geo(2))
  have s3: "same_below off J J3" by (rule rec(2))
  have final: "jopen ss ps D0 segs (recs @ [(pg, pData h)]) q"
    if "jcore q = jcore p" "jfile q = J3" "journalOff q = off + 8 + ps" "nRec q = Suc (nRec p)" for q
  proof -
    have o: "open_seg ss ps D0 J3 hd (cksumInit p) recs"
      by (rule open_seg_same [OF jo(2) _ ss(1)]) (use s3 jo(3) in simp)
    have r: "recs_at ps J3 (hd + ss) (cksumInit p) (recs @ [(pg, pData h)])"
      using o rec(1) jo(3) by (simp add: recs_at_append open_seg_def)
    have dis: "distinct (map fst (recs @ [(pg, pData h)]))" using jo(6) assms(8) by simp
    have "set (map fst (recs @ [(pg, pData h)])) \<subseteq> {1..n0}" using jo(2) assms(4,5) by (auto simp: open_seg_def good_recs_def n0_def)
    then have "card (set (map fst (recs @ [(pg, pData h)]))) \<le> card {1..n0}" by (rule card_mono [OF finite_atLeastAtMost])
    then have "length recs < n0" using distinct_card [OF dis] by simp
    then have "good_recs ps n0 D0 (recs @ [(pg, pData h)])"
      using jo(2) assms(4-7) n0 by (auto simp: good_recs_def open_seg_def n0_def PAGER_MAX_PGNO_def)
    then have "open_seg ss ps D0 J3 hd (cksumInit p) (recs @ [(pg, pData h)])" using o r by (simp add: open_seg_def n0_def)
    moreover have "closed ss ps D0 J3 segs hd" by (rule keep) (rule same_on_mono [OF s3 _ below(1)], simp)
    ultimately show ?thesis
      using that jcoreD [OF that(1)] jo dis by (simp add: jopen_def hd_def [symmetric])
  qed
  define q where "q = (tick (tick (tick p1)))\<lparr>jrnl := Some J3, journalOff := off + 8 + ps, nRec := Suc (nRec p)\<rparr>"
  have q: "jcore q = jcore p" "jfile q = J3" "marked n0 S q" "journalOff q = off + 8 + ps" "nRec q = Suc (nRec p)" "pPCache q = pPCache p1"
    using p1 m by (simp_all add: q_def marked_def n0_def)
  have mark: "wp (mark_in_journal pg) Q q"
  proof (rule mark_in_journal_wp [OF q(3) assms(4) assms(5) [folded n0_def]], goal_cases)
    case (1 rc bv k)
    let ?q = "q\<lparr>pInJournal := Some bv, mallocs := k\<rparr>"
    have f: "jcore ?q = jcore p" "jfile ?q = J3" "journalOff ?q = off + 8 + ps" "nRec ?q = Suc (nRec p)" using q by simp_all
    show ?case
    proof (cases "rc = SQLITE_OK")
      case True
      have "marked (length D0 div ps) (insert pg S) ?q" using 1 True by (simp add: marked_def n0_def)
      then show ?thesis using ok [OF f(1) final [OF f]] True q(6) by (simp add: p1_def)
    next
      case False
      then show ?thesis using bad [OF False f(1)] final [OF f] jcoreD(4) [OF f(1)] by (simp add: jopen_def)
    qed
  qed
  have fail: "Q SQLITE_IOERR_WRITE (p'\<lparr>jrnl := Some J'\<rparr>)" if "jcore p' = jcore p" "closed ss ps D0 J' segs hd" for p' J'
    by (rule bad) (use that in \<open>simp_all add: hd_def\<close>)
  define p2 where "p2 = (tick p1)\<lparr>jrnl := Some J1\<rparr>"
  define p3 where "p3 = (tick p2)\<lparr>jrnl := Some J2\<rparr>"
  have p23: "jcore p2 = jcore p" "jcore p3 = jcore p" "jfile p2 = J1" "jfile p3 = J2" using p1 by (simp_all add: p2_def p3_def)
  have q_eq: "((tick p3)\<lparr>jrnl := Some J3\<rparr>)\<lparr>journalOff := off + 8 + ps, nRec := Suc (nRec p)\<rparr> = q"
    by (simp add: q_def p3_def p2_def)
  have o3: "journalOff p3 = off" "nRec p3 = nRec p" "pageSize p3 = ps" using p1 jcoreD(5) [OF p1(1)] geo(2) by (simp_all add: p3_def p2_def)
  have w3: "wp (j_write (sqlite3Put4byte (cksum_loop (pData h) (ps - 200) (cksumInit p))) (off + ps + 4)) (\<lambda>rc. wp (if rc \<noteq> SQLITE_OK then ret rc else do {
      upd (\<lambda>q. q\<lparr>journalOff := journalOff q + 8 + pageSize q, nRec := nRec q + 1\<rparr>); mark_in_journal pg }) Q) p3"
    by (rule wp_j_write; unfold p23(4) J3_def [symmetric]) (use mark q_eq o3 fail p23(2) t3 in simp_all)
  have w2: "wp (j_write (pData h) (off + 4)) (\<lambda>rc. wp (if rc \<noteq> SQLITE_OK then ret rc else do {
      rc \<leftarrow> j_write (sqlite3Put4byte (cksum_loop (pData h) (ps - 200) (cksumInit p))) (off + ps + 4);
      if rc \<noteq> SQLITE_OK then ret rc else do {
      upd (\<lambda>q. q\<lparr>journalOff := journalOff q + 8 + pageSize q, nRec := nRec q + 1\<rparr>); mark_in_journal pg } }) Q) p2"
  proof (rule wp_j_write; unfold p23(3) J2_def [symmetric] p3_def [symmetric])
    show "wp (if SQLITE_OK \<noteq> SQLITE_OK then ret SQLITE_OK else do {
      rc \<leftarrow> j_write (sqlite3Put4byte (cksum_loop (pData h) (ps - 200) (cksumInit p))) (off + ps + 4);
      if rc \<noteq> SQLITE_OK then ret rc else do {
      upd (\<lambda>q. q\<lparr>journalOff := journalOff q + 8 + pageSize q, nRec := nRec q + 1\<rparr>); mark_in_journal pg } }) Q p3"
      using w3 by simp
  qed (use fail p23(1) t2 in simp)
  show ?thesis
    unfolding journal_page_def wp_bind [where m = getp] wp_bind [where m = "upd f" for f] wp_get Let_def wp_upd write32bits_def ck geo(2) off_def [symmetric] p1_def [symmetric]
      wp_bind [where m = "j_write x off" for x]
  proof (rule wp_j_write; unfold p1(2) J1_def [symmetric] p2_def [symmetric])
    show "wp (if SQLITE_OK \<noteq> SQLITE_OK then ret SQLITE_OK else do {
      rc \<leftarrow> j_write (pData h) (off + 4);
      if rc \<noteq> SQLITE_OK then ret rc else do {
      rc \<leftarrow> j_write (sqlite3Put4byte (cksum_loop (pData h) (ps - 200) (cksumInit p))) (off + ps + 4);
      if rc \<noteq> SQLITE_OK then ret rc else do {
      upd (\<lambda>q. q\<lparr>journalOff := journalOff q + 8 + pageSize q, nRec := nRec q + 1\<rparr>); mark_in_journal pg } } }) Q p2"
      using w2 by simp
  qed (use fail p1(1) t1 in simp)
qed

section \<open>Writing a header\<close>

lemma nat_pow2: "(n - 1) AND n = (0 :: nat) \<Longrightarrow> 0 < n \<Longrightarrow> \<exists>k. n = 2 ^ k"
proof (induction n rule: less_induct)
  case (less n)
  show ?case
  proof (cases "even n")
    case True
    then obtain m where m: "n = 2 * m" "0 < m" using less.prems(2) by (auto elim!: evenE)
    have "(2 * m - 1) div 2 = m - 1" using m(2) by linarith
    then have "(m - 1) AND m = 0" using less.prems(1) by (subst (asm) and_nat_rec) (simp add: m(1))
    then obtain k where "m = 2 ^ k" using less.IH [of m] m by auto
    then show ?thesis using m(1) by (intro exI [of _ "Suc k"]) simp
  next
    case False
    then obtain m where m: "n = 2 * m + 1" by (elim oddE)
    have "m AND m = 0" using less.prems(1) by (subst (asm) and_nat_rec) (simp add: m)
    then show ?thesis using m by (intro exI [of _ 0]) simp
  qed
qed

lemma is_pow2_nat:
  assumes "is_pow2 (of_nat n)" and "0 < n" and "n < 2 ^ 32"
  shows "\<exists>k. n = 2 ^ k"
proof -
  have u: "unat (of_nat n :: u32) = n" by (rule unat_pgno [OF assms(3)])
  then have nz: "(of_nat n :: u32) \<noteq> 0" using assms(2) by auto
  have "unat ((of_nat n - 1) AND of_nat n :: u32) = (n - 1) AND n"
    using unat_minus_one [OF nz] u by (simp add: unsigned_and_eq)
  then have "(n - 1) AND n = 0" using assms(1) by (simp add: is_pow2_def)
  then show ?thesis using nat_pow2 assms(2) by blast
qed

lemma pow2_dvd: "\<exists>k. a = (2 :: nat) ^ k \<Longrightarrow> \<exists>k. b = 2 ^ k \<Longrightarrow> a \<le> b \<Longrightarrow> a dvd b"
  by (auto intro!: le_imp_power_dvd)

lemma geometry_dvd:
  assumes "geometry ss ps n0 D0"
  shows "min ps ss dvd ss" "32 dvd ss" "32 \<le> min ps ss"
proof -
  have g: "512 \<le> ps" "32 \<le> ss" "ps < 2 ^ 32" "ss < 2 ^ 32" "is_pow2 (of_nat ps)" "is_pow2 (of_nat ss)"
    using assms by (auto simp: geometry_def SQLITE_MAX_PAGE_SIZE_def MAX_SECTOR_SIZE_def)
  have p: "\<exists>k. ps = 2 ^ k" "\<exists>k. ss = 2 ^ k" using is_pow2_nat g by simp_all
  have "\<exists>k. (32 :: nat) = 2 ^ k" by (rule exI [of _ 5]) simp
  then show "32 dvd ss" using pow2_dvd p(2) g(2) by blast
  show "min ps ss dvd ss" using pow2_dvd [OF p] by (simp add: min_def)
  show "32 \<le> min ps ss" using g by simp
qed

lemma torn_prefix:
  assumes "32 dvd off" and "8 \<le> length z"
  shows "file_torn J off z k = J \<or> take 8 (drop off (file_torn J off z k)) = take 8 z"
proof (cases "512 * k \<le> off")
  case False
  define m where "m = 512 * k - off"
  have "32 dvd m" using assms(1) by (simp add: m_def)
  then have m: "32 \<le> m" using False by (auto simp: m_def elim: dvdE intro: dvd_imp_le)
  have "take 8 (take (length (take m z)) (drop off (file_write J off (take m z)))) = take 8 (take m z)"
    by (simp only: file_write_same)
  then show ?thesis using m assms(2) by (simp add: file_torn_def m_def [symmetric] min_def split: if_splits)
qed (simp add: file_torn_def file_write_def)

text \<open>What writing a header leaves alone.\<close>

definition wcore :: "pager \<Rightarrow> pager" where
  "wcore p = p\<lparr>jrnl := None, io_tick := 0, journalOff := 0, journalHdr := 0, cksumInit := 0\<rparr>"

lemma wcore_simps [simp]:
  "wcore (p\<lparr>jrnl := x1\<rparr>) = wcore p" "wcore (p\<lparr>io_tick := x2\<rparr>) = wcore p" "wcore (p\<lparr>journalOff := x3\<rparr>) = wcore p"
  "wcore (p\<lparr>journalHdr := x4\<rparr>) = wcore p" "wcore (p\<lparr>cksumInit := x5\<rparr>) = wcore p"
  by (simp_all add: wcore_def)

lemma wcore_field: "wcore q = wcore p \<Longrightarrow> (\<And>x. f (wcore x) = f x) \<Longrightarrow> f q = f p"
  by metis

lemma wcoreD:
  assumes "wcore q = wcore p"
  shows "dbf q = dbf p" "io_fail q = io_fail p" "pPCache q = pPCache p" "pInJournal q = pInJournal p" "nRec q = nRec p" "pageSize q = pageSize p"
    "sectorSize q = sectorSize p" "eState q = eState p" "noSync q = noSync p" "eLock q = eLock p" "safe_append q = safe_append p" "jfd_open q = jfd_open p"
    "dbOrigSize q = dbOrigSize p" "dbSize q = dbSize p" "dbFileSize q = dbFileSize p" "errCode q = errCode p" "readOnly q = readOnly p"
    "pcache_nRef q = pcache_nRef p" "changeCountDone q = changeCountDone p" "fullSync q = fullSync p" "sequential q = sequential p"
  by (rule wcore_field [OF assms], simp add: wcore_def)+

text \<open>The loop after its first turn, when the first block of the header is in place.\<close>

lemma write_hdr_loop_wp:
  assumes "0 < nH" "length z = nH" "nH dvd ss" "nH dvd nW" "0 < nW" "nW \<le> ss" and p: "journalOff p = e + nW" "e + nW \<le> length (jfile p)"
    "take nH (drop e (jfile p)) = z" "same_below e J (jfile p)"
    and ok: "\<And>q. wcore q = wcore p \<Longrightarrow> journalHdr q = journalHdr p \<Longrightarrow> cksumInit q = cksumInit p \<Longrightarrow> journalOff q = e + ss \<Longrightarrow> e + ss \<le> length (jfile q) \<Longrightarrow>
      take nH (drop e (jfile q)) = z \<Longrightarrow> same_below e J (jfile q) \<Longrightarrow> Q SQLITE_OK q"
    and bad: "\<And>rc q. rc \<noteq> SQLITE_OK \<Longrightarrow> wcore q = wcore p \<Longrightarrow> take nH (drop e (jfile q)) = z \<Longrightarrow> same_below e J (jfile q) \<Longrightarrow> Q rc q"
  shows "wp (write_hdr_loop ss z nW) Q p"
  using assms(4-)
proof (induction "ss - nW" arbitrary: nW p rule: less_induct)
  case less
  have z: "z \<noteq> []" using assms(1,2) by auto
  show ?case
  proof (cases "nW < ss")
    case False
    then have "nW = ss" using less.prems(3) by simp
    then show ?thesis using less.prems z by (subst write_hdr_loop.simps) simp
  next
    case True
    have nH: "nW + nH \<le> ss"
    proof -
      have "nH dvd ss - nW" using assms(3) less.prems(1) by simp
      then have "nH \<le> ss - nW" using True by (auto intro: dvd_imp_le)
      then show ?thesis using True by linarith
    qed
    have le: "nH \<le> nW" using less.prems(1,2) by (auto intro: dvd_imp_le)
    have same: "same_below (e + nH) (jfile p) (file_write (jfile p) (e + nW) z)" "same_below (e + nH) (jfile p) (file_torn (jfile p) (e + nW) z k)" for k
      by (rule same_on_write same_on_torn, use le in simp)+
    have z': "take nH (drop e J') = z" "same_below e J J'" if "same_below (e + nH) (jfile p) J'" for J'
    proof -
      show "take nH (drop e J') = z" using same_on_part [OF that, of e nH] less.prems(5,6) le by simp
      show "same_below e J J'" using same_on_trans [OF less.prems(7)] same_on_mono [OF that, of 0 e] by simp
    qed
    have c: "nW < ss \<and> z \<noteq> []" using True z by simp
    show ?thesis
      unfolding write_hdr_loop.simps [of ss z nW] if_P [OF c] wp_bind wp_get less.prems(4)
    proof (rule wp_j_write, goal_cases)
      case 1
      let ?q = "(tick p)\<lparr>jrnl := Some (file_write (jfile p) (e + nW) z), journalOff := e + nW + nH\<rparr>"
      have len: "e + (nW + nH) \<le> length (file_write (jfile p) (e + nW) z)" using file_write_ge [OF z, of "e + nW" "jfile p"] assms(2) by simp
      have "wp (write_hdr_loop ss z (nW + nH)) Q ?q"
        by (rule less.hyps [of "nW + nH"]) (use True nH assms(1,2) less.prems len z' [OF same(1)] in \<open>simp_all add: add.assoc\<close>)
      then show ?case using less.prems(4) assms(2) by (simp add: add.assoc)
    next
      case (2 k)
      then show ?case using less.prems(9) z' [OF same(2)] by simp
    qed
  qed
qed

lemma header_bytes:
  assumes "\<not> noSync p" "\<not> safe_append p" and "32 \<le> nH"
  shows "length (journal_header p ck nH) = nH" "take 8 (journal_header p ck nH) = replicate 8 0"
    "take 4 (drop 12 (journal_header p ck nH)) = sqlite3Put4byte ck"
    "take 4 (drop 16 (journal_header p ck nH)) = sqlite3Put4byte (of_nat (dbOrigSize p))"
    "take 4 (drop 20 (journal_header p ck nH)) = sqlite3Put4byte (of_nat (sectorSize p))"
    "take 4 (drop 24 (journal_header p ck nH)) = sqlite3Put4byte (of_nat (pageSize p))"
  using assms by (simp_all add: journal_header_def)

lemma u32_at_part:
  assumes "take nH (drop e J) = z" and "a + 4 \<le> nH" and "take 4 (drop a z) = sqlite3Put4byte v"
  shows "u32_at J (e + a) = v"
proof -
  have "take 4 (drop (e + a) J) = sqlite3Put4byte v"
    using assms(2,3) by (simp add: assms(1) [symmetric] drop_take min_absorb1 le_diff_conv2 add.commute)
  then show ?thesis by (simp add: u32_at_def Get4byte_Put4byte [where more = "[]", simplified])
qed

lemma closed_zero:
  assumes "chain ss ps (length D0 div ps) J 0 segs e" and "\<forall>(ck, recs)\<in>set segs. good_recs ps (length D0 div ps) D0 recs"
    and "same_below e J J'" and "take 8 (drop e J') = replicate 8 0" and "32 \<le> ss"
  shows "closed ss ps D0 J' segs e"
proof -
  have "hd (replicate 8 (0 :: u8)) \<noteq> hd aJournalMagic" by (simp add: aJournalMagic_def)
  then have "replicate 8 (0 :: u8) \<noteq> aJournalMagic" by metis
  then show ?thesis using chain_same [OF assms(3,5,1)] assms(2,4) by (simp add: closed_def hdr_stop_def)
qed

lemma writeJournalHdr_wp:
  assumes c: "conf ss ps D0 p" and e: "e = roundup ss (journalOff p)" and cl: "closed ss ps D0 (jfile p) segs e" and "jfd_open p" "nRec p = 0"
    and ok: "\<And>q. wcore q = wcore p \<Longrightarrow> journalHdr q = e \<Longrightarrow> jopen ss ps D0 segs [] q \<Longrightarrow> Q SQLITE_OK q"
    and bad: "\<And>rc q. rc \<noteq> SQLITE_OK \<Longrightarrow> wcore q = wcore p \<Longrightarrow> closed ss ps D0 (jfile q) segs e \<Longrightarrow> Q rc q"
  shows "wp writeJournalHdr Q p"
proof -
  have geo: "geometry ss ps (length D0 div ps) D0" "pageSize p = ps" "sectorSize p = ss" "\<not> noSync p" "\<not> safe_append p" "dbOrigSize p = length D0 div ps"
    using c by (auto simp: conf_def)
  have ss: "32 \<le> ss" using geo(1) by (simp add: geometry_def)
  note dv = geometry_dvd [OF geo(1)]
  define nH where "nH = min ps ss"
  have nH: "32 \<le> nH" "nH dvd ss" "0 < nH" "nH \<le> ss" using dv by (simp_all add: nH_def)
  have "ss dvd e" using ss by (simp add: e roundup_mult)
  then have e32: "32 dvd e" using dv(2) by (rule dvd_trans [rotated])
  define p0 where "p0 = (p\<lparr>journalHdr := e, journalOff := e\<rparr>)\<lparr>cksumInit := io_random p (io_tick p), io_tick := io_tick p + 1\<rparr>"
  define ck where "ck = cksumInit p0"
  define z where "z = journal_header p0 ck nH"
  have p0: "wcore p0 = wcore p" "jfile p0 = jfile p" "journalOff p0 = e" "journalHdr p0 = e" "sectorSize p0 = ss" "pageSize p0 = ps" "dbOrigSize p0 = length D0 div ps"
    "\<not> noSync p0" "\<not> safe_append p0" using geo by (simp_all add: p0_def)
  note hb = header_bytes [OF p0(8,9) nH(1), of ck, folded z_def, unfolded p0]
  have zn: "z \<noteq> []" using hb(1) nH(1) by auto
  have chn: "chain ss ps (length D0 div ps) (jfile p) 0 segs e" "\<forall>(ck, recs)\<in>set segs. good_recs ps (length D0 div ps) D0 recs"
    using cl by (simp_all add: closed_def)
  have zero: "take 8 (drop e J') = replicate 8 0" if "take nH (drop e J') = z" for J'
  proof -
    have "take 8 (take nH (drop e J')) = replicate 8 0" using that hb(2) by simp
    then show ?thesis using nH(1) by (simp add: min_def)
  qed
  have fin: "jopen ss ps D0 segs [] q"
    if "wcore q = wcore p0" "journalHdr q = e" "cksumInit q = ck" "journalOff q = e + ss" "e + ss \<le> length (jfile q)"
      "take nH (drop e (jfile q)) = z" "same_below e (jfile p) (jfile q)" for q
  proof -
    have u: "u32_at (jfile q) (e + 12) = ck" "u32_at (jfile q) (e + 16) = of_nat (length D0 div ps)" "u32_at (jfile q) (e + 20) = of_nat ss"
      "u32_at (jfile q) (e + 24) = of_nat ps"
      by (rule u32_at_part [OF that(6)], use nH(1) in simp, rule hb)+
    have "closed ss ps D0 (jfile q) segs e" by (rule closed_zero [OF chn that(7) zero [OF that(6)] ss])
    moreover have "jfd_open q" "nRec q = 0" using wcoreD [OF that(1)] wcoreD [OF p0(1)] assms(4,5) by simp_all
    ultimately show ?thesis using that u by (simp add: jopen_def open_seg_def good_recs_def)
  qed
  have fl: "closed ss ps D0 J' segs e" if "take nH (drop e J') = z" "same_below e (jfile p) J'" for J'
    by (rule closed_zero [OF chn that(2) zero [OF that(1)] ss])
  have lp: "0 < ss \<and> z \<noteq> []" using ss zn by simp
  have hs: "JOURNAL_HDR_SZ p0 = ss" by (simp add: JOURNAL_HDR_SZ_def p0(5))
  have first: "wp (write_hdr_loop ss z 0) Q p0"
    unfolding write_hdr_loop.simps [of ss z 0] if_P [OF lp] wp_bind wp_get p0(3)
  proof (rule wp_j_write, goal_cases)
    case 1
    let ?q = "(tick p0)\<lparr>jrnl := Some (file_write (jfile p0) e z), journalOff := e + nH\<rparr>"
    have w: "take nH (drop e (jfile ?q)) = z" "same_below e (jfile p) (jfile ?q)" "e + nH \<le> length (jfile ?q)"
      using file_write_same [of z e "jfile p"] file_write_ge [OF zn, of e "jfile p"] hb(1) p0(2) by (simp_all add: same_on_write)
    have "wp (write_hdr_loop ss z nH) Q ?q"
    proof (rule write_hdr_loop_wp [OF nH(3) hb(1) nH(2) dvd_refl nH(3,4) _ w(3,1,2)], goal_cases)
      case (2 q)
      show ?case by (rule ok) (use 2 p0 fin [of q] in \<open>simp_all add: ck_def\<close>)
    next
      case (3 rc q)
      show ?case by (rule bad) (use 3 p0 fl [of "jfile q"] in simp_all)
    qed simp
    then show ?case using hb(1) p0(3) by simp
  next
    case (2 k)
    have "closed ss ps D0 (file_torn (jfile p) e z k) segs e"
      using torn_prefix [OF e32, of z "jfile p" k] hb(1,2) nH(1) cl closed_zero [OF chn same_on_torn _ ss, of e z k] by auto
    then show ?case using bad p0 by simp
  qed
  have off: "journalHdrOffset p = e" by (simp add: journalHdrOffset_roundup e geo(3))
  show ?thesis
    unfolding writeJournalHdr_def wp_bind [where m = "upd f" for f] wp_bind [where m = getp] wp_upd wp_get Let_def off
    using first hs geo(2) by (simp add: z_def ck_def nH_def p0_def)
qed

section \<open>Syncing the journal\<close>

lemma sector_room: "32 dvd (h :: nat) \<Longrightarrow> h mod 512 + 12 \<le> 512"
proof -
  assume "32 dvd h"
  then obtain k where k: "h = 32 * k" by blast
  have "h mod 512 = 32 * (k mod 16)" by (simp add: k mult_mod_right)
  moreover have "k mod 16 < 16" by simp
  ultimately show ?thesis by linarith
qed

lemma jopen_hdr:
  assumes "conf ss ps D0 p" and "jopen ss ps D0 segs recs p"
  shows "32 dvd journalHdr p" "32 \<le> ss" "journalHdr p + ss \<le> length (jfile p)"
proof -
  have g: "geometry ss ps (length D0 div ps) D0" using assms(1) by (simp add: conf_def)
  then show "32 \<le> ss" by (simp add: geometry_def)
  then have "ss dvd journalHdr p"
    using chain_dvd [of ss 0 ps "length D0 div ps" "jfile p" segs "journalHdr p"] assms(2) by (simp add: jopen_def closed_def)
  then show "32 dvd journalHdr p" using geometry_dvd(2) [OF g] dvd_trans by blast
  show "journalHdr p + ss \<le> length (jfile p)" using assms(2) by (simp add: jopen_def open_seg_def)
qed

lemma jopen_same:
  assumes "conf ss ps D0 p" "jopen ss ps D0 segs recs p" and "same_below (journalOff p) (jfile p) (jfile q)"
    and "journalHdr q = journalHdr p" "cksumInit q = cksumInit p" "journalOff q = journalOff p" "nRec q = nRec p" "jfd_open q = jfd_open p"
  shows "jopen ss ps D0 segs recs q"
proof -
  note h = jopen_hdr [OF assms(1,2)]
  have off: "journalOff p = journalHdr p + ss + length recs * (ps + 8)" using assms(2) by (simp add: jopen_def)
  have "closed ss ps D0 (jfile q) segs (journalHdr p)"
    by (rule closed_same [of _ _ _ "jfile p"]) (use assms(2) h off same_on_mono [OF assms(3), of 0 "journalHdr p + 8"] in \<open>auto simp: jopen_def\<close>)
  moreover have "open_seg ss ps D0 (jfile q) (journalHdr p) (cksumInit p) recs"
    by (rule open_seg_same [of _ _ _ "jfile p"]) (use assms(2,3) h off in \<open>auto simp: jopen_def\<close>)
  ultimately show ?thesis using assms(2,4-) by (simp add: jopen_def)
qed

text \<open>A stale header behind the records is made invalid before the count is written.\<close>

lemma clear_next_wp:
  assumes c: "conf ss ps D0 p" and j: "jopen ss ps D0 segs recs p" and nx: "nx = roundup ss (journalOff p)"
    and ok: "\<And>q. wcore q = wcore p \<Longrightarrow> jopen ss ps D0 segs recs q \<Longrightarrow> journalHdr q = journalHdr p \<Longrightarrow> cksumInit q = cksumInit p \<Longrightarrow>
      journalOff q = journalOff p \<Longrightarrow> hdr_stop ss (jfile q) nx \<Longrightarrow> wp m Q q"
    and bad: "\<And>rc q. rc \<noteq> SQLITE_OK \<Longrightarrow> wcore q = wcore p \<Longrightarrow> closed ss ps D0 (jfile q) segs (journalHdr p) \<Longrightarrow> Q rc q"
  shows "wp (do {
     (rc, aMagic) \<leftarrow> os_read jfile 8 nx;
     rc \<leftarrow> (if rc = SQLITE_OK \<and> aMagic = aJournalMagic then j_write [0] nx else ret rc);
     if rc \<noteq> SQLITE_OK \<and> rc \<noteq> SQLITE_IOERR_SHORT_READ then ret rc else m }) Q p"
proof -
  note h = jopen_hdr [OF c j]
  have off: "journalOff p = journalHdr p + ss + length recs * (ps + 8)" using j by (simp add: jopen_def)
  have nx_ge: "journalOff p \<le> nx" using roundup_ge [of ss "journalOff p"] h(2) by (simp add: nx)
  have good: "wp m Q q" if "wcore q = wcore p" "journalHdr q = journalHdr p" "cksumInit q = cksumInit p" "journalOff q = journalOff p"
    "same_below (journalOff p) (jfile p) (jfile q)" "hdr_stop ss (jfile q) nx" for q
    using ok [of q] jopen_same [OF c j that(5)] that wcoreD [OF that(1)] by simp
  show ?thesis
    unfolding wp_bind [where m = "os_read f n x" for f n x]
  proof (rule wp_os_read, goal_cases)
    case 1
    have stop: "hdr_stop ss (jfile p) nx" if "\<not> (nx + 8 \<le> length (jfile p) \<and> take 8 (drop nx (jfile p)) = aJournalMagic)"
      using that h(2) by (auto simp: hdr_stop_def)
    show ?case
    proof (cases "nx + 8 \<le> length (jfile p)")
      case False
      then have "file_read (jfile p) 8 nx = (SQLITE_IOERR_SHORT_READ, snd (file_read (jfile p) 8 nx))"
        by (simp add: file_read_def Let_def)
      then obtain v where r: "file_read (jfile (tick p)) 8 nx = (SQLITE_IOERR_SHORT_READ, v)" by (metis jfile_simps(1))
      show ?thesis unfolding r using good [of "tick p"] stop False by simp
    next
      case True
      then have r: "file_read (jfile (tick p)) 8 nx = (SQLITE_OK, take 8 (drop nx (jfile p)))" by (simp add: file_read_ok)
      show ?thesis
      proof (cases "take 8 (drop nx (jfile p)) = aJournalMagic")
        case False
        then show ?thesis unfolding r using good [of "tick p"] stop by simp
      next
        case m: True
        define J' where "J' = file_write (jfile p) nx [0 :: u8]"
        have same: "same_below (journalOff p) (jfile p) J'" unfolding J'_def by (rule same_on_write) (use nx_ge in simp)
        have "take 1 (drop nx J') = [0]" using file_write_same [of "[0]" nx "jfile p"] by (simp add: J'_def)
        then have "take 8 (drop nx J') \<noteq> aJournalMagic" by (cases "drop nx J'") (auto simp: aJournalMagic_def)
        then have st: "hdr_stop ss J' nx" by (simp add: hdr_stop_def)
        have tr: "closed ss ps D0 (file_torn (jfile p) nx [0] k) segs (journalHdr p)" for k
          by (rule closed_same [OF _ same_on_torn h(3,2)]) (use j off nx_ge h(2) in \<open>auto simp: jopen_def\<close>)
        have cnd: "SQLITE_OK = SQLITE_OK \<and> aJournalMagic = aJournalMagic" by simp
        show ?thesis unfolding r prod.case m if_P [OF cnd] wp_bind
          by (rule wp_j_write) (use good [of "(tick (tick p))\<lparr>jrnl := Some J'\<rparr>"] same st bad tr in \<open>simp_all add: J'_def\<close>)
      qed
    qed
  next
    case 2
    then show ?case using bad [of SQLITE_IOERR_READ "tick p"] j by (simp add: jopen_def)
  qed
qed

text \<open>The count goes into the header, which closes the segment, all at once.\<close>

lemma write_count_wp:
  assumes c: "conf ss ps D0 p" and j: "jopen ss ps D0 segs recs p" and nx: "nx = roundup ss (journalOff p)" and stop: "hdr_stop ss (jfile p) nx"
    and ok: "\<And>q. wcore q = wcore p \<Longrightarrow> journalOff q = journalOff p \<Longrightarrow> closed ss ps D0 (jfile q) (segs @ [(cksumInit p, recs)]) nx \<Longrightarrow> Q SQLITE_OK q"
    and bad: "\<And>rc q segs' e. rc \<noteq> SQLITE_OK \<Longrightarrow> wcore q = wcore p \<Longrightarrow> closed ss ps D0 (jfile q) segs' e \<Longrightarrow>
      segs' \<in> {segs, segs @ [(cksumInit p, recs)]} \<Longrightarrow> Q rc q"
  shows "wp (j_write (aJournalMagic @ sqlite3Put4byte (of_nat (nRec p))) (journalHdr p)) Q p"
proof -
  note h = jopen_hdr [OF c j]
  have jo: "closed ss ps D0 (jfile p) segs (journalHdr p)" "open_seg ss ps D0 (jfile p) (journalHdr p) (cksumInit p) recs" "nRec p = length recs"
    "nx = roundup ss (journalHdr p + ss + length recs * (ps + 8))" using j nx by (auto simp: jopen_def)
  note cl = close_seg [OF jo(1,2) h(2) jo(4) stop]
  have len: "length (aJournalMagic @ sqlite3Put4byte (of_nat (length recs) :: u32)) = 12" by (simp add: aJournalMagic_def)
  show ?thesis unfolding jo(3)
  proof (rule wp_j_write, goal_cases)
    case 1
    show ?case by (rule ok) (use cl in simp_all)
  next
    case (2 k)
    have "file_torn (jfile p) (journalHdr p) (aJournalMagic @ sqlite3Put4byte (of_nat (length recs))) k \<in>
        {jfile p, file_write (jfile p) (journalHdr p) (aJournalMagic @ sqlite3Put4byte (of_nat (length recs)))}"
      by (rule file_torn_sector) (use sector_room [OF h(1)] len in simp_all)
    then obtain sg e where "closed ss ps D0 (file_torn (jfile p) (journalHdr p) (aJournalMagic @ sqlite3Put4byte (of_nat (length recs))) k) sg e"
      "sg \<in> {segs, segs @ [(cksumInit p, recs)]}" using jo(1) cl by auto
    then show ?case by (intro bad) simp_all
  qed
qed

lemma conf_wcore: "wcore q = wcore p \<Longrightarrow> conf ss ps D0 q = conf ss ps D0 p"
  using wcoreD [of q p] by (simp add: conf_def)

lemma conf_upd [simp]: "conf ss ps D0 (p\<lparr>nRec := x1\<rparr>) = conf ss ps D0 p" "conf ss ps D0 (p\<lparr>io_tick := x2\<rparr>) = conf ss ps D0 p"
  "conf ss ps D0 (p\<lparr>journalHdr := x3\<rparr>) = conf ss ps D0 p"
  by (simp_all add: conf_def)

lemma wcore_nRec: "wcore (p\<lparr>nRec := x\<rparr>) = (wcore p)\<lparr>nRec := x\<rparr>"
  by (simp add: wcore_def)

lemma sync_journal_file_wp:
  assumes c: "conf ss ps D0 p" and j: "jopen ss ps D0 segs recs p" and segs': "segs' = segs @ [(cksumInit p, recs)]"
    and ok1: "\<And>q. newHdr \<Longrightarrow> wcore q = (wcore p)\<lparr>nRec := 0\<rparr> \<Longrightarrow> jopen ss ps D0 segs' [] q \<Longrightarrow> Q SQLITE_OK q"
    and ok0: "\<And>q e. \<not> newHdr \<Longrightarrow> wcore q = wcore p \<Longrightarrow> closed ss ps D0 (jfile q) segs' e \<Longrightarrow> Q SQLITE_OK q"
    and bad: "\<And>rc q sg e. rc \<noteq> SQLITE_OK \<Longrightarrow> dbf q = dbf p \<Longrightarrow> closed ss ps D0 (jfile q) sg e \<Longrightarrow> sg \<in> {segs, segs'} \<Longrightarrow> Q rc q"
  shows "wp (sync_journal_file newHdr) Q p"
proof -
  have sa: "\<not> safe_append p" "sectorSize p = ss" and jo: "jfd_open p" using c j by (simp_all add: conf_def jopen_def)
  define nx where "nx = roundup ss (journalOff p)"
  have off: "journalHdrOffset p = nx" by (simp add: journalHdrOffset_roundup nx_def sa(2))
  have ss: "0 < ss" using jopen_hdr(2) [OF c j] by simp
  have last: "wp (do {
       upd (\<lambda>p. p\<lparr>journalHdr := journalOff p\<rparr>);
       if newHdr \<and> \<not> safe_append p then do { upd (\<lambda>p. p\<lparr>nRec := 0\<rparr>); writeJournalHdr } else ret SQLITE_OK }) Q q"
    if q: "wcore q = wcore p" "journalOff q = journalOff p" "closed ss ps D0 (jfile q) segs' nx" for q
  proof (cases newHdr)
    case False
    then show ?thesis using ok0 [OF False] q by simp
  next
    case True
    define q1 where "q1 = q\<lparr>journalHdr := journalOff q, nRec := 0\<rparr>"
    have q1: "conf ss ps D0 q1" "nx = roundup ss (journalOff q1)" "closed ss ps D0 (jfile q1) segs' nx" "jfd_open q1" "nRec q1 = 0"
      "wcore q1 = (wcore p)\<lparr>nRec := 0\<rparr>" "dbf q1 = dbf p"
      using q c jo conf_wcore [OF q(1)] wcoreD [OF q(1)] by (simp_all add: q1_def nx_def wcore_nRec)
    have "wp writeJournalHdr Q q1"
    proof (rule writeJournalHdr_wp [OF q1(1-5)], goal_cases)
      case (1 q')
      then show ?case using ok1 [OF True, of q'] q1(6) by simp
    next
      case (2 rc q')
      then show ?case using bad [of rc q'] q1(7) wcoreD(1) [of q' q1] by simp
    qed
    then show ?thesis using True sa(1) by (simp add: q1_def)
  qed
  have after: "wp (if rc \<noteq> SQLITE_OK then ret rc else do {
       rc \<leftarrow> (if sequential p then ret SQLITE_OK else os_sync);
       if rc \<noteq> SQLITE_OK then ret rc else do {
       upd (\<lambda>p. p\<lparr>journalHdr := journalOff p\<rparr>);
       if newHdr \<and> \<not> safe_append p then do { upd (\<lambda>p. p\<lparr>nRec := 0\<rparr>); writeJournalHdr } else ret SQLITE_OK } }) Q q"
    if q: "rc = SQLITE_OK \<longrightarrow> wcore q = wcore p \<and> journalOff q = journalOff p \<and> closed ss ps D0 (jfile q) segs' nx" "rc \<noteq> SQLITE_OK \<longrightarrow> Q rc q" for rc q
  proof (cases "rc = SQLITE_OK")
    case True
    have w: "wcore q = wcore p" "journalOff q = journalOff p" "closed ss ps D0 (jfile q) segs' nx" using q(1) True by simp_all
    have sync: "wp (if sequential p then ret SQLITE_OK else os_sync) (\<lambda>rc q'. wcore q' = wcore p \<and> journalOff q' = journalOff p \<and>
        closed ss ps D0 (jfile q') segs' nx) q"
      using w by (auto simp: os_sync_def intro!: wp_os_effect)
    show ?thesis unfolding True simp_thms if_False wp_bind [where m = "if b then u else v" for b u v]
    proof (rule wp_cons [OF sync], goal_cases)
      case (1 rc q')
      then show ?case using last [of q'] bad [of rc q' segs' nx] wcoreD(1) [of q' p] by (cases "rc = SQLITE_OK") simp_all
    qed
  qed (use q(2) in simp)
  have start: "wp (do {
         (rc, aMagic) \<leftarrow> os_read jfile 8 nx;
         rc \<leftarrow> (if rc = SQLITE_OK \<and> aMagic = aJournalMagic then j_write [0] nx else ret rc);
         if rc \<noteq> SQLITE_OK \<and> rc \<noteq> SQLITE_IOERR_SHORT_READ then ret rc
         else do {
           rc \<leftarrow> (if fullSync p \<and> \<not> sequential p then os_sync else ret SQLITE_OK);
           if rc \<noteq> SQLITE_OK then ret rc
           else j_write (aJournalMagic @ sqlite3Put4byte (of_nat (nRec p))) (journalHdr p) } })
      (\<lambda>rc q. (rc = SQLITE_OK \<longrightarrow> wcore q = wcore p \<and> journalOff q = journalOff p \<and> closed ss ps D0 (jfile q) segs' nx) \<and>
        (rc \<noteq> SQLITE_OK \<longrightarrow> Q rc q)) p" (is "wp _ ?R p")
  proof (rule clear_next_wp [OF c j nx_def], goal_cases)
    case (1 q)
    have sync: "wp (if fullSync p \<and> \<not> sequential p then os_sync else ret SQLITE_OK) (\<lambda>rc q'. wcore q' = wcore q \<and> journalHdr q' = journalHdr q \<and>
        cksumInit q' = cksumInit q \<and> journalOff q' = journalOff q \<and> jfile q' = jfile q \<and> nRec q' = nRec q \<and> jfd_open q' = jfd_open q) q"
      by (auto simp: os_sync_def intro!: wp_os_effect)
    show ?case unfolding wp_bind [where m = "if b then u else v" for b u v]
    proof (rule wp_cons [OF sync], goal_cases)
      case (1 rc q')
      have j': "jopen ss ps D0 segs recs q'" and c': "conf ss ps D0 q'" and w: "wcore q' = wcore p"
        using 1 \<open>jopen ss ps D0 segs recs q\<close> \<open>wcore q = wcore p\<close> conf_wcore [of q' p] c by (simp_all add: jopen_def)
      have e: "nRec q' = nRec p" "journalHdr q' = journalHdr p" "journalOff q' = journalOff p" "cksumInit q' = cksumInit p" "dbf q' = dbf p"
        using 1 \<open>journalHdr q = journalHdr p\<close> \<open>journalOff q = journalOff p\<close> \<open>cksumInit q = cksumInit p\<close> wcoreD [OF w] by simp_all
      show ?case
      proof (cases "rc = SQLITE_OK")
        case True
        have "wp (j_write (aJournalMagic @ sqlite3Put4byte (of_nat (nRec q'))) (journalHdr q')) ?R q'"
        proof (rule write_count_wp [OF c' j', of nx], goal_cases)
          case (4 rc q2 sg e2)
          then show ?case using bad [of rc q2 sg e2] wcoreD(1) [of q2 q'] e by (simp add: segs')
        qed (use e w 1 \<open>hdr_stop ss (jfile q) nx\<close> in \<open>auto simp: nx_def segs'\<close>)
        then show ?thesis using True e by simp
      next
        case False
        then show ?thesis using bad [OF False e(5), of segs "journalHdr q'"] j' by (simp add: jopen_def)
      qed
    qed
  next
    case (2 rc q)
    then show ?case using bad [of rc q segs "journalHdr p"] wcoreD(1) [of q p] by simp
  qed
  show ?thesis
    unfolding sync_journal_file_def wp_bind [where m = getp] wp_get if_not_P [OF sa(1)] Let_def off
    by (subst wp_bind, rule wp_cons [OF start], rule after) simp_all
qed

section \<open>The page cache\<close>

text \<open>
  \<open>S\<close> are the journalled pages, \<open>R\<close> those whose record is not synced yet. A page that is not journalled is clean and holds
  the original; a page with an unsynced record is in the cache, dirty and marked.
\<close>

definition pgok :: "nat \<Rightarrow> u8 list \<Rightarrow> nat set \<Rightarrow> nat set \<Rightarrow> nat \<Rightarrow> pghdr \<Rightarrow> bool" where
  "pgok ps D0 S R pg h \<longleftrightarrow> 1 \<le> pg \<and> pg \<le> PAGER_MAX_PGNO \<and> pg \<noteq> PENDING_BYTE div ps + 1 \<and> length (pData h) = ps \<and>
     (pg \<le> length D0 div ps \<and> pg \<notin> S \<longrightarrow> pData h = page ps D0 pg \<and> \<not> pg_dirty h) \<and> (pg \<in> R \<longrightarrow> pg_need_sync h \<and> pg_dirty h)"

definition cacheok :: "nat \<Rightarrow> u8 list \<Rightarrow> nat set \<Rightarrow> nat set \<Rightarrow> (nat \<times> pghdr) list \<Rightarrow> bool" where
  "cacheok ps D0 S R C \<longleftrightarrow> distinct (map fst C) \<and> R \<subseteq> dom (map_of C) \<and> (\<forall>pg h. map_of C pg = Some h \<longrightarrow> pgok ps D0 S R pg h)"

lemma cacheokD:
  assumes "cacheok ps D0 S R C" and "map_of C pg = Some h"
  shows "1 \<le> pg" "pg \<noteq> PENDING_BYTE div ps + 1" "length (pData h) = ps" "pg \<le> length D0 div ps \<Longrightarrow> pg \<notin> S \<Longrightarrow> pData h = page ps D0 pg"
    "pg_dirty h \<Longrightarrow> pg \<le> length D0 div ps \<Longrightarrow> pg \<in> S" "pg \<in> R \<Longrightarrow> pg_need_sync h" "pgok ps D0 S R pg h" "pg \<le> PAGER_MAX_PGNO"
  using assms unfolding cacheok_def pgok_def by blast+

lemma pgok_mono: "pgok ps D0 S R pg h \<Longrightarrow> S \<subseteq> S' \<Longrightarrow> (pg \<in> R' \<Longrightarrow> pg \<in> R) \<Longrightarrow> pgok ps D0 S' R' pg h"
  by (auto simp: pgok_def)

lemma cacheok_update:
  assumes c: "cacheok ps D0 S R C" and "pgok ps D0 S' R' pg h" and "S \<subseteq> S'" and "R' \<subseteq> insert pg R"
  shows "cacheok ps D0 S' R' (AList.update pg h C)"
  unfolding cacheok_def
proof (intro conjI allI impI)
  show "distinct (map fst (AList.update pg h C))" using c by (simp add: cacheok_def distinct_update)
  have "R \<subseteq> dom (map_of C)" using c unfolding cacheok_def by blast
  then show "R' \<subseteq> dom (map_of (AList.update pg h C))" using assms(4) unfolding update_conv' by auto
  fix pg' h' assume "map_of (AList.update pg h C) pg' = Some h'"
  then show "pgok ps D0 S' R' pg' h'"
    using assms(2) pgok_mono [OF cacheokD(7) [OF c, of pg' h'] assms(3)] assms(4) by (auto simp: update_conv split: if_splits)
qed

lemma map_of_map_snd: "map_of (map (\<lambda>(k, h). (k, f h)) C) pg = map_option f (map_of C pg)"
  by (induction C) auto

lemma cacheok_map:
  assumes c: "cacheok ps D0 S R C" and "\<And>h. pData (f h) = pData h" and "\<And>h. pg_dirty (f h) \<Longrightarrow> pg_dirty h"
  shows "cacheok ps D0 S {} (map (\<lambda>(k, h). (k, f h)) C)"
  unfolding cacheok_def
proof (intro conjI allI impI)
  have "map fst (map (\<lambda>(k, h). (k, f h)) C) = map fst C" by (simp add: case_prod_beta)
  then show "distinct (map fst (map (\<lambda>(k, h). (k, f h)) C))" using c by (metis cacheok_def)
  fix pg h assume "map_of (map (\<lambda>(k, h). (k, f h)) C) pg = Some h"
  then obtain h0 where "map_of C pg = Some h0" "h = f h0" by (auto simp: map_of_map_snd)
  then show "pgok ps D0 S {} pg h" using cacheokD(7) [OF c, of pg h0] assms(2,3) by (auto simp: pgok_def)
qed simp

section \<open>The invariant of a write transaction\<close>

definition dbst :: "nat \<Rightarrow> u8 list \<Rightarrow> segment list \<Rightarrow> pager \<Rightarrow> bool" where
  "dbst ps D0 segs p \<longleftrightarrow> dbok ps (length D0 div ps) D0 (seg_pages segs) (dbf p) \<and> length D0 div ps \<le> dbFileSize p \<and>
     (if segs = [] then eState p = PAGER_WRITER_CACHEMOD \<and> dbf p = D0 else eState p = PAGER_WRITER_DBMOD)"

definition txn :: "nat \<Rightarrow> nat \<Rightarrow> u8 list \<Rightarrow> segment list \<Rightarrow> (nat \<times> u8 list) list \<Rightarrow> pager \<Rightarrow> bool" where
  "txn ss ps D0 segs recs p \<longleftrightarrow> conf ss ps D0 p \<and> jopen ss ps D0 segs recs p \<and>
     marked (length D0 div ps) (seg_pages segs \<union> fst ` set recs) p \<and>
     cacheok ps D0 (seg_pages segs \<union> fst ` set recs) (fst ` set recs) (pPCache p) \<and> dbst ps D0 segs p"

abbreviation rec_ok :: "nat \<Rightarrow> nat \<Rightarrow> u8 list \<Rightarrow> pager \<Rightarrow> bool" where
  "rec_ok ss ps D0 p \<equiv> recoverable ss ps D0 (dbf p) (jfile p)"

lemma closed_rec_ok:
  assumes "closed ss ps D0 (jfile q) sg e" and "dbf q = dbf p" and "dbst ps D0 segs p" and "sg \<in> {segs, segs @ [s]}"
  shows "rec_ok ss ps D0 q"
proof (rule recoverable_closed [OF assms(1)])
  show "dbok ps (length D0 div ps) D0 (seg_pages sg) (dbf q)"
    by (rule dbok_mono [of _ _ _ "seg_pages segs"]) (use assms(2-4) in \<open>auto simp: dbst_def seg_pages_append\<close>)
  show "sg = [] \<longrightarrow> dbf q = D0" using assms(2-4) by (auto simp: dbst_def)
qed

lemma txn_rec_ok: "txn ss ps D0 segs recs p \<Longrightarrow> rec_ok ss ps D0 p"
  using closed_rec_ok [of ss ps D0 p segs "journalHdr p" p segs] by (simp add: txn_def jopen_def)

text \<open>All dirty pages may be written to the database file.\<close>

definition ready :: "nat \<Rightarrow> nat \<Rightarrow> u8 list \<Rightarrow> segment list \<Rightarrow> pager \<Rightarrow> bool" where
  "ready ss ps D0 segs p \<longleftrightarrow> conf ss ps D0 p \<and> (\<exists>e. closed ss ps D0 (jfile p) segs e) \<and> segs \<noteq> [] \<and>
     cacheok ps D0 (seg_pages segs) {} (pPCache p) \<and> dbst ps D0 segs p"

lemma ready_rec_ok: "ready ss ps D0 segs p \<Longrightarrow> rec_ok ss ps D0 p"
  using closed_rec_ok [of ss ps D0 p segs _ p segs] by (auto simp: ready_def)

text \<open>What survives a sync of the journal besides the invariant.\<close>

definition steady :: "pager \<Rightarrow> pager \<Rightarrow> bool" where
  "steady p q \<longleftrightarrow> dbSize q = dbSize p \<and> changeCountDone q = changeCountDone p \<and>
     (\<forall>pg. map_option (\<lambda>h. (pData h, pg_dirty h, pg_dont_write h)) (pager_lookup q pg) = map_option (\<lambda>h. (pData h, pg_dirty h, pg_dont_write h)) (pager_lookup p pg))"

lemma syncJournal_wp:
  assumes t: "txn ss ps D0 segs recs p" and segs': "segs' = segs @ [(cksumInit p, recs)]"
  shows "wp (syncJournal newHdr) (\<lambda>rc q. rec_ok ss ps D0 q \<and>
    (rc = SQLITE_OK \<longrightarrow> steady p q \<and> (if newHdr then txn ss ps D0 segs' [] q else ready ss ps D0 segs' q))) p"
proof -
  define p1 where "p1 = (\<lambda>t e. p\<lparr>io_tick := t, eLock := e\<rparr>)"
  have tt: "conf ss ps D0 p" "jopen ss ps D0 segs recs p" "marked (length D0 div ps) (seg_pages segs \<union> fst ` set recs) p"
    "cacheok ps D0 (seg_pages segs \<union> fst ` set recs) (fst ` set recs) (pPCache p)" "dbst ps D0 segs p"
    using t by (simp_all add: txn_def)
  have pg': "seg_pages segs' = seg_pages segs \<union> fst ` set recs" "segs' \<noteq> []" by (simp_all add: segs' seg_pages_append)
  define Z where "Z = (\<lambda>p. sqlite3PcacheClearSyncFlags p\<lparr>eState := PAGER_WRITER_DBMOD\<rparr>)"
  have Z: "pPCache (Z q) = map (\<lambda>(k, h). (k, if pg_dirty h then h\<lparr>pg_need_sync := False\<rparr> else h)) (pPCache q)" "dbf (Z q) = dbf q" "jfile (Z q) = jfile q"
    "conf ss ps D0 (Z q) = conf ss ps D0 q" "jopen ss ps D0 sg rs (Z q) = jopen ss ps D0 sg rs q" "marked n M (Z q) = marked n M q" "eState (Z q) = PAGER_WRITER_DBMOD"
    "dbFileSize (Z q) = dbFileSize q" "dbSize (Z q) = dbSize q" "changeCountDone (Z q) = changeCountDone q" for q sg rs n M
    by (simp_all add: Z_def sqlite3PcacheClearSyncFlags_def pcache_map_def conf_def jopen_def marked_def jfile_def)
  have post: "cacheok ps D0 (seg_pages segs') {} (pPCache (Z q))" "steady p (Z q)" "dbst ps D0 segs' (Z q)"
    if q: "pPCache q = pPCache p" "dbf q = dbf p" "dbSize q = dbSize p" "changeCountDone q = changeCountDone p" "dbFileSize q = dbFileSize p" for q
  proof -
    show "cacheok ps D0 (seg_pages segs') {} (pPCache (Z q))"
      unfolding Z(1) q(1) pg'(1) by (rule cacheok_map [OF tt(4)]) (simp_all split: if_splits)
    show "steady p (Z q)" using q by (auto simp: steady_def Z pager_lookup_def map_of_map_snd option.map_comp intro!: option.map_cong)
    show "dbst ps D0 segs' (Z q)" using q tt(5) pg' by (auto simp: dbst_def Z intro: dbok_mono)
  qed
  show ?thesis
    unfolding syncJournal_def pager_wait_on_lock_def wp_bind [where m = "pagerLockDb l" for l]
  proof (rule pagerLockDb_wp, goal_cases)
    case (1 rc t' e)
    define p1 where "p1 = p\<lparr>io_tick := t', eLock := e\<rparr>"
    have p1: "conf ss ps D0 p1" "jopen ss ps D0 segs recs p1" "rec_ok ss ps D0 p1" "\<not> noSync p1" "jfd_open p1" "segs' = segs @ [(cksumInit p1, recs)]"
      "dbf p1 = dbf p" "pPCache p1 = pPCache p" "dbSize p1 = dbSize p" "changeCountDone p1 = changeCountDone p" "dbFileSize p1 = dbFileSize p"
      "pInJournal p1 = pInJournal p"
      using tt txn_rec_ok [OF t] by (simp_all add: p1_def conf_def jopen_def segs')
    show ?case
    proof (cases "rc = SQLITE_OK")
      case False
      then show ?thesis using p1(3) by (simp add: p1_def)
    next
      case True
      show ?thesis
        unfolding True simp_thms if_False p1_def [symmetric] wp_bind [where m = getp] wp_get if_not_P [OF p1(4)] if_P [OF p1(5)] wp_bind [where m = "sync_journal_file b" for b]
      proof (rule sync_journal_file_wp [OF p1(1,2,6)], goal_cases)
        case (1 q)
        have w: "pPCache q = pPCache p" "dbf q = dbf p" "dbSize q = dbSize p" "changeCountDone q = changeCountDone p" "dbFileSize q = dbFileSize p" "pInJournal q = pInJournal p"
          "conf ss ps D0 q"
          using 1(2) p1 wcoreD [of q "p1\<lparr>nRec := 0\<rparr>"] conf_wcore [of q "p1\<lparr>nRec := 0\<rparr>"] by (simp_all add: wcore_nRec)
        have "marked (length D0 div ps) (seg_pages segs') q" using tt(3) w(6) pg' by (simp add: marked_def)
        then have "txn ss ps D0 segs' [] (Z q)"
          using post [OF w(1-5)] 1(3) w(7) by (simp add: txn_def Z)
        then show ?case using post(2) [OF w(1-5)] txn_rec_ok 1(1) by (simp add: Z_def [symmetric])
      next
        case (2 q e)
        have w: "pPCache q = pPCache p" "dbf q = dbf p" "dbSize q = dbSize p" "changeCountDone q = changeCountDone p" "dbFileSize q = dbFileSize p" "conf ss ps D0 q"
          using 2(2) p1 wcoreD [of q p1] conf_wcore [of q p1] by simp_all
        have "ready ss ps D0 segs' (Z q)" using post [OF w(1-5)] 2(3) w(6) pg' by (auto simp: ready_def Z)
        then show ?case using post(2) [OF w(1-5)] ready_rec_ok 2(1) by (simp add: Z_def [symmetric])
      next
        case (3 rc q sg e)
        then show ?case using closed_rec_ok [OF 3(3), of p segs "(cksumInit p, recs)"] p1(7) tt(5) by (simp add: segs')
      qed
    qed
  qed (simp add: EXCLUSIVE_LOCK_def)
qed

end
