(* ===== verification/Pager_Commit.thy ===== *)
theory Pager_Commit
  imports Pager_Txn
begin

text \<open>
  The operations of a write transaction: writing dirty pages to the database file, spilling, reading and journalling
  pages, and the first phase of the commit. A transaction is a sequence of these operations; its original database is
  recoverable whenever it stops.
\<close>

section \<open>Writing pages to the database file\<close>

definition lcore :: "pager \<Rightarrow> pager" where
  "lcore p = p\<lparr>dbf := [], io_tick := 0, pPCache := [], dbFileVers := [], dbFileSize := 0\<rparr>"

lemma lcore_simps [simp]:
  "lcore (p\<lparr>dbf := x1\<rparr>) = lcore p" "lcore (p\<lparr>io_tick := x2\<rparr>) = lcore p" "lcore (p\<lparr>pPCache := x3\<rparr>) = lcore p"
  "lcore (p\<lparr>dbFileVers := x4\<rparr>) = lcore p" "lcore (p\<lparr>dbFileSize := x5\<rparr>) = lcore p" "lcore (pcache_put k h p) = lcore p"
  by (simp_all add: lcore_def pcache_put_def)

lemma lcore_field: "lcore q = lcore p \<Longrightarrow> (\<And>x. f (lcore x) = f x) \<Longrightarrow> f q = f p"
  by metis

lemma lcoreD:
  assumes "lcore q = lcore p"
  shows "jrnl q = jrnl p" "jfile q = jfile p" "io_fail q = io_fail p" "pInJournal q = pInJournal p" "nRec q = nRec p" "pageSize q = pageSize p"
    "sectorSize q = sectorSize p" "eState q = eState p" "noSync q = noSync p" "eLock q = eLock p" "safe_append q = safe_append p" "jfd_open q = jfd_open p"
    "dbOrigSize q = dbOrigSize p" "dbSize q = dbSize p" "errCode q = errCode p" "readOnly q = readOnly p" "journalHdr q = journalHdr p"
    "journalOff q = journalOff p" "cksumInit q = cksumInit p" "pcache_nRef q = pcache_nRef p" "changeCountDone q = changeCountDone p"
    "mxPgno q = mxPgno p"
  by (rule lcore_field [OF assms], simp add: lcore_def jfile_def)+

lemma conf_lcore: "lcore q = lcore p \<Longrightarrow> conf ss ps D0 q = conf ss ps D0 p"
  using lcoreD [of q p] by (simp add: conf_def)

lemma jopen_lcore: "lcore q = lcore p \<Longrightarrow> jopen ss ps D0 segs recs q = jopen ss ps D0 segs recs p"
  using lcoreD [of q p] by (simp add: jopen_def)

lemma marked_lcore: "lcore q = lcore p \<Longrightarrow> marked n0 S q = marked n0 S p"
  using lcoreD [of q p] by (simp add: marked_def)

lemma file_write_inside: "off + length xs \<le> length f \<Longrightarrow> length (file_write f off xs) = length f"
  by (cases "xs = []") (simp_all add: file_write_length, simp add: file_write_def)

lemma changecounter_simps [simp]:
  "pg_dirty (pager_write_changecounter p h) = pg_dirty h" "pg_need_sync (pager_write_changecounter p h) = pg_need_sync h"
  "pg_dont_write (pager_write_changecounter p h) = pg_dont_write h"
  by (simp_all add: pager_write_changecounter_def Let_def)

lemma changecounter_length: "512 \<le> length (pData h) \<Longrightarrow> length (pData (pager_write_changecounter p h)) = length (pData h)"
  by (simp add: pager_write_changecounter_def Let_def file_write_inside)

text \<open>The state during the writing of pages that are in \<open>T\<close> or new: only the file, the cache and its size change.\<close>

definition wrote :: "nat \<Rightarrow> u8 list \<Rightarrow> nat set \<Rightarrow> nat set \<Rightarrow> nat set \<Rightarrow> pager \<Rightarrow> pager \<Rightarrow> bool" where
  "wrote ps D0 T S R p q \<longleftrightarrow> lcore q = lcore p \<and> dbok ps (length D0 div ps) D0 T (dbf q) \<and> cacheok ps D0 S R (pPCache q) \<and> dbFileSize p \<le> dbFileSize q \<and>
     (\<forall>pg. map_option (\<lambda>h. (pg_dirty h, pg_dont_write h)) (pager_lookup q pg) = map_option (\<lambda>h. (pg_dirty h, pg_dont_write h)) (pager_lookup p pg))"

lemma wrote_trans: "wrote ps D0 T S R p q \<Longrightarrow> wrote ps D0 T S R q q' \<Longrightarrow> wrote ps D0 T S R p q'"
  by (simp add: wrote_def)

lemma pager_write_pagelist_wp:
  assumes "512 \<le> ps" "pageSize p = ps" "dbok ps (length D0 div ps) D0 T (dbf p)" "cacheok ps D0 S R (pPCache p)" "T \<subseteq> S"
    and "\<forall>pg\<in>set pgs. pg \<le> length D0 div ps \<longrightarrow> pg \<in> T"
  shows "wp (pager_write_pagelist pgs) (\<lambda>rc q. wrote ps D0 T S R p q) p"
  using assms(2-4,6)
proof (induction pgs arbitrary: p)
  case Nil
  then show ?case by (simp add: wrote_def)
next
  case (Cons pg pgs)
  show ?case
  proof (cases "pager_lookup p pg")
    case None
    then show ?thesis using Cons.prems by (simp add: wrote_def)
  next
    case (Some h)
    note ck = cacheokD [OF Cons.prems(3) Some [unfolded pager_lookup_def]]
    show ?thesis
    proof (cases "pg \<le> dbSize p \<and> \<not> pg_dont_write h")
      case False
      then show ?thesis unfolding pager_write_pagelist.simps wp_bind [where m = getp] wp_get Some option.case if_not_P [OF False]
        by (intro Cons.IH) (use Cons.prems in simp_all)
    next
      case True
      define h' where "h' = (if pg = 1 then pager_write_changecounter p h else h)"
      have h': "length (pData h') = ps" "pg_dirty h' = pg_dirty h" "pg_need_sync h' = pg_need_sync h" "pg_dont_write h' = pg_dont_write h"
        using ck(3) assms(1) by (simp_all add: h'_def changecounter_length)
      have T: "pg \<in> T \<or> length D0 div ps < pg" using Cons.prems(4) by force
      have ok: "pgok ps D0 S R pg h'" using ck(7) h' T assms(5) by (auto simp: pgok_def)
      define p1 where "p1 = pcache_put pg h' p"
      have p1: "wrote ps D0 T S R p (p1\<lparr>io_tick := t, dbf := d\<rparr>)" if "dbok ps (length D0 div ps) D0 T d" for d t
        using that Cons.prems cacheok_update [OF Cons.prems(3) ok] Some h'
        by (auto simp: wrote_def p1_def pcache_put_def pager_lookup_def update_conv)
      have w: "dbok ps (length D0 div ps) D0 T (file_write (dbf p) ((pg - 1) * ps) (pData h'))"
        "dbok ps (length D0 div ps) D0 T (file_torn (dbf p) ((pg - 1) * ps) (pData h') k)" for k
        using dbok_put [OF Cons.prems(2) ck(1), of "pData h'"] dbok_torn [OF Cons.prems(2) ck(1), of "pData h'" k] h'(1) T by (auto simp: dbok_def)
      have upd: "wrote ps D0 T S R p (let q = (if pg = 1 then q\<lparr>dbFileVers := v\<rparr> else q) in if pg > dbFileSize q then q\<lparr>dbFileSize := pg\<rparr> else q)"
        if "wrote ps D0 T S R p q" for q v
        using that by (auto simp: wrote_def pager_lookup_def Let_def)
      have pf: "pageSize p1 = ps" "dbf p1 = dbf p" using Cons.prems(1) by (simp_all add: p1_def pcache_put_def)
      define U :: "pager \<Rightarrow> pager" where "U = (\<lambda>q. let q = (if pg = 1 then q\<lparr>dbFileVers := take 16 (drop 24 (pData h'))\<rparr> else q) in if pg > dbFileSize q then q\<lparr>dbFileSize := pg\<rparr> else q)"
      have U: "wrote ps D0 T S R p (U q)" if "wrote ps D0 T S R p q" for q unfolding U_def by (rule upd [OF that])
      have IH: "wp (pager_write_pagelist pgs) (\<lambda>rc q. wrote ps D0 T S R p q) q" if q: "wrote ps D0 T S R p q" for q
      proof (rule wp_cons [OF Cons.IH [of q]])
        show "pageSize q = ps" using lcoreD(6) [of q p] q Cons.prems(1) by (simp add: wrote_def)
      qed (use q Cons.prems(4) wrote_trans [OF q] in \<open>simp_all add: wrote_def\<close>)
      show ?thesis
        unfolding pager_write_pagelist.simps wp_bind wp_get Some option.case if_P [OF True] Let_def h'_def [symmetric] wp_upd p1_def [symmetric] Cons.prems(1)
      proof (rule wp_db_write, goal_cases)
        case 1
        have "wrote ps D0 T S R p (U ((tick p1)\<lparr>dbf := file_write (dbf p1) ((pg - 1) * ps) (pData h')\<rparr>))"
          unfolding pf(2) by (rule U [OF p1 [OF w(1)]])
        then show ?case unfolding simp_thms if_False by (intro IH) (simp only: U_def Let_def)
      next
        case (2 k)
        have "wrote ps D0 T S R p (U ((tick p1)\<lparr>dbf := file_torn (dbf p1) ((pg - 1) * ps) (pData h') k\<rparr>))"
          unfolding pf(2) by (rule U [OF p1 [OF w(2)]])
        then show ?case by (simp only: U_def Let_def wp_if wp_ret rc.distinct simp_thms if_True)
      qed
    qed
  qed
qed

section \<open>Spilling a dirty page\<close>

lemma wrote_txn:
  assumes "txn ss ps D0 segs recs p" and "segs \<noteq> []" and "wrote ps D0 (seg_pages segs) (seg_pages segs \<union> fst ` set recs) (fst ` set recs) p q"
  shows "txn ss ps D0 segs recs q"
proof -
  have l: "lcore q = lcore p" using assms(3) by (simp add: wrote_def)
  show ?thesis
    using assms conf_lcore [OF l] jopen_lcore [OF l] marked_lcore [OF l] lcoreD(8) [OF l] by (auto simp: txn_def wrote_def dbst_def)
qed

lemma txn_geo: "txn ss ps D0 segs recs p \<Longrightarrow> 512 \<le> ps \<and> pageSize p = ps \<and> errCode p = SQLITE_OK"
  by (simp add: txn_def conf_def geometry_def)

lemma txn_dirty: "txn ss ps D0 segs recs p \<Longrightarrow> pager_lookup p pg = Some h \<Longrightarrow> pg_dirty h \<Longrightarrow> pg \<le> length D0 div ps \<Longrightarrow>
  pg \<in> seg_pages segs \<union> fst ` set recs"
  using cacheokD(5) [of ps D0 "seg_pages segs \<union> fst ` set recs" "fst ` set recs" "pPCache p" pg h] unfolding txn_def pager_lookup_def by blast

lemma put_simps [simp]:
  "dbf (pcache_put pg h p) = dbf p" "jfile (pcache_put pg h p) = jfile p" "jfile (p\<lparr>errCode := x1\<rparr>) = jfile p" "conf ss ps D0 (pcache_put pg h p) = conf ss ps D0 p"
  "jopen ss ps D0 segs recs (pcache_put pg h p) = jopen ss ps D0 segs recs p" "marked n0 S (pcache_put pg h p) = marked n0 S p"
  "dbst ps D0 segs (pcache_put pg h p) = dbst ps D0 segs p" "dbSize (pcache_put pg h p) = dbSize p" "pPCache (pcache_put pg h p) = AList.update pg h (pPCache p)"
  "eState (pcache_put pg h p) = eState p" "changeCountDone (pcache_put pg h p) = changeCountDone p"
  by (simp_all add: pcache_put_def conf_def jopen_def marked_def dbst_def jfile_def)

lemma txn_put:
  assumes "txn ss ps D0 segs recs p" and "pgok ps D0 (seg_pages segs \<union> fst ` set recs) (fst ` set recs) pg h"
  shows "txn ss ps D0 segs recs (pcache_put pg h p)"
  using assms cacheok_update [OF _ assms(2), of "seg_pages segs \<union> fst ` set recs" "fst ` set recs" "pPCache p"] by (auto simp add: txn_def)

lemma wp_pager_error:
  assumes "rc = SQLITE_OK \<Longrightarrow> Q SQLITE_OK p" and "\<And>s e. rc \<noteq> SQLITE_OK \<Longrightarrow> Q rc (p\<lparr>errCode := e, eState := s\<rparr>)"
  shows "wp (pager_error rc) Q p"
proof -
  have self: "p\<lparr>errCode := errCode p, eState := eState p\<rparr> = p" by (cases p) simp
  have "Q rc p" using assms(1) assms(2) [of "eState p" "errCode p", unfolded self] by (cases "rc = SQLITE_OK") simp_all
  then show ?thesis using assms(2) by (auto simp: pager_error_def is_ioerr_def)
qed

text \<open>Writing one page that may be written, and cleaning it.\<close>

lemma spill_wp:
  assumes t: "txn ss ps D0 segs recs p" and segs: "segs \<noteq> []" and lk: "pager_lookup p pg = Some h" "pg_dirty h" and nr: "pg \<notin> fst ` set recs"
  shows "wp (do {
     rc \<leftarrow> pager_write_pagelist [pg];
     upd (\<lambda>p. case pager_lookup p pg of
        Some h \<Rightarrow> if rc = SQLITE_OK then pcache_put pg (sqlite3PcacheMakeClean h) p else p | None \<Rightarrow> p);
     pager_error rc }) (\<lambda>rc q. rec_ok ss ps D0 q \<and> (rc = SQLITE_OK \<longrightarrow> txn ss ps D0 segs recs q \<and> dbSize q = dbSize p)) p"
proof -
  let ?S = "seg_pages segs \<union> fst ` set recs" and ?R = "fst ` set recs"
  have tt: "dbok ps (length D0 div ps) D0 (seg_pages segs) (dbf p)" "cacheok ps D0 ?S ?R (pPCache p)" using t by (auto simp: txn_def dbst_def)
  have pg: "\<forall>pg'\<in>set [pg]. pg' \<le> length D0 div ps \<longrightarrow> pg' \<in> seg_pages segs" using txn_dirty [OF t lk] nr by auto
  note g = txn_geo [OF t]
  show ?thesis
    unfolding wp_bind
  proof (rule wp_cons [OF pager_write_pagelist_wp [OF conjunct1 [OF g] _ tt Un_upper1 pg]], goal_cases)
    case (2 rc q)
    have tq: "txn ss ps D0 segs recs q" by (rule wrote_txn [OF t segs 2])
    have "map_option (\<lambda>h. (pg_dirty h, pg_dont_write h)) (pager_lookup q pg) = Some (True, pg_dont_write h)" using 2 lk by (simp add: wrote_def)
    then obtain hq where hq: "pager_lookup q pg = Some hq" "pg_dirty hq" by (cases "pager_lookup q pg") auto
    have ck: "pgok ps D0 ?S ?R pg hq" using cacheokD(7) [of ps D0 ?S ?R "pPCache q" pg hq] tq hq by (simp add: txn_def pager_lookup_def)
    have "pgok ps D0 ?S ?R pg (sqlite3PcacheMakeClean hq)" using ck nr by (auto simp: pgok_def sqlite3PcacheMakeClean_def)
    then have t2: "txn ss ps D0 segs recs (pcache_put pg (sqlite3PcacheMakeClean hq) q)" by (rule txn_put [OF tq])
    have sz: "dbSize q = dbSize p" using 2 lcoreD(14) [of q p] by (simp add: wrote_def)
    show ?case
      unfolding wp_upd hq(1) option.case by (rule wp_pager_error) (use txn_rec_ok [OF tq] t2 sz in simp_all)
  qed (use g in simp)
qed

lemma pagerStress_wp:
  assumes t: "txn ss ps D0 segs recs p" and lk: "pager_lookup p pg = Some h" "pg_dirty h"
  shows "wp (pagerStress pg) (\<lambda>rc q. rec_ok ss ps D0 q \<and> (rc = SQLITE_OK \<longrightarrow> (\<exists>segs recs. txn ss ps D0 segs recs q) \<and> dbSize q = dbSize p)) p"
proof (cases "doNotSyncSpill p \<and> need_sync p pg")
  case True
  then show ?thesis using t txn_geo [OF t] txn_rec_ok [OF t] by (auto simp: pagerStress_def)
next
  case F: False
  have e: "\<not> errCode p \<noteq> SQLITE_OK" using txn_geo [OF t] by simp
  have assoc: "wp (do { rc \<leftarrow> m; rc \<leftarrow> (if rc = SQLITE_OK then pager_write_pagelist [pg] else ret rc); r rc }) Q q =
      wp m (\<lambda>rc. wp (if rc = SQLITE_OK then do { rc \<leftarrow> pager_write_pagelist [pg]; r rc } else r rc) Q) q" for m r Q q
    by (simp add: wp_def split: prod.splits)
  show ?thesis
  proof (cases "need_sync p pg \<or> eState p = PAGER_WRITER_CACHEMOD")
    case True
    show ?thesis
      unfolding pagerStress_def wp_bind [where m = getp] wp_get if_not_P [OF e] if_not_P [OF F] if_P [OF True] assoc
    proof (rule wp_cons [OF syncJournal_wp [OF t refl]], goal_cases)
      case (1 rc q)
      show ?case
      proof (cases "rc = SQLITE_OK")
        case False
        then show ?thesis unfolding if_not_P [OF False] wp_bind wp_upd
          by (intro wp_pager_error) (use 1 in \<open>auto split: option.splits\<close>)
      next
        case rc: True
        have tq: "txn ss ps D0 (segs @ [(cksumInit p, recs)]) [] q" and st: "steady p q" using 1 rc by simp_all
        have "map_option (\<lambda>h. (pData h, pg_dirty h, pg_dont_write h)) (pager_lookup q pg) = Some (pData h, True, pg_dont_write h)"
          using st lk by (simp add: steady_def)
        then obtain hq where hq: "pager_lookup q pg = Some hq" "pg_dirty hq" by (cases "pager_lookup q pg") auto
        have sz: "dbSize q = dbSize p" using st by (simp add: steady_def)
        show ?thesis unfolding if_P [OF rc]
          by (rule wp_cons [OF spill_wp [OF tq _ hq]]) (use sz in auto)
      qed
    qed
  next
    case False
    have segs: "segs \<noteq> []" using t False by (auto simp: txn_def dbst_def)
    have nr: "pg \<notin> fst ` set recs"
      using cacheokD(6) [of ps D0 "seg_pages segs \<union> fst ` set recs" "fst ` set recs" "pPCache p" pg h] t lk(1) False
      by (auto simp: txn_def need_sync_def pager_lookup_def)
    show ?thesis
      unfolding pagerStress_def wp_bind [where m = getp] wp_get if_not_P [OF e] if_not_P [OF F] if_not_P [OF False] assoc wp_ret if_P [OF refl]
      by (rule wp_cons [OF spill_wp [OF t segs lk nr]]) auto
  qed
qed

section \<open>Reading a page\<close>

definition gcore :: "pager \<Rightarrow> pager" where
  "gcore p = p\<lparr>io_tick := 0, pPCache := [], dbFileVers := [], mallocs := 0\<rparr>"

lemma gcore_simps [simp]:
  "gcore (p\<lparr>io_tick := x1\<rparr>) = gcore p" "gcore (p\<lparr>pPCache := x2\<rparr>) = gcore p" "gcore (p\<lparr>dbFileVers := x3\<rparr>) = gcore p"
  "gcore (p\<lparr>mallocs := x4\<rparr>) = gcore p" "gcore (pcache_put k h p) = gcore p"
  by (simp_all add: gcore_def pcache_put_def)

lemma gcore_field: "gcore q = gcore p \<Longrightarrow> (\<And>x. f (gcore x) = f x) \<Longrightarrow> f q = f p"
  by metis

lemma gcoreD:
  assumes "gcore q = gcore p"
  shows "conf ss ps D0 q = conf ss ps D0 p" "jopen ss ps D0 segs recs q = jopen ss ps D0 segs recs p" "marked n0 S q = marked n0 S p"
    "dbst ps D0 segs q = dbst ps D0 segs p" "dbSize q = dbSize p" "dbf q = dbf p" "jfile q = jfile p" "eState q = eState p" "pageSize q = pageSize p"
    "changeCountDone q = changeCountDone p" "dbFileSize q = dbFileSize p" "dbOrigSize q = dbOrigSize p" "sectorSize q = sectorSize p"
  by (rule gcore_field [OF assms], simp add: gcore_def conf_def jopen_def marked_def dbst_def jfile_def)+

definition dirty :: "pager \<Rightarrow> nat \<Rightarrow> bool" where
  "dirty p pg \<longleftrightarrow> (\<exists>h. pager_lookup p pg = Some h \<and> pg_dirty h)"

definition got :: "nat \<Rightarrow> u8 list \<Rightarrow> nat set \<Rightarrow> nat set \<Rightarrow> pager \<Rightarrow> pager \<Rightarrow> bool" where
  "got ps D0 S R p q \<longleftrightarrow> gcore q = gcore p \<and> cacheok ps D0 S R (pPCache q) \<and> (\<forall>pg h. pager_lookup p pg = Some h \<longrightarrow> pager_lookup q pg = Some h) \<and>
     (\<forall>pg. dirty q pg = dirty p pg)"

lemma sqlite3PagerGet_wp:
  assumes c: "conf ss ps D0 p" and k: "cacheok ps D0 S R (pPCache p)" and d: "dbok ps (length D0 div ps) D0 S (dbf p)"
    and sz: "pg \<le> length D0 div ps \<longrightarrow> pg \<le> dbSize p"
  shows "wp (sqlite3PagerGet pg) (\<lambda>rc q. got ps D0 S R p q \<and> (rc = SQLITE_OK \<longrightarrow> pager_lookup q pg \<noteq> None)) p" (is "wp _ ?Q p")
proof -
  have cf: "pageSize p = ps" "errCode p = SQLITE_OK" "0 < pcache_nRef p" "0 < ps" "length D0 = length D0 div ps * ps"
    using c by (auto simp: conf_def geometry_def)
  have err: "wp (pager_acquire_err rc) ?Q q" if "rc \<noteq> SQLITE_OK" "got ps D0 S R p q" "pcache_nRef q = pcache_nRef p" for rc q
    using that cf(3) by (simp add: pager_acquire_err_def pagerUnlockIfUnused_def)
  have same: "got ps D0 S R p q" if "gcore q = gcore p" "pPCache q = pPCache p" for q
    using that k by (simp add: got_def dirty_def pager_lookup_def)
  have put: "?Q SQLITE_OK (pcache_put pg h q)"
    if q: "gcore q = gcore p" "pPCache q = pPCache p" and "pager_lookup p pg = None" and ok: "pgok ps D0 S {} pg h" and nd: "\<not> pg_dirty h" for q h
  proof -
    have R: "R \<subseteq> dom (map_of (pPCache p))" using k by (simp add: cacheok_def)
    then have "pg \<notin> R" using that(3) by (auto simp: pager_lookup_def)
    then have "pgok ps D0 S R pg h" using ok by (auto simp: pgok_def)
    then have "cacheok ps D0 S R (AList.update pg h (pPCache p))" by (rule cacheok_update [OF k]) auto
    then show ?thesis using q that(3) nd by (auto simp: got_def dirty_def pager_lookup_def update_conv)
  qed
  show ?thesis
  proof (cases "pg = 0 \<or> pager_lookup p pg \<noteq> None")
    case True
    then show ?thesis using same [of p] cf(2) by (auto simp: sqlite3PagerGet_def)
  next
    case False
    then have n: "pg \<noteq> 0" "pager_lookup p pg = None" by auto
    define p1 where "p1 = p\<lparr>mallocs := mallocs p + 1\<rparr>"
    have p1: "gcore p1 = gcore p" "pPCache p1 = pPCache p" "pcache_nRef p1 = pcache_nRef p" "pageSize p1 = ps" "dbf p1 = dbf p" by (simp_all add: p1_def cf(1))
    have new: "pgok ps D0 S {} pg \<lparr>pData = x, pg_dirty = False, pg_need_sync = False, pg_dont_write = False\<rparr>"
      if "length x = ps" "pg \<le> length D0 div ps \<and> pg \<notin> S \<longrightarrow> x = page ps D0 pg" "pg \<noteq> PAGER_MJ_PGNO p" "pg \<le> PAGER_MAX_PGNO" for x
      using that n(1) by (auto simp: pgok_def PAGER_MJ_PGNO_def cf(1))
    have read: "snd (file_read (dbf p) ps ((pg - 1) * ps)) = page ps D0 pg" if "pg \<le> length D0 div ps" "pg \<notin> S"
    proof -
      have pg: "1 \<le> pg" "pg \<le> length D0 div ps" using n(1) that(1) by simp_all
      have l: "length D0 div ps * ps \<le> length (dbf p)" and e: "page ps (dbf p) pg = page ps D0 pg" using d pg that(2) by (auto simp: dbok_def)
      have "(pg - 1) * ps + ps \<le> length (dbf p)" using page_end [OF pg, of ps] l by linarith
      then show ?thesis using e by (simp add: file_read_ok page_def)
    qed
    have rl: "length (snd (file_read (dbf p) ps ((pg - 1) * ps))) = ps" by (simp add: file_read_def Let_def)
    have db: "wp (readDbPage pg) (\<lambda>x. wp (case x of (rc, d) \<Rightarrow> if rc \<noteq> SQLITE_OK then pager_acquire_err rc
        else do { upd (pcache_put pg \<lparr>pData = d, pg_dirty = False, pg_need_sync = False, pg_dont_write = False\<rparr>); ret SQLITE_OK }) ?Q) p1"
      if mj: "pg \<noteq> PAGER_MJ_PGNO p" "pg \<le> PAGER_MAX_PGNO"
    proof -
      obtain rc x where r: "file_read (dbf p) ps ((pg - 1) * ps) = (rc, x)" by fastforce
      have rc: "rc \<in> {SQLITE_OK, SQLITE_IOERR_SHORT_READ}" using r by (auto simp: file_read_def Let_def split: if_splits)
      have x: "pgok ps D0 S {} pg \<lparr>pData = x, pg_dirty = False, pg_need_sync = False, pg_dont_write = False\<rparr>"
        using new [OF _ _ mj, of x] rl read r by simp
      show ?thesis
        unfolding readDbPage_def wp_bind [where m = getp] wp_get p1(4) wp_bind [where m = "os_read f n t" for f n t] Let_def
      proof (rule wp_os_read, goal_cases)
        case 1
        have ok: "(if rc = SQLITE_IOERR_SHORT_READ then SQLITE_OK else rc) = SQLITE_OK" using rc by auto
        have f: "file_read (dbf (tick p1)) ps ((pg - 1) * ps) = (rc, x)" using r p1(5) by simp
        show ?case unfolding f prod.case ok using put [OF _ _ n(2) x] p1(1,2) by (simp add: pager_lookup_def update_conv)
      next
        case 2
        show ?case using err [of SQLITE_IOERR_READ] same p1 by simp
      qed
    qed
    have e0: "\<not> errCode p \<noteq> SQLITE_OK" "\<not> pager_lookup p pg \<noteq> None" using cf(2) n(2) by simp_all
    show ?thesis
      unfolding sqlite3PagerGet_def wp_bind [where m = getp] wp_get if_not_P [OF n(1)] if_not_P [OF e0(1)] if_not_P [OF e0(2)]
        wp_bind [where m = "upd f" for f] wp_upd p1_def [symmetric]
      using err [OF _ same [OF p1(1,2)] p1(3)] db sz put [OF p1(1,2) n(2) new, of "replicate ps 0"] cf(1)
      by (auto simp: Let_def)
  qed
qed

section \<open>Making a page writable\<close>

text \<open>A transaction that has begun and not written anything.\<close>

definition begun :: "nat \<Rightarrow> nat \<Rightarrow> u8 list \<Rightarrow> pager \<Rightarrow> bool" where
  "begun ss ps D0 p \<longleftrightarrow> conf ss ps D0 p \<and> eState p = PAGER_WRITER_LOCKED \<and> dbf p = D0 \<and> hdr_stop ss (jfile p) 0 \<and>
     cacheok ps D0 {} {} (pPCache p) \<and> (\<forall>pg. \<not> dirty p pg) \<and> dbSize p = length D0 div ps \<and> dbFileSize p = length D0 div ps"

definition inwrite :: "nat \<Rightarrow> nat \<Rightarrow> u8 list \<Rightarrow> pager \<Rightarrow> bool" where
  "inwrite ss ps D0 p \<longleftrightarrow> begun ss ps D0 p \<or> (\<exists>segs recs. txn ss ps D0 segs recs p)"

lemma conf_len: "conf ss ps D0 p \<Longrightarrow> length D0 = length D0 div ps * ps"
  by (auto simp: conf_def geometry_def)

lemma begun_rec_ok: "begun ss ps D0 p \<Longrightarrow> rec_ok ss ps D0 p"
  using recoverable_stop conf_len by (auto simp: begun_def)

lemma inwrite_rec_ok: "inwrite ss ps D0 p \<Longrightarrow> rec_ok ss ps D0 p"
  using begun_rec_ok txn_rec_ok by (auto simp: inwrite_def)

lemma txn_cache:
  assumes "txn ss ps D0 segs recs p" and "conf ss ps D0 q" "jopen ss ps D0 segs recs q" "dbst ps D0 segs q" "pInJournal q = pInJournal p" "pPCache q = pPCache p"
  shows "txn ss ps D0 segs recs q"
  using assms by (simp add: txn_def marked_def)

lemma pager_open_journal_wp:
  assumes b: "begun ss ps D0 p"
  shows "wp pager_open_journal (\<lambda>rc q. rec_ok ss ps D0 q \<and>
    (rc = SQLITE_OK \<longrightarrow> txn ss ps D0 [] [] q \<and> dbSize q = dbSize p \<and> pPCache q = pPCache p)) p"
proof -
  have bb: "conf ss ps D0 p" "eState p = PAGER_WRITER_LOCKED" "dbf p = D0" "hdr_stop ss (jfile p) 0" "cacheok ps D0 {} {} (pPCache p)"
    "dbSize p = length D0 div ps" "dbFileSize p = length D0 div ps" using b by (simp_all add: begun_def)
  have n0: "length D0 div ps < 2 ^ 32" using bb(1) by (auto simp: conf_def geometry_def)
  have len: "length D0 = length D0 div ps * ps" by (rule conf_len [OF bb(1)])
  have rec: "rec_ok ss ps D0 q" if "dbf q = D0" "hdr_stop ss (jfile q) 0" for q using recoverable_stop that len by auto
  define F where "F = (\<lambda>(rc :: rc) (p :: pager). if rc \<noteq> SQLITE_OK then p\<lparr>pInJournal := None\<rparr> else p\<lparr>eState := PAGER_WRITER_CACHEMOD\<rparr>)"
  let ?Q = "\<lambda>rc q. rec_ok ss ps D0 q \<and> (rc = SQLITE_OK \<longrightarrow> txn ss ps D0 [] [] q \<and> dbSize q = dbSize p \<and> pPCache q = pPCache p)"
  have bad: "?Q rc (F rc q)" if "rc \<noteq> SQLITE_OK" "dbf q = D0" "hdr_stop ss (jfile q) 0" for rc q
    using rec [OF that(2,3)] that(1) by (simp add: F_def)
  have hdr: "wp (do { upd (\<lambda>p. p\<lparr>nRec := 0, journalOff := 0, setMaster := False, journalHdr := 0\<rparr>); writeJournalHdr }) (\<lambda>rc q. ?Q rc (F rc q)) q"
    if q: "conf ss ps D0 q" "dbf q = D0" "hdr_stop ss (jfile q) 0" "jfd_open q" "pInJournal q = Some (bitvec_zero (length D0 div ps))"
      "dbSize q = dbSize p" "pPCache q = pPCache p" "dbFileSize q = length D0 div ps" for q
  proof -
    define q1 where "q1 = q\<lparr>nRec := 0, journalOff := 0, setMaster := False, journalHdr := 0\<rparr>"
    have q1: "conf ss ps D0 q1" "0 = roundup ss (journalOff q1)" "closed ss ps D0 (jfile q1) [] 0" "jfd_open q1" "nRec q1 = 0"
      using q by (simp_all add: q1_def conf_def roundup_def closed_def)
    have f: "dbf q1 = D0" "dbSize q1 = dbSize p" "pPCache q1 = pPCache p" "dbFileSize q1 = length D0 div ps" "pInJournal q1 = Some (bitvec_zero (length D0 div ps))"
      using q by (simp_all add: q1_def)
    show ?thesis unfolding wp_bind wp_upd q1_def [symmetric]
    proof (rule writeJournalHdr_wp [OF q1], goal_cases)
      case (1 q')
      note w = wcoreD [OF 1(1)]
      have "marked (length D0 div ps) {} q'" using bitvec_zero_ok [OF n0] bitvec_zero_size bitvec_zero_set w(4) f(5) by (simp add: marked_def)
      then have t: "txn ss ps D0 [] [] (q'\<lparr>eState := PAGER_WRITER_CACHEMOD\<rparr>)"
        using 1(3) w f q1(1) bb(5) conf_wcore [OF 1(1)] len by (auto simp: txn_def conf_def jopen_def marked_def dbst_def dbok_def)
      then show ?case using txn_rec_ok [OF t] w f by (simp add: F_def)
    next
      case (2 rc q')
      then show ?case using bad [of rc q'] wcoreD(1) [of q' q1] f by (simp add: closed_def)
    qed
  qed
  show ?thesis
  proof (cases "malloc_ok p (mallocs p)")
    case False
    then show ?thesis using rec [of "p\<lparr>pInJournal := None, mallocs := Suc (mallocs p)\<rparr>"] bb
      by (simp add: pager_open_journal_def sqlite3BitvecCreate_def)
  next
    case True
    define p1 where "p1 = p\<lparr>pInJournal := Some (bitvec_zero (length D0 div ps)), mallocs := Suc (mallocs p)\<rparr>"
    have p1: "conf ss ps D0 p1" "dbf p1 = D0" "hdr_stop ss (jfile p1) 0" "pInJournal p1 = Some (bitvec_zero (length D0 div ps))"
      "dbSize p1 = dbSize p" "pPCache p1 = pPCache p" "dbFileSize p1 = length D0 div ps" using bb by (simp_all add: p1_def conf_def)
    have create: "sqlite3BitvecCreate (malloc_ok p) (mallocs p) (dbSize p) = (Some (bitvec_zero (length D0 div ps)), Suc (mallocs p))"
      using True bb(6) by (simp add: sqlite3BitvecCreate_def)
    have ne: "Some (bitvec_zero (length D0 div ps)) \<noteq> None" by simp
    have op: "wp (if jfd_open p then ret SQLITE_OK else j_open) (\<lambda>rc q. dbf q = D0 \<and> hdr_stop ss (jfile q) 0 \<and>
        (rc = SQLITE_OK \<longrightarrow> conf ss ps D0 q \<and> jfd_open q \<and> pInJournal q = pInJournal p1 \<and> dbSize q = dbSize p \<and> pPCache q = pPCache p \<and> dbFileSize q = length D0 div ps)) p1"
    proof (cases "jfd_open p")
      case True
      then show ?thesis using p1 by (simp add: p1_def)
    next
      case False
      show ?thesis unfolding if_not_P [OF False] j_open_def by (rule wp_os_effect) (use p1 in \<open>simp_all add: conf_def\<close>)
    qed
    show ?thesis
      unfolding pager_open_journal_def wp_bind [where m = getp] wp_get Let_def create prod.case wp_bind [where m = "upd f" for f] wp_upd p1_def [symmetric]
        if_not_P [OF ne] wp_bind [where m = "if b then ret SQLITE_OK else j_open" for b]
    proof (rule wp_cons [OF op], goal_cases)
      case (1 rc q)
      have fin: "wp (upd (F rc')) (\<lambda>_. wp (ret rc') ?Q) q' = ?Q rc' (F rc' q')" for rc' q' by simp
      show ?case
      proof (cases "rc = SQLITE_OK")
        case True
        show ?thesis unfolding if_P [OF True] wp_bind [where m = "m \<bind> f" for m f] F_def [symmetric]
          by (rule wp_cons [OF hdr]) (use 1 True p1(4) in \<open>simp_all add: F_def\<close>)
      next
        case False
        then show ?thesis using bad [OF False] 1 by (simp add: F_def)
      qed
    qed
  qed
qed

text \<open>Cached pages keep their content and stay dirty.\<close>

definition keeps :: "pager \<Rightarrow> pager \<Rightarrow> bool" where
  "keeps p q \<longleftrightarrow> dbSize p \<le> dbSize q \<and>
     (\<forall>pg h. pager_lookup p pg = Some h \<longrightarrow> (\<exists>h'. pager_lookup q pg = Some h' \<and> pData h' = pData h \<and> (pg_dirty h \<longrightarrow> pg_dirty h')))"

lemma keeps_trans: "keeps p q \<Longrightarrow> keeps q r \<Longrightarrow> keeps p r"
  unfolding keeps_def by (metis order_trans)

lemma keeps_refl [simp]: "keeps p p"
  by (simp add: keeps_def)

lemma keeps_put: "pager_lookup p pg = Some h \<Longrightarrow> pData h' = pData h \<Longrightarrow> (pg_dirty h \<Longrightarrow> pg_dirty h') \<Longrightarrow> keeps p (pcache_put pg h' p)"
  by (auto simp: keeps_def pager_lookup_def update_conv)

lemma keeps_got: "got ps D0 S R p q \<Longrightarrow> keeps p q"
  using gcoreD(5) [of q p] by (auto simp: got_def keeps_def)

lemma keeps_dirty: "keeps p q \<Longrightarrow> dirty p pg \<Longrightarrow> dirty q pg"
  unfolding keeps_def dirty_def by blast

definition written :: "nat \<Rightarrow> nat \<Rightarrow> u8 list \<Rightarrow> pager \<Rightarrow> nat \<Rightarrow> rc \<Rightarrow> pager \<Rightarrow> bool" where
  "written ss ps D0 p pg rc q \<longleftrightarrow> rec_ok ss ps D0 q \<and>
     (rc = SQLITE_OK \<longrightarrow> (\<exists>segs recs. txn ss ps D0 segs recs q) \<and> dirty q pg \<and> keeps p q)"

lemma MakeDirty_simps [simp]: "pData (sqlite3PcacheMakeDirty h) = pData h" "pg_dirty (sqlite3PcacheMakeDirty h)"
  "pg_need_sync (sqlite3PcacheMakeDirty h) = pg_need_sync h"
  by (simp_all add: sqlite3PcacheMakeDirty_def)

lemma txn_need_sync:
  assumes "txn ss ps D0 segs recs p"
  shows "txn ss ps D0 segs recs (set_need_sync pg p)" "keeps p (set_need_sync pg p)"
proof -
  have c: "cacheok ps D0 (seg_pages segs \<union> fst ` set recs) (fst ` set recs) (pPCache p)" using assms by (simp add: txn_def)
  show "txn ss ps D0 segs recs (set_need_sync pg p)"
  proof (cases "pager_lookup p pg")
    case (Some h)
    have "pgok ps D0 (seg_pages segs \<union> fst ` set recs) (fst ` set recs) pg (h\<lparr>pg_need_sync := True\<rparr>)"
      using cacheokD(7) [OF c Some [unfolded pager_lookup_def]] by (simp add: pgok_def)
    then show ?thesis using txn_put [OF assms] by (simp add: set_need_sync_def Some)
  qed (use assms in \<open>simp add: set_need_sync_def\<close>)
  show "keeps p (set_need_sync pg p)" by (auto simp: set_need_sync_def intro!: keeps_put split: option.split)
qed

text \<open>The body of \<open>pager_write\<close>, with the journal open.\<close>

lemma write_page_wp:
  assumes t: "txn ss ps D0 segs recs p" and lk: "pager_lookup p pg = Some h"
  shows "wp (do {
     upd (pcache_put pg (sqlite3PcacheMakeDirty h));
     rc \<leftarrow> (if pageInJournal p pg then ret SQLITE_OK
            else if pg \<le> dbOrigSize p \<and> jfd_open p then journal_page pg h
            else do { upd (\<lambda>p. if eState p \<noteq> PAGER_WRITER_DBMOD then set_need_sync pg p else p); ret SQLITE_OK });
     if rc \<noteq> SQLITE_OK then ret rc
     else do { upd (\<lambda>p. if dbSize p < pg then p\<lparr>dbSize := pg\<rparr> else p); ret SQLITE_OK } }) (written ss ps D0 p pg) p"
proof -
  let ?S = "seg_pages segs \<union> fst ` set recs" and ?R = "fst ` set recs"
  have tt: "conf ss ps D0 p" "jopen ss ps D0 segs recs p" "marked (length D0 div ps) ?S p" "cacheok ps D0 ?S ?R (pPCache p)" "dbst ps D0 segs p"
    using t by (simp_all add: txn_def)
  note ck = cacheokD [OF tt(4) lk [unfolded pager_lookup_def]]
  have og: "dbOrigSize p = length D0 div ps" "jfd_open p" using tt(1,2) by (simp_all add: conf_def jopen_def)
  define p1 where "p1 = pcache_put pg (sqlite3PcacheMakeDirty h) p"
  have k1: "keeps p p1" "dirty p1 pg" "pager_lookup p1 pg = Some (sqlite3PcacheMakeDirty h)"
    unfolding p1_def by (rule keeps_put [OF lk], simp_all add: dirty_def pager_lookup_def update_conv)
  have fin: "written ss ps D0 p pg SQLITE_OK (if dbSize q < pg then q\<lparr>dbSize := pg\<rparr> else q)"
    if "txn ss ps D0 sg rs q" "keeps p q" "dirty q pg" for sg rs q
  proof -
    have "txn ss ps D0 sg rs (q\<lparr>dbSize := pg\<rparr>)" using that(1) by (simp add: txn_def conf_def jopen_def marked_def dbst_def)
    moreover have "dbSize q < pg \<Longrightarrow> keeps p (q\<lparr>dbSize := pg\<rparr>)" using that(2) by (auto simp: keeps_def pager_lookup_def)
    ultimately show ?thesis using that txn_rec_ok [OF that(1)] by (auto simp: written_def dirty_def pager_lookup_def)
  qed
  have mark: "pgok ps D0 (insert pg ?S) (insert pg ?R) pg (sqlite3PcacheMakeDirty h\<lparr>pg_need_sync := True\<rparr>)" using ck(7) by (simp add: pgok_def)
  show ?thesis
  proof (cases "pageInJournal p pg")
    case True
    then have "pg \<in> ?S" using marked_test [OF tt(3)] by simp
    then have "pgok ps D0 ?S ?R pg (sqlite3PcacheMakeDirty h)" using ck(7) by (auto simp: pgok_def)
    then have "txn ss ps D0 segs recs p1" unfolding p1_def by (rule txn_put [OF t])
    then show ?thesis using True fin k1(1,2) by (simp add: p1_def [symmetric])
  next
    case F: False
    then have ns: "pg \<notin> ?S" using marked_test [OF tt(3)] by simp
    show ?thesis
    proof (cases "pg \<le> length D0 div ps")
      case True
      have c: "pg \<le> dbOrigSize p \<and> jfd_open p" using True og by simp
      have p1c: "conf ss ps D0 p1" "jopen ss ps D0 segs recs p1" "marked (length D0 div ps) ?S p1" using tt by (simp_all add: p1_def)
      show ?thesis
        unfolding wp_bind [where m = "upd f" for f] wp_upd p1_def [symmetric] if_not_P [OF F] if_P [OF c] wp_bind [where m = "journal_page a b" for a b]
      proof (rule journal_page_wp [OF p1c ck(1) True ck(2) ck(4) [OF True ns]], goal_cases)
        case 1
        then show ?case using ns by simp
      next
        case (2 q)
        have C: "pPCache q = AList.update pg (sqlite3PcacheMakeDirty h\<lparr>pg_need_sync := True\<rparr>) (pPCache p)"
          using 2(4) k1(3) by (simp add: set_need_sync_def p1_def)
        note jc = jcoreD [OF 2(1)]
        have "cacheok ps D0 (insert pg ?S) (insert pg ?R) (pPCache q)"
          unfolding C by (rule cacheok_update [OF tt(4) mark]) auto
        moreover have "conf ss ps D0 q = conf ss ps D0 p1" "dbst ps D0 segs q = dbst ps D0 segs p1" using jc by (simp_all add: conf_def dbst_def)
        ultimately have tq: "txn ss ps D0 segs (recs @ [(pg, pData h)]) q" using 2(2,3) p1c(1) tt(5) by (simp add: txn_def p1_def)
        have "keeps p q" "dirty q pg" using lk C jc k1(1) by (auto simp: keeps_def dirty_def pager_lookup_def update_conv)
        then show ?case using fin [OF tq] by simp
      next
        case (3 rc q)
        then show ?case using closed_rec_ok [OF 3(3), of p segs] tt(5) jcoreD(1) [OF 3(2)] jcoreD(4) [OF 3(2)] by (simp add: written_def p1_def)
      qed
    next
      case False
      have c: "\<not> (pg \<le> dbOrigSize p \<and> jfd_open p)" using False og by simp
      have "pgok ps D0 ?S ?R pg (sqlite3PcacheMakeDirty h)" using ck(7) False by (auto simp: pgok_def)
      then have t1: "txn ss ps D0 segs recs p1" unfolding p1_def by (rule txn_put [OF t])
      define q where "q = (if eState p1 \<noteq> PAGER_WRITER_DBMOD then set_need_sync pg p1 else p1)"
      have "txn ss ps D0 segs recs q" "keeps p1 q" using t1 txn_need_sync [OF t1] by (simp_all add: q_def)
      then show ?thesis
        unfolding wp_bind wp_upd p1_def [symmetric] if_not_P [OF F] if_not_P [OF c] wp_ret q_def [symmetric]
        using fin [of segs recs q] keeps_trans [OF k1(1)] keeps_dirty k1(2) by simp
    qed
  qed
qed

lemma inwrite_conf: "inwrite ss ps D0 p \<Longrightarrow> conf ss ps D0 p"
  by (auto simp: inwrite_def begun_def txn_def)

lemma pager_write_wp:
  assumes i: "inwrite ss ps D0 p" and lk: "pager_lookup p pg = Some h"
  shows "wp (pager_write pg) (written ss ps D0 p pg) p"
proof -
  have c: "\<not> errCode p \<noteq> SQLITE_OK" "\<not> readOnly p" using inwrite_conf [OF i] by (simp_all add: conf_def)
  have page: "wp (case pager_lookup q pg of
            None \<Rightarrow> ret SQLITE_MISUSE
          | Some pPg \<Rightarrow> do {
              upd (pcache_put pg (sqlite3PcacheMakeDirty pPg));
              rc \<leftarrow> (if pageInJournal q pg then ret SQLITE_OK
                     else if pg \<le> dbOrigSize q \<and> jfd_open q then journal_page pg pPg
                     else do {
                       upd (\<lambda>p. if eState p \<noteq> PAGER_WRITER_DBMOD then set_need_sync pg p else p);
                       ret SQLITE_OK });
              if rc \<noteq> SQLITE_OK then ret rc
              else do {
                upd (\<lambda>p. if dbSize p < pg then p\<lparr>dbSize := pg\<rparr> else p);
                ret SQLITE_OK } }) (written ss ps D0 p pg) q"
    if q: "txn ss ps D0 segs recs q" "pager_lookup q pg = Some h" "keeps p q" for segs recs q
    unfolding q(2) option.case
    by (rule wp_cons [OF write_page_wp [OF q(1,2)]]) (use keeps_trans [OF q(3)] in \<open>auto simp: written_def\<close>)
  show ?thesis
  proof (cases "eState p = PAGER_WRITER_LOCKED")
    case True
    then have b: "begun ss ps D0 p" using i by (auto simp: inwrite_def txn_def dbst_def PAGER_WRITER_LOCKED_def PAGER_WRITER_CACHEMOD_def PAGER_WRITER_DBMOD_def split: if_splits)
    show ?thesis
      unfolding pager_write_def wp_bind [where m = getp] wp_get if_not_P [OF c(1)] if_not_P [OF c(2)] if_P [OF True] wp_bind [where m = pager_open_journal]
    proof (rule wp_cons [OF pager_open_journal_wp [OF b]], goal_cases)
      case (1 rc q)
      show ?case
      proof (cases "rc = SQLITE_OK")
        case True
        have q: "txn ss ps D0 [] [] q" "pager_lookup q pg = Some h" using 1 True lk by (simp_all add: pager_lookup_def)
        have "keeps p q"
          using 1 True by (simp add: keeps_def pager_lookup_def)
        then show ?thesis unfolding True simp_thms if_False wp_bind [where m = getp] wp_get by (rule page [OF q])
      qed (use 1 in \<open>simp add: written_def\<close>)
    qed
  next
    case False
    then obtain segs recs where t: "txn ss ps D0 segs recs p" using i by (auto simp: inwrite_def begun_def)
    show ?thesis
      unfolding pager_write_def wp_bind [where m = getp] wp_get if_not_P [OF c(1)] if_not_P [OF c(2)] if_not_P [OF False] wp_bind [where m = "ret x" for x] wp_ret simp_thms if_False
      by (rule page [OF t lk]) simp
  qed
qed

section \<open>Pages that share a sector\<close>

lemma inwrite_get:
  assumes i: "inwrite ss ps D0 p" and sz: "pg \<le> length D0 div ps \<longrightarrow> pg \<le> dbSize p"
  shows "wp (sqlite3PagerGet pg) (\<lambda>rc q. inwrite ss ps D0 q \<and> keeps p q \<and> (rc = SQLITE_OK \<longrightarrow> pager_lookup q pg \<noteq> None)) p"
proof (cases "begun ss ps D0 p")
  case True
  have c: "conf ss ps D0 p" "cacheok ps D0 {} {} (pPCache p)" "dbok ps (length D0 div ps) D0 {} (dbf p)"
    using True conf_len [OF inwrite_conf [OF i]] by (auto simp: begun_def dbok_def)
  have b: "begun ss ps D0 q" if "got ps D0 {} {} p q" for q
    using that True gcoreD [of q p] by (simp add: got_def begun_def)
  show ?thesis by (rule wp_cons [OF sqlite3PagerGet_wp [OF c sz]]) (use b keeps_got in \<open>auto simp: inwrite_def\<close>)
next
  case False
  then obtain segs recs where t: "txn ss ps D0 segs recs p" using i by (auto simp: inwrite_def)
  let ?S = "seg_pages segs \<union> fst ` set recs" and ?R = "fst ` set recs"
  have c: "conf ss ps D0 p" "cacheok ps D0 ?S ?R (pPCache p)" "dbok ps (length D0 div ps) D0 ?S (dbf p)"
    using t by (auto simp: txn_def dbst_def intro: dbok_mono)
  have b: "inwrite ss ps D0 q" if g: "got ps D0 ?S ?R p q" for q
  proof -
    have "txn ss ps D0 segs recs q" using g t gcoreD [of q p] by (simp add: got_def txn_def)
    then show ?thesis by (auto simp: inwrite_def)
  qed
  show ?thesis by (rule wp_cons [OF sqlite3PagerGet_wp [OF c sz]]) (use b keeps_got in auto)
qed

lemma inwrite_need_sync: "inwrite ss ps D0 p \<Longrightarrow> inwrite ss ps D0 (set_need_sync pg p) \<and> keeps p (set_need_sync pg p)"
proof -
  assume i: "inwrite ss ps D0 p"
  have k: "keeps p (set_need_sync pg p)" by (auto simp: set_need_sync_def intro!: keeps_put split: option.split)
  have "begun ss ps D0 (set_need_sync pg p)" if b: "begun ss ps D0 p"
  proof (cases "pager_lookup p pg")
    case (Some h)
    have c: "cacheok ps D0 {} {} (pPCache p)" using b by (simp add: begun_def)
    have "pgok ps D0 {} {} pg (h\<lparr>pg_need_sync := True\<rparr>)" using cacheokD(7) [OF c Some [unfolded pager_lookup_def]] by (simp add: pgok_def)
    then have "cacheok ps D0 {} {} (AList.update pg (h\<lparr>pg_need_sync := True\<rparr>) (pPCache p))" by (rule cacheok_update [OF c]) simp_all
    then show ?thesis using b Some by (simp add: set_need_sync_def begun_def) (simp add: pcache_put_def dirty_def pager_lookup_def update_conv)
  qed (use b in \<open>simp add: set_need_sync_def\<close>)
  then show ?thesis using i k txn_need_sync(1) unfolding inwrite_def by blast
qed

lemma inwrite_fold_need_sync: "inwrite ss ps D0 p \<Longrightarrow> inwrite ss ps D0 (fold set_need_sync pgs p) \<and> keeps p (fold set_need_sync pgs p)"
proof (induction pgs arbitrary: p)
  case (Cons pg pgs)
  show ?case using Cons.IH [of "set_need_sync pg p"] inwrite_need_sync [OF Cons.prems, of pg] keeps_trans [of p "set_need_sync pg p"] by simp
qed simp

lemma write_sector_wp:
  assumes "inwrite ss ps D0 p" and "\<forall>pg\<in>set pgs. pg \<le> length D0 div ps \<longrightarrow> pg \<le> dbSize p"
  shows "wp (write_sector pgno pgs ns) (\<lambda>(rc, ns) q. rec_ok ss ps D0 q \<and>
    (rc = SQLITE_OK \<longrightarrow> inwrite ss ps D0 q \<and> keeps p q \<and> (pgno \<in> set pgs \<and> pgno \<noteq> PENDING_BYTE div ps + 1 \<longrightarrow> dirty q pgno))) p"
  using assms
proof (induction pgs arbitrary: p ns)
  case Nil
  then show ?case using inwrite_rec_ok by simp
next
  case (Cons pg pgs)
  have mj: "PAGER_MJ_PGNO p = PENDING_BYTE div ps + 1" using inwrite_conf [OF Cons.prems(1)] by (simp add: PAGER_MJ_PGNO_def conf_def)
  have rest: "wp (write_sector pgno pgs ns) (\<lambda>(rc, ns) q'. rec_ok ss ps D0 q' \<and>
      (rc = SQLITE_OK \<longrightarrow> inwrite ss ps D0 q' \<and> keeps p q' \<and> (pgno \<in> set (pg # pgs) \<and> pgno \<noteq> PENDING_BYTE div ps + 1 \<longrightarrow> dirty q' pgno))) q"
    if q: "inwrite ss ps D0 q" "keeps p q" "pgno = pg \<and> pgno \<noteq> PENDING_BYTE div ps + 1 \<longrightarrow> dirty q pgno" for q ns
  proof -
    have "\<forall>pg\<in>set pgs. pg \<le> length D0 div ps \<longrightarrow> pg \<le> dbSize q" using Cons.prems(2) q(2) by (force simp: keeps_def)
    then show ?thesis by (rule wp_cons [OF Cons.IH [OF q(1)]]) (use q(2,3) keeps_trans keeps_dirty in \<open>auto 4 4\<close>)
  qed
  show ?case
  proof (cases "(pg = pgno \<or> \<not> pageInJournal p pg) \<and> pg \<noteq> PAGER_MJ_PGNO p")
    case False
    then have d: "pgno = pg \<and> pgno \<noteq> PENDING_BYTE div ps + 1 \<longrightarrow> dirty p pgno" using mj by auto
    show ?thesis
      using rest [OF Cons.prems(1) keeps_refl d] False by auto
  next
    case True
    have sz: "pg \<le> length D0 div ps \<longrightarrow> pg \<le> dbSize p" using Cons.prems(2) by simp
    have wr: "wp (pager_write pg) (\<lambda>rc. wp (do { p \<leftarrow> getp; if rc \<noteq> SQLITE_OK then ret (rc, ns) else write_sector pgno pgs (ns \<or> need_sync p pg) })
        (\<lambda>(rc, ns) q'. rec_ok ss ps D0 q' \<and>
      (rc = SQLITE_OK \<longrightarrow> inwrite ss ps D0 q' \<and> keeps p q' \<and> (pgno \<in> set (pg # pgs) \<and> pgno \<noteq> PENDING_BYTE div ps + 1 \<longrightarrow> dirty q' pgno)))) q"
      if q: "inwrite ss ps D0 q" "keeps p q" "pager_lookup q pg = Some h" for q h
    proof (rule wp_cons [OF pager_write_wp [OF q(1,3)]], goal_cases)
      case (1 rc q')
      show ?case
      proof (cases "rc = SQLITE_OK")
        case True
        have "inwrite ss ps D0 q'" "keeps p q'" "dirty q' pg" using 1 True keeps_trans [OF q(2)] by (auto simp: written_def inwrite_def)
        then show ?thesis using rest [of q'] True by auto
      qed (use 1 in \<open>simp add: written_def\<close>)
    qed
    have c: "(pg = pgno \<or> \<not> pageInJournal p pg)" "pg \<noteq> PAGER_MJ_PGNO p" using True by simp_all
    show ?thesis
      unfolding write_sector.simps wp_bind [where m = getp] wp_get if_P [OF c(1)] if_P [OF c(2)] wp_bind [where m = "sqlite3PagerGet x" for x]
    proof (rule wp_cons [OF inwrite_get [OF Cons.prems(1) sz]], goal_cases)
      case (1 rc q)
      show ?case
      proof (cases "rc = SQLITE_OK")
        case True
        then obtain h where "pager_lookup q pg = Some h" using 1 by auto
        then show ?thesis unfolding True simp_thms if_False wp_bind [where m = "pager_write x" for x] using wr [of q h] 1 by simp
      qed (use 1 inwrite_rec_ok in auto)
    qed
  qed
qed

text \<open>The first page of the sector of a page, and the pages of the sector that are written.\<close>

lemma sector_first:
  fixes k pgno :: nat
  assumes "1 \<le> pgno" "pgno \<le> PAGER_MAX_PGNO" and "0 < k" "k < 2 ^ 32"
  defines "pg1 \<equiv> unat ((of_nat (pgno - 1) :: u32) AND NOT (of_nat (k - 1))) + 1"
  shows "pg1 \<le> pgno" "pgno < pg1 + k"
proof -
  define w where "w = (of_nat (pgno - 1) :: u32)"
  define m where "m = (of_nat (k - 1) :: u32)"
  have w: "unat w = pgno - 1" unfolding w_def by (rule unat_pgno) (use assms(2) in \<open>simp add: PAGER_MAX_PGNO_def\<close>)
  have m: "unat m = k - 1" unfolding m_def by (rule unat_pgno) (use assms(4) in simp)
  have "(w AND m) AND (w AND NOT m) = 0" by (rule bit_eqI) (auto simp: bit_simps)
  then have "(w AND m) + (w AND NOT m) = (w AND m) OR (w AND NOT m)" by (rule disjunctive_add_eq_or)
  also have "\<dots> = w" by (rule bit_eqI) (auto simp: bit_simps)
  finally have s: "(w AND m) + (w AND NOT m) = w" .
  have l: "w AND NOT m \<le> w" by (rule word_and_le2)
  have "unat w = unat (w AND m) + unat (w AND NOT m)"
    using s l unat_plus_simple [of "w AND m" "w AND NOT m"] by (metis add.commute word_le_nat_alt unat_plus_simple)
  moreover have "unat (w AND m) \<le> unat m" using word_and_le1 [of w m] by (simp add: word_le_nat_alt)
  moreover have "pg1 = unat (w AND NOT m) + 1" by (simp only: pg1_def w_def m_def)
  ultimately show "pg1 \<le> pgno" "pgno < pg1 + k" using w m assms(1,3) by linarith+
qed

lemma inwrite_flag [simp]: "inwrite ss ps D0 (p\<lparr>doNotSyncSpill := b\<rparr>) = inwrite ss ps D0 p"
  "keeps p (q\<lparr>doNotSyncSpill := b\<rparr>) = keeps p q" "keeps (p\<lparr>doNotSyncSpill := b\<rparr>) q = keeps p q" "dirty (q\<lparr>doNotSyncSpill := b\<rparr>) pg = dirty q pg"
  "jfile (p\<lparr>doNotSyncSpill := b\<rparr>) = jfile p"
  by (simp_all add: inwrite_def begun_def txn_def conf_def jopen_def marked_def dbst_def keeps_def dirty_def pager_lookup_def jfile_def)

lemma sqlite3PagerWrite_wp:
  assumes i: "inwrite ss ps D0 p" and lk: "pager_lookup p pgno = Some h" and sz: "length D0 div ps \<le> dbSize p \<or> pgno \<le> dbSize p"
  shows "wp (sqlite3PagerWrite pgno) (\<lambda>rc q. rec_ok ss ps D0 q \<and> (rc = SQLITE_OK \<longrightarrow> inwrite ss ps D0 q \<and> keeps p q \<and> dirty q pgno)) p" (is "wp _ ?Q p")
proof -
  have c: "conf ss ps D0 p" by (rule inwrite_conf [OF i])
  have cf: "sectorSize p = ss" "pageSize p = ps" using c by (simp_all add: conf_def)
  obtain S R where k: "cacheok ps D0 S R (pPCache p)" using i by (auto simp: inwrite_def begun_def txn_def)
  note ck = cacheokD(1,8,2) [OF k lk [unfolded pager_lookup_def]]
  show ?thesis
  proof (cases "sectorSize p div pageSize p > 1")
    case False
    then show ?thesis unfolding sqlite3PagerWrite_def wp_bind [where m = getp] wp_get Let_def if_not_P [OF False]
      by (intro wp_cons [OF pager_write_wp [OF i lk]]) (auto simp: written_def inwrite_def)
  next
    case True
    define k where "k = ss div ps"
    have "k \<le> ss" "ss \<le> 65536" using c by (simp_all add: k_def conf_def geometry_def MAX_SECTOR_SIZE_def)
    then have "k \<le> 65536" by (rule le_trans)
    then have k: "0 < k" "k < 2 ^ 32" using True [unfolded cf, folded k_def] by simp_all
    define pg1 where "pg1 = unat ((of_nat (pgno - 1) :: u32) AND NOT (of_nat (k - 1))) + 1"
    note s1 = sector_first [OF ck(1,2) k, folded pg1_def]
    define n where "n = (if pgno > dbSize p then pgno - pg1 + 1 else if pg1 + k - 1 > dbSize p then dbSize p + 1 - pg1 else k)"
    have mem: "pgno \<in> set [pg1..<pg1 + n]" using s1 by (auto simp: n_def)
    have pgs: "\<forall>pg\<in>set [pg1..<pg1 + n]. pg \<le> length D0 div ps \<longrightarrow> pg \<le> dbSize (p\<lparr>doNotSyncSpill := True\<rparr>)"
      using s1 sz by (auto simp: n_def split: if_splits)
    have i': "inwrite ss ps D0 (p\<lparr>doNotSyncSpill := True\<rparr>)" using i by simp
    show ?thesis
      unfolding sqlite3PagerWrite_def wp_bind wp_get Let_def cf k_def [symmetric] if_P [OF True [unfolded cf, folded k_def]] wp_upd pg1_def [symmetric] n_def [symmetric]
    proof (rule wp_cons [OF write_sector_wp [OF i' pgs]], goal_cases)
      case (1 x q)
      obtain rc ns where x: "x = (rc, ns)" by (cases x)
      show ?case
      proof (cases "rc = SQLITE_OK")
        case True
        have q: "inwrite ss ps D0 q" "keeps p q" "dirty q pgno" using 1 True mem ck(3) by (simp_all add: x)
        define q1 where "q1 = (if rc = SQLITE_OK \<and> ns then fold set_need_sync [pg1..<pg1 + n] q else q)"
        have q1: "inwrite ss ps D0 q1" "keeps q q1" using q(1) inwrite_fold_need_sync [OF q(1)] by (simp_all add: q1_def)
        have "?Q rc (q1\<lparr>doNotSyncSpill := False\<rparr>)" using q1 keeps_trans [OF q(2) q1(2)] keeps_dirty [OF q1(2) q(3)] inwrite_rec_ok by simp
        then show ?thesis by (simp add: x q1_def)
      qed (use 1 in \<open>simp add: x\<close>)
    qed
  qed
qed

end
