(* ===== verification/Pager_Atomic.thy ===== *)
theory Pager_Atomic
  imports Pager_Commit
begin

text \<open>
  The first phase of a commit and the whole transaction, from \<open>sqlite3PagerBegin\<close> to the second phase, in which the
  journal is finalised.
\<close>

section \<open>The first phase of the commit\<close>


















section \<open>Write transactions\<close>




















section \<open>A run\<close>


definition one_bit :: bitvec where "one_bit = Bitvec 1 0 0 (aBitmap ((replicate BITVEC_NELEM 0)[0 := 1]))"

lemma set_one_bit: "bv_set0 BITVEC_DEPTH orc k (bitvec_zero (Suc 0)) 0 = Some (SQLITE_OK, one_bit, k)"
proof -
  have d: "BITVEC_DEPTH = Suc 9" by (simp add: BITVEC_DEPTH_def)
  show ?thesis unfolding d bitvec_zero_def bv_set0.simps by (simp add: one_bit_def BITVEC_NBIT_def BITVEC_NELEM_def BITVEC_SZELEM_def rd_def)
qed

lemma one_bit [simp]:
  "sqlite3BitvecTest (Some (bitvec_zero (Suc 0))) (Suc 0) = Some False"
  "sqlite3BitvecSet orc k (Some (bitvec_zero (Suc 0))) (Suc 0) = Some (SQLITE_OK, Some one_bit, k)"
  "sqlite3BitvecTest (Some one_bit) (Suc 0) = Some True"
  by (simp_all add: sqlite3BitvecTest_def sqlite3BitvecSet_def set_one_bit) (simp_all add: bitvec_zero_def one_bit_def BITVEC_NBIT_def BITVEC_NELEM_def BITVEC_SZELEM_def rd_def bv_test0.simps)





end
