(* ===== verification/Spec2Isabelle.thy ===== *)
theory Spec2Isabelle
  imports Varint Bitvec Rowset Hash Utf Btree_Page Record_Format Unix_Lock Os_Vms Pager_Atomic
begin

text \<open>
  SQLite 3.7.17 in its OpenVMS port: a verification library for the parts of the engine that carry
  its file format, its data structures and its protocol with the operating system.

  \<^bold>\<open>The program.\<close> SQL text is compiled to bytecode (parse.c, select.c, where.c, \<dots>), which the virtual machine
  (vdbe.c) runs. Rows travel as records (vdbeaux.c, vdbemem.c) built from variable-length integers (util.c) and text
  (utf.c); the b-tree layer (btree.c) stores them in cells on pages; the pager (pager.c) reads and writes pages, records the
  original pages in a journal, with a bitmap of the pages it has recorded (bitvec.c), and locks the
  file; the VFS (os_unix.c, os_vms.c) does the input and output. Symbol tables are hash tables (hash.c) over names
  that ignore case (util.c, global.c); sets of rowids (rowset.c) serve the query plans.

  \<^bold>\<open>The theories.\<close>
  \<^item> \<open>Sqlite_Prelude\<close>: machine integers, result codes, lock levels, checked buffers, and lemmas on words.
  \<^item> \<open>Varint\<close> (util.c): \<open>sqlite3PutVarint\<close>, \<open>sqlite3GetVarint\<close> with its unrolled cases, \<open>sqlite3GetVarint32\<close>,
    \<open>sqlite3VarintLen\<close>. The readers compute the file-format definition on every buffer; writing and reading are inverse.
  \<^item> \<open>Char_Tables\<close>, \<open>Text_Util\<close>, \<open>Int_Util\<close> (global.c, util.c): character classes, comparison and dequoting of strings,
    64-bit arithmetic with overflow detection, decimal and hexadecimal conversion.
  \<^item> \<open>Utf\<close> (utf.c): readers and writers of UTF-8 and UTF-16, \<open>sqlite3VdbeMemTranslate\<close>, byte-order marks. Translation
    is exact on valid text and stays inside its buffers on all input.
  \<^item> \<open>Bitvec\<close> (bitvec.c): the three representations with the changes between them and allocation failures. The locale
    \<open>page_set\<close> is the contract the pager relies on; its interpretation gives the refinement to finite sets.
  \<^item> \<open>Rowset\<close> (rowset.c and \<open>OP_RowSetTest\<close>): insertion, merge sort in forty buckets, the forest of balanced trees.
  \<^item> \<open>Hash\<close> (hash.c): insertion, lookup, rehashing and removal, with allocation failures, as updates of a finite map.
  \<^item> \<open>Btree_Cell\<close> and \<open>Btree_Page\<close> (btree.c): page limits, cell parsing and construction with overflow chains, the
    free-block list, allocation, freeing, defragmentation, page initialisation, insertion and deletion of cells. A cell
    that is written is read back; a page implements the list of its cells through any history.
  \<^item> \<open>Record_Format\<close> (vdbeaux.c, vdbemem.c, \<open>OP_MakeRecord\<close>): serial types, writing, unpacking and comparing records.
  \<^item> \<open>Unix_Lock\<close> (os_unix.c): an operation is a tree of system calls, and processes interleave between calls in the
    step relation \<open>world_step\<close>; mutual exclusion is an invariant of all reachable states, whatever calls fail.
  \<^item> \<open>Os_Vms\<close> (os_vms.c): reads, writes and extension of files over 512-byte blocks. The system services are
    parameters, with their documented behaviour as hypotheses (\<open>reads_ok\<close>, \<open>writes_ok\<close>: an extension may fail, or
    allocate more than was asked for), which a concrete volume meets. Block numbers and sizes are 32-bit words, as in the code;
    the theorems are for requests that end below block \<open>2^31\<close>.
  \<^item> \<open>Pager\<close> (pager.c, pcache.c): the rollback-journal pager as functions in a state monad over the record \<open>pager\<close>, which
    holds the pager's fields, its page cache, the database file and the journal file. Every call to the VFS can fail,
    by an oracle; a failed write stores a prefix of its data up to a 512-byte boundary.
  \<^item> \<open>Pager_Recovery\<close>: a calculus of weakest preconditions (\<open>wp\<close>) and the predicate \<open>recoverable\<close> on a database
    file and a journal that together determine an original database; playback restores it. \<open>Pager_Loop\<close>: the loop over the journal
    headers ends, and its fuel, the size of the journal and one, is enough. \<open>Pager_Hot\<close>: \<open>sqlite3PagerSharedLock\<close>
    finds a hot journal and restores the original database.
  \<^item> \<open>Pager_Txn\<close>, \<open>Pager_Commit\<close>, \<open>Pager_Atomic\<close>: the invariant \<open>txn\<close> of a write transaction, that journalling
    a page, syncing the journal, spilling and writing pages keep it, and that a transaction can be rolled back
    wherever it stops before its second phase.

  \<^bold>\<open>Conventions.\<close> Reading or writing outside a buffer is \<open>None\<close>, so a result \<open>Some\<close> also says that no access was out of
  bounds. Allocation failures come from an oracle. Loops are total functions with termination proofs; where a
  recursion takes fuel (\<open>BITVEC_DEPTH\<close> for the nesting of bitmaps, the length of the input for scanning loops) a lemma
  shows that it is enough for every input the code accepts.

  \<^bold>\<open>Limits of the models.\<close> In the pager, writes reach the disk in the order of the calls and a sync has no effect, so that a
  loss of power with reordered writes is outside the model; page counts are natural numbers, exact below \<open>2^32\<close> pages;
  savepoints, the codec, memory mapping, backups, opening and closing, and moving pages are left out, and the
  theorems are for journals without the name of a master journal. In the lock protocol no file is opened with
  the unix-excl VFS, and descriptors kept for reuse are not reused. In the record format the allocation inside
  \<open>sqlite3VdbeMemExpandBlob\<close> succeeds. Sizes of values are natural numbers, which do not wrap below \<open>SQLITE_MAX_LENGTH\<close>.

  \<^bold>\<open>Not modelled.\<close> The SQL compiler and the bytecode interpreter, because their correctness is relative to a semantics of SQL
  the repository does not have; balancing, cursors and the free page list of btree.c;
  the write-ahead log, which the OpenVMS build omits; full-text search, r-tree and ICU; floating-point conversion and
  formatting; memory allocators, mutexes and the other operating-system glue; the command-line shells.
\<close>

end
